(* ===== verification/Prelude.thy ===== *)
theory Prelude
  imports Main "HOL-Library.Word" "HOL-Library.AList" "HOL-Library.Multiset"
    "HOL-Library.List_Lexorder" "HOL-Library.Char_ord"
begin

text \<open>
  Shared vocabulary of the development: machine integers, Go maps, results of fallible
  calls, and the generic facts on lists, association lists and 64-bit words that the
  component theories use.

  A Go map is an association list with distinct keys.  Lookup of an absent key gives the
  zero value of the element type, as \<open>m[k]\<close> does in Go (\<open>mget\<close>).  Go iterates a map in
  an unspecified order; the model iterates in list order, and the component theories
  prove their loops independent of it where the order is visible.
\<close>

section \<open>Types\<close>

type_synonym u64 = "64 word"

type_synonym ('k, 'v) gomap = "('k \<times> 'v) list"

abbreviation max_uint64 :: u64 where
  "max_uint64 \<equiv> - 1"

named_theorems wf_intros \<open>preservation facts of the well-formedness predicates\<close>
named_theorems res_simps \<open>unfolding of the result combinators\<close>

section \<open>Go maps\<close>

definition mwf :: "('k, 'v) gomap \<Rightarrow> bool" where
  "mwf m \<longleftrightarrow> distinct (map fst m)"

definition mget :: "'v \<Rightarrow> ('k, 'v) gomap \<Rightarrow> 'k \<Rightarrow> 'v" where
  "mget z m k = (case map_of m k of None \<Rightarrow> z | Some v \<Rightarrow> v)"

definition mput :: "'k \<Rightarrow> 'v \<Rightarrow> ('k, 'v) gomap \<Rightarrow> ('k, 'v) gomap" where
  "mput k v m = AList.update k v m"

definition mdel :: "'k \<Rightarrow> ('k, 'v) gomap \<Rightarrow> ('k, 'v) gomap" where
  "mdel k m = AList.delete k m"

definition mhas :: "('k, 'v) gomap \<Rightarrow> 'k \<Rightarrow> bool" where
  "mhas m k \<longleftrightarrow> (case map_of m k of None \<Rightarrow> False | Some _ \<Rightarrow> True)"

lemma mwf_Nil [simp, wf_intros]: "mwf []"
  by (simp add: mwf_def)

lemma mwf_mput [simp, wf_intros]: "mwf m \<Longrightarrow> mwf (mput k v m)"
  by (simp add: mwf_def mput_def distinct_update)

lemma mwf_mdel [simp, wf_intros]: "mwf m \<Longrightarrow> mwf (mdel k m)"
  by (simp add: mwf_def mdel_def distinct_delete)

lemma mwf_filter [simp, wf_intros]: "mwf m \<Longrightarrow> mwf (filter P m)"
  by (induction m) (auto simp: mwf_def)

lemma map_of_mput [simp]: "map_of (mput k v m) = (map_of m)(k \<mapsto> v)"
  by (simp add: mput_def update_conv')

lemma map_of_mdel [simp]: "map_of (mdel k m) = (map_of m)(k := None)"
  by (simp add: mdel_def delete_conv')

lemma mget_Nil [simp]: "mget z [] k = z"
  by (simp add: mget_def)

lemma mget_Cons [simp]: "mget z ((a, b) # m) k = (if k = a then b else mget z m k)"
  by (simp add: mget_def)

lemma mget_mput [simp]: "mget z (mput k v m) k' = (if k' = k then v else mget z m k')"
  by (simp add: mget_def)

lemma mget_mdel [simp]: "mget z (mdel k m) k' = (if k' = k then z else mget z m k')"
  by (simp add: mget_def)

lemma mhas_Nil [simp]: "\<not> mhas [] k"
  by (simp add: mhas_def)

lemma mhas_iff: "mhas m k \<longleftrightarrow> k \<in> fst ` set m"
  by (auto simp: mhas_def map_of_eq_None_iff split: option.split)
    (metis domI dom_map_of_conv_image_fst imageE)+

lemma mhas_mput [simp]: "mhas (mput k v m) k' \<longleftrightarrow> k' = k \<or> mhas m k'"
  by (simp add: mhas_def)

lemma mget_absent: "\<not> mhas m k \<Longrightarrow> mget z m k = z"
  by (simp add: mhas_def mget_def split: option.splits)

lemma mget_mem: "mwf m \<Longrightarrow> (k, v) \<in> set m \<Longrightarrow> mget z m k = v"
  by (simp add: mwf_def mget_def map_of_is_SomeI)

lemma keys_mput [simp]: "fst ` set (mput k v m) = insert k (fst ` set m)"
  by (simp add: mput_def dom_update)

lemma mput_fresh: "k \<notin> fst ` set m \<Longrightarrow> mput k v m = m @ [(k, v)]"
  by (induction m) (auto simp: mput_def)

lemma length_mput:
  "length (mput k v m) = (if k \<in> fst ` set m then length m else Suc (length m))"
  by (induction m) (auto simp: mput_def)

lemma length_mdel_present:
  "mwf m \<Longrightarrow> k \<in> fst ` set m \<Longrightarrow> Suc (length (mdel k m)) = length m"
proof (induction m)
  case (Cons p m)
  obtain a b where p: "p = (a, b)" by (cases p)
  show ?case
  proof (cases "k = a")
    case True
    with Cons.prems p have "k \<notin> fst ` set m" by (auto simp: mwf_def)
    with True p show ?thesis by (simp add: mdel_def)
  next
    case False
    with Cons p show ?thesis by (auto simp: mwf_def mdel_def)
  qed
qed simp

lemma set_mput:
  "mwf m \<Longrightarrow> set (mput k v m) = insert (k, v) {p \<in> set m. fst p \<noteq> k}"
  by (induction m) (auto simp: mput_def mwf_def intro: rev_image_eqI)

lemma set_mdel: "set (mdel k m) = {p \<in> set m. fst p \<noteq> k}"
  by (auto simp: mdel_def AList.delete_eq)

lemma map_of_eq_perm:
  "mwf m \<Longrightarrow> mset m = mset m' \<Longrightarrow> map_of m = map_of m'"
  by (metis map_of_inject_set mset_eq_setD mset_map mwf_def mset_eq_imp_distinct_iff)

section \<open>Sorting by key\<close>

text \<open>\<open>sort.Strings\<close> over keys, and \<open>encoding/json\<close>'s rendering of a map in key order.\<close>

definition sorted_items :: "(string, 'v) gomap \<Rightarrow> (string \<times> 'v) list" where
  "sorted_items m = map (\<lambda>k. (k, the (map_of m k))) (sort (map fst m))"

lemma map_fst_sorted_items [simp]: "map fst (sorted_items m) = sort (map fst m)"
  by (simp add: sorted_items_def comp_def)

lemma mwf_sorted_items [simp, wf_intros]: "mwf m \<Longrightarrow> mwf (sorted_items m)"
  by (simp add: mwf_def)

lemma map_of_sorted_items: "map_of (sorted_items m) = map_of m"
proof
  fix k
  have "map_of (map (\<lambda>k. (k, the (map_of m k))) ks) k
      = (if k \<in> set ks then Some (the (map_of m k)) else None)" for ks
    by (induction ks) auto
  then have "map_of (sorted_items m) k
      = (if k \<in> fst ` set m then Some (the (map_of m k)) else None)"
    by (simp add: sorted_items_def)
  then show "map_of (sorted_items m) k = map_of m k"
    by (cases "map_of m k")
      (auto simp: map_of_eq_None_iff [THEN iffD1] dest: map_of_SomeD intro: rev_image_eqI)
qed

lemma set_sorted_items: "mwf m \<Longrightarrow> set (sorted_items m) = set m"
proof -
  assume m: "mwf m"
  have "x \<in> set (sorted_items m) \<longleftrightarrow> x \<in> set m" for x
    using m mwf_sorted_items [OF m] map_of_sorted_items [of m]
    by (cases x) (metis map_of_eq_Some_iff mwf_def)
  then show ?thesis by blast
qed

lemma sorted_items_cong:
  assumes "mwf m" "mwf m'" "map_of m = map_of m'"
  shows "sorted_items m = sorted_items m'"
proof -
  have "set (map fst m) = set (map fst m')"
    using assms(3) by (metis dom_map_of_conv_image_fst set_map)
  with assms(1,2) have "mset (map fst m) = mset (map fst m')"
    unfolding mwf_def using set_eq_iff_mset_eq_distinct by blast
  then have "sort (map fst m) = sort (map fst m')"
    by (metis properties_for_sort sorted_sort mset_sort)
  with assms(3) show ?thesis by (simp add: sorted_items_def)
qed

section \<open>Words\<close>

lemma word_max_minus_lt: "(max_uint64 - a < b) = (2 ^ 64 \<le> unat a + unat b)" for a b :: u64
proof -
  have "unat (max_uint64 - a) = unat max_uint64 - unat a"
    by (rule unat_sub) simp
  moreover have "unat max_uint64 = 2 ^ 64 - 1"
    by (simp only: unsigned_minus_1_eq_mask mask_eq_exp_minus_1) simp
  moreover have "unat a < 2 ^ 64"
    using unsigned_less [of a] by simp
  ultimately show ?thesis
    by (simp add: word_less_nat_alt) linarith
qed

lemma unat_add_no_wrap: "unat a + unat b < 2 ^ 64 \<Longrightarrow> unat (a + b) = unat a + unat b"
  for a b :: u64
  by (simp add: unat_word_ariths)

lemma unat_Suc_no_wrap: "a \<noteq> max_uint64 \<Longrightarrow> unat (a + 1) = Suc (unat a)" for a :: u64
  by (metis add.commute add_eq_0_iff unatSuc)

lemma word_le_add1: "a \<noteq> max_uint64 \<Longrightarrow> a < a + 1" for a :: u64
  by (simp add: word_less_nat_alt unat_Suc_no_wrap)

section \<open>Results of fallible calls\<close>

definition ok :: "'e + 'a \<Rightarrow> bool" where
  "ok r \<longleftrightarrow> (case r of Inl _ \<Rightarrow> False | Inr _ \<Rightarrow> True)"

lemma ok_simps [simp, res_simps]: "ok (Inr a)" "\<not> ok (Inl e)"
  by (simp_all add: ok_def)

end
