(* ===== verification/GoStd.thy ===== *)
theory GoStd
  imports Prelude
begin

text \<open>
  The parts of Go's standard library the program's own logic computes with, over byte
  strings: \<open>strings.TrimSpace\<close>, decimal printing and reading (\<open>strconv.FormatUint\<close>,
  \<open>strconv.ParseUint\<close>, \<open>strconv.Atoi\<close>), \<open>net.SplitHostPort\<close> and \<open>net.JoinHostPort\<close>.
  A call that returns an error in Go is \<open>None\<close> here; the program never inspects which error
  these calls return.
\<close>

section \<open>strings.TrimSpace\<close>

text \<open>The UTF-8 encodings of the runes \<open>unicode.IsSpace\<close> accepts.\<close>

definition space_runes :: "string list" where
  "space_runes =
     [[CHR 0x09], [CHR 0x0A], [CHR 0x0B], [CHR 0x0C], [CHR 0x0D], [CHR 0x20],
      [CHR 0xC2, CHR 0x85], [CHR 0xC2, CHR 0xA0], [CHR 0xE1, CHR 0x9A, CHR 0x80],
      [CHR 0xE2, CHR 0x80, CHR 0x80], [CHR 0xE2, CHR 0x80, CHR 0x81],
      [CHR 0xE2, CHR 0x80, CHR 0x82], [CHR 0xE2, CHR 0x80, CHR 0x83],
      [CHR 0xE2, CHR 0x80, CHR 0x84], [CHR 0xE2, CHR 0x80, CHR 0x85],
      [CHR 0xE2, CHR 0x80, CHR 0x86], [CHR 0xE2, CHR 0x80, CHR 0x87],
      [CHR 0xE2, CHR 0x80, CHR 0x88], [CHR 0xE2, CHR 0x80, CHR 0x89],
      [CHR 0xE2, CHR 0x80, CHR 0x8A], [CHR 0xE2, CHR 0x80, CHR 0xA8],
      [CHR 0xE2, CHR 0x80, CHR 0xA9], [CHR 0xE2, CHR 0x80, CHR 0xAF],
      [CHR 0xE2, CHR 0x81, CHR 0x9F], [CHR 0xE3, CHR 0x80, CHR 0x80]]"

definition is_prefix :: "string \<Rightarrow> string \<Rightarrow> bool" where
  "is_prefix p s \<longleftrightarrow> p \<noteq> [] \<and> take (length p) s = p"

function trim_left :: "string list \<Rightarrow> string \<Rightarrow> string" where
  "trim_left pats s =
     (case find (\<lambda>p. is_prefix p s) pats of
        None \<Rightarrow> s
      | Some p \<Rightarrow> trim_left pats (drop (length p) s))"
  by pat_completeness auto
termination
proof (relation "measure (\<lambda>(pats, s). length s)", goal_cases)
  case (2 pats s p)
  then have "p \<noteq> []" and "take (length p) s = p"
    by (auto simp: find_Some_iff is_prefix_def)
  then have "length p \<le> length s" and "0 < length p"
    by (metis length_take min.cobounded1, simp)
  then have "length (drop (length p) s) < length s" unfolding length_drop by linarith
  then show ?case by simp
qed simp

declare trim_left.simps [simp del]

definition TrimSpace :: "string \<Rightarrow> string" where
  "TrimSpace s = rev (trim_left (map rev space_runes) (rev (trim_left space_runes s)))"

section \<open>Decimal numbers\<close>

definition is_digit :: "char \<Rightarrow> bool" where
  "is_digit c \<longleftrightarrow> 48 \<le> (of_char c :: int) \<and> (of_char c :: int) \<le> 57"

definition digit_val :: "char \<Rightarrow> int" where
  "digit_val c = of_char c - 48"

definition digit_char :: "int \<Rightarrow> char" where
  "digit_char d = char_of (48 + d)"

text \<open>The decimal digits of a non-negative integer.\<close>

function show_dec :: "int \<Rightarrow> string" where
  "show_dec n = (if n < 10 then [digit_char n] else show_dec (n div 10) @ [digit_char (n mod 10)])"
  by pat_completeness auto
termination
  by (relation "measure nat") auto

declare show_dec.simps [simp del]

definition digits_val :: "string \<Rightarrow> int" where
  "digits_val s = foldl (\<lambda>a c. 10 * a + digit_val c) 0 s"

definition parse_dec :: "string \<Rightarrow> int option" where
  "parse_dec s = (if s \<noteq> [] \<and> list_all is_digit s then Some (digits_val s) else None)"

text \<open>\<open>strconv.ParseUint(s, 10, 64)\<close>: digits only, in range.\<close>

definition ParseUint64 :: "string \<Rightarrow> u64 option" where
  "ParseUint64 s =
     (case parse_dec s of
        None \<Rightarrow> None
      | Some n \<Rightarrow> if n < 2 ^ 64 then Some (of_int n) else None)"

text \<open>\<open>strconv.Atoi\<close>, which is also \<open>strconv.ParseInt(s, 10, 64)\<close>: an optional sign, then digits.\<close>

definition Atoi :: "string \<Rightarrow> int option" where
  "Atoi s =
     (if take 1 s = ''-'' then
        (case parse_dec (drop 1 s) of None \<Rightarrow> None
         | Some n \<Rightarrow> if n \<le> 2 ^ 63 then Some (- n) else None)
      else
        (case parse_dec (if take 1 s = ''+'' then drop 1 s else s) of None \<Rightarrow> None
         | Some n \<Rightarrow> if n < 2 ^ 63 then Some n else None))"

definition FormatUint64 :: "u64 \<Rightarrow> string" where
  "FormatUint64 n = show_dec (uint n)"

text \<open>\<open>strconv.Itoa\<close>.\<close>

definition Itoa :: "int \<Rightarrow> string" where
  "Itoa n = (if n < 0 then ''-'' @ show_dec (- n) else show_dec n)"

section \<open>net.SplitHostPort and net.JoinHostPort\<close>

fun index_of :: "char \<Rightarrow> string \<Rightarrow> nat option" where
  "index_of c [] = None"
| "index_of c (x # xs) = (if x = c then Some 0 else map_option Suc (index_of c xs))"

definition last_index_of :: "char \<Rightarrow> string \<Rightarrow> nat option" where
  "last_index_of c s = map_option (\<lambda>i. length s - 1 - i) (index_of c (rev s))"

definition SplitHostPort :: "string \<Rightarrow> (string \<times> string) option" where
  "SplitHostPort hp =
     (case last_index_of CHR '':'' hp of
        None \<Rightarrow> None
      | Some i \<Rightarrow>
          (let r = (if take 1 hp = ''['' then
                      (case index_of CHR '']'' hp of
                         None \<Rightarrow> None
                       | Some e \<Rightarrow>
                           if e + 1 = length hp then None
                           else if e + 1 = i then Some (take (e - 1) (drop 1 hp), 1, e + 1)
                           else None)
                    else
                      (let host = take i hp
                       in if CHR '':'' \<in> set host then None else Some (host, 0, 0)))
           in case r of
                None \<Rightarrow> None
              | Some (host, j, k) \<Rightarrow>
                  if CHR ''['' \<in> set (drop j hp) then None
                  else if CHR '']'' \<in> set (drop k hp) then None
                  else Some (host, drop (i + 1) hp)))"

definition JoinHostPort :: "string \<Rightarrow> string \<Rightarrow> string" where
  "JoinHostPort host port =
     (if CHR '':'' \<in> set host then ''['' @ host @ '']:'' @ port else host @ '':'' @ port)"

section \<open>Facts\<close>

subsection \<open>Decimal round trip\<close>

lemma digit_char_facts [simp]:
  assumes "0 \<le> d" "d < 10"
  shows "is_digit (digit_char d)" "digit_val (digit_char d) = d"
proof -
  have "(of_char (digit_char d) :: int) = 48 + d"
    using assms by (simp add: digit_char_def)
  then show "is_digit (digit_char d)" "digit_val (digit_char d) = d"
    using assms by (simp_all add: is_digit_def digit_val_def)
qed

lemma digits_val_append: "digits_val (s @ [c]) = 10 * digits_val s + digit_val c"
  by (simp add: digits_val_def)

lemma show_dec_not_Nil [simp]: "show_dec n \<noteq> []"
  by (subst show_dec.simps) simp

lemma show_dec_digits:
  "0 \<le> n \<Longrightarrow> list_all is_digit (show_dec n) \<and> digits_val (show_dec n) = n"
proof (induction n rule: show_dec.induct)
  case (1 n)
  show ?case
  proof (cases "n < 10")
    case True
    with "1.prems" show ?thesis by (simp add: show_dec.simps digits_val_def)
  next
    case False
    with "1.IH" show ?thesis
      by (simp add: show_dec.simps [of n] digits_val_append)
  qed
qed

lemma parse_show_dec [simp]: "0 \<le> n \<Longrightarrow> parse_dec (show_dec n) = Some n"
  by (simp add: parse_dec_def show_dec_digits)

lemma ParseUint64_FormatUint64 [simp]: "ParseUint64 (FormatUint64 n) = Some n"
  using uint_lt2p [of n] by (simp add: ParseUint64_def FormatUint64_def)

lemma is_digit_sign: "\<not> is_digit CHR ''-''" "\<not> is_digit CHR ''+''"
  by (simp_all add: is_digit_def)

lemma digits_val_nonneg: "list_all is_digit s \<Longrightarrow> 0 \<le> digits_val s"
  by (induction s rule: rev_induct)
    (auto simp: digits_val_append is_digit_def digit_val_def, simp add: digits_val_def)

lemma Atoi_Itoa [simp]:
  assumes "- (2 ^ 63) \<le> n" "n < 2 ^ 63"
  shows "Atoi (Itoa n) = Some n"
proof (cases "n < 0")
  case True
  with assms show ?thesis by (simp add: Atoi_def Itoa_def)
next
  case False
  then obtain c cs where c: "show_dec n = c # cs" by (cases "show_dec n") auto
  with False have "is_digit c" using show_dec_digits [of n] by simp
  then have "c \<noteq> CHR ''-''" and "c \<noteq> CHR ''+''" using is_digit_sign by auto
  with False c assms parse_show_dec [of n] show ?thesis
    by (simp add: Atoi_def Itoa_def)
qed

end
