(* ===== verification/Common.thy ===== *)
theory Common
  imports GoStd
begin

text \<open>
  \<open>internal/aggregation/common\<close>: the protocol constants and the node-id check every layer
  uses, together with the error values of the whole program.  A wrapped error
  (\<open>fmt.Errorf("%w: ...", Err, ...)\<close>) is represented by the sentinel it wraps, which is what
  \<open>errors.Is\<close> tests; message texts are not modelled.
\<close>

definition ProtocolVersion :: string where "ProtocolVersion = ''v1''"

definition AggregateSUM :: string where "AggregateSUM = ''SUM''"

definition AggregateTOPK :: string where "AggregateTOPK = ''TOPK''"

datatype go_error =
    \<comment> \<open>sum\<close>
    SumErrInvalidNodeID | SumErrInvalidIncrement | SumErrInvalidPeerState
  | SumErrUnsupportedVersion | SumErrOverflow
    \<comment> \<open>topk\<close>
  | TopkErrInvalidK | TopkErrInvalidCandidate | TopkErrInvalidPeerState
  | TopkErrUnsupportedVersion
    \<comment> \<open>pipeline\<close>
  | ErrInvalidConfig | ErrInvalidUpdate | ErrOutboundQueueClosed | ErrPersistence
    \<comment> \<open>protocol\<close>
  | ErrInvalidAggregateType | ErrInvalidDeltaPayload | ErrInvalidDigest
  | ErrInvalidSnapshotReq | ErrInvalidSnapshot | ErrInvalidDeltaRange
    \<comment> \<open>anti-entropy\<close>
  | ErrInvalidHistoryCapacity | ErrInvalidHistoryDelta
    \<comment> \<open>transport\<close>
  | ErrEmptyType | ErrEmptyFrom | ErrInvalidFrom | ErrInvalidTimestamp | ErrEmptyPayload
  | ErrEmptyChecksum | ErrInvalidChecksum | ErrChecksumMismatch | ErrUnsupportedType
  | ErrFrameTooLarge | ErrDuplicateMessage | ErrStaleSequence
  | ErrNilSender | ErrNilReceiver | ErrNilFrameSender | ErrNilFrameReceiver | ErrNilCodec
    \<comment> \<open>delta runtime\<close>
  | ErrNilManager | DeltaErrNilSender
    \<comment> \<open>storage\<close>
  | WalErrInvalidConfig | WalErrCorruptRecord | WalErrClosed | ErrCorruptSnapshot
  | ErrInvalidRecoveryRecord
    \<comment> \<open>application\<close>
  | ErrServerClosed
    \<comment> \<open>an error made in place by \<open>errors.New\<close> or \<open>fmt.Errorf\<close> that wraps no sentinel, with the
        constant part of its text\<close>
  | ErrText string
    \<comment> \<open>errors of the standard library: an \<open>encoding/json\<close> failure, an I/O failure,
        a cancelled context\<close>
  | JsonError | IOError | ContextDone

text \<open>
  A value of Go's type \<open>any\<close>, with the dynamic types the program's type switches name; values of
  every other type are \<open>AnyVal\<close>.
\<close>

datatype 'a go_any = AnyUint64 u64 | AnyUint u64 | AnyInt int | AnyInt64 int | AnyVal 'a

text \<open>The pattern \<open>^[a-z0-9][a-z0-9-]{0,30}$\<close>.\<close>

definition lower_alnum :: "char \<Rightarrow> bool" where
  "lower_alnum c \<longleftrightarrow> is_digit c \<or> (97 \<le> (of_char c :: int) \<and> (of_char c :: int) \<le> 122)"

definition ValidNodeID :: "string \<Rightarrow> bool" where
  "ValidNodeID s =
     (case s of
        [] \<Rightarrow> False
      | c # cs \<Rightarrow> lower_alnum c \<and> length cs \<le> 30 \<and>
          list_all (\<lambda>d. lower_alnum d \<or> d = CHR ''-'') cs)"

lemma ValidNodeID_length: "ValidNodeID s \<Longrightarrow> 0 < length s \<and> length s \<le> 31"
  by (auto simp: ValidNodeID_def split: list.splits)

lemma ValidNodeID_Nil [simp]: "\<not> ValidNodeID []"
  by (simp add: ValidNodeID_def)

text \<open>A valid node id is plain lower-case ASCII, so trimming leaves it alone.\<close>

definition id_char :: "char \<Rightarrow> bool" where
  "id_char c \<longleftrightarrow> lower_alnum c \<or> c = CHR ''-''"

lemma ValidNodeID_chars: "ValidNodeID s \<Longrightarrow> list_all id_char s"
  by (auto simp: ValidNodeID_def id_char_def list_all_def split: list.splits)

lemma id_char_range: "id_char c \<Longrightarrow> 45 \<le> (of_char c :: int) \<and> (of_char c :: int) \<le> 122"
  by (auto simp: id_char_def lower_alnum_def is_digit_def)

lemma trim_left_id:
  assumes "\<And>p. p \<in> set pats \<Longrightarrow> p = [] \<or> \<not> id_char (hd p)" "list_all id_char s"
  shows "trim_left pats s = s"
proof -
  have "find (\<lambda>p. is_prefix p s) pats = None"
  proof (rule find_None_iff [THEN iffD2], safe)
    fix p assume p: "p \<in> set pats" "is_prefix p s"
    then have "p \<noteq> []" and "take (length p) s = p" by (auto simp: is_prefix_def)
    then have "hd p \<in> set s" by (metis hd_in_set in_set_takeD)
    with assms p \<open>p \<noteq> []\<close> show False by (auto simp: list_all_iff)
  qed
  then show ?thesis by (simp add: trim_left.simps)
qed

lemma space_not_id:
  "p \<in> set space_runes \<Longrightarrow> p = [] \<or> \<not> id_char (hd p)"
  "p \<in> set (map rev space_runes) \<Longrightarrow> p = [] \<or> \<not> id_char (hd p)"
  by (auto simp: space_runes_def dest!: id_char_range)

lemma TrimSpace_ValidNodeID [simp]: "ValidNodeID s \<Longrightarrow> TrimSpace s = s"
  by (simp add: TrimSpace_def trim_left_id space_not_id ValidNodeID_chars list_all_rev
      del: set_map list.map)

end
