(* ===== verification/GoFloat.thy ===== *)
theory GoFloat
  imports GoStd
begin

text \<open>
  Go's \<open>float64\<close> as its IEEE~754 bit pattern: the comparisons of the language, \<open>math.IsNaN\<close> and
  \<open>math.IsInf\<close>, the decimal text \<open>encoding/json\<close> writes for a finite value, and the value
  \<open>strconv.ParseFloat\<close> reads from a JSON number (correct rounding, ties to even).

  Without its sign, a finite pattern \<open>b\<close> denotes \<open>q * 2 ^ i / 2 ^ 1074\<close> where \<open>b = i * 2 ^ 52 + q\<close>
  and \<open>q\<close> carries the hidden bit; this one equation covers normal and subnormal numbers.
\<close>

type_synonym f64 = "64 word"

definition f64_neg :: "f64 \<Rightarrow> bool" where
  "f64_neg x \<longleftrightarrow> bit x 63"

text \<open>The pattern without its sign bit.\<close>

definition f64_mag :: "f64 \<Rightarrow> int" where
  "f64_mag x = uint x mod 2 ^ 63"

definition IsNaN :: "f64 \<Rightarrow> bool" where
  "IsNaN x \<longleftrightarrow> 2047 * 2 ^ 52 < f64_mag x"

text \<open>\<open>math.IsInf(x, 0)\<close>: either infinity.\<close>

definition IsInf :: "f64 \<Rightarrow> bool" where
  "IsInf x \<longleftrightarrow> f64_mag x = 2047 * 2 ^ 52"

definition f64_finite :: "f64 \<Rightarrow> bool" where
  "f64_finite x \<longleftrightarrow> f64_mag x < 2047 * 2 ^ 52"

text \<open>
  Numeric order of the values that are not NaN is the order of the sign-magnitude integers; the
  two zeros have the same key.
\<close>

definition f64_key :: "f64 \<Rightarrow> int" where
  "f64_key x = (if f64_neg x then - f64_mag x else f64_mag x)"

definition f64_eq :: "f64 \<Rightarrow> f64 \<Rightarrow> bool" where
  "f64_eq x y \<longleftrightarrow> \<not> IsNaN x \<and> \<not> IsNaN y \<and> f64_key x = f64_key y"

definition f64_less :: "f64 \<Rightarrow> f64 \<Rightarrow> bool" where
  "f64_less x y \<longleftrightarrow> \<not> IsNaN x \<and> \<not> IsNaN y \<and> f64_key x < f64_key y"

definition f64_negzero :: f64 where
  "f64_negzero = push_bit 63 1"

definition f64_make :: "bool \<Rightarrow> int \<Rightarrow> f64" where
  "f64_make neg b = of_int (b + (if neg then 2 ^ 63 else 0))"

section \<open>Reading a number\<close>

fun scale_index :: "nat \<Rightarrow> nat \<Rightarrow> int \<Rightarrow> int \<Rightarrow> nat option" where
  "scale_index 0 i N d = None"
| "scale_index (Suc fuel) i N d = (if N < d then Some i else scale_index fuel (Suc i) N (2 * d))"

definition round_half_even :: "int \<Rightarrow> int \<Rightarrow> int" where
  "round_half_even n d =
     (let q = n div d; r = n mod d
      in if 2 * r < d then q else if 2 * r > d then q + 1 else if even q then q else q + 1)"

text \<open>The unsigned pattern nearest to \<open>n / d\<close>; \<open>None\<close> when it is out of range.\<close>

definition round_f64 :: "int \<Rightarrow> int \<Rightarrow> int option" where
  "round_f64 n d =
     (let N = n * 2 ^ 1074
      in case scale_index 2046 0 N (d * 2 ^ 53) of
           None \<Rightarrow> None
         | Some i \<Rightarrow>
             (let b = int i * 2 ^ 52 + round_half_even N (d * 2 ^ i)
              in if b < 2047 * 2 ^ 52 then Some b else None))"

text \<open>The decimal \<open>D * 10 ^ E\<close>.\<close>

definition decimal_f64 :: "bool \<Rightarrow> int \<Rightarrow> int \<Rightarrow> f64 option" where
  "decimal_f64 neg D E =
     map_option (f64_make neg)
       (if 0 \<le> E then round_f64 (D * 10 ^ nat E) 1 else round_f64 D (10 ^ nat (- E)))"

definition ParseFloat :: "string \<Rightarrow> f64 option" where
  "ParseFloat s =
     (let neg = (take 1 s = ''-'');
          s1 = (if neg then drop 1 s else s);
          ip = takeWhile is_digit s1;
          r1 = dropWhile is_digit s1;
          dot = (take 1 r1 = ''.'');
          fp = (if dot then takeWhile is_digit (drop 1 r1) else []);
          r2 = (if dot then dropWhile is_digit (drop 1 r1) else r1);
          ex = (if r2 = [] then Some 0
                else if take 1 r2 = ''e'' \<or> take 1 r2 = ''E'' then Atoi (drop 1 r2) else None)
      in if ip = [] \<or> (dot \<and> fp = []) then None
         else case ex of
                None \<Rightarrow> None
              | Some e \<Rightarrow> decimal_f64 neg (digits_val (ip @ fp)) (e - int (length fp)))"

section \<open>Writing a number\<close>

text \<open>The scaled value \<open>q * 2 ^ i\<close> of a pattern without sign.\<close>

definition f64_scaled :: "int \<Rightarrow> int" where
  "f64_scaled b =
     (let e = b div 2 ^ 52; f = b mod 2 ^ 52
      in if e = 0 then f else (f + 2 ^ 52) * 2 ^ nat (e - 1))"

text \<open>The decimal point position: the value lies in \<open>[10 ^ (p - 1), 10 ^ p)\<close>.\<close>

definition decimal_point :: "int \<Rightarrow> int" where
  "decimal_point V =
     (case find (\<lambda>p. V * 10 ^ 400 < 2 ^ 1074 * 10 ^ nat (p + 400)) [-330..310] of
        None \<Rightarrow> 310 | Some p \<Rightarrow> p)"

definition strip_zeros :: "string \<Rightarrow> string" where
  "strip_zeros ds = rev (dropWhile (\<lambda>c. c = CHR ''0'') (rev ds))"

text \<open>Layout of the digits \<open>ds\<close> with the point after position \<open>p\<close>: \<open>%f\<close> and \<open>%e\<close> with the shortest
  precision, the latter with the exponent clean-up of \<open>encoding/json\<close>.\<close>

definition layout_f :: "string \<Rightarrow> int \<Rightarrow> string" where
  "layout_f ds p =
     (if p \<le> 0 then ''0.'' @ replicate (nat (- p)) CHR ''0'' @ ds
      else if int (length ds) \<le> p then ds @ replicate (nat p - length ds) CHR ''0''
      else take (nat p) ds @ ''.'' @ drop (nat p) ds)"

definition layout_e :: "string \<Rightarrow> int \<Rightarrow> string" where
  "layout_e ds p =
     take 1 ds @ (if length ds > 1 then ''.'' @ drop 1 ds else []) @
     (let e = p - 1
      in if e < 0 then ''e-'' @ show_dec (- e)
         else ''e+'' @ (if e < 10 then ''0'' else []) @ show_dec e)"

definition layout_json :: "string \<Rightarrow> int \<Rightarrow> string" where
  "layout_json ds p = (if p - 1 < -6 \<or> 21 \<le> p - 1 then layout_e ds p else layout_f ds p)"

text \<open>The decimals with \<open>n\<close> digits on either side of the value, nearest first.\<close>

definition near_texts :: "int \<Rightarrow> int \<Rightarrow> nat \<Rightarrow> string list" where
  "near_texts V p n =
     (let x = int n - p;
          num = (if 0 \<le> x then V * 10 ^ nat x else V);
          den = (if 0 \<le> x then 2 ^ 1074 else 2 ^ 1074 * 10 ^ nat (- x));
          lo = num div den; hi = lo + 1;
          txt = (\<lambda>D. let ds = show_dec D
                      in layout_json (strip_zeros ds) (int (length ds) - x))
      in if 2 * (num mod den) \<le> den then [txt lo, txt hi] else [txt hi, txt lo])"

text \<open>
  The text \<open>json.Marshal\<close> writes for a finite value: the first of the decimals with one digit,
  two digits, \<open>...\<close>, seventeen digits that reads back as the value.  Seventeen digits always
  suffice; the exact decimal is the last alternative.
\<close>

definition exact_text :: "int \<Rightarrow> string" where
  "exact_text V = show_dec (V * 5 ^ 1074) @ ''e-1074''"

definition FormatJSONFloat :: "f64 \<Rightarrow> string" where
  "FormatJSONFloat x =
     (let sgn = (if f64_neg x then ''-'' else []); V = f64_scaled (f64_mag x)
      in if V = 0 then sgn @ ''0''
         else case find (\<lambda>t. ParseFloat (sgn @ t) = Some x)
                     (concat (map (near_texts V (decimal_point V)) [1..<18])) of
                Some t \<Rightarrow> sgn @ t
              | None \<Rightarrow> sgn @ exact_text V)"


section \<open>Facts\<close>

lemma f64_neg_iff: "f64_neg x \<longleftrightarrow> 2 ^ 63 \<le> uint x"
proof -
  have "uint x < 2 ^ 63 + 2 ^ 63" using uint_lt2p [of x] by simp
  then have "2 ^ 63 \<le> uint x \<Longrightarrow> uint x div 2 ^ 63 = 1"
    by (intro int_div_pos_eq [of _ _ _ "uint x - 2 ^ 63"]) simp_all
  moreover have "uint x < 2 ^ 63 \<Longrightarrow> uint x div 2 ^ 63 = 0" by simp
  ultimately have "odd (uint x div 2 ^ 63) \<longleftrightarrow> 2 ^ 63 \<le> uint x"
    by (cases "2 ^ 63 \<le> uint x") auto
  moreover have "f64_neg x \<longleftrightarrow> bit (uint x) 63" by (simp add: f64_neg_def bit_uint_iff)
  ultimately show ?thesis by (simp only: bit_iff_odd)
qed

lemma uint_split: "uint x = f64_mag x + (if f64_neg x then 2 ^ 63 else 0)"
proof (cases "f64_neg x")
  case True
  then have "uint x mod 2 ^ 63 = uint x - 2 ^ 63"
    using uint_lt2p [of x] by (intro int_mod_pos_eq [of _ _ 1]) (simp_all add: f64_neg_iff)
  with True show ?thesis by (simp add: f64_mag_def)
next
  case False
  then show ?thesis by (simp add: f64_mag_def f64_neg_iff)
qed

lemma f64_make_mag [simp]: "f64_make (f64_neg x) (f64_mag x) = x"
  unfolding f64_make_def uint_split [symmetric] by simp

lemma f64_mag_nonneg: "0 \<le> f64_mag x"
  by (simp add: f64_mag_def)

lemma f64_finite_iff: "f64_finite x \<longleftrightarrow> \<not> IsNaN x \<and> \<not> IsInf x"
  by (auto simp: f64_finite_def IsNaN_def IsInf_def)

text \<open>Equal keys mean equal patterns, except for the two zeros.\<close>

lemma f64_key_inj:
  assumes "f64_key x = f64_key y" "x \<noteq> f64_negzero" "y \<noteq> f64_negzero"
  shows "x = y"
proof -
  have "f64_mag z \<noteq> 0" if "f64_neg z" "z \<noteq> f64_negzero" for z
  proof
    assume "f64_mag z = 0"
    with that have "uint z = 2 ^ 63" using uint_split [of z] by simp
    then have "z = of_int (2 ^ 63)" by (metis word_of_int_uint)
    with that show False by (simp add: f64_negzero_def push_bit_eq_mult)
  qed
  then have pos: "f64_neg x \<Longrightarrow> 0 < f64_mag x" "f64_neg y \<Longrightarrow> 0 < f64_mag y"
    using assms(2,3) by (simp_all add: order_less_le f64_mag_nonneg)
  have "f64_mag x = f64_mag y \<and> f64_neg x = f64_neg y"
  proof (cases "f64_neg x = f64_neg y")
    case True
    with assms(1) show ?thesis by (simp add: f64_key_def split: if_splits)
  next
    case False
    then consider "f64_neg x" "\<not> f64_neg y" | "f64_neg y" "\<not> f64_neg x" by blast
    then show ?thesis
    proof cases
      case 1
      then show ?thesis using assms(1) pos(1) [OF 1(1)] f64_mag_nonneg [of y]
        by (simp add: f64_key_def)
    next
      case 2
      then show ?thesis using assms(1) pos(2) [OF 2(1)] f64_mag_nonneg [of x]
        by (simp add: f64_key_def)
    qed
  qed
  then have "f64_make (f64_neg x) (f64_mag x) = f64_make (f64_neg y) (f64_mag y)" by simp
  then show ?thesis by (simp only: f64_make_mag)
qed

lemma scale_index_least:
  "j < fuel \<Longrightarrow> N < d * 2 ^ j \<Longrightarrow> (\<And>k. k < j \<Longrightarrow> d * 2 ^ k \<le> N) \<Longrightarrow>
   scale_index fuel i N d = Some (i + j)"
proof (induction fuel arbitrary: i j d)
  case (Suc fuel)
  show ?case
  proof (cases j)
    case 0
    with Suc.prems show ?thesis by simp
  next
    case (Suc j')
    have "scale_index fuel (Suc i) N (2 * d) = Some (Suc i + j')"
    proof (rule Suc.IH)
      show "j' < fuel" "N < 2 * d * 2 ^ j'" using Suc.prems Suc by (simp_all add: ac_simps)
      show "2 * d * 2 ^ k \<le> N" if "k < j'" for k
        using Suc.prems(3) [of "Suc k"] Suc that by (simp add: ac_simps)
    qed
    then show ?thesis using Suc.prems(3) [of 0] Suc by simp
  qed
qed simp

lemma f64_scaled_split:
  assumes "0 \<le> b" "b < 2047 * 2 ^ 52"
  obtains i q where "f64_scaled b = q * 2 ^ i" "b = int i * 2 ^ 52 + q" "0 \<le> q" "q < 2 ^ 53"
    "i = 0 \<or> 2 ^ 52 \<le> q" "i < 2046"
proof (cases "b div 2 ^ 52 = 0")
  case True
  then have "b = b mod 2 ^ 52" using div_mult_mod_eq [of b "2 ^ 52"] by simp
  moreover have "b mod 2 ^ 52 < 2 ^ 52" by simp
  ultimately have "f64_scaled b = b * 2 ^ 0" "b < 2 ^ 52"
    using True by (simp_all add: f64_scaled_def del: power_numeral)
  then show ?thesis using that [of b 0] assms by simp
next
  case False
  let ?e = "b div 2 ^ 52" and ?f = "b mod 2 ^ 52"
  have e: "1 \<le> ?e" "?e < 2047" using False assms by (simp_all add: div_less_iff_less_mult) 
  then have i: "int (nat (?e - 1)) = ?e - 1" by simp
  have "b = int (nat (?e - 1)) * 2 ^ 52 + (?f + 2 ^ 52)"
    unfolding i using div_mult_mod_eq [of b "2 ^ 52"] by (simp add: algebra_simps)
  moreover have "f64_scaled b = (?f + 2 ^ 52) * 2 ^ nat (?e - 1)"
    using False by (simp add: f64_scaled_def)
  moreover have "0 \<le> ?f" "?f < 2 ^ 52" by simp_all
  ultimately show ?thesis using that [of "?f + 2 ^ 52" "nat (?e - 1)"] e by simp
qed

lemma round_half_even_exact: "0 < d \<Longrightarrow> round_half_even (q * d) d = q"
  by (simp add: round_half_even_def)

text \<open>Stated for an arbitrary exponent \<open>t\<close> in place of \<open>1074\<close>.\<close>

lemma scaled_exact:
  assumes q: "0 \<le> q" "q < 2 ^ 53" "i = 0 \<or> 2 ^ 52 \<le> q" "i < fuel"
  shows "scale_index fuel 0 (q * 2 ^ i * 5 ^ t * 2 ^ t) (10 ^ t * 2 ^ 53) = Some i"
    and "round_half_even (q * 2 ^ i * 5 ^ t * 2 ^ t) (10 ^ t * 2 ^ i) = q"
proof -
  define T where "T = (10 :: int) ^ t"
  have T5: "(5 :: int) ^ t * 2 ^ t = T" by (simp add: T_def flip: power_mult_distrib)
  have N: "q * 2 ^ i * 5 ^ t * 2 ^ t = q * (T * 2 ^ i)"
    unfolding T5 [symmetric] by (simp only: ac_simps)
  have T: "0 < T" by (simp add: T_def)
  then have pos: "0 < T * 2 ^ i" by simp
  have "scale_index fuel 0 (q * (T * 2 ^ i)) (T * 2 ^ 53) = Some (0 + i)"
  proof (rule scale_index_least)
    show "q * (T * 2 ^ i) < T * 2 ^ 53 * 2 ^ i"
      using mult_strict_right_mono [OF q(2) pos] by (simp only: ac_simps)
    show "T * 2 ^ 53 * 2 ^ k \<le> q * (T * 2 ^ i)" if "k < i" for k
    proof -
      have "(2 :: int) ^ (53 + k) \<le> 2 ^ (52 + i)" using that by (intro power_increasing) auto
      also have "\<dots> \<le> q * 2 ^ i" using q(3) that by (simp add: power_add)
      finally have "T * (2 ^ 53 * 2 ^ k) \<le> T * (q * 2 ^ i)"
        using T by (intro mult_left_mono) (simp_all add: power_add)
      then show ?thesis by (simp only: ac_simps)
    qed
  qed (rule q(4))
  then show "scale_index fuel 0 (q * 2 ^ i * 5 ^ t * 2 ^ t) (10 ^ t * 2 ^ 53) = Some i"
    by (simp add: N T_def)
  show "round_half_even (q * 2 ^ i * 5 ^ t * 2 ^ t) (10 ^ t * 2 ^ i) = q"
    unfolding N using round_half_even_exact [OF pos, of q] by (simp add: T_def)
qed

lemma round_f64_exact:
  assumes "0 \<le> b" "b < 2047 * 2 ^ 52"
  shows "round_f64 (f64_scaled b * 5 ^ 1074) (10 ^ 1074) = Some b"
proof -
  obtain i q where b: "f64_scaled b = q * 2 ^ i" "b = int i * 2 ^ 52 + q" "0 \<le> q" "q < 2 ^ 53"
    "i = 0 \<or> 2 ^ 52 \<le> q" "i < 2046"
    using assms by (rule f64_scaled_split)
  show ?thesis
    unfolding round_f64_def Let_def b(1) scaled_exact [OF b(3-6)] option.case b(2) [symmetric]
    using assms(2) by (simp only: if_True)
qed


lemma takeWhile_digits: "list_all is_digit ds \<Longrightarrow> \<not> is_digit c \<Longrightarrow>
    takeWhile is_digit (ds @ c # r) = ds \<and> dropWhile is_digit (ds @ c # r) = c # r"
  by (induction ds) auto

lemma show_dec_hd: "0 \<le> n \<Longrightarrow> is_digit (hd (show_dec n))"
  using show_dec_digits [of n] show_dec_not_Nil [of n] by (cases "show_dec n") auto

lemma take1_sign:
  assumes "ds \<noteq> []" "is_digit (hd ds)"
  shows "take 1 ((if neg then ''-'' else []) @ ds @ r) = ''-'' \<longleftrightarrow> neg"
    and "(if neg then drop 1 ((if neg then ''-'' else []) @ ds @ r)
          else (if neg then ''-'' else []) @ ds @ r) = ds @ r"
  using assms is_digit_sign by (cases ds; auto)+

lemma ParseFloat_exact:
  assumes "0 \<le> P"
  shows "ParseFloat ((if neg then ''-'' else []) @ show_dec P @ ''e-1074'') = decimal_f64 neg P (- 1074)"
proof -
  let ?ds = "show_dec P"
  have ds: "?ds \<noteq> []" "list_all is_digit ?ds" "digits_val ?ds = P" "is_digit (hd ?ds)"
    using show_dec_digits [OF assms] show_dec_hd [OF assms] by simp_all
  have e: "\<not> is_digit CHR ''e''" by (simp add: is_digit_def)
  have at: "Atoi ''-1074'' = Some (- 1074)" by code_simp
  show ?thesis
    unfolding ParseFloat_def Let_def
    using take1_sign [OF ds(1,4), of neg "''e-1074''"] takeWhile_digits [OF ds(2) e, of "''-1074''"]
      ds(1,3) at
    by simp
qed

lemma decimal_f64_exact:
  assumes "f64_finite x"
  shows "decimal_f64 (f64_neg x) (f64_scaled (f64_mag x) * 5 ^ 1074) (- 1074) = Some x"
proof -
  have n: "(0 \<le> (- 1074 :: int)) = False" "nat (- (- 1074)) = 1074" by simp_all
  show ?thesis
    unfolding decimal_f64_def n if_False
      round_f64_exact [OF f64_mag_nonneg assms [unfolded f64_finite_def]]
    by (simp only: option.map f64_make_mag)
qed

lemma ParseFloat_zero: "ParseFloat ''0'' = Some 0" "ParseFloat ''-0'' = Some f64_negzero"
proof -
  have i: "scale_index 2046 0 0 (2 ^ 53) = Some 0"
    using scale_index_least [of 0 2046 0 "2 ^ 53" 0] by simp
  have r: "round_f64 0 1 = Some 0"
    unfolding round_f64_def Let_def using i by (simp add: round_half_even_def)
  have z: "digits_val ''0'' = 0" "is_digit CHR ''0''" by code_simp+
  show "ParseFloat ''0'' = Some 0" "ParseFloat ''-0'' = Some f64_negzero"
    unfolding ParseFloat_def Let_def decimal_f64_def using r z
    by (simp_all add: f64_make_def f64_negzero_def push_bit_eq_mult)
qed

lemma f64_scaled_nonneg: "0 \<le> b \<Longrightarrow> 0 \<le> f64_scaled b"
  by (simp add: f64_scaled_def Let_def)

lemma f64_scaled_zero:
  assumes "0 \<le> b" "f64_scaled b = 0"
  shows "b = 0"
proof (cases "b div 2 ^ 52 = 0")
  case True
  with assms(2) show ?thesis using div_mult_mod_eq [of b "2 ^ 52"] by (simp add: f64_scaled_def)
next
  case False
  have "0 \<le> b mod 2 ^ 52" by simp
  then have "0 < (b mod 2 ^ 52 + 2 ^ 52) * 2 ^ nat (b div 2 ^ 52 - 1)" by simp
  with False assms(2) show ?thesis by (simp add: f64_scaled_def)
qed

text \<open>What \<open>json.Marshal\<close> writes for a finite float reads back as the same float.\<close>

lemma ParseFloat_Format [simp]:
  assumes "f64_finite x"
  shows "ParseFloat (FormatJSONFloat x) = Some x"
proof -
  let ?s = "if f64_neg x then ''-'' else []" and ?V = "f64_scaled (f64_mag x)"
  let ?ts = "concat (map (near_texts ?V (decimal_point ?V)) [1..<18])"
  show ?thesis
  proof (cases "?V = 0")
    case True
    then have "f64_mag x = 0" using f64_scaled_zero f64_mag_nonneg by blast
    then have "x = f64_make (f64_neg x) 0" by (metis f64_make_mag)
    then have "x = (if f64_neg x then f64_negzero else 0)"
      by (simp add: f64_make_def f64_negzero_def push_bit_eq_mult split: if_splits)
    with True show ?thesis by (simp add: FormatJSONFloat_def ParseFloat_zero split: if_splits)
  next
    case False
    show ?thesis
    proof (cases "find (\<lambda>t. ParseFloat (?s @ t) = Some x) ?ts")
      case None
      have "ParseFloat (?s @ exact_text ?V) = Some x"
        unfolding exact_text_def
        using ParseFloat_exact [of "?V * 5 ^ 1074"] decimal_f64_exact [OF assms]
          f64_scaled_nonneg [OF f64_mag_nonneg [of x]]
        by (metis mult_nonneg_nonneg zero_le_numeral zero_le_power)
      with None False show ?thesis by (simp only: FormatJSONFloat_def Let_def if_False option.case)
    next
      case (Some t)
      then have "ParseFloat (?s @ t) = Some x" by (auto simp: find_Some_iff)
      with Some False show ?thesis by (simp only: FormatJSONFloat_def Let_def if_False option.case)
    qed
  qed
qed

end
