(* ===== verification/GoTime.thy ===== *)
theory GoTime
  imports GoFloat "HOL-Library.Monad_Syntax"
begin

text \<open>
  Go's \<open>time.Time\<close>: an instant, in nanoseconds since 1 January of year 1 UTC (the zero
  \<open>Time\<close> is the instant \<open>0\<close>), the offset of its location in seconds east of UTC, and the
  monotonic clock reading \<open>time.Now\<close> attaches.  The RFC 3339 text forms are those of
  \<open>Time.Format(time.RFC3339Nano)\<close>, of \<open>time.Parse\<close> (lenient) and of the JSON methods (strict).
\<close>

record gotime =
  t_inst :: int
  t_off :: int
  t_mono :: "int option"

definition time_zero :: gotime where
  "time_zero = \<lparr>t_inst = 0, t_off = 0, t_mono = None\<rparr>"

definition time_IsZero :: "gotime \<Rightarrow> bool" where
  "time_IsZero t \<longleftrightarrow> t_inst t = 0"

text \<open>\<open>t.UTC()\<close> and \<open>t.Round(0)\<close>; both strip the monotonic reading.\<close>

definition time_UTC :: "gotime \<Rightarrow> gotime" where
  "time_UTC t = t\<lparr>t_off := 0, t_mono := None\<rparr>"

definition time_Round0 :: "gotime \<Rightarrow> gotime" where
  "time_Round0 t = t\<lparr>t_mono := None\<rparr>"

text \<open>\<open>Equal\<close> and \<open>After\<close> of times without a monotonic reading compare the instants.\<close>

definition time_Equal :: "gotime \<Rightarrow> gotime \<Rightarrow> bool" where
  "time_Equal a b \<longleftrightarrow> t_inst a = t_inst b"

definition time_After :: "gotime \<Rightarrow> gotime \<Rightarrow> bool" where
  "time_After a b \<longleftrightarrow> t_inst a > t_inst b"

definition time_Before :: "gotime \<Rightarrow> gotime \<Rightarrow> bool" where
  "time_Before a b \<longleftrightarrow> t_inst a < t_inst b"

text \<open>A \<open>time.Duration\<close> is an \<open>int64\<close> of nanoseconds; \<open>Sub\<close> saturates.\<close>

type_synonym duration = int

definition time_Sub :: "gotime \<Rightarrow> gotime \<Rightarrow> duration" where
  "time_Sub a b = max (- (2 ^ 63)) (min (2 ^ 63 - 1) (t_inst a - t_inst b))"

definition time_Add :: "gotime \<Rightarrow> duration \<Rightarrow> gotime" where
  "time_Add t d = t\<lparr>t_inst := t_inst t + d, t_mono := map_option (\<lambda>m. m + d) (t_mono t)\<rparr>"

section \<open>The proleptic Gregorian calendar\<close>

definition is_leap :: "int \<Rightarrow> bool" where
  "is_leap y \<longleftrightarrow> y mod 4 = 0 \<and> (y mod 100 \<noteq> 0 \<or> y mod 400 = 0)"

text \<open>Days from 1 January of year 1 to 1 January of year \<open>y\<close>.\<close>

definition days_before_year :: "int \<Rightarrow> int" where
  "days_before_year y = 365 * (y - 1) + (y - 1) div 4 - (y - 1) div 100 + (y - 1) div 400"

definition days_in_month :: "int \<Rightarrow> int \<Rightarrow> int" where
  "days_in_month y m =
     (if m = 2 then (if is_leap y then 29 else 28)
      else if m = 4 \<or> m = 6 \<or> m = 9 \<or> m = 11 then 30 else 31)"

fun split_month :: "int \<Rightarrow> int list \<Rightarrow> int \<Rightarrow> int \<times> int" where
  "split_month y [] yd = (12, yd + 1)"
| "split_month y (m # ms) yd =
     (if yd < days_in_month y m then (m, yd + 1) else split_month y ms (yd - days_in_month y m))"

fun join_month :: "int \<Rightarrow> int list \<Rightarrow> int \<Rightarrow> int" where
  "join_month y [] m = 0"
| "join_month y (k # ms) m = (if m = k then 0 else days_in_month y k + join_month y ms m)"

definition months :: "int list" where
  "months = [1, 2, 3, 4, 5, 6, 7, 8, 9, 10, 11, 12]"

definition days_of_date :: "int \<Rightarrow> int \<Rightarrow> int \<Rightarrow> int" where
  "days_of_date y m d = days_before_year y + join_month y months m + (d - 1)"

text \<open>Year and day of the year from a day number, by 400-, 100-, 4- and 1-year cycles.\<close>

definition year_of_days :: "int \<Rightarrow> int \<times> int" where
  "year_of_days n =
     (let era = n div 146097; doe = n mod 146097;
          c = min (doe div 36524) 3; r1 = doe - c * 36524;
          q = r1 div 1461; r2 = r1 - q * 1461;
          a = min (r2 div 365) 3
      in (400 * era + 100 * c + 4 * q + a + 1, r2 - a * 365))"

definition date_of_days :: "int \<Rightarrow> int \<times> int \<times> int" where
  "date_of_days n =
     (let (y, yd) = year_of_days n; (m, d) = split_month y months yd in (y, m, d))"

section \<open>Text\<close>

fun pad :: "nat \<Rightarrow> int \<Rightarrow> string" where
  "pad 0 n = []"
| "pad (Suc k) n = pad k (n div 10) @ [digit_char (n mod 10)]"

definition time_local_days :: "gotime \<Rightarrow> int" where
  "time_local_days t = (t_inst t + t_off t * 1000000000) div 86400000000000"

definition time_year :: "gotime \<Rightarrow> int" where
  "time_year t = fst (date_of_days (time_local_days t))"

definition format_zone :: "int \<Rightarrow> string" where
  "format_zone off =
     (if off = 0 then ''Z''
      else (if off < 0 then ''-'' else ''+'') @
        pad 2 (\<bar>off\<bar> div 3600) @ '':'' @ pad 2 (\<bar>off\<bar> div 60 mod 60))"

definition format_frac :: "int \<Rightarrow> string" where
  "format_frac ns = (if ns = 0 then [] else ''.'' @ strip_zeros (pad 9 ns))"

definition FormatRFC3339Nano :: "gotime \<Rightarrow> string" where
  "FormatRFC3339Nano t =
     (let (y, m, d) = date_of_days (time_local_days t);
          r = (t_inst t + t_off t * 1000000000) mod 86400000000000;
          s = r div 1000000000
      in (if y < 10000 then pad 4 y else show_dec y) @ ''-'' @ pad 2 m @ ''-'' @ pad 2 d @ ''T'' @
         pad 2 (s div 3600) @ '':'' @ pad 2 (s div 60 mod 60) @ '':'' @ pad 2 (s mod 60) @
         format_frac (r mod 1000000000) @ format_zone (t_off t))"

definition num_fixed :: "nat \<Rightarrow> string \<Rightarrow> (int \<times> string) option" where
  "num_fixed k s =
     (if k \<le> length s \<and> list_all is_digit (take k s)
      then Some (digits_val (take k s), drop k s) else None)"

definition expect :: "char \<Rightarrow> string \<Rightarrow> string option" where
  "expect c s = (if take 1 s = [c] then Some (drop 1 s) else None)"

definition parse_hour :: "bool \<Rightarrow> string \<Rightarrow> (int \<times> string) option" where
  "parse_hour lenient s =
     (case num_fixed 2 s of
        Some r \<Rightarrow> Some r
      | None \<Rightarrow> if lenient then num_fixed 1 s else None)"

definition parse_frac :: "bool \<Rightarrow> string \<Rightarrow> int \<times> string" where
  "parse_frac lenient s =
     (if (take 1 s = ''.'' \<or> (lenient \<and> take 1 s = '','')) \<and> takeWhile is_digit (drop 1 s) \<noteq> []
      then (digits_val (take 9 (takeWhile is_digit (drop 1 s) @ ''000000000'')),
            dropWhile is_digit (drop 1 s))
      else (0, s))"

definition parse_zone :: "bool \<Rightarrow> string \<Rightarrow> (int \<times> string) option" where
  "parse_zone lenient s =
     (if take 1 s = ''Z'' then Some (0, drop 1 s)
      else if take 1 s = ''+'' \<or> take 1 s = ''-'' then do {
        (hh, s1) \<leftarrow> num_fixed 2 (drop 1 s);
        s2 \<leftarrow> expect CHR '':'' s1;
        (mm, s3) \<leftarrow> num_fixed 2 s2;
        if hh \<le> (if lenient then 24 else 23) \<and> mm \<le> (if lenient then 60 else 59)
        then Some ((if take 1 s = ''-'' then - 1 else 1) * (hh * 3600 + mm * 60), s3)
        else None
      } else None)"

definition parse_rfc3339 :: "bool \<Rightarrow> string \<Rightarrow> gotime option" where
  "parse_rfc3339 lenient s = do {
     (y, s) \<leftarrow> num_fixed 4 s;
     s \<leftarrow> expect CHR ''-'' s;
     (m, s) \<leftarrow> num_fixed 2 s;
     s \<leftarrow> expect CHR ''-'' s;
     (d, s) \<leftarrow> num_fixed 2 s;
     s \<leftarrow> expect CHR ''T'' s;
     (h, s) \<leftarrow> parse_hour lenient s;
     s \<leftarrow> expect CHR '':'' s;
     (mi, s) \<leftarrow> num_fixed 2 s;
     s \<leftarrow> expect CHR '':'' s;
     (se, s) \<leftarrow> num_fixed 2 s;
     let (ns, s) = parse_frac lenient s;
     (off, s) \<leftarrow> parse_zone lenient s;
     if s = [] \<and> 1 \<le> m \<and> m \<le> 12 \<and> 1 \<le> d \<and> d \<le> days_in_month y m \<and> h < 24 \<and> mi < 60 \<and> se < 60
     then Some \<lparr>t_inst = ((days_of_date y m d * 86400 + h * 3600 + mi * 60 + se) - off) * 1000000000 + ns,
                t_off = off, t_mono = None\<rparr>
     else None
   }"

text \<open>\<open>MarshalJSON\<close> refuses a year outside \<open>0..9999\<close> and an offset of a day or more.\<close>

definition marshal_time :: "gotime \<Rightarrow> string option" where
  "marshal_time t =
     (if 0 \<le> time_year t \<and> time_year t \<le> 9999 \<and> \<bar>t_off t\<bar> < 86400
      then Some (FormatRFC3339Nano t) else None)"

definition unmarshal_time :: "string \<Rightarrow> gotime option" where
  "unmarshal_time s = parse_rfc3339 False s"


section \<open>Calendar facts\<close>

lemma days_before_year_cycle:
  assumes "0 \<le> c" "c \<le> 3" "0 \<le> q" "q \<le> 24" "0 \<le> a" "a \<le> (3 :: int)"
  shows "days_before_year (400 * e + 100 * c + 4 * q + a + 1) =
    146097 * e + 36524 * c + 1461 * q + 365 * a"
proof -
  let ?Y = "400 * e + 100 * c + 4 * q + a"
  have "?Y div 4 = 100 * e + 25 * c + q"
    by (rule int_div_pos_eq [of _ _ _ a]) (use assms in auto)
  moreover have "?Y div 100 = 4 * e + c"
    by (rule int_div_pos_eq [of _ _ _ "4 * q + a"]) (use assms in auto)
  moreover have "?Y div 400 = e"
    by (rule int_div_pos_eq [of _ _ _ "100 * c + 4 * q + a"]) (use assms in auto)
  ultimately show ?thesis by (simp add: days_before_year_def)
qed

lemma is_leap_cycle:
  assumes "0 \<le> c" "c \<le> 3" "0 \<le> q" "q \<le> 24" "0 \<le> a" "a \<le> (3 :: int)"
  shows "is_leap (400 * e + 100 * c + 4 * q + a + 1) \<longleftrightarrow> a = 3 \<and> (q \<noteq> 24 \<or> c = 3)"
proof -
  let ?Y = "400 * e + 100 * c + 4 * q + a + 1"
  have "?Y mod 4 = (if a = 3 then 0 else a + 1)"
    by (rule int_mod_pos_eq [of _ _ "100 * e + 25 * c + q + (if a = 3 then 1 else 0)"])
      (use assms in auto)
  then have "?Y mod 4 = 0 \<longleftrightarrow> a = 3" using assms by auto
  moreover have "?Y mod 100 = (if q = 24 then 0 else 4 * q + 4)" if "a = 3"
    by (rule int_mod_pos_eq [of _ _ "4 * e + c + (if q = 24 then 1 else 0)"])
      (use assms that in auto)
  then have "a = 3 \<Longrightarrow> ?Y mod 100 = 0 \<longleftrightarrow> q = 24" using assms by auto
  moreover have "?Y mod 400 = (if c = 3 then 0 else 100 * c + 100)" if "a = 3" "q = 24"
    by (rule int_mod_pos_eq [of _ _ "e + (if c = 3 then 1 else 0)"])
      (use assms that in auto)
  then have "a = 3 \<Longrightarrow> q = 24 \<Longrightarrow> ?Y mod 400 = 0 \<longleftrightarrow> c = 3" using assms by auto
  ultimately show ?thesis unfolding is_leap_def by metis
qed

lemma div_bounds: "0 < k \<Longrightarrow> n div k * k \<le> n \<and> n < n div k * k + k" for n k :: int
  using div_mult_mod_eq [of n k] pos_mod_bound [of k n] pos_mod_sign [of k n] by linarith

text \<open>Splitting into at most four cycles of length \<open>k\<close>, the last of which may be a day longer.\<close>

lemma four_cycles:
  fixes x k c :: int
  assumes "0 \<le> x" "x \<le> 4 * k" "0 < k" "c = min (x div k) 3"
  shows "0 \<le> c" "c \<le> 3" "0 \<le> x - c * k" "x - c * k \<le> k" "c < 3 \<Longrightarrow> x - c * k < k"
proof -
  show "0 \<le> c" "c \<le> 3" using assms by (simp_all add: pos_imp_zdiv_nonneg_iff)
  have b: "x div k * k \<le> x" "x < x div k * k + k" using div_bounds [OF assms(3)] by blast+
  have "0 \<le> x - c * k \<and> x - c * k \<le> k \<and> (c < 3 \<longrightarrow> x - c * k < k)"
  proof (cases "x div k \<le> 3")
    case True
    then have "c = x div k" using assms(4) by simp
    with b show ?thesis by simp
  next
    case False
    then have "c = 3" using assms(4) by simp
    have "4 * k \<le> x div k * k" using False assms(3) by (intro mult_right_mono) simp_all
    with b(1) have "4 * k \<le> x" by (rule order_trans [rotated])
    with \<open>c = 3\<close> assms(2,3) show ?thesis by simp
  qed
  then show "0 \<le> x - c * k" "x - c * k \<le> k" "c < 3 \<Longrightarrow> x - c * k < k" by blast+
qed

lemma year_of_days_spec:
  assumes "year_of_days n = (y, yd)"
  shows "days_before_year y + yd = n \<and> 0 \<le> yd \<and> yd < (if is_leap y then 366 else 365)"
proof -
  define era where "era = n div 146097"
  define doe where "doe = n mod 146097"
  define c where "c = min (doe div 36524) 3"
  define r1 where "r1 = doe - c * 36524"
  define q where "q = r1 div 1461"
  define r2 where "r2 = r1 - q * 1461"
  define a where "a = min (r2 div 365) 3"
  have y: "y = 400 * era + 100 * c + 4 * q + a + 1" "yd = r2 - a * 365"
    using assms unfolding year_of_days_def Let_def era_def [symmetric] doe_def [symmetric]
      c_def [symmetric] r1_def [symmetric] q_def [symmetric] r2_def [symmetric] a_def [symmetric]
    by (simp_all only: prod.inject)
  have doe: "0 \<le> doe" "doe < 146097" "n = era * 146097 + doe"
    by (simp_all add: doe_def era_def)
  have c: "0 \<le> c" "c \<le> 3" "0 \<le> r1" "r1 \<le> 36524" "c < 3 \<Longrightarrow> r1 < 36524"
    using four_cycles [OF doe(1) _ _ c_def] doe(2) unfolding r1_def by simp_all
  have q: "0 \<le> q" "q \<le> 24" "0 \<le> r2" "r2 < 1461" "q = 24 \<Longrightarrow> c < 3 \<Longrightarrow> r2 < 1460"
    using c div_bounds [of 1461 r1] unfolding r2_def q_def by simp_all
  have a: "0 \<le> a" "a \<le> 3" "0 \<le> yd" "yd \<le> 365" "a < 3 \<Longrightarrow> yd < 365"
    using four_cycles [OF q(3) _ _ a_def] q(4,5) unfolding y(2) by simp_all
  have "days_before_year y = 146097 * era + 36524 * c + 1461 * q + 365 * a"
    unfolding y by (rule days_before_year_cycle) (use c q a in auto)
  moreover have "is_leap y \<longleftrightarrow> a = 3 \<and> (q \<noteq> 24 \<or> c = 3)"
    unfolding y by (rule is_leap_cycle) (use c q a in auto)
  moreover have "yd < (if a = 3 \<and> (q \<noteq> 24 \<or> c = 3) then 366 else 365)"
    using a c(2) q(5) y(2) by (cases "a = 3") auto
  ultimately show ?thesis using a(3) doe(3) y(2) by (simp add: r1_def r2_def)
qed

lemma split_month_spec:
  assumes "0 \<le> yd" "yd < (if is_leap y then 366 else 365)" "split_month y months yd = (m, d)"
  shows "1 \<le> m \<and> m \<le> 12 \<and> 1 \<le> d \<and> d \<le> days_in_month y m \<and> join_month y months m + (d - 1) = yd"
  using assms unfolding months_def days_in_month_def
  by (simp only: split_month.simps join_month.simps days_in_month_def)
    (auto split: if_splits)

lemma date_of_days_spec:
  assumes "date_of_days n = (y, m, d)"
  shows "1 \<le> m" "m \<le> 12" "1 \<le> d" "d \<le> days_in_month y m" "days_of_date y m d = n"
proof -
  obtain yd where y: "year_of_days n = (y, yd)" "split_month y months yd = (m, d)"
    using assms by (auto simp: date_of_days_def split: prod.splits)
  note ys = year_of_days_spec [OF y(1)]
  show "1 \<le> m" "m \<le> 12" "1 \<le> d" "d \<le> days_in_month y m" "days_of_date y m d = n"
    using split_month_spec [OF _ _ y(2)] ys by (auto simp: days_of_date_def)
qed

lemma days_before_next: "days_before_year (y + 1) = days_before_year y + (if is_leap y then 366 else 365)"
proof -
  have k: "y div k = (y - 1) div k + (if y mod k = 0 then 1 else 0)" if "1 < k" for k
  proof -
    define q r where "q = y div k" "r = y mod k"
    then have r: "y = k * q + r" "0 \<le> r" "r < k" "y div k = q" "y mod k = r"
      using that by simp_all
    have "(y - 1) div k = (if r = 0 then q - 1 else q)"
      by (rule int_div_pos_eq [where r = "if r = 0 then k - 1 else r - 1"])
        (use r(1-3) that in \<open>auto simp: algebra_simps\<close>)
    then show ?thesis using r by simp
  qed
  have m: "y mod 400 = 0 \<Longrightarrow> y mod 100 = 0" "y mod 100 = 0 \<Longrightarrow> y mod 4 = 0" by presburger+
  have "365 * y + Y4 - Y100 + Y400 = 365 * (y - 1) + x4 - x100 + x400 + (if m4 \<and> (\<not> m100 \<or> m400) then 366 else 365)"
    if "Y4 = x4 + (if m4 then 1 else 0)" "Y100 = x100 + (if m100 then 1 else 0)" "Y400 = x400 + (if m400 then 1 else 0)"
      "m400 \<Longrightarrow> m100" "m100 \<Longrightarrow> m4" for Y4 Y100 Y400 x4 x100 x400 :: int and m4 m100 m400
    using that by (cases m4; cases m100; cases m400) simp_all
  note arith = this
  have "1 < (4::int)" "1 < (100::int)" "1 < (400::int)" by simp_all
  from arith [OF this [THEN k] m] show ?thesis
    unfolding days_before_year_def is_leap_def add_diff_cancel_right' .
qed

lemma days_before_mono: "y \<le> y' \<Longrightarrow> days_before_year y \<le> days_before_year y'"
proof (induction y' rule: int_ge_induct)
  case (step i)
  then show ?case using days_before_next [of i] by (simp split: if_splits)
qed simp

lemma join_month_bounds:
  "1 \<le> m \<Longrightarrow> m \<le> 12 \<Longrightarrow> 1 \<le> d \<Longrightarrow> d \<le> days_in_month y m \<Longrightarrow>
   0 \<le> join_month y months m + (d - 1) \<and> join_month y months m + (d - 1) < (if is_leap y then 366 else 365)"
proof -
  assume a: "1 \<le> m" "m \<le> 12" "1 \<le> d" "d \<le> days_in_month y m"
  have "m = 1 \<or> m = 2 \<or> m = 3 \<or> m = 4 \<or> m = 5 \<or> m = 6 \<or> m = 7 \<or> m = 8 \<or> m = 9 \<or> m = 10 \<or> m = 11 \<or> m = 12"
    using a(1,2) by presburger
  with a(3,4) show ?thesis
    by (elim disjE) (simp_all add: months_def days_in_month_def split: if_splits)
qed

lemma year_of_date:
  assumes "1 \<le> m" "m \<le> 12" "1 \<le> d" "d \<le> days_in_month y m"
  shows "fst (date_of_days (days_of_date y m d)) = y"
proof -
  obtain y' yd where y': "year_of_days (days_of_date y m d) = (y', yd)" by fastforce
  note n = year_of_days_spec [OF y'] join_month_bounds [OF assms]
  have "\<not> y' < y" using n days_before_mono [of "y' + 1" y] days_before_next [of y'] by (auto simp: days_of_date_def)
  moreover have "\<not> y < y'" using n days_before_mono [of "y + 1" y'] days_before_next [of y] by (auto simp: days_of_date_def)
  ultimately show ?thesis using y' by (simp add: date_of_days_def split_beta)
qed

lemma days_in_month_le: "days_in_month y m \<le> 31"
  by (simp add: days_in_month_def)


section \<open>Text round trip\<close>

lemma length_pad [simp]: "length (pad k n) = k"
  by (induction k arbitrary: n) auto

lemma pad_digits: "list_all is_digit (pad k n)"
  by (induction k arbitrary: n) auto

lemma digits_val_pad: "0 \<le> n \<Longrightarrow> n < 10 ^ k \<Longrightarrow> digits_val (pad k n) = n"
proof (induction k arbitrary: n)
  case 0
  then show ?case by (simp add: digits_val_def)
next
  case (Suc k)
  have "0 \<le> n mod 10" "n mod 10 < 10" by simp_all
  moreover have "n div 10 < 10 ^ k" "0 \<le> n div 10" using Suc.prems by (simp_all add: div_less_iff_less_mult)
  ultimately show ?case using Suc.IH [of "n div 10"] by (simp add: digits_val_append)
qed

lemma num_fixed_pad [simp]: "0 \<le> n \<Longrightarrow> n < 10 ^ k \<Longrightarrow> num_fixed k (pad k n @ r) = Some (n, r)"
  by (simp add: num_fixed_def pad_digits digits_val_pad)

lemma expect_Cons [simp]: "expect c (c # r) = Some r"
  by (simp add: expect_def)

lemma strip_zeros_restore:
  "strip_zeros ds @ replicate (length ds - length (strip_zeros ds)) CHR ''0'' = ds"
proof -
  let ?r = "rev ds" and ?z = "\<lambda>c. c = CHR ''0''"
  have "takeWhile ?z ?r = replicate (length (takeWhile ?z ?r)) CHR ''0''"
    by (rule replicate_length_same [symmetric]) (auto dest: set_takeWhileD)
  moreover have "length (takeWhile ?z ?r) = length ds - length (dropWhile ?z ?r)"
    by (metis add_diff_cancel_right' length_append length_rev takeWhile_dropWhile_id)
  moreover have "ds = rev (dropWhile ?z ?r) @ rev (takeWhile ?z ?r)"
    by (metis rev_append rev_rev_ident takeWhile_dropWhile_id)
  ultimately show ?thesis unfolding strip_zeros_def by (metis length_rev rev_replicate)
qed

lemma strip_zeros_digits: "list_all is_digit ds \<Longrightarrow> list_all is_digit (strip_zeros ds)"
  by (auto simp: strip_zeros_def list_all_iff dest: set_dropWhileD)

lemma length_strip_zeros: "length (strip_zeros ds) \<le> length ds"
  unfolding strip_zeros_def by (metis length_dropWhile_le length_rev)

lemma digits_val_zeros: "digits_val (replicate k CHR ''0'') = 0"
  by (induction k) (simp_all add: digits_val_def digit_val_def)

lemma parse_frac_format:
  assumes "0 \<le> ns" "ns < 1000000000" "r \<noteq> []" "\<not> is_digit (hd r)" "hd r \<noteq> CHR ''.''" "hd r \<noteq> CHR '',''"
  shows "parse_frac l (format_frac ns @ r) = (ns, r)"
proof (cases "ns = 0")
  case True
  with assms show ?thesis by (cases r) (auto simp: parse_frac_def format_frac_def)
next
  case False
  let ?p = "pad 9 ns"
  let ?ds = "strip_zeros ?p"
  have v: "digits_val ?p = ns" using assms by (intro digits_val_pad) simp_all
  have rep: "?ds @ replicate (9 - length ?ds) CHR ''0'' = ?p"
    using strip_zeros_restore [of ?p] by simp
  have ne: "?ds \<noteq> []"
  proof
    assume "?ds = []"
    with rep have "?p = replicate 9 CHR ''0''" by simp
    with v False show False by (metis digits_val_zeros)
  qed
  obtain c r' where r: "r = c # r'" using assms(3) by (cases r) auto
  have dr: "takeWhile is_digit (?ds @ r) = ?ds" "dropWhile is_digit (?ds @ r) = r"
    using takeWhile_digits [OF strip_zeros_digits [OF pad_digits]] assms(4) r by auto
  have z: "''000000000'' = replicate 9 CHR ''0''" by (simp add: numeral_eq_Suc)
  have "take 9 (?ds @ ''000000000'') = ?ds @ take (9 - length ?ds) (replicate 9 CHR ''0'')"
    unfolding z take_append using length_strip_zeros [of ?p] by simp
  also have "take (9 - length ?ds) (replicate 9 CHR ''0'') = replicate (9 - length ?ds) CHR ''0''"
    by (simp only: take_replicate) simp
  finally have "digits_val (take 9 (?ds @ ''000000000'')) = ns" using rep v by simp
  with dr ne False show ?thesis by (simp add: parse_frac_def format_frac_def)
qed

definition time_wf :: "gotime \<Rightarrow> bool" where
  "time_wf t \<longleftrightarrow> \<bar>t_off t\<bar> < 86400 \<and> t_off t mod 60 = 0 \<and> 0 \<le> time_year t \<and> time_year t \<le> 9999"

lemma format_zone_head:
  "format_zone off @ r \<noteq> []" "\<not> is_digit (hd (format_zone off @ r))"
  "hd (format_zone off @ r) \<noteq> CHR ''.''" "hd (format_zone off @ r) \<noteq> CHR '',''"
  by (auto simp: format_zone_def is_digit_def)

lemma parse_zone_format:
  assumes "\<bar>off\<bar> < 86400" "off mod 60 = 0"
  shows "parse_zone l (format_zone off) = Some (off, [])"
proof (cases "off = 0")
  case True
  then show ?thesis by (simp add: parse_zone_def format_zone_def)
next
  case False
  let ?a = "\<bar>off\<bar>"
  have h: "0 \<le> ?a div 3600" "?a div 3600 \<le> 23" "0 \<le> ?a div 60 mod 60" "?a div 60 mod 60 \<le> 59"
    using assms(1) div_bounds [of 3600 ?a] pos_mod_bound [of 60 "?a div 60"]
    by (simp_all add: pos_imp_zdiv_nonneg_iff)
  have m: "?a mod 60 = 0" using assms(2) by presburger
  have "?a div 3600 = ?a div 60 div 60" by (simp add: zdiv_zmult2_eq [symmetric])
  then have "?a div 3600 * 3600 + ?a div 60 mod 60 * 60 = ?a"
    using m div_mult_mod_eq [of "?a div 60" 60] div_mult_mod_eq [of ?a 60] by linarith
  then have a: "?a = H * 3600 + M * 60" if "H = ?a div 3600" "M = ?a div 60 mod 60" for H M
    using that by simp
  obtain H M where HM: "H = ?a div 3600" "M = ?a div 60 mod 60" by blast
  have z: "format_zone off = (if off < 0 then ''-'' else ''+'') @ pad 2 H @ '':'' @ pad 2 M"
    unfolding format_zone_def HM using False by (simp only: if_False)
  have b: "0 \<le> H" "H \<le> 23" "0 \<le> M" "M \<le> 59" using h HM by simp_all
  have M: "num_fixed 2 (pad 2 M) = Some (M, [])" using num_fixed_pad [of M 2 "[]"] b by simp
  have off: "off = (if off < 0 then - 1 else 1) * (H * 3600 + M * 60)"
    using a [OF HM] by (cases "off < 0") simp_all
  show ?thesis
  proof (cases "off < 0")
    case True
    then have "parse_zone l (format_zone off) = Some (- (H * 3600 + M * 60), [])"
      unfolding z parse_zone_def using b M by simp
    with off True show ?thesis by simp
  next
    case False
    then have "parse_zone l (format_zone off) = Some (H * 3600 + M * 60, [])"
      unfolding z parse_zone_def using b M by simp
    with off False show ?thesis by simp
  qed
qed


lemma clock_fields:
  fixes r :: int
  assumes "0 \<le> r" "r < 86400000000000" "s = r div 1000000000"
  shows "0 \<le> s div 3600" "s div 3600 < 24" "0 \<le> s div 60 mod 60" "s div 60 mod 60 < 60"
    "0 \<le> s mod 60" "s mod 60 < 60"
    "s div 3600 * 3600 + s div 60 mod 60 * 60 + s mod 60 = s"
proof -
  have s: "0 \<le> s" "s < 86400" using assms div_bounds [of 1000000000 r] by auto
  have d: "s div 3600 = s div 60 div 60" by (simp add: zdiv_zmult2_eq [symmetric])
  show "0 \<le> s div 3600" "s div 3600 < 24"
    using s div_bounds [of 3600 s] by (simp_all add: pos_imp_zdiv_nonneg_iff)
  show "0 \<le> s div 60 mod 60" "s div 60 mod 60 < 60" "0 \<le> s mod 60" "s mod 60 < 60" by simp_all
  show "s div 3600 * 3600 + s div 60 mod 60 * 60 + s mod 60 = s"
    unfolding d using div_mult_mod_eq [of "s div 60" 60] div_mult_mod_eq [of s 60] by linarith
qed

text \<open>
  The text of a well-formed time reads back as the same instant and offset, in the strict and in
  the lenient reader.
\<close>

lemma parse_format_time:
  assumes "time_wf t"
  shows "parse_rfc3339 l (FormatRFC3339Nano t) = Some (time_Round0 t)"
proof -
  define L where "L = t_inst t + t_off t * 1000000000"
  define r where "r = L mod 86400000000000"
  define s where "s = r div 1000000000"
  define H where "H = s div 3600"
  define M where "M = s div 60 mod 60"
  define S where "S = s mod 60"
  define ns where "ns = r mod 1000000000"
  obtain y m d where D: "date_of_days (time_local_days t) = (y, m, d)" by (cases "date_of_days (time_local_days t)")
  have r: "0 \<le> r" "r < 86400000000000" by (simp_all add: r_def)
  have y: "0 \<le> y" "y \<le> 9999" using assms D by (simp_all add: time_wf_def time_year_def)
  have md: "1 \<le> m" "m \<le> 12" "1 \<le> d" "d \<le> days_in_month y m" "days_of_date y m d = time_local_days t"
    using date_of_days_spec [OF D] by blast+
  have d31: "d \<le> 31" using md(4) days_in_month_le [of y m] by linarith
  have clk: "0 \<le> H" "H < 24" "0 \<le> M" "M < 60" "0 \<le> S" "S < 60" "H * 3600 + M * 60 + S = s"
    using clock_fields [OF r s_def] by (simp_all add: H_def M_def S_def)
  have ns: "0 \<le> ns" "ns < 1000000000" by (simp_all add: ns_def)
  have fmt: "FormatRFC3339Nano t = pad 4 y @ ''-'' @ pad 2 m @ ''-'' @ pad 2 d @ ''T'' @ pad 2 H @ '':'' @
      pad 2 M @ '':'' @ pad 2 S @ format_frac ns @ format_zone (t_off t)"
    unfolding FormatRFC3339Nano_def Let_def D L_def [symmetric] r_def [symmetric] s_def [symmetric]
      H_def [symmetric] M_def [symmetric] S_def [symmetric] ns_def [symmetric] prod.case
    using y by simp
  have zone: "parse_zone l (format_zone (t_off t)) = Some (t_off t, [])"
    using assms by (intro parse_zone_format) (simp_all add: time_wf_def)
  have frac: "parse_frac l (format_frac ns @ format_zone (t_off t)) = (ns, format_zone (t_off t))"
    using parse_frac_format [OF ns, of "format_zone (t_off t)" l] format_zone_head [of "t_off t" "[]"]
    by simp
  have hour: "parse_hour l (pad 2 H @ x) = Some (H, x)" for x
    using clk by (simp add: parse_hour_def)
  have inst: "((days_of_date y m d * 86400 + H * 3600 + M * 60 + S) - t_off t) * 1000000000 + ns = t_inst t"
  proof -
    have "L = time_local_days t * 86400000000000 + r"
      by (simp add: time_local_days_def L_def [symmetric] r_def)
    moreover have "r = s * 1000000000 + ns" by (simp add: s_def ns_def)
    ultimately show ?thesis using clk(7) md(5) unfolding L_def by (simp add: algebra_simps)
  qed
  have "parse_rfc3339 l (FormatRFC3339Nano t) =
      Some \<lparr>t_inst = ((days_of_date y m d * 86400 + H * 3600 + M * 60 + S) - t_off t) * 1000000000 + ns,
            t_off = t_off t, t_mono = None\<rparr>"
    unfolding fmt parse_rfc3339_def
    using y md d31 clk frac zone hour by (simp add: Let_def)
  then show ?thesis unfolding inst by (simp add: time_Round0_def)
qed

section \<open>What the reader accepts\<close>

lemma digits_val_less: "list_all is_digit s \<Longrightarrow> digits_val s < 10 ^ length s"
proof (induction s rule: rev_induct)
  case (snoc c s)
  then have "digits_val s + 1 \<le> 10 ^ length s" "digit_val c \<le> 9"
    by (auto simp: is_digit_def digit_val_def)
  then show ?case by (simp add: digits_val_append)
qed (simp add: digits_val_def)

lemma num_fixed_bounds: "num_fixed k s = Some (n, r) \<Longrightarrow> 0 \<le> n \<and> n < 10 ^ k"
  using digits_val_nonneg [of "take k s"] digits_val_less [of "take k s"]
  by (auto simp: num_fixed_def min_absorb2 split: if_splits)

lemma parse_frac_bounds: "parse_frac l s = (n, r) \<Longrightarrow> 0 \<le> n \<and> n < 1000000000"
proof -
  let ?f = "take 9 (takeWhile is_digit (drop 1 s) @ ''000000000'')"
  have "list_all is_digit (takeWhile is_digit (drop 1 s) @ ''000000000'')"
    by (auto simp: list_all_iff is_digit_def dest: set_takeWhileD)
  then have "list_all is_digit ?f" by (metis append_take_drop_id list_all_append)
  moreover have "length ?f \<le> 9" by simp
  then have "(10::int) ^ length ?f \<le> 10 ^ 9" by (intro power_increasing) auto
  ultimately have "0 \<le> digits_val ?f" "digits_val ?f < 1000000000"
    using digits_val_nonneg [of ?f] digits_val_less [of ?f] by auto
  then show "parse_frac l s = (n, r) \<Longrightarrow> 0 \<le> n \<and> n < 1000000000"
    by (auto simp: parse_frac_def split: if_splits)
qed

lemma parse_hour_bounds: "parse_hour l s = Some (n, r) \<Longrightarrow> 0 \<le> n"
  by (auto simp: parse_hour_def dest: num_fixed_bounds split: option.splits if_splits)

lemma parse_zone_bounds: "parse_zone False s = Some (off, r) \<Longrightarrow> \<bar>off\<bar> < 86400"
  by (auto simp: parse_zone_def bind_eq_Some_conv dest!: num_fixed_bounds split: if_splits)

end
