(* ===== verification/Json.thy ===== *)
theory Json
  imports Common GoTime
begin

text \<open>
  \<open>encoding/json\<close> at the level of JSON values.  A \<open>json.RawMessage\<close>, and a byte slice that
  holds JSON text, is represented by the value the text denotes; a number keeps its literal
  text and an object keeps the order and the duplicates of its members.  What the
  representation forgets of the text is white space and the spelling of string escapes.

  \<open>json.Unmarshal\<close> into a struct is a fold over the members of the object
  (\<open>decode_struct\<close>): a member goes to the field of exactly that name, else to the first field
  whose name is equal up to case, else it is ignored; \<open>null\<close> leaves a field as it was; a
  value of the wrong kind is an error.
\<close>

datatype json =
    JNull
  | JBool bool
  | JNum string
  | JStr string
  | JArr "json list"
  | JObj "(string \<times> json) list"

type_synonym 's decoder = "'s \<Rightarrow> json \<Rightarrow> 's option"

section \<open>Reading\<close>

definition lower_char :: "char \<Rightarrow> char" where
  "lower_char c =
     (let n = (of_char c :: int) in if 65 \<le> n \<and> n \<le> 90 then char_of (n + 32) else c)"

text \<open>
  Names are compared up to Unicode case folding.  The names of the program are ASCII, and beside the
  ASCII letters only the long s (U+017F) and the Kelvin sign (U+212A) fold to ASCII.
\<close>

fun fold_name :: "string \<Rightarrow> string" where
  "fold_name [] = []"
| "fold_name (c # s) =
     (if c = CHR 0xC5 \<and> take 1 s = [CHR 0xBF] then CHR ''s'' # fold_name (drop 1 s)
      else if c = CHR 0xE2 \<and> take 2 s = [CHR 0x84, CHR 0xAA] then CHR ''k'' # fold_name (drop 2 s)
      else lower_char c # fold_name s)"

definition find_field :: "(string \<times> 'd) list \<Rightarrow> string \<Rightarrow> 'd option" where
  "find_field fs k =
     (case map_of fs k of
        Some d \<Rightarrow> Some d
      | None \<Rightarrow> map_option snd (find (\<lambda>f. fold_name (fst f) = fold_name k) fs))"

fun decode_members :: "(string \<times> 's decoder) list \<Rightarrow> (string \<times> json) list \<Rightarrow> 's \<Rightarrow> 's option" where
  "decode_members fs [] s = Some s"
| "decode_members fs ((k, v) # ms) s =
     (case find_field fs k of
        None \<Rightarrow> decode_members fs ms s
      | Some d \<Rightarrow> (case d s v of None \<Rightarrow> None | Some s' \<Rightarrow> decode_members fs ms s'))"

definition decode_struct :: "(string \<times> 's decoder) list \<Rightarrow> 's decoder" where
  "decode_struct fs s j =
     (case j of JNull \<Rightarrow> Some s | JObj ms \<Rightarrow> decode_members fs ms s | _ \<Rightarrow> None)"

definition field :: "('s \<Rightarrow> 'v) \<Rightarrow> (('v \<Rightarrow> 'v) \<Rightarrow> 's \<Rightarrow> 's) \<Rightarrow> 'v decoder \<Rightarrow> 's decoder" where
  "field get upd d s j = map_option (\<lambda>v. upd (\<lambda>_. v) s) (d (get s) j)"

definition dec_string :: "string decoder" where
  "dec_string old j = (case j of JNull \<Rightarrow> Some old | JStr s \<Rightarrow> Some s | _ \<Rightarrow> None)"

definition dec_uint64 :: "u64 decoder" where
  "dec_uint64 old j = (case j of JNull \<Rightarrow> Some old | JNum t \<Rightarrow> ParseUint64 t | _ \<Rightarrow> None)"

definition dec_int :: "int decoder" where
  "dec_int old j = (case j of JNull \<Rightarrow> Some old | JNum t \<Rightarrow> Atoi t | _ \<Rightarrow> None)"

definition dec_float64 :: "f64 decoder" where
  "dec_float64 old j = (case j of JNull \<Rightarrow> Some old | JNum t \<Rightarrow> ParseFloat t | _ \<Rightarrow> None)"

definition dec_time :: "gotime decoder" where
  "dec_time old j = (case j of JNull \<Rightarrow> Some old | JStr s \<Rightarrow> unmarshal_time s | _ \<Rightarrow> None)"

text \<open>A \<open>json.RawMessage\<close> field takes any value, \<open>null\<close> included; \<open>None\<close> is the empty slice.\<close>

definition dec_raw :: "json option decoder" where
  "dec_raw old j = Some (Some j)"

text \<open>
  A slice is decoded element by element from the element type's zero value; \<open>null\<close> gives the
  nil slice, which the program treats as the empty one.
\<close>

fun dec_elems :: "'v \<Rightarrow> 'v decoder \<Rightarrow> json list \<Rightarrow> 'v list option" where
  "dec_elems z d [] = Some []"
| "dec_elems z d (j # js) =
     (case d z j of
        None \<Rightarrow> None
      | Some v \<Rightarrow> (case dec_elems z d js of None \<Rightarrow> None | Some vs \<Rightarrow> Some (v # vs)))"

definition dec_slice :: "'v \<Rightarrow> 'v decoder \<Rightarrow> 'v list decoder" where
  "dec_slice z d old j = (case j of JNull \<Rightarrow> Some [] | JArr js \<Rightarrow> dec_elems z d js | _ \<Rightarrow> None)"

text \<open>
  A \<open>map[string]uint64\<close> field: \<open>None\<close> is the nil map.  Members are inserted in order into the
  map the field already holds, a repeated key overwriting.
\<close>

fun dec_entries :: "(string \<times> json) list \<Rightarrow> (string, u64) gomap \<Rightarrow> (string, u64) gomap option" where
  "dec_entries [] m = Some m"
| "dec_entries ((k, v) # ms) m =
     (case dec_uint64 0 v of None \<Rightarrow> None | Some n \<Rightarrow> dec_entries ms (mput k n m))"

definition dec_map_uint64 :: "(string, u64) gomap option decoder" where
  "dec_map_uint64 old j =
     (case j of
        JNull \<Rightarrow> Some None
      | JObj ms \<Rightarrow> map_option Some (dec_entries ms (case old of None \<Rightarrow> [] | Some m \<Rightarrow> m))
      | _ \<Rightarrow> None)"

section \<open>Writing\<close>

definition enc_uint64 :: "u64 \<Rightarrow> json" where
  "enc_uint64 n = JNum (FormatUint64 n)"

definition enc_int :: "int \<Rightarrow> json" where
  "enc_int n = JNum (Itoa n)"

text \<open>NaN and the infinities have no JSON form; a time may be out of the range of RFC 3339.\<close>

definition enc_float64 :: "f64 \<Rightarrow> json option" where
  "enc_float64 x = (if f64_finite x then Some (JNum (FormatJSONFloat x)) else None)"

definition enc_time :: "gotime \<Rightarrow> json option" where
  "enc_time t = map_option JStr (marshal_time t)"

text \<open>Maps are written in key order; the nil map as \<open>null\<close>.\<close>

definition enc_map_uint64 :: "(string, u64) gomap option \<Rightarrow> json" where
  "enc_map_uint64 m =
     (case m of None \<Rightarrow> JNull | Some es \<Rightarrow> JObj (map (\<lambda>(k, v). (k, enc_uint64 v)) (sorted_items es)))"

definition enc_raw :: "json option \<Rightarrow> json" where
  "enc_raw r = (case r of None \<Rightarrow> JNull | Some j \<Rightarrow> j)"

text \<open>A member tagged \<open>omitempty\<close> is left out when it is empty.\<close>

definition omitempty :: "bool \<Rightarrow> string \<Rightarrow> json \<Rightarrow> (string \<times> json) list" where
  "omitempty e k j = (if e then [] else [(k, j)])"

section \<open>Round trips of the leaves\<close>

named_theorems json_simps \<open>unfolding of the JSON coding combinators\<close>

lemma dec_enc_uint64 [simp, json_simps]: "dec_uint64 old (enc_uint64 n) = Some n"
  by (simp add: dec_uint64_def enc_uint64_def)

lemma dec_enc_int [simp, json_simps]:
  "- (2 ^ 63) \<le> n \<Longrightarrow> n < 2 ^ 63 \<Longrightarrow> dec_int old (enc_int n) = Some n"
  by (simp add: dec_int_def enc_int_def)

lemma dec_enc_float64: "enc_float64 x = Some j \<Longrightarrow> dec_float64 old j = Some x"
  by (auto simp: enc_float64_def dec_float64_def split: if_splits)

lemma dec_enc_time:
  "enc_time t = Some j \<Longrightarrow> t_off t mod 60 = 0 \<Longrightarrow> dec_time old j = Some (time_Round0 t)"
  by (auto simp: enc_time_def dec_time_def marshal_time_def unmarshal_time_def time_wf_def
      parse_format_time split: if_splits)

lemma dec_string_JStr [simp, json_simps]: "dec_string old (JStr s) = Some s"
  by (simp add: dec_string_def)

lemma dec_entries_enc:
  "mwf (m @ es) \<Longrightarrow> dec_entries (map (\<lambda>(k, v). (k, enc_uint64 v)) es) m = Some (m @ es)"
proof (induction es arbitrary: m)
  case (Cons e es)
  obtain k v where e: "e = (k, v)" by (cases e)
  with Cons.prems have "mput k v m = m @ [(k, v)]"
    by (auto simp: mwf_def intro: mput_fresh)
  with Cons e show ?case by simp
qed simp

lemma dec_enc_map_uint64:
  assumes "mwf es"
  shows "dec_map_uint64 None (enc_map_uint64 (Some es)) = Some (Some (sorted_items es))"
  using assms dec_entries_enc [of "[]" "sorted_items es"]
  by (simp add: dec_map_uint64_def enc_map_uint64_def)


section \<open>Invariants of decoding\<close>

lemma dec_entries_mwf: "dec_entries ms m = Some m' \<Longrightarrow> mwf m \<Longrightarrow> mwf m'"
  by (induction ms m rule: dec_entries.induct) (auto split: option.splits)

lemma dec_map_uint64_mwf:
  "dec_map_uint64 old j = Some (Some m) \<Longrightarrow> (\<And>m0. old = Some m0 \<Longrightarrow> mwf m0) \<Longrightarrow> mwf m"
  by (auto simp: dec_map_uint64_def dec_entries_mwf split: json.splits option.splits)

lemma find_field_mem: "find_field fs k = Some d \<Longrightarrow> \<exists>n. (n, d) \<in> set fs"
  by (auto simp: find_field_def find_Some_iff split: option.splits dest: map_of_SomeD)
    (metis nth_mem prod.collapse)

lemma decode_members_inv:
  assumes "decode_members fs ms s = Some s'" "P s"
    and "\<And>n d s j s'. (n, d) \<in> set fs \<Longrightarrow> P s \<Longrightarrow> d s j = Some s' \<Longrightarrow> P s'"
  shows "P s'"
  using assms
proof (induction fs ms s rule: decode_members.induct)
  case (2 fs k v ms s)
  show ?case
  proof (cases "find_field fs k")
    case None
    with 2 show ?thesis by simp
  next
    case (Some d)
    obtain n where n: "(n, d) \<in> set fs" using find_field_mem [OF Some] by (rule exE)
    from 2 Some obtain s1 where s1: "d s v = Some s1" "decode_members fs ms s1 = Some s'"
      by (auto split: option.splits)
    have "P s1" using "2.prems"(3) n "2.prems"(2) s1(1) by blast
    with 2 Some s1 show ?thesis by simp
  qed
qed simp

lemma decode_struct_inv:
  assumes "decode_struct fs s j = Some s'" "P s"
    and "\<And>n d s j s'. (n, d) \<in> set fs \<Longrightarrow> P s \<Longrightarrow> d s j = Some s' \<Longrightarrow> P s'"
  shows "P s'"
  using assms(1,2) decode_members_inv [of fs _ s s' P] assms(3)
  by (auto simp: decode_struct_def split: json.splits)

lemmas codec_simps = decode_struct_def find_field_def field_def omitempty_def

lemma dec_elems_map:
  "(\<And>x. x \<in> set xs \<Longrightarrow> d z (e x) = Some x) \<Longrightarrow> dec_elems z d (map e xs) = Some xs"
  by (induction xs) auto

lemma dec_slice_map:
  "(\<And>x. x \<in> set xs \<Longrightarrow> d z (e x) = Some x) \<Longrightarrow> dec_slice z d old (JArr (map e xs)) = Some xs"
  by (simp add: dec_slice_def dec_elems_map)

end
