(* ===== verification/Sha256.thy ===== *)
theory Sha256
  imports Prelude
begin

text \<open>
  \<open>crypto/sha256.Sum256\<close> (FIPS 180-4) on byte strings and \<open>encoding/hex\<close>, which the code uses for
  the checksums of state, envelopes, log records and checkpoints.
\<close>

unbundle bit_operations_syntax

type_synonym w32 = "32 word"

definition sha_K :: "w32 list" where
  "sha_K = [
     1116352408, 1899447441, 3049323471, 3921009573, 961987163, 1508970993,
     2453635748, 2870763221, 3624381080, 310598401, 607225278, 1426881987,
     1925078388, 2162078206, 2614888103, 3248222580, 3835390401, 4022224774,
     264347078, 604807628, 770255983, 1249150122, 1555081692, 1996064986,
     2554220882, 2821834349, 2952996808, 3210313671, 3336571891, 3584528711,
     113926993, 338241895, 666307205, 773529912, 1294757372, 1396182291,
     1695183700, 1986661051, 2177026350, 2456956037, 2730485921, 2820302411,
     3259730800, 3345764771, 3516065817, 3600352804, 4094571909, 275423344,
     430227734, 506948616, 659060556, 883997877, 958139571, 1322822218,
     1537002063, 1747873779, 1955562222, 2024104815, 2227730452, 2361852424,
     2428436474, 2756734187, 3204031479, 3329325298]"

definition sha_H0 :: "w32 list" where
  "sha_H0 = [1779033703, 3144134277, 1013904242, 2773480762, 1359893119, 2600822924, 528734635, 1541459225]"

definition rotr :: "nat \<Rightarrow> w32 \<Rightarrow> w32" where
  "rotr n x = drop_bit n x OR push_bit (32 - n) x"

definition sha_s0 :: "w32 \<Rightarrow> w32" where "sha_s0 x = rotr 7 x XOR rotr 18 x XOR drop_bit 3 x"
definition sha_s1 :: "w32 \<Rightarrow> w32" where "sha_s1 x = rotr 17 x XOR rotr 19 x XOR drop_bit 10 x"
definition sha_S0 :: "w32 \<Rightarrow> w32" where "sha_S0 x = rotr 2 x XOR rotr 13 x XOR rotr 22 x"
definition sha_S1 :: "w32 \<Rightarrow> w32" where "sha_S1 x = rotr 6 x XOR rotr 11 x XOR rotr 25 x"

definition sha_ch :: "w32 \<Rightarrow> w32 \<Rightarrow> w32 \<Rightarrow> w32" where
  "sha_ch x y z = (x AND y) XOR (NOT x AND z)"

definition sha_maj :: "w32 \<Rightarrow> w32 \<Rightarrow> w32 \<Rightarrow> w32" where
  "sha_maj x y z = (x AND y) XOR (x AND z) XOR (y AND z)"

text \<open>Bytes are characters; a word is four bytes, the most significant first.\<close>

definition be32 :: "char list \<Rightarrow> w32" where
  "be32 bs = foldl (\<lambda>a b. a * 256 + of_char b) 0 bs"

fun chunks :: "nat \<Rightarrow> nat \<Rightarrow> 'a list \<Rightarrow> 'a list list" where
  "chunks 0 k xs = []"
| "chunks (Suc n) k xs = take k xs # chunks n k (drop k xs)"

definition be_bytes :: "nat \<Rightarrow> int \<Rightarrow> char list" where
  "be_bytes k n = map (\<lambda>i. char_of (n div 256 ^ i mod 256)) (rev [0..<k])"

definition sha_pad :: "string \<Rightarrow> string" where
  "sha_pad m =
     m @ [char_of (128 :: int)] @ replicate ((119 - length m mod 64) mod 64) (char_of (0 :: int)) @
     be_bytes 8 (8 * int (length m))"

text \<open>The message schedule, kept newest first: the words 16, 15, 7 and 2 steps back.\<close>

fun sha_schedule :: "nat \<Rightarrow> w32 list \<Rightarrow> w32 list" where
  "sha_schedule 0 ws = ws"
| "sha_schedule (Suc n) ws =
     sha_schedule n ((sha_s1 (ws ! 1) + ws ! 6 + sha_s0 (ws ! 14) + ws ! 15) # ws)"

definition sha_round :: "w32 list \<Rightarrow> w32 \<times> w32 \<Rightarrow> w32 list" where
  "sha_round v kw =
     (let a = v ! 0; b = v ! 1; c = v ! 2; d = v ! 3; e = v ! 4; f = v ! 5; g = v ! 6; h = v ! 7;
          t1 = h + sha_S1 e + sha_ch e f g + fst kw + snd kw;
          t2 = sha_S0 a + sha_maj a b c
      in [t1 + t2, a, b, c, d + t1, e, f, g])"

definition sha_block :: "w32 list \<Rightarrow> string \<Rightarrow> w32 list" where
  "sha_block hs blk =
     (let ws = rev (sha_schedule 48 (rev (map be32 (chunks 16 4 blk))))
      in map2 (+) hs (foldl sha_round hs (zip sha_K ws)))"

definition Sum256 :: "string \<Rightarrow> string" where
  "Sum256 m =
     (let p = sha_pad m
      in concat (map (\<lambda>w. be_bytes 4 (uint w)) (foldl sha_block sha_H0 (chunks (length p div 64) 64 p))))"

definition hex_digit :: "int \<Rightarrow> char" where
  "hex_digit n = char_of (if n < 10 then 48 + n else 87 + n)"

definition hex_byte :: "char \<Rightarrow> string" where
  "hex_byte b = [hex_digit ((of_char b :: int) div 16), hex_digit ((of_char b :: int) mod 16)]"

definition EncodeToString :: "string \<Rightarrow> string" where
  "EncodeToString bs = concat (map hex_byte bs)"

definition hex_val :: "char \<Rightarrow> int option" where
  "hex_val c =
     (let n = of_char c
      in if 48 \<le> n \<and> n \<le> 57 then Some (n - 48)
         else if 97 \<le> n \<and> n \<le> 102 then Some (n - 87)
         else if 65 \<le> n \<and> n \<le> 70 then Some (n - 55) else None)"

fun DecodeString :: "string \<Rightarrow> string option" where
  "DecodeString [] = Some []"
| "DecodeString [c] = None"
| "DecodeString (a # b # cs) =
     (case (hex_val a, hex_val b) of
        (Some x, Some y) \<Rightarrow> map_option (\<lambda>r. char_of (16 * x + y) # r) (DecodeString cs)
      | _ \<Rightarrow> None)"

definition sha256_hex :: "string \<Rightarrow> string" where
  "sha256_hex m = EncodeToString (Sum256 m)"

lemma length_be_bytes [simp]: "length (be_bytes k n) = k"
  by (simp add: be_bytes_def)

lemma length_sha_block: "length hs = 8 \<Longrightarrow> length (sha_block hs b) = 8"
proof -
  assume "length hs = 8"
  moreover have "length (foldl sha_round v kws) = 8" if "length v = 8" for v kws
    using that by (induction kws arbitrary: v) (auto simp: sha_round_def Let_def)
  ultimately show ?thesis by (simp add: sha_block_def Let_def)
qed

lemma length_Sum256: "length (Sum256 m) = 32"
proof -
  have "length (foldl sha_block hs bs) = 8" if "length hs = 8" for hs bs
    using that by (induction bs arbitrary: hs) (auto simp: length_sha_block)
  then have "length (foldl sha_block sha_H0 bs) = 8" for bs by (simp add: sha_H0_def)
  then show ?thesis by (simp add: Sum256_def Let_def length_concat comp_def sum_list_triv)
qed

text \<open>A hexadecimal digest has 64 characters and decodes; the envelope checks rely on both.\<close>

lemma length_sha256_hex [simp]: "length (sha256_hex m) = 64"
  by (simp add: sha256_hex_def EncodeToString_def length_concat comp_def hex_byte_def
      sum_list_triv length_Sum256)

lemma hex_val_digit: "0 \<le> n \<Longrightarrow> n < 16 \<Longrightarrow> hex_val (hex_digit n) = Some n"
  by (auto simp: hex_val_def hex_digit_def Let_def of_char_of take_bit_eq_mod)

lemma DecodeString_Encode [simp]: "DecodeString (EncodeToString bs) = Some bs"
proof (induction bs)
  case (Cons b bs)
  have "(of_char b :: int) = of_char b mod 256" by simp
  then have "0 \<le> (of_char b :: int)" "(of_char b :: int) < 256"
    by (metis pos_mod_sign zero_less_numeral, metis pos_mod_bound zero_less_numeral)
  then have "hex_val (hex_digit (of_char b div 16)) = Some (of_char b div 16)"
    "hex_val (hex_digit (of_char b mod 16)) = Some (of_char b mod 16)"
    by (auto intro!: hex_val_digit)
  moreover have "16 * ((of_char b :: int) div 16) + of_char b mod 16 = of_char b" by simp
  ultimately show ?case using Cons by (simp add: EncodeToString_def hex_byte_def)
qed (simp add: EncodeToString_def)

end
