(* ===== verification/JsonText.thy ===== *)
theory JsonText
  imports Json Sha256
begin

text \<open>
  The byte level of \<open>encoding/json\<close>: the compact text \<open>json.Marshal\<close> writes for a value (with its
  HTML-safe escaping) and the reader behind \<open>json.Unmarshal\<close> (RFC 8259 grammar, the nesting
  limit of 10000, replacement of invalid UTF-8 and of lone surrogates).  The two are inverse on
  values whose strings are valid UTF-8 (\<open>parse_text\<close>).
\<close>

section \<open>UTF-8\<close>

definition cont :: "int \<Rightarrow> int \<Rightarrow> char \<Rightarrow> bool" where
  "cont lo hi c \<longleftrightarrow> lo \<le> of_char c \<and> of_char c \<le> hi"

text \<open>The number of bytes of the rune a string starts with, when it is not ASCII; \<open>None\<close> for a
  byte that starts no valid rune.\<close>

definition utf8_width :: "string \<Rightarrow> nat option" where
  "utf8_width s =
     (let n = (of_char (s ! 0) :: int)
      in if 194 \<le> n \<and> n \<le> 223 then
           (if length s \<ge> 2 \<and> cont 128 191 (s ! 1) then Some 2 else None)
         else if 224 \<le> n \<and> n \<le> 239 then
           (if length s \<ge> 3 \<and>
               cont (if n = 224 then 160 else 128) (if n = 237 then 159 else 191) (s ! 1) \<and>
               cont 128 191 (s ! 2) then Some 3 else None)
         else if 240 \<le> n \<and> n \<le> 244 then
           (if length s \<ge> 4 \<and>
               cont (if n = 240 then 144 else 128) (if n = 244 then 143 else 191) (s ! 1) \<and>
               cont 128 191 (s ! 2) \<and> cont 128 191 (s ! 3) then Some 4 else None)
         else None)"

definition utf8_replacement :: string where
  "utf8_replacement = [CHR 0xEF, CHR 0xBF, CHR 0xBD]"

definition utf8_encode :: "int \<Rightarrow> string" where
  "utf8_encode r =
     (if r < 128 then [char_of r]
      else if r < 2048 then [char_of (192 + r div 64), char_of (128 + r mod 64)]
      else if r < 65536 then
        [char_of (224 + r div 4096), char_of (128 + r div 64 mod 64), char_of (128 + r mod 64)]
      else [char_of (240 + r div 262144), char_of (128 + r div 4096 mod 64),
            char_of (128 + r div 64 mod 64), char_of (128 + r mod 64)])"

function utf8_valid :: "string \<Rightarrow> bool" where
  "utf8_valid [] = True"
| "utf8_valid (c # cs) =
     (if (of_char c :: int) < 128 then utf8_valid cs
      else (case utf8_width (c # cs) of None \<Rightarrow> False | Some w \<Rightarrow> utf8_valid (drop (w - 1) cs)))"
  by pat_completeness auto
termination by (relation "measure length") auto

section \<open>Writing\<close>

definition escape_ascii :: "char \<Rightarrow> string" where
  "escape_ascii c =
     (if c = CHR 0x22 \<or> c = CHR 0x5C then [CHR 0x5C, c]
      else if c = CHR 0x08 then [CHR 0x5C, CHR ''b'']
      else if c = CHR 0x0C then [CHR 0x5C, CHR ''f'']
      else if c = CHR 0x0A then [CHR 0x5C, CHR ''n'']
      else if c = CHR 0x0D then [CHR 0x5C, CHR ''r'']
      else if c = CHR 0x09 then [CHR 0x5C, CHR ''t'']
      else if (of_char c :: int) < 32 \<or> c = CHR ''<'' \<or> c = CHR ''>'' \<or> c = CHR ''&''
        then [CHR 0x5C, CHR ''u'', CHR ''0'', CHR ''0''] @ hex_byte c
      else [c])"

text \<open>U+2028 and U+2029, which are escaped although they are valid.\<close>

definition line_separator :: "string \<Rightarrow> bool" where
  "line_separator s \<longleftrightarrow> s = [CHR 0xE2, CHR 0x80, CHR 0xA8] \<or> s = [CHR 0xE2, CHR 0x80, CHR 0xA9]"

definition escape_rune :: "string \<Rightarrow> string" where
  "escape_rune s =
     (if line_separator s then [CHR 0x5C, CHR ''u'', CHR ''2'', CHR ''0'', CHR ''2'',
                                if s ! 2 = CHR 0xA8 then CHR ''8'' else CHR ''9'']
      else s)"

function escape_string :: "string \<Rightarrow> string" where
  "escape_string [] = []"
| "escape_string (c # cs) =
     (if (of_char c :: int) < 128 then escape_ascii c @ escape_string cs
      else (case utf8_width (c # cs) of
              None \<Rightarrow> [CHR 0x5C, CHR ''u'', CHR ''f'', CHR ''f'', CHR ''f'', CHR ''d''] @ escape_string cs
            | Some w \<Rightarrow> escape_rune (take w (c # cs)) @ escape_string (drop (w - 1) cs)))"
  by pat_completeness auto
termination by (relation "measure length") auto

definition quote :: "string \<Rightarrow> string" where
  "quote s = [CHR 0x22] @ escape_string s @ [CHR 0x22]"

fun sep_by :: "string list \<Rightarrow> string" where
  "sep_by [] = []"
| "sep_by [x] = x"
| "sep_by (x # y # ys) = x @ '','' @ sep_by (y # ys)"

fun json_text :: "json \<Rightarrow> string" where
  "json_text JNull = ''null''"
| "json_text (JBool b) = (if b then ''true'' else ''false'')"
| "json_text (JNum t) = t"
| "json_text (JStr s) = quote s"
| "json_text (JArr js) = ''['' @ sep_by (map json_text js) @ '']''"
| "json_text (JObj ms) = ''{'' @ sep_by (map (\<lambda>(k, v). quote k @ '':'' @ json_text v) ms) @ ''}''"

section \<open>Reading\<close>

definition is_ws :: "char \<Rightarrow> bool" where
  "is_ws c \<longleftrightarrow> c = CHR '' '' \<or> c = CHR 0x09 \<or> c = CHR 0x0A \<or> c = CHR 0x0D"

definition hex4 :: "string \<Rightarrow> int option" where
  "hex4 s =
     (if length s < 4 then None
      else case (hex_val (s ! 0), hex_val (s ! 1), hex_val (s ! 2), hex_val (s ! 3)) of
             (Some a, Some b, Some c, Some d) \<Rightarrow> Some (4096 * a + 256 * b + 16 * c + d)
           | _ \<Rightarrow> None)"

definition unescape_char :: "char \<Rightarrow> char option" where
  "unescape_char e =
     (if e = CHR 0x22 \<or> e = CHR 0x5C \<or> e = CHR ''/'' then Some e
      else if e = CHR ''b'' then Some (CHR 0x08)
      else if e = CHR ''f'' then Some (CHR 0x0C)
      else if e = CHR ''n'' then Some (CHR 0x0A)
      else if e = CHR ''r'' then Some (CHR 0x0D)
      else if e = CHR ''t'' then Some (CHR 0x09)
      else None)"

text \<open>The rune of a \<open>\u\<close> escape whose digits start the text, and the number of bytes read.\<close>

definition unescape_u :: "string \<Rightarrow> (string \<times> nat) option" where
  "unescape_u r =
     (case hex4 r of
        None \<Rightarrow> None
      | Some u \<Rightarrow>
          if 55296 \<le> u \<and> u < 57344 then
            (case (if take 2 (drop 4 r) = [CHR 0x5C, CHR ''u''] then hex4 (drop 6 r) else None) of
               Some v \<Rightarrow>
                 if u < 56320 \<and> 56320 \<le> v \<and> v < 57344
                 then Some (utf8_encode ((u - 55296) * 1024 + (v - 56320) + 65536), 10)
                 else Some (utf8_replacement, 4)
             | None \<Rightarrow> Some (utf8_replacement, 4))
          else Some (utf8_encode u, 4))"

definition prepend :: "string \<Rightarrow> (string \<times> string) option \<Rightarrow> (string \<times> string) option" where
  "prepend x r = map_option (\<lambda>(s, rest). (x @ s, rest)) r"

function scan_string :: "string \<Rightarrow> (string \<times> string) option" where
  "scan_string [] = None"
| "scan_string (c # cs) =
     (if c = CHR 0x22 then Some ([], cs)
      else if c = CHR 0x5C then
        (case cs of
           [] \<Rightarrow> None
         | e # r \<Rightarrow>
             if e = CHR ''u'' then
               (case unescape_u r of
                  None \<Rightarrow> None
                | Some (x, n) \<Rightarrow> prepend x (scan_string (drop n r)))
             else (case unescape_char e of None \<Rightarrow> None | Some x \<Rightarrow> prepend [x] (scan_string r)))
      else if (of_char c :: int) < 32 then None
      else if (of_char c :: int) < 128 then prepend [c] (scan_string cs)
      else (case utf8_width (c # cs) of
              None \<Rightarrow> prepend utf8_replacement (scan_string cs)
            | Some w \<Rightarrow> prepend (take w (c # cs)) (scan_string (drop (w - 1) cs))))"
  by pat_completeness auto
termination by (relation "measure length") auto

definition scan_digits :: "string \<Rightarrow> string \<times> string" where
  "scan_digits s = (takeWhile is_digit s, dropWhile is_digit s)"

definition scan_frac :: "string \<Rightarrow> (string \<times> string) option" where
  "scan_frac s =
     (if take 1 s = ''.'' then
        (let (ds, r) = scan_digits (drop 1 s) in if ds = [] then None else Some (''.'' @ ds, r))
      else Some ([], s))"

definition scan_exp :: "string \<Rightarrow> (string \<times> string) option" where
  "scan_exp s =
     (if take 1 s = ''e'' \<or> take 1 s = ''E'' then
        (let sg = (if take 1 (drop 1 s) = ''+'' \<or> take 1 (drop 1 s) = ''-'' then take 1 (drop 1 s) else []);
             (ds, r) = scan_digits (drop (1 + length sg) s)
         in if ds = [] then None else Some (take 1 s @ sg @ ds, r))
      else Some ([], s))"

definition scan_number :: "string \<Rightarrow> (string \<times> string) option" where
  "scan_number s =
     (let sg = (if take 1 s = ''-'' then ''-'' else []);
          s1 = drop (length sg) s;
          (ds0, r0) = scan_digits s1;
          (ds, r) = (if take 1 ds0 = ''0'' then (''0'', drop 1 s1) else (ds0, r0))
      in if ds = [] then None
         else case scan_frac r of
                None \<Rightarrow> None
              | Some (f, r1) \<Rightarrow>
                  (case scan_exp r1 of None \<Rightarrow> None | Some (e, r2) \<Rightarrow> Some (sg @ ds @ f @ e, r2)))"

definition skip_ws :: "string \<Rightarrow> string" where
  "skip_ws s = dropWhile is_ws s"

definition max_depth :: nat where "max_depth = 10000"

text \<open>
  The first argument bounds the recursion; every call consumes a byte of the text, so its length
  suffices.  The second counts the open arrays and objects.
\<close>

fun parse_value :: "nat \<Rightarrow> nat \<Rightarrow> string \<Rightarrow> (json \<times> string) option"
  and parse_elems :: "nat \<Rightarrow> nat \<Rightarrow> string \<Rightarrow> (json list \<times> string) option"
  and parse_members :: "nat \<Rightarrow> nat \<Rightarrow> string \<Rightarrow> ((string \<times> json) list \<times> string) option"
where
  "parse_value 0 d s = None"
| "parse_value (Suc n) d s0 =
     (let s = skip_ws s0
      in if take 4 s = ''null'' then Some (JNull, drop 4 s)
         else if take 4 s = ''true'' then Some (JBool True, drop 4 s)
         else if take 5 s = ''false'' then Some (JBool False, drop 5 s)
         else if take 1 s = [CHR 0x22] then map_option (\<lambda>(x, r). (JStr x, r)) (scan_string (drop 1 s))
         else if take 1 s = ''['' then
           (if d \<ge> max_depth then None
            else if take 1 (skip_ws (drop 1 s)) = '']'' then Some (JArr [], drop 1 (skip_ws (drop 1 s)))
            else map_option (\<lambda>(js, r). (JArr js, r)) (parse_elems n (Suc d) (drop 1 s)))
         else if take 1 s = ''{'' then
           (if d \<ge> max_depth then None
            else if take 1 (skip_ws (drop 1 s)) = ''}'' then Some (JObj [], drop 1 (skip_ws (drop 1 s)))
            else map_option (\<lambda>(ms, r). (JObj ms, r)) (parse_members n (Suc d) (drop 1 s)))
         else map_option (\<lambda>(x, r). (JNum x, r)) (scan_number s))"
| "parse_elems 0 d s = None"
| "parse_elems (Suc n) d s =
     (case parse_value n d s of
        None \<Rightarrow> None
      | Some (j, r0) \<Rightarrow>
          (let r = skip_ws r0
           in if take 1 r = '','' then
                map_option (\<lambda>(js, r'). (j # js, r')) (parse_elems n d (drop 1 r))
              else if take 1 r = '']'' then Some ([j], drop 1 r)
              else None))"
| "parse_members 0 d s = None"
| "parse_members (Suc n) d s0 =
     (let s = skip_ws s0
      in if take 1 s = [CHR 0x22] then
           (case scan_string (drop 1 s) of
              None \<Rightarrow> None
            | Some (k, r0) \<Rightarrow>
                if take 1 (skip_ws r0) = '':'' then
                  (case parse_value n d (drop 1 (skip_ws r0)) of
                     None \<Rightarrow> None
                   | Some (j, r1) \<Rightarrow>
                       (let r = skip_ws r1
                        in if take 1 r = '','' then
                             map_option (\<lambda>(ms, r'). ((k, j) # ms, r')) (parse_members n d (drop 1 r))
                           else if take 1 r = ''}'' then Some ([(k, j)], drop 1 r)
                           else None))
                else None)
         else None)"

definition parse_json :: "string \<Rightarrow> json option" where
  "parse_json s =
     (case parse_value (2 * length s + 2) 0 s of
        None \<Rightarrow> None
      | Some (j, r) \<Rightarrow> if skip_ws r = [] then Some j else None)"

section \<open>Reading back what was written\<close>

lemma prepend_Some [simp]: "prepend x (Some (s, r)) = Some (x @ s, r)"
  by (simp add: prepend_def)

lemma of_char_bounds: "0 \<le> (of_char c :: int)" "(of_char c :: int) < 256"
proof -
  have "(of_char c :: int) = of_char c mod 256" by simp
  then show "0 \<le> (of_char c :: int)" "(of_char c :: int) < 256"
    by (metis pos_mod_sign zero_less_numeral, metis pos_mod_bound zero_less_numeral)
qed

lemma hex_byte_vals:
  "hex_val (hex_digit ((of_char c :: int) div 16)) = Some (of_char c div 16)"
  "hex_val (hex_digit ((of_char c :: int) mod 16)) = Some (of_char c mod 16)"
  using of_char_bounds [of c] by (auto intro!: hex_val_digit)

lemma unescape_u_byte:
  assumes "(of_char c :: int) < 128"
  shows "unescape_u (''00'' @ hex_byte c @ x) = Some ([c], 4)"
proof -
  have z: "hex_val (CHR ''0'') = Some 0" by code_simp
  have "16 * ((of_char c :: int) div 16) + of_char c mod 16 = of_char c" by simp
  then have "hex4 (''00'' @ hex_byte c @ x) = Some (of_char c)"
    using z hex_byte_vals [of c] by (simp add: hex4_def hex_byte_def numeral_nat)
  then show ?thesis using assms by (simp add: unescape_u_def utf8_encode_def)
qed

lemma scan_escape_ascii:
  assumes "(of_char c :: int) < 128"
  shows "scan_string (escape_ascii c @ x) = prepend [c] (scan_string x)"
proof -
  let ?u = "(of_char c :: int) < 32 \<or> c = CHR ''<'' \<or> c = CHR ''>'' \<or> c = CHR ''&''"
  let ?S = "{CHR 0x22, CHR 0x5C, CHR 0x08, CHR 0x0C, CHR 0x0A, CHR 0x0D, CHR 0x09}"
  show ?thesis
  proof (cases "c \<in> ?S")
    case True
    then show ?thesis
      by (elim insertE emptyE) (simp_all add: escape_ascii_def unescape_char_def)
  next
    case False
    then have e: "escape_ascii c = (if ?u then [CHR 0x5C, CHR ''u'', CHR ''0'', CHR ''0''] @ hex_byte c else [c])"
      unfolding escape_ascii_def by (simp only: insert_iff de_Morgan_disj if_False simp_thms)
    show ?thesis
    proof (cases ?u)
      case True
      with e have e': "escape_ascii c = [CHR 0x5C, CHR ''u'', CHR ''0'', CHR ''0''] @ hex_byte c"
        by (simp only: if_True)
      have "unescape_u (CHR ''0'' # CHR ''0'' # hex_byte c @ x) = Some ([c], 4)"
        using unescape_u_byte [OF assms, of x] by simp
      moreover have "drop 4 (CHR ''0'' # CHR ''0'' # hex_byte c @ x) = x" by (simp add: hex_byte_def)
      ultimately show ?thesis using e' by simp
    next
      case u: False
      with e have "escape_ascii c = [c]" by (simp only: if_False)
      moreover have "c \<noteq> CHR 0x22" "c \<noteq> CHR 0x5C" "\<not> (of_char c :: int) < 32"
        using False u by (simp_all only: insert_iff de_Morgan_disj simp_thms not_False_eq_True)
      ultimately show ?thesis using assms by simp
    qed
  qed
qed

lemma utf8_width_bounds: "utf8_width s = Some w \<Longrightarrow> 2 \<le> w \<and> w \<le> length s"
  by (auto simp: utf8_width_def Let_def split: if_splits)

lemma utf8_width_cong:
  assumes "utf8_width s = Some w" "w \<le> length t" "\<And>i. i < w \<Longrightarrow> t ! i = s ! i"
  shows "utf8_width t = Some w"
proof -
  have w: "2 \<le> w" using utf8_width_bounds [OF assms(1)] by auto
  then have h: "t ! 0 = s ! 0" "t ! 1 = s ! 1" using assms(3) by simp_all
  define n where "n = (of_char (s ! 0) :: int)"
  consider "194 \<le> n \<and> n \<le> 223" | "\<not> (194 \<le> n \<and> n \<le> 223)" "224 \<le> n \<and> n \<le> 239"
    | "\<not> (194 \<le> n \<and> n \<le> 223)" "\<not> (224 \<le> n \<and> n \<le> 239)" "240 \<le> n \<and> n \<le> 244"
    | "\<not> (194 \<le> n \<and> n \<le> 223)" "\<not> (224 \<le> n \<and> n \<le> 239)" "\<not> (240 \<le> n \<and> n \<le> 244)" by linarith
  then show ?thesis
  proof cases
    case 1
    with assms(1) have "w = 2" "cont 128 191 (s ! 1)"
      unfolding utf8_width_def Let_def n_def [symmetric] by (simp_all split: if_splits)
    with 1 assms(2) show ?thesis unfolding utf8_width_def Let_def h n_def [symmetric] by simp
  next
    case 2
    with assms(1) have "w = 3" "cont (if n = 224 then 160 else 128) (if n = 237 then 159 else 191) (s ! 1)"
      "cont 128 191 (s ! 2)"
      unfolding utf8_width_def Let_def n_def [symmetric] if_not_P [OF 2(1)] if_P [OF 2(2)]
      by (simp_all split: if_split_asm)
    with 2 assms(2) assms(3) [of 2] show ?thesis
      unfolding utf8_width_def Let_def h n_def [symmetric] if_not_P [OF 2(1)] if_P [OF 2(2)] by simp
  next
    case 3
    with assms(1) have "w = 4" "cont (if n = 240 then 144 else 128) (if n = 244 then 143 else 191) (s ! 1)"
      "cont 128 191 (s ! 2)" "cont 128 191 (s ! 3)"
      unfolding utf8_width_def Let_def n_def [symmetric] if_not_P [OF 3(1)] if_not_P [OF 3(2)] if_P [OF 3(3)]
      by (simp_all split: if_split_asm)
    with 3 assms(2) assms(3) [of 2] assms(3) [of 3] show ?thesis
      unfolding utf8_width_def Let_def h n_def [symmetric] if_not_P [OF 3(1)] if_not_P [OF 3(2)] if_P [OF 3(3)]
      by simp
  next
    case 4
    with assms(1) show ?thesis unfolding utf8_width_def Let_def n_def [symmetric] by simp
  qed
qed

lemma utf8_width_take:
  assumes "utf8_width s = Some w"
  shows "utf8_width (take w s @ x) = Some w"
proof (rule utf8_width_cong [OF assms])
  have w: "w \<le> length s" using utf8_width_bounds [OF assms] by simp
  then show "w \<le> length (take w s @ x)" by simp
  show "\<And>i. i < w \<Longrightarrow> (take w s @ x) ! i = s ! i" using w by (simp add: nth_append)
qed

lemma separator_bytes:
  "char_of (226 :: int) = CHR 0xE2" "char_of (128 :: int) = CHR 0x80"
  "char_of (168 :: int) = CHR 0xA8" "char_of (169 :: int) = CHR 0xA9"
  by code_simp+

lemma scan_escape_rune:
  assumes "128 \<le> (of_char c :: int)" "utf8_width (c # cs) = Some w"
  shows "scan_string (escape_rune (take w (c # cs)) @ x) = prepend (take w (c # cs)) (scan_string x)"
proof (cases "line_separator (take w (c # cs))")
  case True
  then consider "take w (c # cs) = [CHR 0xE2, CHR 0x80, CHR 0xA8]"
    | "take w (c # cs) = [CHR 0xE2, CHR 0x80, CHR 0xA9]" by (auto simp: line_separator_def)
  then show ?thesis
  proof cases
    case 1
    have "unescape_u (''2028'' @ x) = Some ([CHR 0xE2, CHR 0x80, CHR 0xA8], 4)"
      by (simp add: unescape_u_def hex4_def hex_val_def Let_def numeral_nat)
        (simp add: utf8_encode_def separator_bytes)
    then show ?thesis using 1 True by (simp add: escape_rune_def numeral_nat)
  next
    case 2
    have "unescape_u (''2029'' @ x) = Some ([CHR 0xE2, CHR 0x80, CHR 0xA9], 4)"
      by (simp add: unescape_u_def hex4_def hex_val_def Let_def numeral_nat)
        (simp add: utf8_encode_def separator_bytes)
    then show ?thesis using 2 True by (simp add: escape_rune_def numeral_nat)
  qed
next
  case False
  have w: "2 \<le> w" "w \<le> length (c # cs)" using utf8_width_bounds [OF assms(2)] by auto
  then obtain v where v: "w = Suc v" by (cases w) auto
  have "utf8_width (take w (c # cs) @ x) = Some w" by (rule utf8_width_take [OF assms(2)])
  then have u: "utf8_width (c # (take v cs @ x)) = Some w" by (simp add: v)
  have "c \<noteq> CHR 0x22" "c \<noteq> CHR 0x5C" using assms(1) by auto
  then show ?thesis
    using u False assms(1) w(2) by (simp add: escape_rune_def v)
qed

lemma scan_escape_string: "utf8_valid s \<Longrightarrow> scan_string (escape_string s @ CHR 0x22 # r) = Some (s, r)"
proof (induction s rule: escape_string.induct)
  case (2 c cs)
  show ?case
  proof (cases "(of_char c :: int) < 128")
    case True
    with 2 show ?thesis using scan_escape_ascii [OF True] by simp
  next
    case False
    with 2 obtain w where w: "utf8_width (c # cs) = Some w" "utf8_valid (drop (w - 1) cs)"
      by (auto split: option.splits)
    have "2 \<le> w" "w \<le> length (c # cs)" using utf8_width_bounds [OF w(1)] by auto
    then have "take w (c # cs) @ drop (w - 1) cs = c # cs" by (cases w) auto
    moreover have "scan_string (escape_string (drop (w - 1) cs) @ CHR 0x22 # r) = Some (drop (w - 1) cs, r)"
      using "2.IH"(3) [OF False w(1) w(2)] .
    ultimately show ?thesis
      using False w(1) scan_escape_rune [OF _ w(1)] by (simp del: take_Suc_Cons)
  qed
qed simp

text \<open>A number is followed by the end of the text or by one of the characters that end a value.\<close>

definition stops :: "string \<Rightarrow> bool" where
  "stops r \<longleftrightarrow> r = [] \<or> hd r = CHR '','' \<or> hd r = CHR '']'' \<or> hd r = CHR ''}''"

abbreviation app_rest :: "string \<Rightarrow> (string \<times> string) option \<Rightarrow> (string \<times> string) option" where
  "app_rest r x \<equiv> map_option (\<lambda>(a, b). (a, b @ r)) x"

lemma stops_cases:
  assumes "stops r"
  obtains "r = []" | c t where "r = c # t" "c = CHR '','' \<or> c = CHR '']'' \<or> c = CHR ''}''"
  using assms that by (cases r) (auto simp: stops_def)

text \<open>What cannot continue a number.\<close>

definition num_end :: "string \<Rightarrow> bool" where
  "num_end r \<longleftrightarrow> r = [] \<or> \<not> is_digit (hd r) \<and> hd r \<notin> set ''.eE+-''"

lemma stops_num_end: "stops r \<Longrightarrow> num_end r"
  by (auto simp: stops_def num_end_def is_digit_def)

lemma num_end_not_digit: "num_end r \<Longrightarrow> r = [] \<or> \<not> is_digit (hd r)"
  by (auto simp: num_end_def)

lemma stops_take: "stops r \<Longrightarrow> take 1 (s @ r) = [c] \<Longrightarrow>
    c \<noteq> CHR '','' \<Longrightarrow> c \<noteq> CHR '']'' \<Longrightarrow> c \<noteq> CHR ''}'' \<Longrightarrow> take 1 s = [c]"
  by (cases s; cases r) (auto simp: stops_def)

lemma takeWhile_app:
  "r = [] \<or> \<not> P (hd r) \<Longrightarrow> takeWhile P (s @ r) = takeWhile P s \<and> dropWhile P (s @ r) = dropWhile P s @ r"
  by (induction s) (auto simp: takeWhile_eq_Nil_iff dropWhile_eq_self_iff)

lemma scan_digits_app: "num_end r \<Longrightarrow> scan_digits (s @ r) = (fst (scan_digits s), snd (scan_digits s) @ r)"
  using takeWhile_app [where P = is_digit and r = r and s = s] num_end_not_digit [of r]
  by (simp add: scan_digits_def)

lemma scan_frac_app:
  assumes "num_end r"
  shows "scan_frac (s @ r) = app_rest r (scan_frac s)"
proof (cases s)
  case Nil
  then show ?thesis using assms by (cases r) (auto simp: scan_frac_def num_end_def)
next
  case (Cons c t)
  then show ?thesis using scan_digits_app [OF assms, of t] by (auto simp: scan_frac_def split_beta)
qed

lemma scan_exp_app:
  assumes "num_end r"
  shows "scan_exp (s @ r) = app_rest r (scan_exp s)"
proof (cases s)
  case Nil
  then show ?thesis using assms by (cases r) (auto simp: scan_exp_def num_end_def)
next
  case (Cons c t)
  have sg: "take 1 (t @ r) = [x] \<longleftrightarrow> take 1 t = [x]" if "x = CHR ''+'' \<or> x = CHR ''-''" for x
    using that assms by (cases t; cases r) (auto simp: num_end_def)
  have d: "scan_digits (drop k (t @ r)) = (fst (scan_digits (drop k t)), snd (scan_digits (drop k t)) @ r)"
    if "k \<le> length t" for k using that scan_digits_app [OF assms, of "drop k t"] by simp
  show ?thesis
  proof (cases "take 1 t = ''+'' \<or> take 1 t = ''-''")
    case True
    then have "1 \<le> length t" by (cases t) auto
    with True Cons d [of 1] sg show ?thesis by (auto simp: scan_exp_def split_beta Let_def)
  next
    case False
    with Cons d [of 0] sg show ?thesis by (auto simp: scan_exp_def split_beta Let_def)
  qed
qed

lemma scan_number_app:
  assumes "num_end r" "s \<noteq> []"
  shows "scan_number (s @ r) = app_rest r (scan_number s)"
proof -
  let ?sg = "if take 1 s = ''-'' then ''-'' else []"
  let ?t = "drop (length ?sg) s"
  have sg: "(if take 1 (s @ r) = ''-'' then ''-'' else []) = ?sg" using assms(2) by (cases s) auto
  have t: "drop (length ?sg) (s @ r) = ?t @ r" using assms(2) by (cases s) auto
  have z: "take 1 (takeWhile is_digit (?t @ r)) = ''0'' \<longleftrightarrow> take 1 (takeWhile is_digit ?t) = ''0''"
    using takeWhile_app [where P = is_digit and r = r and s = ?t] num_end_not_digit [OF assms(1)] by simp
  have dz: "drop 1 (?t @ r) = drop 1 ?t @ r" if "take 1 (takeWhile is_digit ?t) = ''0''"
    using that by (cases ?t) auto
  show ?thesis
    unfolding scan_number_def Let_def sg t scan_digits_app [OF assms(1)]
    using scan_frac_app [OF assms(1)] scan_exp_app [OF assms(1)] dz
    by (auto simp: split_beta scan_digits_def split: option.splits if_splits)
qed

fun json_ok :: "nat \<Rightarrow> json \<Rightarrow> bool" where
  "json_ok d (JNum t) \<longleftrightarrow> scan_number t = Some (t, [])"
| "json_ok d (JStr s) \<longleftrightarrow> utf8_valid s"
| "json_ok d (JArr js) \<longleftrightarrow> d < max_depth \<and> list_all (json_ok (Suc d)) js"
| "json_ok d (JObj ms) \<longleftrightarrow> d < max_depth \<and> list_all (\<lambda>(k, v). utf8_valid k \<and> json_ok (Suc d) v) ms"
| "json_ok d _ \<longleftrightarrow> True"

definition value_head :: "string \<Rightarrow> bool" where
  "value_head s \<longleftrightarrow> s \<noteq> [] \<and> \<not> is_ws (hd s) \<and> hd s \<noteq> CHR '']'' \<and> hd s \<noteq> CHR ''}''"

lemma number_head:
  assumes "scan_number t = Some (t, [])"
  shows "t \<noteq> [] \<and> (hd t = CHR ''-'' \<or> is_digit (hd t))"
proof (cases t)
  case Nil
  with assms show ?thesis by (simp add: scan_number_def scan_digits_def)
next
  case (Cons c u)
  then show ?thesis
    using assms by (auto simp: scan_number_def scan_digits_def Let_def split: if_splits)
qed

lemma digit_range: "is_digit c \<Longrightarrow> 48 \<le> (of_char c :: int) \<and> (of_char c :: int) \<le> 57"
  by (simp add: is_digit_def)

lemma text_head: "json_ok d j \<Longrightarrow> value_head (json_text j)"
proof (cases j)
  case (JNum t)
  assume "json_ok d j"
  with JNum have "t \<noteq> []" "hd t = CHR ''-'' \<or> is_digit (hd t)" using number_head by auto
  with JNum show ?thesis by (auto simp: value_head_def is_ws_def dest: digit_range)
qed (auto simp: value_head_def is_ws_def quote_def)

lemma skip_ws_head: "value_head s \<Longrightarrow> skip_ws (s @ r) = s @ r"
  by (cases s) (auto simp: value_head_def skip_ws_def)

lemma scan_quote: "utf8_valid s \<Longrightarrow> scan_string (drop 1 (quote s @ r)) = Some (s, r)"
  using scan_escape_string [of s r] by (simp add: quote_def)

lemma skip_ws_stop: "stops r \<Longrightarrow> skip_ws r = r"
  by (elim stops_cases) (auto simp: skip_ws_def is_ws_def)

text \<open>The reader on the elements of an array and on the members of an object.\<close>

lemma parse_elems_sep:
  assumes "\<And>j n r. j \<in> set js \<Longrightarrow> length (json_text j) < n \<Longrightarrow> stops r \<Longrightarrow>
      parse_value n d (json_text j @ r) = Some (j, r)"
    and "js \<noteq> []" "length (sep_by (map json_text js)) + 1 < n"
  shows "parse_elems n d (sep_by (map json_text js) @ '']'' @ r) = Some (js, r)"
  using assms
proof (induction js arbitrary: n)
  case (Cons j js)
  then obtain k where n: "n = Suc k" by (cases n) auto
  show ?case
  proof (cases js)
    case Nil
    have "parse_value k d (json_text j @ '']'' @ r) = Some (j, '']'' @ r)"
      using Cons.prems(3) Nil n by (intro Cons.prems(1)) (auto simp: stops_def)
    with Nil n show ?thesis by (simp add: skip_ws_def is_ws_def)
  next
    case (Cons j' js')
    let ?rest = "sep_by (map json_text js) @ '']'' @ r"
    have len: "length (json_text j) + 1 + length (sep_by (map json_text js)) + 1 < n"
      using Cons.prems(3) Cons by simp
    have "parse_value k d (json_text j @ '','' @ ?rest) = Some (j, '','' @ ?rest)"
      using len n by (intro Cons.prems(1)) (auto simp: stops_def)
    moreover have "parse_elems k d ?rest = Some (js, r)"
      using len n Cons by (intro Cons.IH Cons.prems(1)) auto
    ultimately show ?thesis using Cons n by (simp add: skip_ws_def is_ws_def)
  qed
qed simp

abbreviation member_text :: "string \<times> json \<Rightarrow> string" where
  "member_text \<equiv> \<lambda>(k, v). quote k @ '':'' @ json_text v"

lemma parse_member_step:
  assumes "utf8_valid k" "parse_value n d (json_text v @ r) = Some (v, r)" "stops r" "r \<noteq> []"
  shows "parse_members (Suc n) d (member_text (k, v) @ r) =
    (if hd r = CHR '','' then map_option (\<lambda>(ms, r'). ((k, v) # ms, r')) (parse_members n d (tl r))
     else if hd r = CHR ''}'' then Some ([(k, v)], tl r) else None)"
proof -
  have q: "take 1 (quote k @ x) = [CHR 0x22]" "skip_ws (quote k @ x) = quote k @ x" for x
    by (simp_all add: quote_def skip_ws_def is_ws_def)
  have c: "skip_ws (CHR '':'' # x) = CHR '':'' # x" for x by (simp add: skip_ws_def is_ws_def)
  have t: "take 1 r = [hd r]" "drop 1 r = tl r" using assms(4) by (cases r; simp)+
  show ?thesis
    unfolding parse_members.simps Let_def prod.case append.assoc q(2) q(1) scan_quote [OF assms(1)]
    using assms(2) t by (simp add: c skip_ws_stop [OF assms(3)])
qed

lemma parse_members_sep:
  assumes "\<And>k v n r. (k, v) \<in> set ms \<Longrightarrow> length (json_text v) < n \<Longrightarrow> stops r \<Longrightarrow>
      parse_value n d (json_text v @ r) = Some (v, r)"
    and "\<And>k v. (k, v) \<in> set ms \<Longrightarrow> utf8_valid k"
    and "ms \<noteq> []" "length (sep_by (map member_text ms)) + 1 < n"
  shows "parse_members n d (sep_by (map member_text ms) @ ''}'' @ r) = Some (ms, r)"
  using assms
proof (induction ms arbitrary: n)
  case (Cons m ms)
  obtain k v where m: "m = (k, v)" by (cases m)
  obtain i where n: "n = Suc i" using Cons.prems(4) by (cases n) auto
  have k: "utf8_valid k" using Cons.prems(2) [of k v] m by simp
  show ?case
  proof (cases "ms = []")
    case True
    have "parse_value i d (json_text v @ ''}'' @ r) = Some (v, ''}'' @ r)"
      using Cons.prems(4) True n m by (intro Cons.prems(1) [of k]) (auto simp: stops_def)
    with True n m parse_member_step [OF k this] show ?thesis by (simp add: stops_def)
  next
    case False
    then obtain m' ms' where ms: "ms = m' # ms'" by (cases ms) auto
    let ?rest = "sep_by (map member_text ms) @ ''}'' @ r"
    have tx: "sep_by (map member_text (m # ms)) @ ''}'' @ r = member_text (k, v) @ '','' @ ?rest"
      using m ms by simp
    have len: "length (json_text v) + 1 + length (sep_by (map member_text ms)) + 1 < n"
      using Cons.prems(4) m ms by simp
    have "parse_value i d (json_text v @ '','' @ ?rest) = Some (v, '','' @ ?rest)"
      using len n m by (intro Cons.prems(1) [of k]) (auto simp: stops_def)
    moreover have "parse_members i d ?rest = Some (ms, r)"
    proof (rule Cons.IH [OF _ _ False])
      show "length (sep_by (map member_text ms)) + 1 < i" using len n by simp
    qed (use Cons.prems(1,2) in \<open>meson list.set_intros(2)\<close>)+
    ultimately show ?thesis
      unfolding tx n using parse_member_step [OF k] m by (simp add: stops_def)
  qed
qed simp

lemma take_head_neq: "s \<noteq> [] \<Longrightarrow> hd s \<noteq> c \<Longrightarrow> take (Suc n) (s @ r) \<noteq> c # cs"
  by (cases s) auto

lemma parse_value_number:
  assumes "scan_number t = Some (t, [])" "stops r"
  shows "parse_value (Suc n) d (t @ r) = Some (JNum t, r)"
proof -
  have h: "t \<noteq> []" "hd t = CHR ''-'' \<or> is_digit (hd t)" using number_head [OF assms(1)] by auto
  have "\<not> is_ws (hd t)" using h(2) by (auto simp: is_ws_def is_digit_def)
  then have s: "skip_ws (t @ r) = t @ r" using h(1) by (cases t) (auto simp: skip_ws_def)
  have ne: "hd t \<noteq> CHR ''n''" "hd t \<noteq> CHR ''t''" "hd t \<noteq> CHR ''f''" "hd t \<noteq> CHR 0x22"
    "hd t \<noteq> CHR ''[''" "hd t \<noteq> CHR ''{''" using h(2) by (auto simp: is_digit_def)
  have "scan_number (t @ r) = Some (t, r)" using scan_number_app [OF stops_num_end [OF assms(2)] h(1)] assms(1) by simp
  moreover have "take 4 (t @ r) \<noteq> ''null''" "take 4 (t @ r) \<noteq> ''true''" "take 5 (t @ r) \<noteq> ''false''"
    "take 1 (t @ r) \<noteq> [CHR 0x22]" "take 1 (t @ r) \<noteq> ''[''" "take 1 (t @ r) \<noteq> ''{''"
    using h(1) ne by (cases t; simp)+
  ultimately show ?thesis by (simp add: s)
qed

lemma parse_value_text:
  "json_ok d j \<Longrightarrow> length (json_text j) < n \<Longrightarrow> stops r \<Longrightarrow> parse_value n d (json_text j @ r) = Some (j, r)"
proof (induction j arbitrary: d n r)
  case (JNum t)
  then obtain k where "n = Suc k" by (cases n) auto
  with JNum parse_value_number [of t r k d] show ?case by (simp del: parse_value.simps)
next
  case (JStr s)
  then obtain k where "n = Suc k" by (cases n) auto
  with JStr scan_quote [of s r] show ?case by (simp add: quote_def skip_ws_def is_ws_def)
next
  case (JArr js)
  then obtain k where n: "n = Suc k" by (cases n) auto
  show ?case
  proof (cases "js = []")
    case True
    with JArr n show ?thesis by (simp add: skip_ws_def is_ws_def)
  next
    case False
    let ?t = "sep_by (map json_text js)"
    have "value_head (json_text (hd js))"
      using JArr.prems(1) False by (intro text_head [of "Suc d"]) (cases js, auto)
    then have h: "value_head ?t" using False by (cases js; cases "tl js") (auto simp: value_head_def)
    have "parse_elems k (Suc d) (?t @ '']'' @ r) = Some (js, r)"
      using JArr False n by (intro parse_elems_sep) (auto simp: list_all_iff)
    moreover have "skip_ws (?t @ '']'' @ r) = ?t @ '']'' @ r" using h by (rule skip_ws_head)
    moreover have "take 1 (?t @ '']'' @ r) \<noteq> '']''" using h by (cases ?t) (auto simp: value_head_def)
    ultimately show ?thesis using JArr.prems(1) n by (simp add: skip_ws_def is_ws_def)
  qed
next
  case (JObj ms)
  then obtain k where n: "n = Suc k" by (cases n) auto
  show ?case
  proof (cases "ms = []")
    case True
    with JObj n show ?thesis by (simp add: skip_ws_def is_ws_def)
  next
    case False
    let ?t = "sep_by (map member_text ms)"
    have h: "value_head ?t"
      using False by (cases ms; cases "tl ms") (auto simp: value_head_def quote_def is_ws_def)
    have "parse_members k (Suc d) (?t @ ''}'' @ r) = Some (ms, r)"
      using JObj False n by (intro parse_members_sep) (auto simp: list_all_iff)
    moreover have "skip_ws (?t @ ''}'' @ r) = ?t @ ''}'' @ r" using h by (rule skip_ws_head)
    moreover have "take 1 (?t @ ''}'' @ r) \<noteq> ''}''" using h by (cases ?t) (auto simp: value_head_def)
    ultimately show ?thesis using JObj.prems(1) n by (simp add: skip_ws_def is_ws_def)
  qed
qed (auto simp: skip_ws_def is_ws_def elim!: less_natE)

lemma parse_text: "json_ok 0 j \<Longrightarrow> parse_json (json_text j) = Some j"
  using parse_value_text [of 0 j "2 * length (json_text j) + 2" "[]"]
  by (simp add: parse_json_def stops_def skip_ws_def)

end
