(* ===== verification/JsonCut.thy ===== *)
theory JsonCut
  imports JsonText
begin

text \<open>
  Texts that were cut off: a text that opens an object and is followed by another object whose first
  key starts with \<open>i\<close>, as the records of the log do, is not a JSON document, wherever the first one
  stopped.  The reader either returns before the second object, or gets stuck inside it.
\<close>

abbreviation object_i :: "string \<Rightarrow> string" where
  "object_i t \<equiv> CHR ''{'' # CHR 0x22 # CHR ''i'' # t"

text \<open>What is left when a value ends in the second object: nothing it could go on with.\<close>

definition left_over :: "string \<Rightarrow> string \<Rightarrow> bool" where
  "left_over t r \<longleftrightarrow> r = [] \<or> r = CHR ''i'' # t \<or> (\<exists>q. r = q @ object_i t)"

lemma left_over_app [simp]: "left_over t (q @ object_i t)"
  by (auto simp: left_over_def)

section \<open>Strings\<close>

lemma utf8_width_high:
  assumes "utf8_width s = Some w" "0 < i" "i < w"
  shows "128 \<le> (of_char (s ! i) :: int)"
proof -
  have c: "cont lo hi x \<Longrightarrow> 128 \<le> lo \<Longrightarrow> 128 \<le> (of_char x :: int)" for lo hi x by (simp add: cont_def)
  have "i = 1 \<or> i = 2 \<or> i = 3"
    using assms by (auto simp: utf8_width_def Let_def split: if_splits)
  then show ?thesis
  proof (elim disjE)
    assume "i = 1"
    then show ?thesis using assms by (auto simp: utf8_width_def Let_def split: if_splits intro: c)
  qed (use assms in \<open>auto simp: utf8_width_def Let_def split: if_splits intro: c\<close>)
qed

lemma utf8_width_torn: "utf8_width (s @ object_i t) = Some w \<Longrightarrow> s \<noteq> [] \<Longrightarrow> w \<le> length s"
  using utf8_width_high [of "s @ object_i t" w "length s"] by (cases "w \<le> length s") auto

lemma hex4_torn: "hex4 (q @ object_i t) = Some v \<Longrightarrow> 4 \<le> length q"
proof (rule ccontr)
  assume h: "hex4 (q @ object_i t) = Some v" and "\<not> 4 \<le> length q"
  then have "length q = 0 \<or> length q = 1 \<or> length q = 2 \<or> length q = 3" by arith
  moreover have "hex_val (CHR ''{'') = None" by code_simp
  ultimately show False using h by (auto simp: hex4_def nth_append split: option.splits if_splits)
qed

lemma unescape_u_torn:
  assumes "unescape_u (r @ object_i t) = Some (x, n)"
  shows "n \<le> length r"
proof -
  obtain v where v: "hex4 (r @ object_i t) = Some v" using assms by (auto simp: unescape_u_def split: option.splits)
  note r = hex4_torn [OF v]
  have "10 \<le> length r" if "take 2 (drop 4 (r @ object_i t)) = [CHR 0x5C, CHR ''u'']" "hex4 (drop 6 (r @ object_i t)) = Some w" for w
  proof -
    have l: "\<not> length r \<le> 5"
    proof
      assume "length r \<le> 5"
      with r have "length r = 4 \<or> length r = 5" by auto
      then show False using that(1) by (auto simp: numeral_2_eq_2 take_Suc_conv_app_nth)
    qed
    then have "drop 6 (r @ object_i t) = drop 6 r @ object_i t" by simp
    with that(2) hex4_torn [of "drop 6 r" t w] l show ?thesis by simp
  qed
  with assms v r show ?thesis by (auto simp: unescape_u_def split: if_splits option.splits)
qed

lemma prepend_SomeE:
  assumes "prepend y z = Some (x, r)"
  obtains x' where "z = Some (x', r)" "x = y @ x'"
  using assms by (cases z) (auto simp: prepend_def)

lemma scan_string_torn:
  "scan_string (p @ object_i t) = Some (x, r) \<Longrightarrow> r = CHR ''i'' # t \<or> (\<exists>q. r = q @ object_i t)"
proof (induction p arbitrary: x rule: length_induct)
  case (1 p)
  then have IH: "scan_string (s @ object_i t) = Some (x, r) \<Longrightarrow> length s < length p \<Longrightarrow> ?case" for s x by blast
  show ?case
  proof (cases p)
    case Nil
    with 1(2) show ?thesis by simp
  next
    case (Cons c p')
    consider "c = CHR 0x22" | "c = CHR 0x5C" | y where "prepend y (scan_string (p' @ object_i t)) = Some (x, r)"
      | w where "c \<noteq> CHR 0x22" "c \<noteq> CHR 0x5C" "\<not> (of_char c :: int) < 128" "utf8_width ((c # p') @ object_i t) = Some w"
      using 1(2) Cons by (fastforce split: if_splits option.splits)
    then show ?thesis
    proof cases
      case 1
      with \<open>scan_string (p @ object_i t) = Some (x, r)\<close> Cons show ?thesis by auto
    next
      case 2
      then obtain e p'' where p': "p' = e # p''" using 1(2) Cons by (cases p') (auto simp: unescape_char_def)
      then consider y n where "unescape_u (p'' @ object_i t) = Some (y, n)" "prepend y (scan_string (drop n (p'' @ object_i t))) = Some (x, r)"
        | y where "prepend y (scan_string (p'' @ object_i t)) = Some (x, r)"
        using 1(2) Cons 2 by (auto split: if_splits option.splits)
      then show ?thesis
      proof cases
        case (1 y n)
        then show ?thesis
          using unescape_u_torn [OF 1(1)] IH [of "drop n p''"] Cons p' by (auto elim!: prepend_SomeE)
      next
        case (2 y)
        then show ?thesis using IH [of p''] Cons p' by (auto elim!: prepend_SomeE)
      qed
    next
      case (3 y)
      then show ?thesis using IH [of p'] Cons by (auto elim!: prepend_SomeE)
    next
      case (4 w)
      have w: "w \<le> length (c # p')" "2 \<le> w" using utf8_width_torn [OF 4(4)] utf8_width_bounds [OF 4(4)] by auto
      then have "\<exists>x'. scan_string (drop (w - 1) p' @ object_i t) = Some (x', r)"
        using 1(2) Cons 4 by (auto elim!: prepend_SomeE split: if_splits)
      then show ?thesis using IH [of "drop (w - 1) p'"] Cons by auto
    qed
  qed
qed

section \<open>Values\<close>

lemma skip_ws_app:
  "skip_ws s = [] \<Longrightarrow> skip_ws (s @ u) = skip_ws u"
  "skip_ws s \<noteq> [] \<Longrightarrow> skip_ws (s @ u) = skip_ws s @ u"
  by (auto simp: skip_ws_def dropWhile_append dropWhile_eq_Nil_conv)

lemma skip_ws_torn [simp]: "skip_ws (object_i t) = object_i t" "skip_ws (CHR ''i'' # t) = CHR ''i'' # t" "skip_ws [] = []"
  by (simp_all add: skip_ws_def is_ws_def)

text \<open>A delimiter found in what is left lies before the second object.\<close>

lemma delimiter_in:
  assumes "left_over t r" "take 1 (skip_ws r) = [c]" "c \<noteq> CHR ''{''" "c \<noteq> CHR ''i''"
  obtains q where "skip_ws r = c # q @ object_i t"
proof -
  obtain q where q: "r = q @ object_i t" using assms by (auto simp: left_over_def)
  show ?thesis
  proof (cases "skip_ws q")
    case Nil
    with assms(2,3) q show ?thesis by (simp add: skip_ws_app)
  next
    case (Cons a q')
    with assms(2) q have "skip_ws r = c # q' @ object_i t" by (simp add: skip_ws_app)
    then show ?thesis by (rule that)
  qed
qed

lemma literal_in:
  assumes "take k (p @ object_i t) = w" "length w = k" "CHR ''{'' \<notin> set w"
  shows "left_over t (drop k (p @ object_i t))"
proof -
  have "k \<le> length p"
  proof (rule ccontr)
    assume l: "\<not> k \<le> length p"
    then have "w ! length p = CHR ''{''" using assms(1) by (metis not_le nth_append_length nth_take)
    with assms(2,3) l show False by (metis not_le nth_mem)
  qed
  then show ?thesis by simp
qed

lemma number_left:
  assumes "scan_number (s @ object_i t) = Some (x, r)" "s \<noteq> []"
  shows "left_over t r"
proof -
  have "num_end (object_i t)" by (simp add: num_end_def is_digit_def)
  from scan_number_app [OF this assms(2)] assms(1) show ?thesis by (cases "scan_number s") auto
qed

lemma elems_step:
  assumes V: "\<And>p v r. parse_value n d (p @ object_i t) = Some (v, r) \<Longrightarrow> left_over t r"
    and E: "\<And>p v r. parse_elems n d (p @ object_i t) = Some (v, r) \<Longrightarrow> \<exists>q. r = q @ object_i t"
    and e: "parse_elems (Suc n) d (p @ object_i t) = Some (js, r)"
  shows "\<exists>q. r = q @ object_i t"
proof -
  obtain j r0 where j: "parse_value n d (p @ object_i t) = Some (j, r0)" using e by (auto split: option.splits)
  obtain c where c: "take 1 (skip_ws r0) = [c]" "c = CHR '','' \<or> c = CHR '']''" using e j by (auto simp: Let_def split: if_splits)
  obtain q where q: "skip_ws r0 = c # q @ object_i t" by (rule delimiter_in [OF V [OF j] c(1)]) (use c(2) in auto)
  from c(2) show ?thesis using e j q E [of q] by (auto split: if_splits)
qed

lemma members_step:
  assumes V: "\<And>p v r. parse_value n d (p @ object_i t) = Some (v, r) \<Longrightarrow> left_over t r"
    and M: "\<And>p v r. parse_members n d (p @ object_i t) = Some (v, r) \<Longrightarrow> \<exists>q. r = q @ object_i t"
    and m: "parse_members (Suc n) d (p @ object_i t) = Some (ms, r)"
  shows "\<exists>q. r = q @ object_i t"
proof -
  have "take 1 (skip_ws (p @ object_i t)) = [CHR 0x22]" using m by (auto simp: Let_def split: if_splits)
  then obtain p1 where p1: "skip_ws (p @ object_i t) = CHR 0x22 # p1 @ object_i t" by (rule delimiter_in [OF left_over_app]) auto
  obtain k r0 where k: "scan_string (p1 @ object_i t) = Some (k, r0)" "take 1 (skip_ws r0) = '':''"
    using m p1 by (auto split: option.splits if_splits)
  have "left_over t r0" using scan_string_torn [OF k(1)] by (auto simp: left_over_def)
  then obtain p2 where p2: "skip_ws r0 = CHR '':'' # p2 @ object_i t" using k(2) by (rule delimiter_in) auto
  obtain v r1 where v: "parse_value n d (p2 @ object_i t) = Some (v, r1)" using m p1 k(1) p2 by (auto split: option.splits)
  obtain c where c: "take 1 (skip_ws r1) = [c]" "c = CHR '','' \<or> c = CHR ''}''"
    using m p1 k(1) p2 v by (auto simp: Let_def split: if_splits)
  obtain q where q: "skip_ws r1 = c # q @ object_i t" by (rule delimiter_in [OF V [OF v] c(1)]) (use c(2) in auto)
  from c(2) show ?thesis using m p1 k(1) p2 v q M [of q] by (auto split: if_splits)
qed

lemma skip_ws_open: "skip_ws (CHR ''{'' # s) = CHR ''{'' # s" "skip_ws (CHR ''['' # s) = CHR ''['' # s"
  by (simp_all add: skip_ws_def is_ws_def)

lemma object_left:
  assumes "\<And>p v r. parse_members n (Suc d) (p @ object_i t) = Some (v, r) \<Longrightarrow> \<exists>q. r = q @ object_i t"
    and "parse_value (Suc n) d (CHR ''{'' # s @ object_i t) = Some (v, r)"
  shows "\<exists>q. r = q @ object_i t"
proof (cases "take 1 (skip_ws (s @ object_i t)) = ''}''")
  case True
  then obtain q where "skip_ws (s @ object_i t) = CHR ''}'' # q @ object_i t" by (rule delimiter_in [OF left_over_app]) auto
  with assms(2) show ?thesis by (auto simp: skip_ws_open Let_def split: if_splits)
next
  case False
  with assms show ?thesis by (auto simp: skip_ws_open Let_def split: if_splits)
qed

lemma array_left:
  assumes "\<And>p v r. parse_elems n (Suc d) (p @ object_i t) = Some (v, r) \<Longrightarrow> \<exists>q. r = q @ object_i t"
    and "parse_value (Suc n) d (CHR ''['' # s @ object_i t) = Some (v, r)"
  shows "\<exists>q. r = q @ object_i t"
proof (cases "take 1 (skip_ws (s @ object_i t)) = '']''")
  case True
  then obtain q where "skip_ws (s @ object_i t) = CHR '']'' # q @ object_i t" by (rule delimiter_in [OF left_over_app]) auto
  with assms(2) show ?thesis by (auto simp: skip_ws_open Let_def split: if_splits)
next
  case False
  with assms show ?thesis by (auto simp: skip_ws_open Let_def split: if_splits)
qed

lemma parse_value_ws: "parse_value n d s = parse_value n d (skip_ws s)"
  by (cases n) (simp_all add: skip_ws_def)

lemma value_step:
  assumes T: "\<And>v r. parse_value (Suc n) d (object_i t) = Some (v, r) \<Longrightarrow> r = []"
    and E: "\<And>p v r. parse_elems n (Suc d) (p @ object_i t) = Some (v, r) \<Longrightarrow> \<exists>q. r = q @ object_i t"
    and M: "\<And>p v r. parse_members n (Suc d) (p @ object_i t) = Some (v, r) \<Longrightarrow> \<exists>q. r = q @ object_i t"
    and e: "parse_value (Suc n) d (p @ object_i t) = Some (v, r)"
  shows "left_over t r"
proof (cases "skip_ws p")
  case Nil
  have "parse_value (Suc n) d (object_i t) = Some (v, r)"
    using e parse_value_ws [of "Suc n" d "p @ object_i t"] by (simp only: skip_ws_app(1) [OF Nil] skip_ws_torn(1))
  from T [OF this] show ?thesis by (simp add: left_over_def)
next
  case (Cons c s)
  then have s: "skip_ws (p @ object_i t) = c # s @ object_i t" by (simp add: skip_ws_app)
  have e': "parse_value (Suc n) d (c # s @ object_i t) = Some (v, r)" using e parse_value_ws [of "Suc n" d "p @ object_i t"] s by simp
  consider "c = CHR ''[''" | "c = CHR ''{''" | x where "scan_string (s @ object_i t) = Some (x, r)"
    | "take 4 (c # s @ object_i t) = ''null'' \<or> take 4 (c # s @ object_i t) = ''true''" "r = drop 4 (c # s @ object_i t)"
    | "take 5 (c # s @ object_i t) = ''false''" "r = drop 5 (c # s @ object_i t)"
    | x where "scan_number ((c # s) @ object_i t) = Some (x, r)"
    using e by (auto simp: s Let_def split: if_splits)
  then show ?thesis
  proof cases
    case 1
    with e' have "parse_value (Suc n) d (CHR ''['' # s @ object_i t) = Some (v, r)" by blast
    from array_left [OF E this] show ?thesis by (auto simp: left_over_def)
  next
    case 2
    with e' have "parse_value (Suc n) d (CHR ''{'' # s @ object_i t) = Some (v, r)" by blast
    from object_left [OF M this] show ?thesis by (auto simp: left_over_def)
  next
    case (3 x)
    then show ?thesis using scan_string_torn [of s t x r] by (auto simp: left_over_def)
  next
    case 4
    then show ?thesis using literal_in [of 4 "c # s" t] by fastforce
  next
    case 5
    then show ?thesis using literal_in [of 5 "c # s" t "''false''"] by simp
  next
    case (6 x)
    then show ?thesis by (rule number_left) simp
  qed
qed

lemma parse_torn:
  assumes T: "\<forall>n d v r. parse_value n d (object_i t) = Some (v, r) \<longrightarrow> r = []"
  shows "(\<forall>d p v r. parse_value n d (p @ object_i t) = Some (v, r) \<longrightarrow> left_over t r) \<and>
    (\<forall>d p v r. parse_elems n d (p @ object_i t) = Some (v, r) \<longrightarrow> (\<exists>q. r = q @ object_i t)) \<and>
    (\<forall>d p v r. parse_members n d (p @ object_i t) = Some (v, r) \<longrightarrow> (\<exists>q. r = q @ object_i t))"
proof (induction n)
  case (Suc n)
  then have IH: "\<And>d p v r. parse_value n d (p @ object_i t) = Some (v, r) \<Longrightarrow> left_over t r"
    "\<And>d p v r. parse_elems n d (p @ object_i t) = Some (v, r) \<Longrightarrow> \<exists>q. r = q @ object_i t"
    "\<And>d p v r. parse_members n d (p @ object_i t) = Some (v, r) \<Longrightarrow> \<exists>q. r = q @ object_i t" by blast+
  have "left_over t r" if "parse_value (Suc n) d (p @ object_i t) = Some (v, r)" for d p v r
    using value_step [OF T [rule_format] IH(2) IH(3) that] .
  moreover have "\<exists>q. r = q @ object_i t" if "parse_elems (Suc n) d (p @ object_i t) = Some (v, r)" for d p v r
    using elems_step [OF IH(1) IH(2) that] .
  moreover have "\<exists>q. r = q @ object_i t" if "parse_members (Suc n) d (p @ object_i t) = Some (v, r)" for d p v r
    using members_step [OF IH(1) IH(3) that] .
  ultimately show ?case by blast
qed simp

text \<open>More fuel and less depth change nothing.\<close>

lemma parse_mono:
  "(\<forall>d s x. parse_value n d s = Some x \<longrightarrow> (\<forall>m e. n \<le> m \<longrightarrow> e \<le> d \<longrightarrow> parse_value m e s = Some x)) \<and>
   (\<forall>d s x. parse_elems n d s = Some x \<longrightarrow> (\<forall>m e. n \<le> m \<longrightarrow> e \<le> d \<longrightarrow> parse_elems m e s = Some x)) \<and>
   (\<forall>d s x. parse_members n d s = Some x \<longrightarrow> (\<forall>m e. n \<le> m \<longrightarrow> e \<le> d \<longrightarrow> parse_members m e s = Some x))"
proof (induction n)
  case (Suc n)
  note IH = conjunct1 [OF Suc, rule_format] conjunct1 [OF conjunct2 [OF Suc], rule_format]
    conjunct2 [OF conjunct2 [OF Suc], rule_format]
  have pv: "parse_value (Suc m) e s = Some x" if a: "parse_value (Suc n) d s = Some x" "n \<le> m" "e \<le> d" for d s x m e
  proof (cases "take 1 (skip_ws s) = ''['' \<or> take 1 (skip_ws s) = ''{''")
    case True
    then obtain c u where s: "skip_ws s = c # u" "c = CHR ''['' \<or> c = CHR ''{''" by (cases "skip_ws s") auto
    have d: "\<not> max_depth \<le> d" using a(1) s by (auto split: if_splits)
    then have d': "\<not> max_depth \<le> e" using a(3) by simp
    note E = IH(2) [of "Suc d" u _ m "Suc e"] and M = IH(3) [of "Suc d" u _ m "Suc e"]
    from s(2) show ?thesis
    proof
      assume c: "c = CHR ''[''"
      show ?thesis
      proof (cases "take 1 (skip_ws u) = '']''")
        case True
        with a(1) s c d d' show ?thesis by simp
      next
        case False
        with a(1) s c d obtain js r where "parse_elems n (Suc d) u = Some (js, r)" "x = (JArr js, r)" by auto
        with E a(2,3) False s c d' show ?thesis by simp
      qed
    next
      assume c: "c = CHR ''{''"
      show ?thesis
      proof (cases "take 1 (skip_ws u) = ''}''")
        case True
        with a(1) s c d d' show ?thesis by simp
      next
        case False
        with a(1) s c d obtain ms r where "parse_members n (Suc d) u = Some (ms, r)" "x = (JObj ms, r)" by auto
        with M a(2,3) False s c d' show ?thesis by simp
      qed
    qed
  next
    case False
    then have "parse_value (Suc m) e s = parse_value (Suc n) d s" unfolding parse_value.simps Let_def by presburger
    with a(1) show ?thesis by simp
  qed
  have pe: "parse_elems (Suc m) e s = Some x" if a: "parse_elems (Suc n) d s = Some x" "n \<le> m" "e \<le> d" for d s x m e
  proof -
    obtain j r where j: "parse_value n d s = Some (j, r)" using a(1) by (auto split: option.splits)
    then have "parse_value m e s = Some (j, r)" using IH(1) a by blast
    with a(1) j IH(2) [of d _ _ m e] a(2,3) show ?thesis by (auto simp: Let_def split: if_splits)
  qed
  have pm: "parse_members (Suc m) e s = Some x" if a: "parse_members (Suc n) d s = Some x" "n \<le> m" "e \<le> d" for d s x m e
  proof -
    obtain k r0 where k: "take 1 (skip_ws s) = [CHR 0x22]" "scan_string (drop 1 (skip_ws s)) = Some (k, r0)" "take 1 (skip_ws r0) = '':''"
      using a(1) by (auto simp: Let_def split: if_splits option.splits)
    obtain j r where j: "parse_value n d (drop 1 (skip_ws r0)) = Some (j, r)" using a(1) k by (auto split: option.splits)
    then have "parse_value m e (drop 1 (skip_ws r0)) = Some (j, r)" using IH(1) a by blast
    with a(1) k j IH(3) [of d _ _ m e] a(2,3) show ?thesis by (auto simp: Let_def split: if_splits)
  qed
  have up: "\<exists>k. m = Suc k \<and> n \<le> k" if "Suc n \<le> m" for m using that by (cases m) auto
  show ?case
    by (intro conjI allI impI) (use up pv in blast, use up pe in blast, use up pm in blast)
qed simp

text \<open>A text that opens an object, followed by a whole object, is no document.\<close>

lemma parse_json_cut:
  assumes "json_ok 0 j" "json_text j = object_i t"
  shows "parse_json (CHR ''{'' # s @ object_i t) = None"
proof -
  have T: "r = []" if p: "parse_value n d (object_i t) = Some (v, r)" for n d v r
  proof -
    have "parse_value (n + Suc (length (object_i t))) 0 (object_i t) = Some (v, r)"
      using p parse_mono [of n] by (metis le_add1 zero_le)
    moreover have "parse_value (n + Suc (length (object_i t))) 0 (object_i t @ []) = Some (j, [])"
      unfolding assms(2) [symmetric] using assms(1) by (intro parse_value_text) (simp_all add: stops_def)
    ultimately show ?thesis by simp
  qed
  let ?s = "CHR ''{'' # s @ object_i t" and ?n = "2 * length (CHR ''{'' # s @ object_i t) + 1"
  have M: "\<exists>q. r = q @ object_i t" if "parse_members n d (p @ object_i t) = Some (v, r)" for n d p v r
    using that parse_torn [of t n] T by blast
  have "\<exists>q. r = q @ object_i t" if "parse_value (Suc ?n) 0 ?s = Some (v, r)" for v r
    using object_left [OF M that] .
  moreover have "skip_ws (q @ object_i t) \<noteq> []" for q by (cases "skip_ws q") (simp_all add: skip_ws_app)
  ultimately show ?thesis
    unfolding parse_json_def by (auto split: option.splits simp del: parse_value.simps simp flip: add_2_eq_Suc')
qed

end
