(* ===== verification/JsonRaw.thy ===== *)
theory JsonRaw
  imports JsonText
begin

text \<open>
  The parts of \<open>encoding/json\<close> that work on the bytes of a \<open>json.RawMessage\<close>: an object whose
  members are given as texts, the compaction \<open>Marshal\<close> applies to a raw member, and the decoding
  of a struct one of whose fields takes over the bytes of its member as they stand in the input.
\<close>

section \<open>Writing\<close>

definition object_text :: "(string \<times> string) list \<Rightarrow> string" where
  "object_text ms = ''{'' @ sep_by (map (\<lambda>(k, t). quote k @ '':'' @ t) ms) @ ''}''"

text \<open>
  \<open>compact\<close> drops the white space outside strings and escapes, inside strings, the characters
  HTML gives a meaning to and the two line separators.
\<close>

definition html_special :: "char \<Rightarrow> bool" where
  "html_special c \<longleftrightarrow> c = CHR ''<'' \<or> c = CHR ''>'' \<or> c = CHR ''&''"

function compact_out :: "string \<Rightarrow> string" and compact_in :: "string \<Rightarrow> string" where
  "compact_out [] = []"
| "compact_out (c # cs) =
     (if is_ws c then compact_out cs
      else if c = CHR 0x22 then c # compact_in cs
      else c # compact_out cs)"
| "compact_in [] = []"
| "compact_in (c # cs) =
     (if c = CHR 0x22 then c # compact_out cs
      else if c = CHR 0x5C then c # take 1 cs @ compact_in (drop 1 cs)
      else if html_special c then [CHR 0x5C, CHR ''u'', CHR ''0'', CHR ''0''] @ hex_byte c @ compact_in cs
      else if line_separator (take 3 (c # cs)) then escape_rune (take 3 (c # cs)) @ compact_in (drop 2 cs)
      else c # compact_in cs)"
  by pat_completeness auto
termination by (relation "measure (\<lambda>x. case x of Inl s \<Rightarrow> length s | Inr s \<Rightarrow> length s)") auto

definition compact :: "string \<Rightarrow> string option" where
  "compact s = (if parse_json s = None then None else Some (compact_out s))"

section \<open>Reading\<close>

text \<open>The members of an object with the document and the bytes of each value.\<close>

fun raw_members :: "nat \<Rightarrow> string \<Rightarrow> ((string \<times> json \<times> string) list \<times> string) option" where
  "raw_members 0 s0 = None"
| "raw_members (Suc n) s0 =
     (let s = skip_ws s0
      in if take 1 s = [CHR 0x22] then
           (case scan_string (drop 1 s) of
              None \<Rightarrow> None
            | Some (k, r0) \<Rightarrow>
                if take 1 (skip_ws r0) = '':'' then
                  (let t = skip_ws (drop 1 (skip_ws r0))
                   in case parse_value (2 * length t + 2) 1 t of
                        None \<Rightarrow> None
                      | Some (j, r1) \<Rightarrow>
                          (let m = (k, j, take (length t - length r1) t); r = skip_ws r1
                           in if take 1 r = '','' then
                                map_option (\<lambda>(ms, r'). (m # ms, r')) (raw_members n (drop 1 r))
                              else if take 1 r = ''}'' then Some ([m], drop 1 r)
                              else None))
                else None)
         else None)"

definition raw_object :: "string \<Rightarrow> (string \<times> json \<times> string) list option" where
  "raw_object s0 =
     (let s = skip_ws s0
      in if take 1 s \<noteq> ''{'' then None
         else if take 1 (skip_ws (drop 1 s)) = ''}'' then
           (if skip_ws (drop 1 (skip_ws (drop 1 s))) = [] then Some [] else None)
         else case raw_members (length s) (drop 1 s) of
                None \<Rightarrow> None
              | Some (ms, r) \<Rightarrow> if skip_ws r = [] then Some ms else None)"

type_synonym 's raw_decoder = "'s \<Rightarrow> json \<times> string \<Rightarrow> 's option"

definition plain :: "'s decoder \<Rightarrow> 's raw_decoder" where
  "plain d s jr = d s (fst jr)"

definition raw_field :: "((string \<Rightarrow> string) \<Rightarrow> 's \<Rightarrow> 's) \<Rightarrow> 's raw_decoder" where
  "raw_field upd s jr = Some (upd (\<lambda>_. snd jr) s)"

fun decode_raw_members :: "(string \<times> 's raw_decoder) list \<Rightarrow> (string \<times> json \<times> string) list \<Rightarrow> 's \<Rightarrow> 's option" where
  "decode_raw_members fs [] s = Some s"
| "decode_raw_members fs ((k, jr) # ms) s =
     (case find_field fs k of
        None \<Rightarrow> decode_raw_members fs ms s
      | Some d \<Rightarrow> (case d s jr of None \<Rightarrow> None | Some s' \<Rightarrow> decode_raw_members fs ms s'))"

text \<open>\<open>json.Unmarshal\<close> into a struct with a raw field.\<close>

definition unmarshal_struct :: "(string \<times> 's raw_decoder) list \<Rightarrow> 's \<Rightarrow> string \<Rightarrow> 's option" where
  "unmarshal_struct fs z s =
     (case parse_json s of
        None \<Rightarrow> None
      | Some JNull \<Rightarrow> Some z
      | Some (JObj _) \<Rightarrow>
          (case raw_object s of None \<Rightarrow> None | Some ms \<Rightarrow> decode_raw_members fs ms z)
      | Some _ \<Rightarrow> None)"

text \<open>\<open>json.Unmarshal\<close> of a document into a value of a struct type with raw members kept as documents.\<close>

definition unmarshal :: "'a decoder \<Rightarrow> 'a \<Rightarrow> string \<Rightarrow> 'a option" where
  "unmarshal d z raw = (case parse_json raw of None \<Rightarrow> None | Some j \<Rightarrow> d z j)"

section \<open>Round trips\<close>

lemma object_text_json: "object_text (map (\<lambda>(k, v). (k, json_text v)) ms) = json_text (JObj ms)"
  by (simp add: object_text_def comp_def case_prod_unfold)

lemma raw_member_step:
  assumes "utf8_valid k" "json_ok 1 v" "stops r" "r \<noteq> []"
  shows "raw_members (Suc n) (member_text (k, v) @ r) =
    (if hd r = CHR '','' then map_option (\<lambda>(ms, r'). ((k, v, json_text v) # ms, r')) (raw_members n (tl r))
     else if hd r = CHR ''}'' then Some ([(k, v, json_text v)], tl r) else None)"
proof -
  have q: "take 1 (quote k @ x) = [CHR 0x22]" "skip_ws (quote k @ x) = quote k @ x" for x
    by (simp_all add: quote_def skip_ws_def is_ws_def)
  have c: "skip_ws (CHR '':'' # x) = CHR '':'' # x" for x by (simp add: skip_ws_def is_ws_def)
  have t: "take 1 r = [hd r]" "drop 1 r = tl r" using assms(4) by (cases r; simp)+
  have w: "skip_ws (json_text v @ r) = json_text v @ r" by (rule skip_ws_head [OF text_head [OF assms(2)]])
  have p: "parse_value (2 * length (json_text v @ r) + 2) 1 (json_text v @ r) = Some (v, r)"
    by (rule parse_value_text [OF assms(2) _ assms(3)]) simp
  show ?thesis
    unfolding raw_members.simps Let_def prod.case append.assoc q(2) q(1) scan_quote [OF assms(1)]
    using p t by (simp add: c w skip_ws_stop [OF assms(3)])
qed

lemma raw_members_sep:
  assumes "list_all (\<lambda>(k, v). utf8_valid k \<and> json_ok 1 v) ms" "ms \<noteq> []" "length ms \<le> n"
  shows "raw_members n (sep_by (map member_text ms) @ ''}'' @ r) =
    Some (map (\<lambda>(k, v). (k, v, json_text v)) ms, r)"
  using assms
proof (induction ms arbitrary: n)
  case (Cons m ms)
  obtain k v where m: "m = (k, v)" by (cases m)
  obtain i where n: "n = Suc i" using Cons.prems(3) by (cases n) auto
  have kv: "utf8_valid k" "json_ok 1 v" using Cons.prems(1) m by auto
  show ?case
  proof (cases ms)
    case Nil
    with n m raw_member_step [OF kv, of "''}'' @ r" i] show ?thesis by (simp add: stops_def)
  next
    case (Cons m' ms')
    let ?rest = "sep_by (map member_text ms) @ ''}'' @ r"
    have tx: "sep_by (map member_text (m # ms)) @ ''}'' @ r = member_text (k, v) @ '','' @ ?rest"
      using m Cons by simp
    have "raw_members i ?rest = Some (map (\<lambda>(k, v). (k, v, json_text v)) ms, r)"
      using Cons.IH [of i] Cons.prems n Cons by simp
    then show ?thesis
      unfolding tx n using raw_member_step [OF kv, of "'','' @ ?rest" i] m by (simp add: stops_def)
  qed
qed simp

lemma raw_object_text:
  assumes "json_ok 0 (JObj ms)"
  shows "raw_object (json_text (JObj ms)) = Some (map (\<lambda>(k, v). (k, v, json_text v)) ms)"
proof (cases "ms = []")
  case True
  then show ?thesis by (simp add: raw_object_def skip_ws_def is_ws_def)
next
  case False
  let ?t = "sep_by (map member_text ms)"
  have h: "value_head ?t"
    using False by (cases ms; cases "tl ms") (auto simp: value_head_def quote_def is_ws_def)
  have b: "skip_ws (CHR ''{'' # x) = CHR ''{'' # x" for x by (simp add: skip_ws_def is_ws_def)
  have len: "length ms \<le> length (?t @ ''}'')"
  proof (induction ms)
    case (Cons m ms)
    then show ?case by (cases ms) (auto simp: quote_def)
  qed simp
  have "raw_members (length (''{'' @ ?t @ ''}'')) (?t @ ''}'' @ []) = Some (map (\<lambda>(k, v). (k, v, json_text v)) ms, [])"
    using assms False len by (intro raw_members_sep) (auto simp: list_all_iff)
  moreover have "skip_ws (?t @ ''}'') = ?t @ ''}''" using h by (rule skip_ws_head)
  moreover have "take 1 (?t @ ''}'') \<noteq> ''}''" using h by (cases ?t) (auto simp: value_head_def)
  moreover have "skip_ws [] = []" by (simp add: skip_ws_def)
  moreover have "take 1 (CHR ''{'' # x) = ''{''" "drop 1 (CHR ''{'' # x) = x" for x by simp_all
  ultimately show ?thesis
    unfolding raw_object_def json_text.simps append.simps append_Nil2 b Let_def by simp
qed

lemma unmarshal_object_text:
  assumes "json_ok 0 (JObj ms)"
  shows "unmarshal_struct fs z (json_text (JObj ms)) =
    decode_raw_members fs (map (\<lambda>(k, v). (k, v, json_text v)) ms) z"
  unfolding unmarshal_struct_def parse_text [OF assms] raw_object_text [OF assms] by simp

section \<open>What is written is compact and printable\<close>

lemma high_byte:
  assumes "128 \<le> (of_char c :: int)"
  shows "c \<noteq> CHR 0x22" "c \<noteq> CHR 0x5C" "\<not> html_special c" "\<not> is_ws c"
  using assms by (auto simp: html_special_def is_ws_def)

lemma compact_in_high:
  assumes "128 \<le> (of_char c :: int)" "\<not> line_separator (take 3 (c # x))"
  shows "compact_in (c # x) = c # compact_in x"
  using high_byte [OF assms(1)] assms(2) by simp

lemma line_separator_head: "line_separator (c # x) \<Longrightarrow> (of_char c :: int) = 226"
  by (auto simp: line_separator_def)

lemma line_separator_ascii: "(of_char c :: int) < 128 \<Longrightarrow> \<not> line_separator (c # x)"
  using line_separator_head [of c x] by auto

lemma cont_not_lead: "cont lo hi c \<Longrightarrow> hi \<le> 191 \<Longrightarrow> 128 \<le> lo \<Longrightarrow>
    128 \<le> (of_char c :: int) \<and> \<not> line_separator (take 3 (c # x))"
  using line_separator_head [of c "take 2 x"] by (auto simp: cont_def)

lemma utf8_width_cases:
  assumes "utf8_width (c # cs) = Some w"
  obtains (two) b r where "w = 2" "cs = b # r" "(of_char c :: int) \<noteq> 226" "cont 128 191 b"
  | (three) b b' r where "w = 3" "cs = b # b' # r" "cont 128 191 b" "cont 128 191 b'"
  | (four) b b' b'' r where "w = 4" "cs = b # b' # b'' # r" "(of_char c :: int) \<noteq> 226"
      "cont 128 191 b" "cont 128 191 b'" "cont 128 191 b''"
proof -
  consider "w = 2" "length cs \<ge> 1" "cont 128 191 (cs ! 0)" "(of_char c :: int) \<le> 223"
    | "w = 3" "length cs \<ge> 2" "cont 128 191 (cs ! 0)" "cont 128 191 (cs ! 1)"
    | "w = 4" "length cs \<ge> 3" "240 \<le> (of_char c :: int)" "cont 128 191 (cs ! 0)"
        "cont 128 191 (cs ! 1)" "cont 128 191 (cs ! 2)"
    using assms
    by (auto simp: utf8_width_def Let_def numeral_nat cont_def split: if_splits)
  then show ?thesis
  proof cases
    case 1
    then obtain b r where "cs = b # r" by (cases cs) auto
    with 1 two [of b r] show ?thesis by simp
  next
    case 2
    then obtain b b' r where "cs = b # b' # r" by (cases cs; cases "tl cs") auto
    with 2 three [of b b' r] show ?thesis by simp
  next
    case 3
    then obtain b b' b'' r where "cs = b # b' # b'' # r" by (cases cs; cases "tl cs"; cases "tl (tl cs)") auto
    with 3 four [of b b' b'' r] show ?thesis by (simp add: numeral_nat)
  qed
qed

lemma compact_in_rune:
  assumes "128 \<le> (of_char c :: int)" "utf8_width (c # cs) = Some w" "\<not> line_separator (take w (c # cs))"
  shows "compact_in (take w (c # cs) @ x) = take w (c # cs) @ compact_in x"
proof -
  have b: "compact_in (b # y) = b # compact_in y" if "cont 128 191 b" for b y
    by (rule compact_in_high) (use cont_not_lead [OF that, of y] in auto)
  have c: "compact_in (c # y) = c # compact_in y" if "(of_char c :: int) \<noteq> 226" for y
    by (rule compact_in_high [OF assms(1)]) (use line_separator_head [of c "take 2 y"] that in auto)
  from assms(2) show ?thesis
  proof (cases rule: utf8_width_cases)
    case two
    then show ?thesis by (simp add: b c del: compact_in.simps)
  next
    case (three b' b'' r)
    then have "compact_in (c # b' # b'' # x) = c # compact_in (b' # b'' # x)"
      using assms(3) by (intro compact_in_high [OF assms(1)]) simp
    with three show ?thesis by (simp add: b del: compact_in.simps)
  next
    case four
    then show ?thesis by (simp add: b c del: compact_in.simps)
  qed
qed

definition plain_char :: "char \<Rightarrow> bool" where
  "plain_char c \<longleftrightarrow> 32 \<le> (of_char c :: int) \<and> (of_char c :: int) < 128 \<and>
     c \<noteq> CHR 0x22 \<and> c \<noteq> CHR 0x5C \<and> \<not> html_special c"

lemma compact_in_plain: "list_all plain_char s \<Longrightarrow> compact_in (s @ x) = s @ compact_in x"
  by (induction s) (auto simp: plain_char_def line_separator_ascii)

lemma hex_digit_plain: "0 \<le> d \<Longrightarrow> d < 16 \<Longrightarrow> plain_char (hex_digit d)"
proof -
  assume "0 \<le> d" "d < 16"
  then have "d \<in> {0,1,2,3,4,5,6,7,8,9,10,11,12,13,14,15}" by (simp, presburger)
  then show ?thesis by (elim insertE emptyE) (code_simp | simp)+
qed

lemma hex_byte_plain: "list_all plain_char (hex_byte c)"
  using of_char_bounds [of c] by (auto simp: hex_byte_def intro!: hex_digit_plain)

lemma compact_in_escape_ascii:
  assumes "(of_char c :: int) < 128"
  shows "compact_in (escape_ascii c @ x) = escape_ascii c @ compact_in x"
proof (cases "plain_char c")
  case True
  then have "c \<noteq> CHR 0x08" "c \<noteq> CHR 0x0C" "c \<noteq> CHR 0x0A" "c \<noteq> CHR 0x0D" "c \<noteq> CHR 0x09"
    by (auto simp: plain_char_def)
  with True have e: "escape_ascii c = [c]" by (simp add: plain_char_def escape_ascii_def html_special_def)
  show ?thesis unfolding e by (rule compact_in_plain) (use True in simp)
next
  case False
  have d: "compact_in (CHR 0x5C # e # y) = CHR 0x5C # e # compact_in y" for e y by simp
  have "list_all plain_char (''00'' @ hex_byte c)"
    using hex_byte_plain [of c] by (simp add: plain_char_def html_special_def)
  from compact_in_plain [OF this, of x]
  have u: "compact_in ([CHR 0x5C, CHR ''u'', CHR ''0'', CHR ''0''] @ hex_byte c @ x) =
      [CHR 0x5C, CHR ''u'', CHR ''0'', CHR ''0''] @ hex_byte c @ compact_in x"
    by (simp only: d append.simps append.assoc)
  show ?thesis
  proof (cases "c \<in> {CHR 0x22, CHR 0x5C, CHR 0x08, CHR 0x0C, CHR 0x0A, CHR 0x0D, CHR 0x09}")
    case True
    then obtain e where "escape_ascii c = [CHR 0x5C, e]" by (auto simp: escape_ascii_def)
    with d show ?thesis by (simp del: compact_in.simps)
  next
    case False
    with \<open>\<not> plain_char c\<close> assms
    have "escape_ascii c = [CHR 0x5C, CHR ''u'', CHR ''0'', CHR ''0''] @ hex_byte c"
      by (auto simp: escape_ascii_def plain_char_def html_special_def)
    with u show ?thesis by (simp del: compact_in.simps)
  qed
qed

lemma compact_in_escape:
  "compact_in (escape_string s @ CHR 0x22 # x) = escape_string s @ CHR 0x22 # compact_out x"
proof (induction s rule: escape_string.induct)
  case (2 c cs)
  show ?case
  proof (cases "(of_char c :: int) < 128")
    case True
    with 2 compact_in_escape_ascii [OF True] show ?thesis by (simp del: compact_in.simps)
  next
    case False
    show ?thesis
    proof (cases "utf8_width (c # cs)")
      case None
      have "compact_in ([CHR 0x5C, CHR ''u'', CHR ''f'', CHR ''f'', CHR ''f'', CHR ''d''] @ y) =
          [CHR 0x5C, CHR ''u'', CHR ''f'', CHR ''f'', CHR ''f'', CHR ''d''] @ compact_in y" for y
        by (simp add: html_special_def line_separator_ascii)
      with 2 False None show ?thesis by (simp del: compact_in.simps)
    next
      case (Some w)
      have "compact_in (escape_rune (take w (c # cs)) @ y) = escape_rune (take w (c # cs)) @ compact_in y" for y
      proof (cases "line_separator (take w (c # cs))")
        case True
        then show ?thesis by (simp add: escape_rune_def html_special_def line_separator_ascii)
      next
        case sep: False
        from compact_in_rune [OF _ Some sep, of y] False sep show ?thesis
          by (simp add: escape_rune_def del: compact_in.simps)
      qed
      with 2 False Some show ?thesis by (simp del: compact_in.simps)
    qed
  qed
qed simp

definition solid :: "char \<Rightarrow> bool" where
  "solid c \<longleftrightarrow> 32 < (of_char c :: int) \<and> c \<noteq> CHR 0x22"

lemma solid_not_ws: "solid c \<Longrightarrow> \<not> is_ws c"
  by (auto simp: solid_def is_ws_def)

lemma compact_out_solid: "list_all solid s \<Longrightarrow> compact_out (s @ x) = s @ compact_out x"
  by (induction s) (auto simp: solid_not_ws solid_def)

lemma digit_solid: "is_digit c \<Longrightarrow> solid c"
  by (auto simp: is_digit_def solid_def)

lemma scan_digits_solid: "scan_digits s = (ds, r) \<Longrightarrow> list_all solid ds"
  by (auto simp: scan_digits_def list_all_iff digit_solid dest: set_takeWhileD)

lemma scan_frac_solid: "scan_frac s = Some (f, r) \<Longrightarrow> list_all solid f"
  by (auto simp: scan_frac_def solid_def dest: scan_digits_solid split: if_splits prod.splits)

lemma scan_exp_solid: "scan_exp s = Some (e, r) \<Longrightarrow> list_all solid e"
  by (auto simp: scan_exp_def solid_def Let_def dest: scan_digits_solid split: if_splits prod.splits)

lemma number_solid:
  assumes "scan_number s = Some (t, r)"
  shows "list_all solid t"
proof -
  have "solid CHR ''-''" "solid CHR ''0''" by (simp_all add: solid_def)
  with assms show ?thesis
    by (auto simp: scan_number_def Let_def split: if_splits option.splits prod.splits
        dest!: scan_digits_solid scan_frac_solid scan_exp_solid)
qed

lemma compact_out_quote: "compact_out (quote s @ x) = quote s @ compact_out x"
  by (simp add: quote_def is_ws_def compact_in_escape del: compact_in.simps)

lemma compact_out_sep:
  assumes "\<And>t x. t \<in> set ts \<Longrightarrow> compact_out (t @ x) = t @ compact_out x"
  shows "compact_out (sep_by ts @ x) = sep_by ts @ compact_out x"
  using assms
proof (induction ts rule: sep_by.induct)
  case (3 a b ys)
  then have "compact_out (sep_by (b # ys) @ x) = sep_by (b # ys) @ compact_out x" by simp
  moreover have "compact_out ('','' @ y) = '','' @ compact_out y" for y by (simp add: is_ws_def)
  ultimately show ?case using "3.prems" by simp
qed auto

lemma compact_out_json: "json_ok d j \<Longrightarrow> compact_out (json_text j @ x) = json_text j @ compact_out x"
proof (induction j arbitrary: d x)
  case (JNum t)
  then show ?case using compact_out_solid [OF number_solid] by simp
next
  case (JStr s)
  then show ?case by (simp add: compact_out_quote)
next
  case (JArr js)
  then have "compact_out (t @ y) = t @ compact_out y" if "t \<in> set (map json_text js)" for t y
    using that by (auto simp: list_all_iff)
  from compact_out_sep [of "map json_text js", OF this]
  show ?case by (simp add: is_ws_def)
next
  case (JObj ms)
  have "compact_out (t @ y) = t @ compact_out y" if "t \<in> set (map member_text ms)" for t y
  proof -
    from that obtain k v where kv: "(k, v) \<in> set ms" "t = quote k @ '':'' @ json_text v" by auto
    then have "compact_out (json_text v @ y) = json_text v @ compact_out y"
      using JObj by (auto simp: list_all_iff)
    moreover have "compact_out ('':'' @ z) = '':'' @ compact_out z" for z by (simp add: is_ws_def)
    ultimately show ?thesis using kv(2) compact_out_quote by simp
  qed
  from compact_out_sep [of "map member_text ms", OF this]
  show ?case by (simp add: is_ws_def)
qed (auto simp: is_ws_def)

lemma compact_text [simp]: "json_ok 0 j \<Longrightarrow> compact (json_text j) = Some (json_text j)"
  using compact_out_json [of 0 j "[]"] by (simp add: compact_def parse_text)

text \<open>No control character is ever written, so a document stays on one line.\<close>

definition printable :: "char \<Rightarrow> bool" where
  "printable c \<longleftrightarrow> 32 \<le> (of_char c :: int)"

lemma printable_punct [simp]:
  "printable CHR ''[''" "printable CHR '']''" "printable CHR ''{''" "printable CHR ''}''"
  "printable CHR '',''" "printable CHR '':''" "printable CHR 0x22"
  by (simp_all add: printable_def)

lemma plain_printable: "list_all plain_char s \<Longrightarrow> list_all printable s"
  by (auto simp: list_all_iff plain_char_def printable_def)

lemma escape_ascii_printable:
  assumes "(of_char c :: int) < 128"
  shows "list_all printable (escape_ascii c)"
proof (cases "32 \<le> (of_char c :: int)")
  case True
  then show ?thesis using plain_printable [OF hex_byte_plain [of c]]
    by (auto simp: escape_ascii_def printable_def)
next
  case False
  then have "c \<noteq> CHR 0x22" "c \<noteq> CHR 0x5C" by auto
  with False show ?thesis using plain_printable [OF hex_byte_plain [of c]]
    by (simp add: escape_ascii_def printable_def)
qed

lemma rune_printable:
  assumes "128 \<le> (of_char c :: int)" "utf8_width (c # cs) = Some w"
  shows "list_all printable (take w (c # cs))"
  using assms(2) by (cases rule: utf8_width_cases) (use assms(1) in \<open>auto simp: printable_def cont_def\<close>)

lemma escape_string_printable: "list_all printable (escape_string s)"
proof (induction s rule: escape_string.induct)
  case (2 c cs)
  show ?case
  proof (cases "(of_char c :: int) < 128")
    case True
    with 2 escape_ascii_printable [OF True] show ?thesis by simp
  next
    case False
    moreover have "list_all printable [CHR 0x5C, CHR ''u'', CHR ''2'', CHR ''0'', CHR ''2'', x]"
      "list_all printable [CHR 0x5C, CHR ''u'', CHR ''f'', CHR ''f'', CHR ''f'', CHR ''d'']"
      if "x = CHR ''8'' \<or> x = CHR ''9''" for x using that by (auto simp: printable_def)
    ultimately show ?thesis using 2 rune_printable [of c cs]
      by (auto simp: escape_rune_def split: option.split)
  qed
qed simp

lemma quote_printable: "list_all printable (quote s)"
  using escape_string_printable by (simp add: quote_def printable_def)

lemma sep_by_printable: "list_all (list_all printable) ts \<Longrightarrow> list_all printable (sep_by ts)"
  by (induction ts rule: sep_by.induct) (auto simp: printable_def)

lemma json_text_printable: "json_ok d j \<Longrightarrow> list_all printable (json_text j)"
proof (induction j arbitrary: d)
  case (JNum t)
  then have "list_all solid t" by (intro number_solid [of t t "[]"]) simp
  then have "list_all printable t" by (rule list.pred_mono_strong) (simp add: solid_def printable_def)
  then show ?case by simp
next
  case (JStr s)
  then show ?case by (simp add: quote_printable)
next
  case (JArr js)
  then have "list_all (list_all printable) (map json_text js)" by (auto simp: list_all_iff)
  from sep_by_printable [OF this] show ?case by simp
next
  case (JObj ms)
  have "list_all printable (member_text m)" if "m \<in> set ms" for m
  proof -
    obtain k v where m: "m = (k, v)" by (cases m)
    with that JObj.prems have "json_ok (Suc d) v" by (auto simp: list_all_iff)
    with JObj.IH [of m v] that m have "list_all printable (json_text v)" by simp
    with m quote_printable show ?thesis by simp
  qed
  then have "list_all (list_all printable) (map member_text ms)" by (auto simp: list_all_iff)
  from sep_by_printable [OF this] show ?case by simp
qed (auto simp: printable_def)

text \<open>Trimming leaves the text of an object alone.\<close>

lemma trim_left_solid:
  assumes "32 < (of_char c :: int)" "(of_char c :: int) < 128" "pats = space_runes \<or> pats = map rev space_runes"
  shows "trim_left pats (c # s) = c # s"
proof -
  have "list_all (\<lambda>p. (of_char (hd p) :: int) \<le> 32 \<or> 128 \<le> (of_char (hd p) :: int)) space_runes"
    "list_all (\<lambda>p. (of_char (hd p) :: int) \<le> 32 \<or> 128 \<le> (of_char (hd p) :: int)) (map rev space_runes)"
    by code_simp+
  with assms(3) have "(of_char (hd p) :: int) \<le> 32 \<or> 128 \<le> (of_char (hd p) :: int)" if "p \<in> set pats" for p
    using that unfolding list_all_iff by auto
  moreover have "hd p = c" if "is_prefix p (c # s)" for p using that by (cases p) (auto simp: is_prefix_def)
  ultimately have "\<not> is_prefix p (c # s)" if "p \<in> set pats" for p using that assms(1,2) by fastforce
  then have "find (\<lambda>p. is_prefix p (c # s)) pats = None" by (auto simp: find_None_iff)
  then show ?thesis by (simp add: trim_left.simps)
qed

lemma TrimSpace_ends:
  assumes "s \<noteq> []" "32 < (of_char (hd s) :: int)" "(of_char (hd s) :: int) < 128"
    "32 < (of_char (last s) :: int)" "(of_char (last s) :: int) < 128"
  shows "TrimSpace s = s" "TrimSpace (s @ [CHR 0x0A]) = s"
proof -
  have l: "trim_left space_runes (s @ x) = s @ x" for x
    using assms trim_left_solid [of "hd s" space_runes "tl s @ x"] by (cases s) auto
  have "rev s = last s # rev (butlast s)"
    using assms(1) by (metis append_butlast_last_id rev_eq_Cons_iff rev_rev_ident)
  then have r: "trim_left (map rev space_runes) (rev s) = rev s"
    using assms trim_left_solid [of "last s" "map rev space_runes" "rev (butlast s)"] by (simp only: simp_thms)
  have "trim_left (map rev space_runes) (CHR 0x0A # x) = trim_left (map rev space_runes) x" for x
    by (subst trim_left.simps) (simp add: space_runes_def is_prefix_def)
  with r l [of "[CHR 0x0A]"] show "TrimSpace (s @ [CHR 0x0A]) = s" by (simp add: TrimSpace_def)
  show "TrimSpace s = s" using r l [of "[]"] by (simp add: TrimSpace_def)
qed

end
