(* ===== verification/JsonValid.thy ===== *)
theory JsonValid
  imports JsonRaw
begin

text \<open>
  The numbers \<open>encoding/json\<close> writes are numbers of the JSON grammar: decimal integers, and the
  shortest decimal of a float.  With them every document made of encoded values is a valid text
  once its strings are valid UTF-8.
\<close>

section \<open>Integers\<close>

lemma show_dec_leading: "0 < n \<Longrightarrow> hd (show_dec n) \<noteq> CHR ''0''"
proof (induction n rule: show_dec.induct)
  case (1 n)
  show ?case
  proof (cases "n < 10")
    case True
    have "digit_char n \<noteq> CHR ''0''"
    proof
      assume "digit_char n = CHR ''0''"
      moreover have "digit_val (digit_char n) = n" using True "1.prems" by simp
      ultimately have "n = digit_val CHR ''0''" by simp
      with "1.prems" show False by (simp add: digit_val_def)
    qed
    with True "1.prems" show ?thesis by (simp add: show_dec.simps)
  next
    case False
    then have "hd (show_dec (n div 10)) \<noteq> CHR ''0''" using "1.IH" by auto
    with False show ?thesis by (subst show_dec.simps) (simp add: hd_append)
  qed
qed

lemma show_dec_zero: "show_dec 0 = ''0''"
  by code_simp

definition int_part :: "string \<Rightarrow> bool" where
  "int_part ds \<longleftrightarrow> ds \<noteq> [] \<and> list_all is_digit ds \<and> (ds = ''0'' \<or> hd ds \<noteq> CHR ''0'')"

lemma int_part_show_dec: "0 \<le> n \<Longrightarrow> int_part (show_dec n)"
  using show_dec_digits [of n] show_dec_leading [of n] show_dec_zero
  by (cases "n = 0") (auto simp: int_part_def)

lemma scan_number_parts:
  assumes "int_part ds" "sg = ''-'' \<or> sg = []" "r = [] \<or> \<not> is_digit (hd r)"
    and "scan_frac r = Some (f, r1)" "scan_exp r1 = Some (e, r2)"
  shows "scan_number (sg @ ds @ r) = Some (sg @ ds @ f @ e, r2)"
proof -
  have dd: "is_digit (hd ds)" "ds \<noteq> []" using assms(1) by (cases ds; simp add: int_part_def)+
  have sg: "(if take 1 (sg @ ds @ r) = ''-'' then ''-'' else []) = sg"
    using assms(2) dd by (cases ds) (auto simp: is_digit_def)
  have td: "takeWhile is_digit (ds @ r) = ds" "dropWhile is_digit (ds @ r) = r"
    using takeWhile_app [where P = is_digit and r = r and s = ds] assms(1,3)
    by (auto simp: int_part_def list_all_iff takeWhile_eq_all_conv)
  have z: "(if take 1 ds = ''0'' then (''0'', drop 1 (ds @ r)) else (ds, r)) = (ds, r)"
    using assms(1) by (cases ds) (auto simp: int_part_def)
  have dr: "drop (length sg) (sg @ ds @ r) = ds @ r" by simp
  show ?thesis
    unfolding scan_number_def Let_def sg dr scan_digits_def td prod.case z assms(4) option.case assms(5)
    using dd(2) by simp
qed

lemma number_int_part: "int_part ds \<Longrightarrow> sg = ''-'' \<or> sg = [] \<Longrightarrow> scan_number (sg @ ds) = Some (sg @ ds, [])"
  using scan_number_parts [of ds sg "[]" "[]" "[]" "[]" "[]"] by (simp add: scan_frac_def scan_exp_def)

lemma json_ok_uint64 [simp]: "json_ok d (enc_uint64 n)"
  using number_int_part [of "show_dec (uint n)" "[]"] int_part_show_dec [of "uint n"]
  by (simp add: enc_uint64_def FormatUint64_def)

lemma json_ok_int [simp]: "json_ok d (enc_int n)"
  using number_int_part [of "show_dec \<bar>n\<bar>" "''-''"] number_int_part [of "show_dec \<bar>n\<bar>" "[]"]
    int_part_show_dec [of "\<bar>n\<bar>"]
  by (cases "n < 0") (simp_all add: enc_int_def Itoa_def)

section \<open>Floats\<close>

lemma Atoi_scan_exp:
  assumes "Atoi t = Some v" "c = CHR ''e'' \<or> c = CHR ''E''"
  shows "scan_exp (c # t) = Some (c # t, [])"
proof -
  let ?sg = "if take 1 t = ''+'' \<or> take 1 t = ''-'' then take 1 t else []"
  have d: "parse_dec (drop (length ?sg) t) \<noteq> None" "t = ?sg @ drop (length ?sg) t"
    using assms(1) by (cases t; auto simp: Atoi_def split: if_splits option.splits)+
  then have "drop (length ?sg) t \<noteq> []" "list_all is_digit (drop (length ?sg) t)"
    by (auto simp: parse_dec_def split: if_splits)
  then have "scan_digits (drop (length ?sg) t) = (drop (length ?sg) t, [])"
    by (simp add: scan_digits_def list_all_iff takeWhile_eq_all_conv dropWhile_eq_Nil_conv)
  with \<open>drop (length ?sg) t \<noteq> []\<close> d(2) assms(2) show ?thesis
    by (auto simp: scan_exp_def Let_def split_beta)
qed

text \<open>What the float reader accepts is a JSON number, but for zeros in front.\<close>

lemma ParseFloat_number:
  assumes "ParseFloat s = Some x"
    and "int_part (takeWhile is_digit (if take 1 s = ''-'' then drop 1 s else s))"
  shows "scan_number s = Some (s, [])"
proof -
  define sg where "sg = (if take 1 s = ''-'' then ''-'' else [])"
  define s1 where "s1 = (if take 1 s = ''-'' then drop 1 s else s)"
  define r1 where "r1 = dropWhile is_digit s1"
  define f where "f = (if take 1 r1 = ''.'' then ''.'' @ takeWhile is_digit (drop 1 r1) else [])"
  define r2 where "r2 = (if take 1 r1 = ''.'' then dropWhile is_digit (drop 1 r1) else r1)"
  have s: "s = sg @ takeWhile is_digit s1 @ r1" by (cases s) (auto simp: sg_def s1_def r1_def)
  have r1: "r1 = f @ r2" by (cases r1) (auto simp: f_def r2_def)
  have "ParseFloat s = (if takeWhile is_digit s1 = [] \<or> take 1 r1 = ''.'' \<and>
        (if take 1 r1 = ''.'' then takeWhile is_digit (drop 1 r1) else []) = [] then None
      else case (if r2 = [] then Some 0
                 else if take 1 r2 = ''e'' \<or> take 1 r2 = ''E'' then Atoi (drop 1 r2) else None) of
             None \<Rightarrow> None
           | Some e \<Rightarrow> decimal_f64 (take 1 s = ''-'') (digits_val (takeWhile is_digit s1 @
               (if take 1 r1 = ''.'' then takeWhile is_digit (drop 1 r1) else [])))
               (e - int (length (if take 1 r1 = ''.'' then takeWhile is_digit (drop 1 r1) else []))))"
    by (simp only: ParseFloat_def Let_def s1_def r1_def r2_def)
  with assms(1) have dot: "take 1 r1 = ''.'' \<longrightarrow> takeWhile is_digit (drop 1 r1) \<noteq> []"
    and "(if r2 = [] then Some 0
          else if take 1 r2 = ''e'' \<or> take 1 r2 = ''E'' then Atoi (drop 1 r2) else None) \<noteq> None"
    by (auto split: if_splits option.splits)
  then have ex: "r2 = [] \<or> (\<exists>c t v. r2 = c # t \<and> (c = CHR ''e'' \<or> c = CHR ''E'') \<and> Atoi t = Some v)"
    by (cases r2) (auto split: if_splits)
  from dot have fr: "scan_frac r1 = Some (f, r2)" by (auto simp: scan_frac_def f_def r2_def scan_digits_def)
  have e: "scan_exp r2 = Some (r2, [])"
    using ex by (auto simp: Atoi_scan_exp) (simp add: scan_exp_def)
  have nd: "r1 = [] \<or> \<not> is_digit (hd r1)" unfolding r1_def by (metis hd_dropWhile)
  have "int_part (takeWhile is_digit s1)" using assms(2) by (simp only: s1_def)
  moreover have "sg = ''-'' \<or> sg = []" by (simp add: sg_def)
  ultimately have "scan_number (sg @ takeWhile is_digit s1 @ r1) = Some (sg @ takeWhile is_digit s1 @ f @ r2, [])"
    by (rule scan_number_parts [OF _ _ nd fr e])
  then show ?thesis by (simp only: r1 [symmetric] s [symmetric])
qed

lemma round_f64_zero: "0 < d \<Longrightarrow> round_f64 0 d = Some 0"
  using scale_index_least [of 0 2046 0 "d * 2 ^ 53" 0]
  by (simp add: round_f64_def round_half_even_def)

lemma decimal_f64_zero: "decimal_f64 neg 0 E = Some (f64_make neg 0)"
  by (simp add: decimal_f64_def round_f64_zero)

lemma f64_mag_make_zero: "f64_mag (f64_make neg 0) = 0"
  by (simp add: f64_mag_def f64_make_def)

lemma takeWhile_zeros:
  "takeWhile is_digit (replicate k CHR ''0'') = replicate k CHR ''0''"
  "dropWhile is_digit (replicate k CHR ''0'') = []"
  by (induction k) (auto simp: is_digit_def)

lemma ParseFloat_all_zeros:
  assumes "ParseFloat ((if neg then ''-'' else []) @ t) = Some x"
    and "t = replicate k CHR ''0'' \<or> t = ''0.'' @ replicate k CHR ''0''"
  shows "f64_mag x = 0"
proof -
  have d: "is_digit CHR ''0''" "\<not> is_digit CHR ''.''" by code_simp+
  have z: "digits_val (CHR ''0'' # replicate j CHR ''0'') = 0"
    "digits_val (CHR ''0'' # CHR ''0'' # replicate j CHR ''0'') = 0" for j
    using digits_val_zeros [of "Suc j"] digits_val_zeros [of "Suc (Suc j)"] by simp_all
  have "x = f64_make neg 0"
    using assms(2)
  proof
    assume t: "t = replicate k CHR ''0''"
    then show ?thesis
      using assms(1) z d by (cases k; cases neg)
        (auto simp: ParseFloat_def Let_def takeWhile_zeros decimal_f64_zero)
  next
    assume t: "t = ''0.'' @ replicate k CHR ''0''"
    then show ?thesis
      using assms(1) z d by (cases k; cases neg)
        (auto simp: ParseFloat_def Let_def takeWhile_zeros decimal_f64_zero)
  qed
  then show ?thesis by (simp add: f64_mag_make_zero)
qed

lemma strip_zeros_hd: "strip_zeros ds \<noteq> [] \<Longrightarrow> hd (strip_zeros ds) = hd ds"
proof -
  assume ne: "strip_zeros ds \<noteq> []"
  have "ds = strip_zeros ds @ rev (takeWhile (\<lambda>c. c = CHR ''0'') (rev ds))"
    unfolding strip_zeros_def by (metis rev_append rev_rev_ident takeWhile_dropWhile_id)
  with ne show ?thesis by (metis hd_append2)
qed

text \<open>Every layout of the digits of a positive number starts with a well-formed integer part.\<close>

lemma layout_int_part:
  assumes "ds \<noteq> []" "list_all is_digit ds" "hd ds \<noteq> CHR ''0''" "0 < p \<or> p - 1 < - 6"
  shows "int_part (takeWhile is_digit (layout_json ds p))"
proof -
  have lead: "int_part (takeWhile is_digit (ds' @ r))"
    if "ds' \<noteq> []" "hd ds' = hd ds" "list_all is_digit ds'" "r = [] \<or> \<not> is_digit (hd r)" for ds' r
  proof -
    have "takeWhile is_digit ds' = ds'" using that(3) by (simp add: list_all_iff takeWhile_eq_all_conv)
    then have "takeWhile is_digit (ds' @ r) = ds'"
      using takeWhile_app [where P = is_digit and r = r and s = ds'] that(4) by argo
    with that(1-3) assms(3) show ?thesis by (simp add: int_part_def)
  qed
  show ?thesis
  proof (cases "p - 1 < -6 \<or> 21 \<le> p - 1")
    case True
    have e: "\<exists>r. layout_e ds p = take 1 ds @ r \<and> \<not> is_digit (hd r)"
      by (auto simp: layout_e_def Let_def is_digit_def)
    then obtain r where "layout_e ds p = take 1 ds @ r" "\<not> is_digit (hd r)" by blast
    with True lead [of "take 1 ds" r] assms(1,2) show ?thesis
      by (cases ds) (auto simp: layout_json_def)
  next
    case False
    then have p: "0 < p" using assms(4) by auto
    show ?thesis
    proof (cases "int (length ds) \<le> p")
      case True
      have "list_all is_digit (replicate n CHR ''0'')" for n by (induction n) (auto simp: is_digit_def)
      with True False p lead [of "ds @ replicate (nat p - length ds) CHR ''0''" "[]"] assms(1,2)
      show ?thesis by (simp add: layout_json_def layout_f_def)
    next
      case False
      have "take (nat p) ds \<noteq> []" "hd (take (nat p) ds) = hd ds" "list_all is_digit (take (nat p) ds)"
        using p assms(1,2) by (auto simp: list_all_iff dest: in_set_takeD)
      with \<open>\<not> int (length ds) \<le> p\<close> \<open>\<not> (p - 1 < -6 \<or> 21 \<le> p - 1)\<close> p
        lead [of "take (nat p) ds" "''.'' @ drop (nat p) ds"]
      show ?thesis by (simp add: layout_json_def layout_f_def is_digit_def)
    qed
  qed
qed

lemma near_texts_shape:
  assumes "0 \<le> V" "t \<in> set (near_texts V p n)"
  obtains D q where "0 \<le> D" "t = layout_json (strip_zeros (show_dec D)) q"
proof -
  define x where "x = int n - p"
  define lo where "lo = (if 0 \<le> x then V * 10 ^ nat x else V) div
      (if 0 \<le> x then 2 ^ 1074 else 2 ^ 1074 * 10 ^ nat (- x))"
  define f where "f = (\<lambda>D. layout_json (strip_zeros (show_dec D)) (int (length (show_dec D)) - x))"
  have d: "(0 :: int) < 2 ^ 1074" by (rule zero_less_power) (rule zero_less_numeral)
  have "0 \<le> (if 0 \<le> x then V * 10 ^ nat x else V)" using assms(1) by simp
  moreover have "(0 :: int) < (if 0 \<le> x then 2 ^ 1074 else 2 ^ 1074 * 10 ^ nat (- x))"
    using d by (simp only: split: if_split) (simp only: mult_pos_pos zero_less_power zero_less_numeral, simp)
  ultimately have lo: "0 \<le> lo" unfolding lo_def by (simp only: pos_imp_zdiv_nonneg_iff)
  have "near_texts V p n = [f lo, f (lo + 1)] \<or> near_texts V p n = [f (lo + 1), f lo]"
    unfolding near_texts_def Let_def x_def [symmetric] lo_def [symmetric] f_def [symmetric]
    by (simp only: f_def split: if_split) blast
  then have "t = f lo \<or> t = f (lo + 1)" using assms(2) by (metis empty_iff empty_set set_ConsD)
  then show ?thesis using that [of lo] that [of "lo + 1"] lo unfolding f_def by (elim disjE) simp_all
qed

lemma near_text_number:
  assumes "0 \<le> V" "t \<in> set (near_texts V p n)" "f64_mag x \<noteq> 0"
    and "ParseFloat ((if neg then ''-'' else []) @ t) = Some x"
  shows "scan_number ((if neg then ''-'' else []) @ t) = Some ((if neg then ''-'' else []) @ t, [])"
proof -
  obtain D q where D: "0 \<le> D" "t = layout_json (strip_zeros (show_dec D)) q"
    using near_texts_shape [OF assms(1,2)] .
  let ?ds = "strip_zeros (show_dec D)"
  have dd: "list_all is_digit ?ds" using strip_zeros_digits show_dec_digits [OF D(1)] by blast
  have ne: "?ds \<noteq> []"
  proof
    assume e: "?ds = []"
    show False
    proof (cases "q - 1 < -6 \<or> 21 \<le> q - 1")
      case True
      then have t: "t = layout_e [] q" using D(2) e by (simp only: layout_json_def if_True)
      obtain r where r: "t = CHR ''e'' # r" unfolding t by (cases "q < 1") (auto simp: layout_e_def Let_def)
      have "\<not> is_digit CHR ''e''" by code_simp
      then have "ParseFloat ((if neg then ''-'' else []) @ t) = None"
        unfolding r by (cases neg) (simp_all add: ParseFloat_def Let_def)
      with assms(4) show False by simp
    next
      case False
      then have "\<exists>k. t = replicate k CHR ''0'' \<or> t = ''0.'' @ replicate k CHR ''0''"
        using D(2) e by (auto simp: layout_json_def layout_f_def)
      then show False using ParseFloat_all_zeros [OF assms(4)] assms(3) by blast
    qed
  qed
  have hd: "hd ?ds \<noteq> CHR ''0''"
  proof (cases "D = 0")
    case True
    have "strip_zeros ''0'' = []" by code_simp
    with True ne show ?thesis by (simp add: show_dec_zero)
  next
    case False
    with D(1) show ?thesis using strip_zeros_hd [OF ne] show_dec_leading [of D] by simp
  qed
  have "int_part (takeWhile is_digit t)"
  proof (cases "0 < q \<or> q - 1 < -6")
    case True
    with layout_int_part [OF ne dd hd] D(2) show ?thesis by blast
  next
    case False
    then have "\<exists>r. t = ''0.'' @ r" using D(2) by (auto simp: layout_json_def layout_f_def)
    then show ?thesis by (auto simp: is_digit_def int_part_def)
  qed
  moreover from this have "t \<noteq> []" "is_digit (hd t)" by (auto simp: int_part_def takeWhile_eq_Nil_iff)
  moreover from this have "take 1 t \<noteq> ''-''" by (cases t) (auto simp: is_digit_def)
  ultimately have "int_part (takeWhile is_digit (if take 1 ((if neg then ''-'' else []) @ t) = ''-''
      then drop 1 ((if neg then ''-'' else []) @ t) else (if neg then ''-'' else []) @ t))"
    by (cases neg) simp_all
  with ParseFloat_number [OF assms(4)] show ?thesis by simp
qed

lemma exact_text_number:
  assumes "0 \<le> V"
  shows "scan_number ((if neg then ''-'' else []) @ exact_text V) = Some ((if neg then ''-'' else []) @ exact_text V, [])"
proof -
  let ?sg = "if neg then ''-'' else []" and ?ds = "show_dec (V * 5 ^ 1074)"
  have "int_part ?ds" using assms by (intro int_part_show_dec mult_nonneg_nonneg zero_le_power zero_le_numeral)
  moreover have "scan_frac ''e-1074'' = Some ([], ''e-1074'')" "scan_exp ''e-1074'' = Some (''e-1074'', [])"
    by code_simp+
  moreover have "?sg = ''-'' \<or> ?sg = []" by simp
  moreover have "''e-1074'' = [] \<or> \<not> is_digit (hd ''e-1074'')" by (simp add: is_digit_def)
  ultimately have "scan_number (?sg @ ?ds @ ''e-1074'') = Some (?sg @ ?ds @ [] @ ''e-1074'', [])"
    by (intro scan_number_parts)
  then show ?thesis by (simp only: exact_text_def append_Nil)
qed

lemma FormatJSONFloat_number: "scan_number (FormatJSONFloat x) = Some (FormatJSONFloat x, [])"
proof -
  let ?sg = "if f64_neg x then ''-'' else []" and ?V = "f64_scaled (f64_mag x)"
  let ?ts = "concat (map (near_texts ?V (decimal_point ?V)) [1..<18])"
  have V: "0 \<le> ?V" using f64_scaled_nonneg [OF f64_mag_nonneg [of x]] .
  show ?thesis
  proof (cases "?V = 0")
    case True
    have "int_part ''0''" by (simp add: int_part_def is_digit_def)
    from number_int_part [OF this, of ?sg] True show ?thesis by (simp add: FormatJSONFloat_def)
  next
    case False
    then have m: "f64_mag x \<noteq> 0" by (auto simp: f64_scaled_def)
    show ?thesis
    proof (cases "find (\<lambda>t. ParseFloat (?sg @ t) = Some x) ?ts")
      case None
      with exact_text_number [OF V] False show ?thesis
        by (simp only: FormatJSONFloat_def Let_def if_False option.case)
    next
      case (Some t)
      then obtain n where "t \<in> set (near_texts ?V (decimal_point ?V) n)" "ParseFloat (?sg @ t) = Some x"
        by (auto simp: find_Some_iff in_set_conv_nth [symmetric] dest!: nth_mem)
      from near_text_number [OF V this(1) m this(2)] Some False show ?thesis
        by (simp only: FormatJSONFloat_def Let_def if_False option.case)
    qed
  qed
qed

lemma json_ok_float64: "enc_float64 x = Some j \<Longrightarrow> json_ok d j"
  by (auto simp: enc_float64_def FormatJSONFloat_number split: if_splits)

section \<open>Strings\<close>

abbreviation ascii :: "string \<Rightarrow> bool" where
  "ascii \<equiv> list_all (\<lambda>c. (of_char c :: int) < 128)"

lemma ascii_valid: "ascii s \<Longrightarrow> utf8_valid s"
  by (induction s) auto

lemma hex_val_ascii: "hex_val c = Some v \<Longrightarrow> (of_char c :: int) < 128"
  by (auto simp: hex_val_def Let_def split: if_splits)

lemma DecodeString_ascii: "DecodeString s = Some t \<Longrightarrow> ascii s"
  by (induction s arbitrary: t rule: DecodeString.induct)
    (auto simp: hex_val_ascii split: option.splits prod.splits)

lemma ValidNodeID_ascii: "ValidNodeID s \<Longrightarrow> ascii s"
  using ValidNodeID_chars [of s] by (auto simp: list_all_iff dest!: id_char_range)

lemma digits_ascii: "list_all is_digit s \<Longrightarrow> ascii s"
  by (auto simp: list_all_iff is_digit_def)

lemma num_fixed_ascii: "num_fixed k s = Some (n, r) \<Longrightarrow> ascii s \<longleftrightarrow> ascii r"
proof -
  assume "num_fixed k s = Some (n, r)"
  then have "r = drop k s" "ascii (take k s)" by (auto simp: num_fixed_def digits_ascii split: if_splits)
  moreover have "ascii s \<longleftrightarrow> ascii (take k s) \<and> ascii (drop k s)" by (metis append_take_drop_id list_all_append)
  ultimately show ?thesis by simp
qed

lemma expect_ascii: "expect c s = Some r \<Longrightarrow> (of_char c :: int) < 128 \<Longrightarrow> ascii s \<longleftrightarrow> ascii r"
  by (cases s) (auto simp: expect_def split: if_splits)

lemma parse_hour_ascii: "parse_hour l s = Some (n, r) \<Longrightarrow> ascii s \<longleftrightarrow> ascii r"
  by (auto simp: parse_hour_def dest: num_fixed_ascii split: option.splits if_splits)

lemma parse_frac_ascii: "parse_frac l s = (n, r) \<Longrightarrow> ascii s \<longleftrightarrow> ascii r"
proof -
  assume p: "parse_frac l s = (n, r)"
  have w: "ascii t \<longleftrightarrow> ascii (dropWhile is_digit t)" for t
    using digits_ascii [of "takeWhile is_digit t"]
    by (metis list_all_append set_takeWhileD takeWhile_dropWhile_id list_all_iff)
  show ?thesis using p w [of "drop 1 s"] by (cases s) (auto simp: parse_frac_def split: if_splits)
qed

lemma parse_zone_ascii: "parse_zone l s = Some (n, r) \<Longrightarrow> ascii s \<longleftrightarrow> ascii r"
  by (cases s) (auto simp: parse_zone_def bind_eq_Some_conv dest!: num_fixed_ascii expect_ascii split: if_splits)

lemma bind_pairE:
  assumes "Option.bind x (\<lambda>(a, b). f a b) = Some t"
  obtains a b where "x = Some (a, b)" "f a b = Some t"
  using assms that by (auto simp: bind_eq_Some_conv)

lemma bind_someE:
  assumes "Option.bind x f = Some t"
  obtains a where "x = Some a" "f a = Some t"
  using assms that by (auto simp: bind_eq_Some_conv)

lemma case_pairE:
  assumes "(case p of (a, b) \<Rightarrow> f a b) = Some t"
  obtains a b where "p = (a, b)" "f a b = Some t"
  using assms that by (cases p) auto

lemma parse_rfc3339_fields:
  assumes "parse_rfc3339 l s = Some t"
  obtains y m d h mi se ns off s1 s2 s3 s4 s5 s6 s7 s8 s9 s10 s11 s12 where
    "num_fixed 4 s = Some (y, s1)" "expect CHR ''-'' s1 = Some s2" "num_fixed 2 s2 = Some (m, s3)"
    "expect CHR ''-'' s3 = Some s4" "num_fixed 2 s4 = Some (d, s5)" "expect CHR ''T'' s5 = Some s6"
    "parse_hour l s6 = Some (h, s7)" "expect CHR '':'' s7 = Some s8" "num_fixed 2 s8 = Some (mi, s9)"
    "expect CHR '':'' s9 = Some s10" "num_fixed 2 s10 = Some (se, s11)" "parse_frac l s11 = (ns, s12)"
    "parse_zone l s12 = Some (off, [])" "1 \<le> m" "m \<le> 12" "1 \<le> d" "d \<le> days_in_month y m"
    "h < 24" "mi < 60" "se < 60"
    "t = \<lparr>t_inst = ((days_of_date y m d * 86400 + h * 3600 + mi * 60 + se) - off) * 1000000000 + ns,
          t_off = off, t_mono = None\<rparr>"
  using assms unfolding parse_rfc3339_def Let_def
  by (elim bind_pairE bind_someE case_pairE) (simp split: if_splits)

lemma parse_rfc3339_ascii:
  assumes "parse_rfc3339 l s = Some t"
  shows "ascii s"
proof -
  obtain y m d h mi se ns off s1 s2 s3 s4 s5 s6 s7 s8 s9 s10 s11 s12 where c:
    "num_fixed 4 s = Some (y, s1)" "expect CHR ''-'' s1 = Some s2" "num_fixed 2 s2 = Some (m, s3)"
    "expect CHR ''-'' s3 = Some s4" "num_fixed 2 s4 = Some (d, s5)" "expect CHR ''T'' s5 = Some s6"
    "parse_hour l s6 = Some (h, s7)" "expect CHR '':'' s7 = Some s8" "num_fixed 2 s8 = Some (mi, s9)"
    "expect CHR '':'' s9 = Some s10" "num_fixed 2 s10 = Some (se, s11)" "parse_frac l s11 = (ns, s12)"
    "parse_zone l s12 = Some (off, [])"
    using assms by (rule parse_rfc3339_fields) blast
  note n = num_fixed_ascii [OF c(1)] num_fixed_ascii [OF c(3)] num_fixed_ascii [OF c(5)]
    num_fixed_ascii [OF c(9)] num_fixed_ascii [OF c(11)]
  note e = expect_ascii [OF c(2)] expect_ascii [OF c(4)] expect_ascii [OF c(6)] expect_ascii [OF c(8)]
    expect_ascii [OF c(10)]
  show ?thesis
    using n e parse_hour_ascii [OF c(7)] parse_frac_ascii [OF c(12)] parse_zone_ascii [OF c(13)] by simp
qed

text \<open>A time read from a document can be written to one.\<close>

lemma unmarshal_time_marshals:
  assumes "unmarshal_time s = Some t"
  shows "marshal_time t \<noteq> None"
proof -
  obtain y m d h mi se ns off s1 s2 s3 s4 s5 s6 s7 s8 s9 s10 s11 s12 where c:
    "num_fixed 4 s = Some (y, s1)" "expect CHR ''-'' s1 = Some s2" "num_fixed 2 s2 = Some (m, s3)"
    "expect CHR ''-'' s3 = Some s4" "num_fixed 2 s4 = Some (d, s5)" "expect CHR ''T'' s5 = Some s6"
    "parse_hour False s6 = Some (h, s7)" "expect CHR '':'' s7 = Some s8" "num_fixed 2 s8 = Some (mi, s9)"
    "expect CHR '':'' s9 = Some s10" "num_fixed 2 s10 = Some (se, s11)" "parse_frac False s11 = (ns, s12)"
    "parse_zone False s12 = Some (off, [])" "1 \<le> m" "m \<le> 12" "1 \<le> d" "d \<le> days_in_month y m"
    "h < 24" "mi < 60" "se < 60"
    "t = \<lparr>t_inst = ((days_of_date y m d * 86400 + h * 3600 + mi * 60 + se) - off) * 1000000000 + ns,
          t_off = off, t_mono = None\<rparr>"
    using assms unfolding unmarshal_time_def by (rule parse_rfc3339_fields)
  have y: "0 \<le> y" "y \<le> 9999" using num_fixed_bounds [OF c(1)] by simp_all
  have "0 \<le> h" "0 \<le> mi" "0 \<le> se" "0 \<le> ns" "ns < 1000000000"
    using parse_hour_bounds [OF c(7)] num_fixed_bounds [OF c(9)] num_fixed_bounds [OF c(11)] parse_frac_bounds [OF c(12)]
    by simp_all
  then have "time_local_days t = days_of_date y m d"
    using c(18-20) unfolding time_local_days_def c(21)
    by (intro int_div_pos_eq [where r = "(h * 3600 + mi * 60 + se) * 1000000000 + ns"]) auto
  then have "time_year t = y" using year_of_date [OF c(14-17)] by (simp add: time_year_def)
  with y parse_zone_bounds [OF c(13)] show ?thesis by (simp add: marshal_time_def c(21))
qed

lemma show_dec_ascii: "0 \<le> n \<Longrightarrow> ascii (show_dec n)"
  using show_dec_digits [of n] digits_ascii by blast

lemma pad_ascii: "ascii (pad k n)"
  using digits_ascii [OF pad_digits] .

lemma FormatRFC3339Nano_ascii: "ascii (FormatRFC3339Nano t)"
proof -
  have "ascii (format_zone off)" for off by (simp add: format_zone_def pad_ascii)
  moreover have "ascii (format_frac n)" for n
    using digits_ascii [OF strip_zeros_digits [OF pad_digits]] by (simp add: format_frac_def)
  ultimately show ?thesis
    by (simp add: FormatRFC3339Nano_def Let_def split_beta pad_ascii show_dec_ascii)
qed

lemma json_ok_time: "enc_time t = Some j \<Longrightarrow> json_ok d j"
  by (auto simp: enc_time_def marshal_time_def ascii_valid [OF FormatRFC3339Nano_ascii] split: if_splits)

lemma json_ok_map_uint64:
  assumes "\<And>es. m = Some es \<Longrightarrow> list_all (\<lambda>(k, v). utf8_valid k) es" "d < max_depth"
  shows "json_ok d (enc_map_uint64 m)"
proof (cases m)
  case (Some es)
  have "k \<in> fst ` set es" if "(k, v) \<in> set (sorted_items es)" for k v
    using that map_fst_sorted_items [of es] by (metis fst_conv image_eqI list.set_map set_sort)
  with Some assms show ?thesis
    by (auto simp: enc_map_uint64_def list_all_iff) fastforce
qed (simp add: enc_map_uint64_def)

lemma json_ok_mono: "json_ok d j \<Longrightarrow> d' \<le> d \<Longrightarrow> json_ok d' j"
proof (induction j arbitrary: d d')
  case (JArr js)
  have "json_ok (Suc d') j" if "j \<in> set js" for j
    using that JArr.IH [of j "Suc d" "Suc d'"] JArr.prems by (auto simp: list_all_iff)
  with JArr.prems show ?case by (auto simp: list_all_iff)
next
  case (JObj ms)
  have "json_ok (Suc d') v" if "(k, v) \<in> set ms" for k v
    using that JObj.IH [of "(k, v)" v "Suc d" "Suc d'"] JObj.prems by (auto simp: list_all_iff)
  with JObj.prems show ?case by (auto simp: list_all_iff)
qed auto

lemma unmarshal_text: "json_ok 1 j \<Longrightarrow> unmarshal d z (json_text j) = d z j"
  using parse_text [OF json_ok_mono [of 1 j 0]] by (simp add: unmarshal_def)

end
