(* ===== verification/Wal.thy ===== *)
theory Wal
  imports JsonCut JsonValid
begin

text \<open>
  \<open>internal/storage/wal\<close>: the append-only log of checksummed JSON lines, with its recovery from a
  torn tail.

  The file is its bytes together with the length of the part known to be on stable storage, which
  is what a crash is bound to keep.  What the operating system answers to the calls of one
  operation is an argument of the operation: a write may stop after any number of bytes, and every
  other call may fail.
\<close>

section \<open>State\<close>

datatype SyncMode = SyncAlways | SyncBatch | SyncNone

definition syncMode :: "string \<Rightarrow> SyncMode option" where
  "syncMode s =
     (if s = [] \<or> s = ''always'' then Some SyncAlways
      else if s = ''batch'' then Some SyncBatch
      else if s = ''none'' then Some SyncNone
      else None)"

record wal_Config =
  wc_Dir :: string
  wc_SyncMode :: string
  wc_BatchSize :: int

record wal_Record =
  wr_Index :: u64
  wr_Type :: string
  wr_Payload :: string
  wr_CreatedAt :: gotime
  wr_Checksum :: string

record Log =
  lg_file :: string
  lg_synced :: nat
  lg_mode :: SyncMode
  lg_batchSize :: int
  lg_pendingSync :: int
  lg_lastIndex :: u64
  lg_closed :: bool

abbreviation newline :: char where "newline \<equiv> CHR 0x0A"

section \<open>Records\<close>

definition wal_checksum :: "wal_Record \<Rightarrow> string" where
  "wal_checksum r =
     sha256_hex (FormatUint64 (wr_Index r) @ [newline] @ wr_Type r @ [newline] @ wr_Payload r)"

text \<open>\<open>json.Marshal\<close> of a record; it fails on a payload that is no JSON text and on a time out of range.\<close>

definition wal_marshal :: "wal_Record \<Rightarrow> string option" where
  "wal_marshal r =
     (case compact (if wr_Payload r = [] then ''null'' else wr_Payload r) of
        None \<Rightarrow> None
      | Some payload \<Rightarrow>
          (case enc_time (wr_CreatedAt r) of
             None \<Rightarrow> None
           | Some ts \<Rightarrow>
               Some (object_text
                 [(''index'', json_text (enc_uint64 (wr_Index r))),
                  (''type'', json_text (JStr (wr_Type r))),
                  (''payload'', payload),
                  (''created_at'', json_text ts),
                  (''checksum'', json_text (JStr (wr_Checksum r)))])))"

definition zero_wal_Record :: wal_Record where
  "zero_wal_Record = \<lparr>wr_Index = 0, wr_Type = [], wr_Payload = [], wr_CreatedAt = time_zero, wr_Checksum = []\<rparr>"

definition wal_fields :: "(string \<times> wal_Record raw_decoder) list" where
  "wal_fields =
     [(''index'', plain (field wr_Index wr_Index_update dec_uint64)),
      (''type'', plain (field wr_Type wr_Type_update dec_string)),
      (''payload'', raw_field wr_Payload_update),
      (''created_at'', plain (field wr_CreatedAt wr_CreatedAt_update dec_time)),
      (''checksum'', plain (field wr_Checksum wr_Checksum_update dec_string))]"

text \<open>One line of the log: decoded, in sequence and untampered.\<close>

definition readRecord :: "u64 \<Rightarrow> string \<Rightarrow> wal_Record option" where
  "readRecord expected line =
     (case unmarshal_struct wal_fields zero_wal_Record line of
        None \<Rightarrow> None
      | Some r \<Rightarrow>
          if wr_Index r \<noteq> expected \<or> wr_Type r = [] \<or> wr_Payload r = [] \<or>
             time_IsZero (wr_CreatedAt r) \<or> wr_Checksum r \<noteq> wal_checksum r then None
          else Some r)"

text \<open>\<open>ReadBytes('\n')\<close>: the line with its delimiter, the rest, and whether the end was met first.\<close>

definition readBytes :: "string \<Rightarrow> string \<times> string \<times> bool" where
  "readBytes s =
     (let line = takeWhile (\<lambda>c. c \<noteq> newline) s; rest = dropWhile (\<lambda>c. c \<noteq> newline) s
      in if rest = [] then (line, [], True) else (line @ [newline], tl rest, False))"

function readLoop :: "string \<Rightarrow> u64 \<Rightarrow> nat \<Rightarrow> wal_Record list \<Rightarrow> go_error + wal_Record list \<times> nat" where
  "readLoop s expected validSize records =
     (let (line, rest, eof) = readBytes s; t = TrimSpace line
      in if eof then Inr (records, validSize)
         else if t = [] then readLoop rest expected validSize records
         else case readRecord expected t of
                None \<Rightarrow> Inl WalErrCorruptRecord
              | Some r \<Rightarrow> readLoop rest (expected + 1) (validSize + length line) (records @ [r]))"
  by pat_completeness auto
termination
proof (relation "measure (\<lambda>(s, expected, validSize, records). length s)", goal_cases)
  have dec: "length rest < length s" if "readBytes s = (line, rest, False)" for s line rest
  proof -
    have "dropWhile (\<lambda>c. c \<noteq> newline) s \<noteq> []" "rest = tl (dropWhile (\<lambda>c. c \<noteq> newline) s)"
      using that by (auto simp: readBytes_def Let_def split: if_splits)
    then show ?thesis using length_dropWhile_le [of "\<lambda>c. c \<noteq> newline" s]
      by (cases "dropWhile (\<lambda>c. c \<noteq> newline) s") auto
  qed
  {
    case 1 show ?case by simp
  next
    case 2 then show ?case by (auto dest: dec [OF sym])
  next
    case 3 then show ?case by (auto dest: dec [OF sym])
  }
qed

declare readLoop.simps [simp del]

text \<open>A last line without a delimiter is a torn write: it is left out, whatever it holds.\<close>

definition readRecords :: "bool \<Rightarrow> string \<Rightarrow> go_error + wal_Record list \<times> nat" where
  "readRecords io_ok file = (if \<not> io_ok then Inl IOError else readLoop file 1 0 [])"

section \<open>Operations\<close>

record open_io =
  oi_mkdir :: bool
  oi_open :: bool
  oi_read :: bool
  oi_stat :: bool
  oi_truncate :: bool
  oi_seek :: bool

text \<open>
  The bytes \<open>Open\<close> finds are what the last crash left, and count as kept by the next one; \<open>Open\<close>
  itself does not sync, but recovery does, in \<open>RecordsAfter\<close>, before it uses the records.
\<close>

definition wal_Open :: "wal_Config \<Rightarrow> open_io \<Rightarrow> string \<Rightarrow> go_error + Log" where
  "wal_Open config io file =
     (if wc_Dir config = [] then Inl WalErrInvalidConfig
      else case syncMode (wc_SyncMode config) of
             None \<Rightarrow> Inl WalErrInvalidConfig
           | Some mode \<Rightarrow>
               if \<not> oi_mkdir io \<or> \<not> oi_open io then Inl IOError
               else (case readRecords (oi_read io) file of
                       Inl e \<Rightarrow> Inl e
                     | Inr (records, validSize) \<Rightarrow>
                         if \<not> oi_stat io then Inl IOError
                         else if length file > validSize \<and> \<not> oi_truncate io then Inl IOError
                         else if \<not> oi_seek io then Inl IOError
                         else
                           (let file' = (if length file > validSize then take validSize file else file)
                            in Inr \<lparr>lg_file = file', lg_synced = length file', lg_mode = mode,
                                    lg_batchSize = (if wc_BatchSize config \<le> 0 then 32 else wc_BatchSize config),
                                    lg_pendingSync = 0,
                                    lg_lastIndex = (if records = [] then 0 else wr_Index (last records)),
                                    lg_closed = False\<rparr>)))"

definition syncLocked :: "bool \<Rightarrow> Log \<Rightarrow> Log \<times> go_error option" where
  "syncLocked io_ok l =
     (if io_ok then (l\<lparr>lg_pendingSync := 0, lg_synced := length (lg_file l)\<rparr>, None) else (l, Some IOError))"

text \<open>What one \<open>Append\<close> meets: \<open>Some n\<close> is a write that stops after \<open>n\<close> bytes.\<close>

record append_io =
  ai_now :: gotime
  ai_seek :: bool
  ai_write :: "nat option"
  ai_sync :: bool

definition newRecord :: "Log \<Rightarrow> gotime \<Rightarrow> string \<Rightarrow> string \<Rightarrow> wal_Record" where
  "newRecord l now recordType payload =
     (let r = \<lparr>wr_Index = lg_lastIndex l + 1, wr_Type = recordType, wr_Payload = payload,
               wr_CreatedAt = time_UTC now, wr_Checksum = []\<rparr>
      in r\<lparr>wr_Checksum := wal_checksum r\<rparr>)"

definition wal_Append :: "append_io \<Rightarrow> Log \<Rightarrow> string \<Rightarrow> string \<Rightarrow> Log \<times> (go_error + u64)" where
  "wal_Append io l recordType payload =
     (if lg_closed l then (l, Inl WalErrClosed)
      else if recordType = [] \<or> payload = [] then (l, Inl WalErrInvalidConfig)
      else
        (let r = newRecord l (ai_now io) recordType payload
         in case wal_marshal r of
              None \<Rightarrow> (l, Inl JsonError)
            | Some raw0 \<Rightarrow>
                (let raw = raw0 @ [newline]
                 in if \<not> ai_seek io then (l, Inl IOError)
                    else case ai_write io of
                           Some n \<Rightarrow> (l\<lparr>lg_file := lg_file l @ take n raw\<rparr>, Inl IOError)
                         | None \<Rightarrow>
                             (let l1 = l\<lparr>lg_file := lg_file l @ raw, lg_lastIndex := wr_Index r,
                                         lg_pendingSync := lg_pendingSync l + 1\<rparr>
                              in if lg_mode l1 = SyncAlways \<or>
                                    (lg_mode l1 = SyncBatch \<and> lg_pendingSync l1 \<ge> lg_batchSize l1)
                                 then (case syncLocked (ai_sync io) l1 of
                                         (l2, Some e) \<Rightarrow> (l2, Inl e)
                                       | (l2, None) \<Rightarrow> (l2, Inr (wr_Index r)))
                                 else (l1, Inr (wr_Index r))))))"

definition RecordsAfter :: "bool \<Rightarrow> bool \<Rightarrow> Log \<Rightarrow> u64 \<Rightarrow> Log \<times> (go_error + wal_Record list)" where
  "RecordsAfter sync_ok read_ok l index =
     (if lg_closed l then (l, Inl WalErrClosed)
      else if \<not> sync_ok then (l, Inl IOError)
      else
        (let l1 = l\<lparr>lg_synced := length (lg_file l)\<rparr>
         in case readRecords read_ok (lg_file l) of
              Inl e \<Rightarrow> (l1, Inl e)
            | Inr (records, _) \<Rightarrow> (l1, Inr (filter (\<lambda>r. wr_Index r > index) records))))"

definition LastIndex :: "Log \<Rightarrow> u64" where
  "LastIndex l = lg_lastIndex l"

definition wal_Sync :: "bool \<Rightarrow> Log \<Rightarrow> Log \<times> go_error option" where
  "wal_Sync io_ok l = (if lg_closed l then (l, Some WalErrClosed) else syncLocked io_ok l)"

definition wal_Close :: "bool \<Rightarrow> bool \<Rightarrow> Log \<Rightarrow> Log \<times> go_error option" where
  "wal_Close sync_ok close_ok l =
     (if lg_closed l then (l, None)
      else if \<not> sync_ok then (l\<lparr>lg_closed := True\<rparr>, Some IOError)
      else (l\<lparr>lg_closed := True, lg_synced := length (lg_file l)\<rparr>, if close_ok then None else Some IOError))"

section \<open>Reading back what was appended\<close>

text \<open>A record the log can hold: a JSON payload in compact form, a printable type, a time RFC 3339 can express.\<close>

definition rec_ok :: "wal_Record \<Rightarrow> bool" where
  "rec_ok r \<longleftrightarrow> wr_Type r \<noteq> [] \<and> utf8_valid (wr_Type r) \<and>
     (\<exists>j. wr_Payload r = json_text j \<and> json_ok 1 j) \<and> time_wf (wr_CreatedAt r) \<and>
     t_mono (wr_CreatedAt r) = None \<and> \<not> time_IsZero (wr_CreatedAt r) \<and> wr_Checksum r = wal_checksum r"

definition rec_json :: "wal_Record \<Rightarrow> json \<Rightarrow> json" where
  "rec_json r j = JObj
     [(''index'', enc_uint64 (wr_Index r)), (''type'', JStr (wr_Type r)), (''payload'', j),
      (''created_at'', JStr (FormatRFC3339Nano (wr_CreatedAt r))), (''checksum'', JStr (wr_Checksum r))]"

definition wal_text :: "wal_Record \<Rightarrow> string" where
  "wal_text r = (case wal_marshal r of None \<Rightarrow> [] | Some t \<Rightarrow> t)"

definition wal_line :: "wal_Record \<Rightarrow> string" where
  "wal_line r = wal_text r @ [newline]"

lemma marshal_rec:
  assumes "rec_ok r" "wr_Payload r = json_text j" "json_ok 1 j"
  shows "wal_marshal r = Some (json_text (rec_json r j))" "json_ok 0 (rec_json r j)"
proof -
  have "compact (json_text j) = Some (json_text j)" using json_ok_mono [OF assms(3)] by simp
  moreover have "json_text j \<noteq> []" using text_head [OF assms(3)] by (simp add: value_head_def)
  moreover have "enc_time (wr_CreatedAt r) = Some (JStr (FormatRFC3339Nano (wr_CreatedAt r)))"
    using assms(1) by (simp add: rec_ok_def enc_time_def marshal_time_def time_wf_def)
  ultimately show "wal_marshal r = Some (json_text (rec_json r j))"
    unfolding wal_marshal_def rec_json_def object_text_json [symmetric] using assms(2) by simp
  have "utf8_valid (wr_Checksum r)"
    using assms(1) DecodeString_ascii [of "wr_Checksum r"]
    by (auto simp: rec_ok_def wal_checksum_def sha256_hex_def intro!: ascii_valid)
  with assms(1,3) show "json_ok 0 (rec_json r j)"
    by (auto simp: rec_json_def rec_ok_def max_depth_def ascii_valid FormatRFC3339Nano_ascii)
qed

lemma rec_okE:
  assumes "rec_ok r"
  obtains j where "wr_Payload r = json_text j" "json_ok 1 j" "wal_text r = json_text (rec_json r j)"
    "json_ok 0 (rec_json r j)"
proof -
  obtain j where j: "wr_Payload r = json_text j" "json_ok 1 j" using assms by (auto simp: rec_ok_def)
  with marshal_rec [OF assms j] that show ?thesis by (simp add: wal_text_def)
qed

lemma wal_text_line:
  assumes "rec_ok r"
  shows "newline \<notin> set (wal_text r)" "TrimSpace (wal_line r) = wal_text r" "wal_text r \<noteq> []"
proof -
  obtain j where j: "wal_text r = json_text (rec_json r j)" "json_ok 0 (rec_json r j)" using rec_okE [OF assms] .
  have "list_all printable (wal_text r)" unfolding j(1) using json_text_printable [OF j(2)] .
  then show n: "newline \<notin> set (wal_text r)" by (auto simp: list_all_iff printable_def)
  show "wal_text r \<noteq> []" unfolding j(1) rec_json_def by simp
  show "TrimSpace (wal_line r) = wal_text r"
    unfolding wal_line_def by (rule TrimSpace_ends) (simp_all add: j(1) rec_json_def)
qed

lemma quote_index: "quote ''index'' = [CHR 0x22] @ ''index'' @ [CHR 0x22]"
  by code_simp

lemma wal_text_shape: "rec_ok r \<Longrightarrow> \<exists>t. wal_text r = object_i (t @ ''}'')"
  by (elim rec_okE) (simp add: rec_json_def quote_index)

lemma wal_fields_find:
  "find_field wal_fields ''index'' = Some (plain (field wr_Index wr_Index_update dec_uint64))"
  "find_field wal_fields ''type'' = Some (plain (field wr_Type wr_Type_update dec_string))"
  "find_field wal_fields ''payload'' = Some (raw_field wr_Payload_update)"
  "find_field wal_fields ''created_at'' = Some (plain (field wr_CreatedAt wr_CreatedAt_update dec_time))"
  "find_field wal_fields ''checksum'' = Some (plain (field wr_Checksum wr_Checksum_update dec_string))"
  by (simp_all add: find_field_def wal_fields_def)

lemma readRecord_text:
  assumes "rec_ok r"
  shows "readRecord (wr_Index r) (wal_text r) = Some r"
proof -
  obtain j where j: "wr_Payload r = json_text j" "wal_text r = json_text (rec_json r j)" "json_ok 0 (rec_json r j)"
    using rec_okE [OF assms] by metis
  have t: "dec_time x (JStr (FormatRFC3339Nano (wr_CreatedAt r))) = Some (wr_CreatedAt r)" for x
    using assms parse_format_time [of "wr_CreatedAt r" False]
    by (simp add: rec_ok_def dec_time_def unmarshal_time_def time_Round0_def)
  have "unmarshal_struct wal_fields zero_wal_Record (wal_text r) = Some r"
    unfolding j(2) rec_json_def
    by (subst unmarshal_object_text [OF j(3) [unfolded rec_json_def]])
      (simp add: wal_fields_find plain_def raw_field_def field_def t zero_wal_Record_def j(1) [symmetric])
  moreover have "wr_Payload r \<noteq> []" using j(1,3) text_head [of 1 j] by (simp add: rec_json_def value_head_def)
  ultimately show ?thesis using assms by (simp add: readRecord_def rec_ok_def)
qed

lemma readBytes_line:
  "newline \<notin> set t \<Longrightarrow> readBytes (t @ newline # rest) = (t @ [newline], rest, False)"
proof -
  assume "newline \<notin> set t"
  then have "takeWhile (\<lambda>c. c \<noteq> newline) (t @ newline # rest) = t"
    "dropWhile (\<lambda>c. c \<noteq> newline) (t @ newline # rest) = newline # rest"
    by (induction t) auto
  then show ?thesis by (simp add: readBytes_def)
qed

lemma readLoop_torn:
  assumes "newline \<notin> set s"
  shows "readLoop s e v rs = Inr (rs, v)"
proof -
  have "dropWhile (\<lambda>c. c \<noteq> newline) s = []" using assms by (simp add: dropWhile_eq_Nil_conv) metis
  then show ?thesis by (subst readLoop.simps) (simp add: readBytes_def Let_def)
qed

lemma readLoop_line:
  assumes "rec_ok r"
  shows "readLoop (wal_line r @ s) (wr_Index r) v rs = readLoop s (wr_Index r + 1) (v + length (wal_line r)) (rs @ [r])"
proof -
  have "readBytes (wal_line r @ s) = (wal_line r, s, False)"
    using readBytes_line [OF wal_text_line(1) [OF assms]] by (simp add: wal_line_def)
  then show ?thesis
    using wal_text_line(2,3) [OF assms] readRecord_text [OF assms] by (subst readLoop.simps) simp
qed

fun chain :: "u64 \<Rightarrow> wal_Record list \<Rightarrow> bool" where
  "chain e [] \<longleftrightarrow> True"
| "chain e (r # rs) \<longleftrightarrow> wr_Index r = e \<and> rec_ok r \<and> chain (e + 1) rs"

abbreviation wal_lines :: "wal_Record list \<Rightarrow> string" where
  "wal_lines rs \<equiv> concat (map wal_line rs)"

lemma readLoop_chain:
  "chain e rs \<Longrightarrow> readLoop (wal_lines rs @ s) e v acc =
     readLoop s (e + of_nat (length rs)) (v + length (wal_lines rs)) (acc @ rs)"
proof (induction rs arbitrary: e v acc)
  case (Cons r rs)
  then show ?case using readLoop_line [of r "wal_lines rs @ s" v acc] by (simp add: algebra_simps)
qed simp

lemma readRecords_chain:
  assumes "chain 1 rs" "newline \<notin> set torn"
  shows "readRecords True (wal_lines rs @ torn) = Inr (rs, length (wal_lines rs))"
  using readLoop_chain [OF assms(1), of torn 0 "[]"] readLoop_torn [OF assms(2)] by (simp add: readRecords_def)

lemma chain_append: "chain e (xs @ ys) \<longleftrightarrow> chain e xs \<and> chain (e + of_nat (length xs)) ys"
  by (induction xs arbitrary: e) (auto simp: algebra_simps)

lemma chain_index:
  "chain e rs \<Longrightarrow> i < length rs \<Longrightarrow> wr_Index (rs ! i) = e + of_nat i \<and> rec_ok (rs ! i)"
proof (induction rs arbitrary: e i)
  case (Cons r rs)
  then show ?case by (cases i) (auto simp: algebra_simps)
qed simp

lemma chain_take: "chain e rs \<Longrightarrow> chain e (take k rs)"
  by (metis append_take_drop_id chain_append)

lemma chain_filter:
  assumes "chain 1 rs" "length rs < 2 ^ 64" "n \<le> length rs"
  shows "filter (\<lambda>r. wr_Index r > of_nat n) rs = drop n rs"
proof -
  have u: "unat (of_nat k :: u64) = k" if "k \<le> length rs" for k
    using that assms(2) by (simp add: unsigned_of_nat take_bit_eq_mod)
  have i: "unat (wr_Index (rs ! i)) = Suc i" if "i < length rs" for i
    using chain_index [OF assms(1) that] u [of "Suc i"] that by (simp add: add.commute)
  have "filter (\<lambda>r. wr_Index r > of_nat n) (take n rs) = []"
  proof (rule filter_False, rule ballI)
    fix r assume "r \<in> set (take n rs)"
    then obtain k where "k < n" "k < length rs" "r = rs ! k" by (auto simp: in_set_conv_nth)
    with i [of k] u [of n] assms(3) show "\<not> of_nat n < wr_Index r" by (simp add: word_less_nat_alt)
  qed
  moreover have "filter (\<lambda>r. wr_Index r > of_nat n) (drop n rs) = drop n rs"
  proof (rule filter_True, rule ballI)
    fix r assume "r \<in> set (drop n rs)"
    then obtain k where "k < length rs - n" "r = rs ! (n + k)" by (auto simp: in_set_conv_nth)
    then have "n + k < length rs" "r = rs ! (n + k)" by auto
    with i [of "n + k"] u [of n] assms(3) show "of_nat n < wr_Index r" by (simp add: word_less_nat_alt)
  qed
  ultimately show ?thesis by (metis append_Nil append_take_drop_id filter_append)
qed

section \<open>The log as the list of its records\<close>

definition log_inv :: "Log \<Rightarrow> wal_Record list \<Rightarrow> bool" where
  "log_inv l rs \<longleftrightarrow> lg_file l = wal_lines rs \<and> chain 1 rs \<and> lg_lastIndex l = of_nat (length rs) \<and>
     lg_synced l \<le> length (lg_file l)"

definition clock_ok :: "gotime \<Rightarrow> bool" where
  "clock_ok t \<longleftrightarrow> time_wf (time_UTC t) \<and> \<not> time_IsZero t"

lemma newRecord_ok:
  assumes "recordType \<noteq> []" "utf8_valid recordType" "json_ok 1 j" "clock_ok now"
  shows "rec_ok (newRecord l now recordType (json_text j))"
    and "wal_marshal (newRecord l now recordType (json_text j)) =
      Some (wal_text (newRecord l now recordType (json_text j)))"
proof -
  let ?r = "newRecord l now recordType (json_text j)"
  show ok: "rec_ok ?r"
    using assms by (auto simp: rec_ok_def newRecord_def Let_def clock_ok_def time_UTC_def time_IsZero_def wal_checksum_def)
  have "wr_Payload ?r = json_text j" by (simp add: newRecord_def Let_def)
  from marshal_rec(1) [OF ok this assms(3)] show "wal_marshal ?r = Some (wal_text ?r)" by (simp add: wal_text_def)
qed

lemma log_inv_append:
  assumes "log_inv l rs" "rec_ok r" "wr_Index r = lg_lastIndex l + 1"
    and "lg_file l' = lg_file l @ wal_line r" "lg_lastIndex l' = wr_Index r" "lg_synced l' \<le> length (lg_file l')"
  shows "log_inv l' (rs @ [r])"
  using assms by (auto simp: log_inv_def chain_append algebra_simps)

text \<open>Every outcome of \<open>Append\<close> on a well-formed log.\<close>

lemma wal_Append_cases:
  assumes "log_inv l rs" "\<not> lg_closed l" "recordType \<noteq> []" "utf8_valid recordType" "json_ok 1 j" "clock_ok (ai_now io)"
    and "wal_Append io l recordType (json_text j) = (l', res)" "r = newRecord l (ai_now io) recordType (json_text j)"
  obtains (appended) "res = Inr (wr_Index r)" "log_inv l' (rs @ [r])" "\<not> lg_closed l'" "lg_mode l' = lg_mode l"
      "lg_mode l = SyncAlways \<longrightarrow> lg_synced l' = length (lg_file l')"
  | (unsynced) "res = Inl IOError" "log_inv l' (rs @ [r])" "\<not> lg_closed l'" "lg_mode l' = lg_mode l" "lg_synced l' = lg_synced l"
  | (refused) "res = Inl IOError" "l' = l"
  | (partial) n where "res = Inl IOError" "ai_write io = Some n" "l' = l\<lparr>lg_file := lg_file l @ take n (wal_line r)\<rparr>"
proof -
  have j: "json_text j \<noteq> []" using text_head [OF assms(5)] by (simp add: value_head_def)
  note ok = newRecord_ok [OF assms(3-6), of l, folded assms(8)]
  have idx: "wr_Index r = lg_lastIndex l + 1" using assms(8) by (simp add: newRecord_def Let_def)
  let ?l1 = "l\<lparr>lg_file := lg_file l @ wal_line r, lg_lastIndex := wr_Index r, lg_pendingSync := lg_pendingSync l + 1\<rparr>"
  let ?s = "lg_mode l = SyncAlways \<or> lg_mode l = SyncBatch \<and> lg_pendingSync l + 1 \<ge> lg_batchSize l"
  have A: "wal_Append io l recordType (json_text j) =
      (if \<not> ai_seek io then (l, Inl IOError)
       else case ai_write io of
              Some n \<Rightarrow> (l\<lparr>lg_file := lg_file l @ take n (wal_line r)\<rparr>, Inl IOError)
            | None \<Rightarrow>
                if ?s then (if ai_sync io then (?l1\<lparr>lg_pendingSync := 0, lg_synced := length (lg_file ?l1)\<rparr>, Inr (wr_Index r))
                            else (?l1, Inl IOError))
                else (?l1, Inr (wr_Index r)))"
    unfolding wal_Append_def Let_def assms(8) [symmetric] ok(2) option.case wal_line_def [symmetric]
    using assms(2,3) j by (auto simp: syncLocked_def split: option.split)
  have inv: "log_inv ?l1 (rs @ [r])"
    by (rule log_inv_append [OF assms(1) ok(1) idx]) (use assms(1) in \<open>auto simp: log_inv_def\<close>)
  have inv2: "log_inv (?l1\<lparr>lg_pendingSync := 0, lg_synced := length (lg_file ?l1)\<rparr>) (rs @ [r])"
    by (rule log_inv_append [OF assms(1) ok(1) idx]) auto
  show ?thesis
  proof (cases "ai_seek io")
    case False
    with A assms(7) refused show ?thesis by simp
  next
    case seek: True
    show ?thesis
    proof (cases "ai_write io")
      case (Some n)
      with A seek assms(7) partial [of n] show ?thesis by simp
    next
      case None
      show ?thesis
      proof (cases "?s \<and> \<not> ai_sync io")
        case True
        with A seek None assms(2,7) inv unsynced show ?thesis by auto
      next
        case False
        with A seek None assms(2,7) inv inv2 appended show ?thesis by (auto split: if_splits)
      qed
    qed
  qed
qed

lemma RecordsAfter_inv:
  assumes "log_inv l rs" "\<not> lg_closed l" "length rs < 2 ^ 64" "n \<le> length rs"
  shows "RecordsAfter True True l (of_nat n) = (l\<lparr>lg_synced := length (lg_file l)\<rparr>, Inr (drop n rs))"
proof -
  have "readRecords True (lg_file l) = Inr (rs, length (wal_lines rs))"
    using readRecords_chain [of rs "[]"] assms(1) by (simp add: log_inv_def)
  moreover have "chain 1 rs" using assms(1) by (simp add: log_inv_def)
  ultimately show ?thesis
    using chain_filter [OF _ assms(3,4)] assms(2) by (simp add: RecordsAfter_def)
qed

text \<open>
  C36. \<open>Append\<close> on a well-formed log, whatever the operating system answers: success gives the next
  index, and the log then holds the earlier records followed by the new one, which is what
  \<open>RecordsAfter\<close> returns; under \<open>always\<close> it is on stable storage.  A failure leaves the log as it
  was, or with the complete new record when only the final sync failed, or with the bytes a failed
  write left behind.
\<close>

theorem wal_append:
  assumes "log_inv l rs" "\<not> lg_closed l" "recordType \<noteq> []" "utf8_valid recordType" "json_ok 1 j"
    and "clock_ok (ai_now io)" "length rs < 2 ^ 64 - 1"
    and "r = newRecord l (ai_now io) recordType (json_text j)"
  shows "case wal_Append io l recordType (json_text j) of
      (l', Inr i) \<Rightarrow> unat i = Suc (length rs) \<and> log_inv l' (rs @ [r]) \<and>
        snd (RecordsAfter True True l' 0) = Inr (rs @ [r]) \<and>
        snd (RecordsAfter True True l' (of_nat (length rs))) = Inr [r] \<and>
        (lg_mode l = SyncAlways \<longrightarrow> lg_synced l' = length (lg_file l'))
    | (l', Inl e) \<Rightarrow> e = IOError \<and>
        (l' = l \<or> log_inv l' (rs @ [r]) \<or>
         (\<exists>n. ai_write io = Some n \<and> lg_file l' = lg_file l @ take n (wal_line r)))"
proof -
  obtain l' res where A: "wal_Append io l recordType (json_text j) = (l', res)"
    by (cases "wal_Append io l recordType (json_text j)")
  from assms(1-6) A assms(8) show ?thesis
  proof (cases rule: wal_Append_cases)
    case appended
    have len: "length (rs @ [r]) < 2 ^ 64" using assms(7) by simp
    have "wr_Index r = of_nat (Suc (length rs))"
      using assms(1,8) by (simp add: newRecord_def Let_def log_inv_def add.commute)
    then have "unat (wr_Index r) = Suc (length rs)"
      using assms(7) by (simp add: unsigned_of_nat take_bit_eq_mod del: of_nat_Suc)
    with appended A show ?thesis
      using RecordsAfter_inv [OF appended(2,3) len, of 0] RecordsAfter_inv [OF appended(2,3) len, of "length rs"]
      by simp
  next
    case unsynced
    with A show ?thesis by simp
  next
    case refused
    with A show ?thesis by simp
  next
    case (partial n)
    with A show ?thesis by auto
  qed
qed

definition ex_io :: append_io where
  "ex_io = \<lparr>ai_now = \<lparr>t_inst = 1, t_off = 0, t_mono = None\<rparr>, ai_seek = True, ai_write = None, ai_sync = True\<rparr>"

definition ex_log :: Log where
  "ex_log = \<lparr>lg_file = [], lg_synced = 0, lg_mode = SyncAlways, lg_batchSize = 1, lg_pendingSync = 0,
     lg_lastIndex = 0, lg_closed = False\<rparr>"

lemma ex_log_inv: "log_inv ex_log []" "\<not> lg_closed ex_log"
  by (simp_all add: log_inv_def ex_log_def)

lemma ex_io_clock: "clock_ok (ai_now ex_io)"
proof -
  have "time_wf (time_UTC (ai_now ex_io))" "\<not> time_IsZero (ai_now ex_io)" by code_simp+
  then show ?thesis by (simp add: clock_ok_def)
qed

lemma ex_append:
  assumes "\<not> lg_closed l" "ty \<noteq> []" "utf8_valid ty" "json_ok 1 j"
  obtains l' i where "wal_Append ex_io l ty (json_text j) = (l', Inr i)"
proof -
  have m: "wal_marshal (newRecord l (ai_now ex_io) ty (json_text j)) \<noteq> None"
    using newRecord_ok(2) [OF assms(2-4) ex_io_clock, of l] by simp
  obtain l' res where A: "wal_Append ex_io l ty (json_text j) = (l', res)" by fastforce
  have "json_text j \<noteq> []" using text_head [OF assms(4)] by (simp add: value_head_def)
  then have "res \<noteq> Inl e" for e
    using A m assms(1,2) by (auto simp: wal_Append_def ex_io_def syncLocked_def Let_def split: option.splits if_splits)
  with A that show ?thesis by (cases res) auto
qed

theorem wal_append_witness:
  "\<exists>l' i. wal_Append ex_io ex_log ''t'' (json_text JNull) = (l', Inr i) \<and>
     snd (RecordsAfter True True l' 0) = Inr [newRecord ex_log (ai_now ex_io) ''t'' (json_text JNull)]"
proof -
  have t: "(''t'' :: string) \<noteq> []" "utf8_valid ''t''" "json_ok 1 JNull" "length ([] :: wal_Record list) < 2 ^ 64 - 1"
    by (simp_all add: ascii_valid)
  obtain l' i where A: "wal_Append ex_io ex_log ''t'' (json_text JNull) = (l', Inr i)"
    by (rule ex_append [OF ex_log_inv(2) t(1-3)])
  with wal_append [OF ex_log_inv t(1-3) ex_io_clock t(4) refl] show ?thesis by simp
qed

section \<open>Crashes\<close>

text \<open>A crash keeps some prefix of the file, at least the part that was synced.  It ends between two
  records or inside one, whose delimiter is then missing.\<close>

lemma take_lines:
  assumes "list_all rec_ok rs"
  obtains k torn where "take n (wal_lines rs) = wal_lines (take k rs) @ torn" "newline \<notin> set torn"
    "k \<le> length rs" "\<And>i. i \<le> length rs \<Longrightarrow> length (wal_lines (take i rs)) \<le> n \<Longrightarrow> i \<le> k"
proof -
  have "\<exists>k torn. take n (wal_lines rs) = wal_lines (take k rs) @ torn \<and> newline \<notin> set torn \<and>
      k \<le> length rs \<and> (\<forall>i \<le> length rs. length (wal_lines (take i rs)) \<le> n \<longrightarrow> i \<le> k)"
    using assms
  proof (induction rs arbitrary: n)
    case (Cons r rs)
    show ?case
    proof (cases "length (wal_line r) \<le> n")
      case True
      obtain k torn where IH: "take (n - length (wal_line r)) (wal_lines rs) = wal_lines (take k rs) @ torn"
        "newline \<notin> set torn" "k \<le> length rs"
        "\<forall>i \<le> length rs. length (wal_lines (take i rs)) \<le> n - length (wal_line r) \<longrightarrow> i \<le> k"
        using Cons.IH [of "n - length (wal_line r)"] Cons.prems by auto
      have "i \<le> Suc k" if "i \<le> Suc (length rs)" "length (wal_lines (take i (r # rs))) \<le> n" for i
        using that IH(4) by (cases i) auto
      with True IH(1-3) show ?thesis by (intro exI [of _ "Suc k"] exI [of _ torn]) simp
    next
      case False
      then have n: "n \<le> length (wal_text r)" by (simp add: wal_line_def)
      then have "take n (wal_lines (r # rs)) = take n (wal_text r)" by (simp add: wal_line_def)
      moreover have "newline \<notin> set (take n (wal_text r))"
        using wal_text_line(1) [of r] Cons.prems by (auto dest: in_set_takeD)
      moreover have "i \<le> 0" if "length (wal_lines (take i (r # rs))) \<le> n" for i
        using that False by (cases i) auto
      ultimately show ?thesis by (intro exI [of _ 0] exI [of _ "take n (wal_text r)"]) simp
    qed
  qed simp
  then show ?thesis using that by blast
qed

lemma chain_all: "chain e rs \<Longrightarrow> list_all rec_ok rs"
  by (induction rs arbitrary: e) auto

definition all_ok :: open_io where
  "all_ok = \<lparr>oi_mkdir = True, oi_open = True, oi_read = True, oi_stat = True, oi_truncate = True, oi_seek = True\<rparr>"

lemma wal_Open_lines:
  assumes "chain 1 rs" "newline \<notin> set torn" "wc_Dir config \<noteq> []" "syncMode (wc_SyncMode config) = Some mode"
  obtains l where "wal_Open config all_ok (wal_lines rs @ torn) = Inr l" "log_inv l rs" "\<not> lg_closed l"
    "lg_mode l = mode" "lg_synced l = length (lg_file l)"
proof -
  have "(if rs = [] then 0 else wr_Index (last rs)) = of_nat (length rs)"
    using chain_index [OF assms(1), of "length rs - 1"] by (cases rs rule: rev_cases) auto
  then show ?thesis
    using that assms readRecords_chain [OF assms(1,2)]
    by (auto simp: wal_Open_def all_ok_def log_inv_def Let_def)
qed

text \<open>
  C18. Crash recovery: a crash leaves a prefix of the file no shorter than what was synced; opening
  it succeeds, cuts a torn last line away, and gives a well-formed log that holds a prefix of the
  records, with every record whose bytes were all kept.  In particular nothing that was synced is
  lost, and the next append continues with the next index.
\<close>

theorem wal_crash_recovery:
  assumes "log_inv l rs" "lg_synced l \<le> n" "wc_Dir config \<noteq> []" "syncMode (wc_SyncMode config) = Some mode"
  shows "\<exists>k l'. wal_Open config all_ok (take n (lg_file l)) = Inr l' \<and> log_inv l' (take k rs) \<and>
    (\<forall>i \<le> length rs. length (wal_lines (take i rs)) \<le> lg_synced l \<longrightarrow> i \<le> k) \<and>
    (lg_synced l = length (lg_file l) \<longrightarrow> take k rs = rs \<and> lg_file l' = lg_file l)"
proof -
  have f: "lg_file l = wal_lines rs" "chain 1 rs" using assms(1) by (simp_all add: log_inv_def)
  obtain k torn where k: "take n (wal_lines rs) = wal_lines (take k rs) @ torn" "newline \<notin> set torn"
    "k \<le> length rs" "\<And>i. i \<le> length rs \<Longrightarrow> length (wal_lines (take i rs)) \<le> n \<Longrightarrow> i \<le> k"
    using take_lines [OF chain_all [OF f(2)], of n] by blast
  obtain l' where l': "wal_Open config all_ok (wal_lines (take k rs) @ torn) = Inr l'" "log_inv l' (take k rs)"
    using wal_Open_lines [OF chain_take [OF f(2)] k(2) assms(3,4)] .
  have "take k rs = rs" if "lg_synced l = length (lg_file l)"
    using k(3) k(4) [of "length rs"] that f(1) assms(2) by simp
  with l' k assms(2) f(1) show ?thesis
    by (intro exI [of _ k] exI [of _ l']) (auto simp: log_inv_def)
qed

theorem wal_crash_recovery_witness:
  "\<exists>k l'. wal_Open \<lparr>wc_Dir = ''d'', wc_SyncMode = ''always'', wc_BatchSize = 1\<rparr> all_ok (take 3 (lg_file ex_log)) = Inr l' \<and>
     log_inv l' (take k [])"
proof -
  have "syncMode (wc_SyncMode \<lparr>wc_Dir = ''d'', wc_SyncMode = ''always'', wc_BatchSize = 1\<rparr>) = Some SyncAlways"
    "lg_synced ex_log \<le> 3" "wc_Dir \<lparr>wc_Dir = ''d'', wc_SyncMode = ''always'', wc_BatchSize = 1\<rparr> \<noteq> []"
    by (simp_all add: syncMode_def ex_log_def)
  with wal_crash_recovery [OF ex_log_inv(1)] show ?thesis by blast
qed

lemma wal_line_length: "rec_ok r \<Longrightarrow> 5 < length (wal_line r)"
  by (elim rec_okE) (simp add: wal_line_def rec_json_def quote_index)

text \<open>A record that follows a torn one on the same line.\<close>

lemma readLoop_cut:
  assumes "rec_ok r" "p = CHR ''{'' # s" "newline \<notin> set p"
  shows "readLoop (p @ wal_line r) x v acc = Inl WalErrCorruptRecord"
proof -
  obtain t where t: "wal_text r = object_i (t @ ''}'')" using wal_text_shape [OF assms(1)] by blast
  obtain j where j: "wal_text r = json_text (rec_json r j)" "json_ok 0 (rec_json r j)" using rec_okE [OF assms(1)] .
  let ?bad = "p @ wal_text r"
  have nl: "newline \<notin> set ?bad" using wal_text_line(1) [OF assms(1)] assms(3) by simp
  have tb: "TrimSpace (?bad @ [newline]) = ?bad" by (rule TrimSpace_ends) (simp_all add: assms(2) t)
  have "parse_json ?bad = None" using parse_json_cut [OF j(2), of "t @ ''}''" s] j(1) t assms(2) by simp
  then have "readRecord i ?bad = None" for i by (simp add: readRecord_def unmarshal_struct_def)
  then show ?thesis
    using readBytes_line [OF nl, of "[]"] tb by (subst readLoop.simps) (simp add: wal_line_def assms(2))
qed

text \<open>
  C39. A failed write can cost the whole log: when a write stops inside a record, after at least one
  of its bytes and before its end of line, and the next append, of any record, succeeds, that record
  lands on the same line, and from then on \<open>Open\<close> refuses the file as corrupt.
\<close>

theorem wal_partial_write_corrupts:
  assumes "log_inv l rs" "\<not> lg_closed l" "recordType \<noteq> []" "utf8_valid recordType" "json_ok 1 j"
    and "recordType' \<noteq> []" "utf8_valid recordType'" "json_ok 1 j'"
    and "clock_ok (ai_now io)" "clock_ok (ai_now io')" "ai_seek io" "ai_write io = Some n"
    and "0 < n" "n < length (wal_line (newRecord l (ai_now io) recordType (json_text j)))"
    and "wal_Append io l recordType (json_text j) = (l1, e)"
    and "wal_Append io' l1 recordType' (json_text j') = (l2, Inr i)"
    and "wc_Dir config \<noteq> []" "syncMode (wc_SyncMode config) = Some mode"
  shows "e = Inl IOError \<and> wal_Open config all_ok (lg_file l2) = Inl WalErrCorruptRecord"
proof -
  have f: "lg_file l = wal_lines rs" "chain 1 rs" using assms(1) by (simp_all add: log_inv_def)
  let ?r = "newRecord l (ai_now io) recordType (json_text j)" and ?r' = "newRecord l1 (ai_now io') recordType' (json_text j')"
  have ne: "json_text j \<noteq> []" "json_text j' \<noteq> []" using text_head assms(5,8) by (auto simp: value_head_def)
  have rec: "rec_ok ?r" "wal_marshal ?r = Some (wal_text ?r)" "rec_ok ?r'" "wal_marshal ?r' = Some (wal_text ?r')"
    using newRecord_ok [OF assms(3-5,9)] newRecord_ok [OF assms(6-8,10)] by auto
  obtain t where t: "wal_text ?r = CHR ''{'' # t" using rec(1) wal_text_shape by blast
  have n: "n \<le> length (wal_text ?r)" using assms(14) by (simp add: wal_line_def)
  define p where "p = take n (wal_text ?r)"
  have tk: "take n (wal_text ?r @ [newline]) = p" using n by (simp add: p_def)
  obtain s where s: "p = CHR ''{'' # s" using t assms(13) by (cases n) (auto simp: p_def)
  have l1: "l1 = l\<lparr>lg_file := lg_file l @ p\<rparr>" "e = Inl IOError"
    using assms(2,3,11,12,15) ne(1) rec(2) tk by (auto simp: wal_Append_def Let_def)
  have l2: "lg_file l2 = lg_file l1 @ wal_line ?r'"
    using assms(2,6,16) l1(1) ne(2) rec(4)
    by (auto simp: wal_Append_def Let_def syncLocked_def wal_line_def split: if_splits option.splits)
  have "readLoop (p @ wal_line ?r') x v acc = Inl WalErrCorruptRecord" for x v acc
    using readLoop_cut [OF rec(3) s] wal_text_line(1) [OF rec(1)] by (auto simp: p_def dest: in_set_takeD)
  moreover have "lg_file l1 = lg_file l @ p" using l1(1) by simp
  ultimately have "readRecords True (lg_file l2) = Inl WalErrCorruptRecord"
    unfolding l2 readRecords_def using readLoop_chain [OF f(2), of "p @ wal_line ?r'" 0 "[]"] by (simp add: f(1))
  then show ?thesis using l1(2) assms(17,18) by (simp add: wal_Open_def all_ok_def)
qed

theorem wal_partial_write_corrupts_witness:
  "\<exists>l1 l2 e i. wal_Append (ex_io\<lparr>ai_write := Some 5\<rparr>) ex_log ''t'' (json_text JNull) = (l1, e) \<and>
     wal_Append ex_io l1 ''u'' (json_text (JArr [])) = (l2, Inr i) \<and>
     wal_Open \<lparr>wc_Dir = ''d'', wc_SyncMode = ''always'', wc_BatchSize = 1\<rparr> all_ok (lg_file l2) = Inl WalErrCorruptRecord"
proof -
  let ?io = "ex_io\<lparr>ai_write := Some 5\<rparr>"
  obtain l1 e where A: "wal_Append ?io ex_log ''t'' (json_text JNull) = (l1, e)"
    by (cases "wal_Append ?io ex_log ''t'' (json_text JNull)")
  have "\<not> lg_closed l1" using A by (auto simp: wal_Append_def ex_log_def ex_io_def Let_def split: option.splits)
  have p: "(''t'' :: string) \<noteq> []" "utf8_valid ''t''" "json_ok 1 JNull" "(''u'' :: string) \<noteq> []" "utf8_valid ''u''" "json_ok 1 (JArr [])"
    "ai_seek ?io" "ai_write ?io = Some 5"
    "wc_Dir \<lparr>wc_Dir = ''d'', wc_SyncMode = ''always'', wc_BatchSize = 1\<rparr> \<noteq> []"
    "syncMode (wc_SyncMode \<lparr>wc_Dir = ''d'', wc_SyncMode = ''always'', wc_BatchSize = 1\<rparr>) = Some SyncAlways"
    by (simp_all add: ascii_valid ex_io_def syncMode_def max_depth_def)
  from \<open>\<not> lg_closed l1\<close> p(4-6) obtain l2 i where B: "wal_Append ex_io l1 ''u'' (json_text (JArr [])) = (l2, Inr i)" by (rule ex_append)
  have c: "clock_ok (ai_now ?io)" using ex_io_clock by simp
  have "rec_ok (newRecord ex_log (ai_now ?io) ''t'' (json_text JNull))" using newRecord_ok [OF p(1-3) c] by simp
  then have "5 < length (wal_line (newRecord ex_log (ai_now ?io) ''t'' (json_text JNull)))" by (rule wal_line_length)
  from wal_partial_write_corrupts [OF ex_log_inv p(1-6) c ex_io_clock p(7,8) _ this A B p(9,10)] A B
  show ?thesis by auto
qed

end
