(* ===== verification/SnapshotStore.thy ===== *)
theory SnapshotStore
  imports Wal
begin

text \<open>
  \<open>internal/storage/snapshot\<close>: checkpoints published as \<open>snapshot-<wal index>.json\<close> files by writing
  a temporary file and renaming it, and the choice of the latest one.

  The directory maps file names to contents, \<open>None\<close> being a subdirectory.  What the operating
  system answers to the calls of one \<open>Save\<close> is its argument.
\<close>

section \<open>State\<close>

definition snap_schemaVersion :: int where "snap_schemaVersion = 1"

record Metadata =
  md_SchemaVersion :: int
  md_WALIndex :: u64
  md_CreatedAt :: gotime
  md_Checksum :: string

record snap_File =
  sf_Metadata :: Metadata
  sf_Payload :: string

type_synonym snap_dir = "(string, string option) gomap"

definition zero_Metadata :: Metadata where
  "zero_Metadata = \<lparr>md_SchemaVersion = 0, md_WALIndex = 0, md_CreatedAt = time_zero, md_Checksum = []\<rparr>"

definition zero_snap_File :: snap_File where
  "zero_snap_File = \<lparr>sf_Metadata = zero_Metadata, sf_Payload = []\<rparr>"

definition NewStore :: "bool \<Rightarrow> string \<Rightarrow> go_error option" where
  "NewStore mkdir_ok dir =
     (if TrimSpace dir = [] then Some (ErrText ''snapshot: empty directory'')
      else if \<not> mkdir_ok then Some IOError else None)"

section \<open>Saving\<close>

definition snap_checksum :: "Metadata \<Rightarrow> string \<Rightarrow> string" where
  "snap_checksum m payload =
     sha256_hex (Itoa (md_SchemaVersion m) @ [newline] @ FormatUint64 (md_WALIndex m) @ [newline] @ payload)"

definition enc_Metadata :: "Metadata \<Rightarrow> json option" where
  "enc_Metadata m =
     (case enc_time (md_CreatedAt m) of
        None \<Rightarrow> None
      | Some t \<Rightarrow> Some (JObj [(''schema_version'', enc_int (md_SchemaVersion m)),
          (''wal_index'', enc_uint64 (md_WALIndex m)), (''created_at'', t),
          (''checksum'', JStr (md_Checksum m))]))"

definition dec_Metadata :: "Metadata decoder" where
  "dec_Metadata = decode_struct
     [(''schema_version'', field md_SchemaVersion md_SchemaVersion_update dec_int),
      (''wal_index'', field md_WALIndex md_WALIndex_update dec_uint64),
      (''created_at'', field md_CreatedAt md_CreatedAt_update dec_time),
      (''checksum'', field md_Checksum md_Checksum_update dec_string)]"

definition snap_marshal :: "snap_File \<Rightarrow> string option" where
  "snap_marshal f =
     (case compact (sf_Payload f) of
        None \<Rightarrow> None
      | Some payload \<Rightarrow>
          (case enc_Metadata (sf_Metadata f) of
             None \<Rightarrow> None
           | Some m \<Rightarrow> Some (object_text [(''metadata'', json_text m), (''payload'', payload)])))"

definition snap_fields :: "(string \<times> snap_File raw_decoder) list" where
  "snap_fields =
     [(''metadata'', plain (field sf_Metadata sf_Metadata_update dec_Metadata)),
      (''payload'', raw_field sf_Payload_update)]"

text \<open>
  \<open>si_temp\<close> is the part of the temporary name \<open>os.CreateTemp\<close> chooses; \<open>si_write = Some n\<close> is a
  write that stops after \<open>n\<close> bytes.
\<close>

record save_io =
  si_now :: gotime
  si_create :: bool
  si_temp :: string
  si_chmod :: bool
  si_write :: "nat option"
  si_sync :: bool
  si_close :: bool
  si_rename :: bool
  si_remove :: bool

definition tempName :: "save_io \<Rightarrow> string" where
  "tempName io = ''.snapshot-'' @ si_temp io @ ''.tmp''"

definition snapshotName :: "u64 \<Rightarrow> string" where
  "snapshotName walIndex = ''snapshot-'' @ pad 20 (uint walIndex) @ ''.json''"

text \<open>The deferred removal of the temporary file, whose failure is ignored.\<close>

definition discardTemp :: "save_io \<Rightarrow> snap_dir \<Rightarrow> string \<Rightarrow> snap_dir" where
  "discardTemp io dir content =
     (if si_remove io then mdel (tempName io) dir else mput (tempName io) (Some content) dir)"

definition newMetadata :: "save_io \<Rightarrow> u64 \<Rightarrow> string \<Rightarrow> Metadata" where
  "newMetadata io walIndex payload =
     (let m0 = \<lparr>md_SchemaVersion = snap_schemaVersion, md_WALIndex = walIndex,
                md_CreatedAt = time_UTC (si_now io), md_Checksum = []\<rparr>
      in m0\<lparr>md_Checksum := snap_checksum m0 payload\<rparr>)"

definition snap_Save :: "save_io \<Rightarrow> snap_dir \<Rightarrow> u64 \<Rightarrow> string \<Rightarrow> snap_dir \<times> (go_error + Metadata)" where
  "snap_Save io dir walIndex payload =
     (if payload = [] then (dir, Inl ErrCorruptSnapshot)
      else
        (let m = newMetadata io walIndex payload
         in case snap_marshal \<lparr>sf_Metadata = m, sf_Payload = payload\<rparr> of
              None \<Rightarrow> (dir, Inl JsonError)
            | Some raw \<Rightarrow>
                if \<not> si_create io then (dir, Inl IOError)
                else if \<not> si_chmod io then (discardTemp io dir [], Inl IOError)
                else (case si_write io of
                        Some n \<Rightarrow> (discardTemp io dir (take n raw), Inl IOError)
                      | None \<Rightarrow>
                          if \<not> si_sync io \<or> \<not> si_close io \<or> \<not> si_rename io
                          then (discardTemp io dir raw, Inl IOError)
                          else (mput (snapshotName walIndex) (Some raw) dir, Inr m))))"

section \<open>Loading\<close>

definition HasPrefix :: "string \<Rightarrow> string \<Rightarrow> bool" where
  "HasPrefix s p \<longleftrightarrow> take (length p) s = p"

definition HasSuffix :: "string \<Rightarrow> string \<Rightarrow> bool" where
  "HasSuffix s p \<longleftrightarrow> length p \<le> length s \<and> drop (length s - length p) s = p"

text \<open>The index in the name of a directory entry that is a candidate.\<close>

definition candidateIndex :: "string \<times> string option \<Rightarrow> u64 option" where
  "candidateIndex e =
     (if snd e = None \<or> \<not> HasPrefix (fst e) ''snapshot-'' \<or> \<not> HasSuffix (fst e) ''.json'' then None
      else
        (let s = drop (length ''snapshot-'') (fst e);
             rawIndex = (if HasSuffix s ''.json'' then take (length s - length ''.json'') s else s)
         in ParseUint64 rawIndex))"

definition candidates :: "snap_dir \<Rightarrow> (string \<times> u64) list" where
  "candidates dir =
     concat (map (\<lambda>e. case candidateIndex e of None \<Rightarrow> [] | Some i \<Rightarrow> [(fst e, i)]) (sorted_items dir))"

definition snap_check :: "u64 \<Rightarrow> snap_File \<Rightarrow> bool" where
  "snap_check index f \<longleftrightarrow>
     md_SchemaVersion (sf_Metadata f) = snap_schemaVersion \<and> md_WALIndex (sf_Metadata f) = index \<and>
     \<not> time_IsZero (md_CreatedAt (sf_Metadata f)) \<and> sf_Payload f \<noteq> [] \<and>
     md_Checksum (sf_Metadata f) = snap_checksum (sf_Metadata f) (sf_Payload f)"

text \<open>Names with the same index are left in directory order, as the sort leaves them.\<close>

definition LoadLatest :: "bool \<Rightarrow> bool \<Rightarrow> snap_dir \<Rightarrow> go_error + snap_File option" where
  "LoadLatest list_ok read_ok dir =
     (if \<not> list_ok then Inl IOError
      else case sort_key (\<lambda>(_, i). - uint i) (candidates dir) of
             [] \<Rightarrow> Inr None
           | (name, index) # _ \<Rightarrow>
               if \<not> read_ok then Inl IOError
               else (case map_of dir name of
                       Some (Some raw) \<Rightarrow>
                         (case unmarshal_struct snap_fields zero_snap_File raw of
                            None \<Rightarrow> Inl ErrCorruptSnapshot
                          | Some f \<Rightarrow> if snap_check index f then Inr (Some f) else Inl ErrCorruptSnapshot)
                     | _ \<Rightarrow> Inl IOError))"

section \<open>Published checkpoints\<close>

text \<open>A file \<open>Save\<close> can have written for an index.\<close>

definition file_ok :: "u64 \<Rightarrow> snap_File \<Rightarrow> bool" where
  "file_ok i f \<longleftrightarrow> snap_check i f \<and> (\<exists>j. sf_Payload f = json_text j \<and> json_ok 1 j) \<and>
     time_wf (md_CreatedAt (sf_Metadata f)) \<and> t_mono (md_CreatedAt (sf_Metadata f)) = None"

lemma file_ok_marshal:
  assumes "file_ok i f"
  obtains raw where "snap_marshal f = Some raw" "unmarshal_struct snap_fields zero_snap_File raw = Some f"
proof -
  obtain j where j: "sf_Payload f = json_text j" "json_ok 1 j" using assms by (auto simp: file_ok_def)
  let ?m = "sf_Metadata f"
  let ?t = "JStr (FormatRFC3339Nano (md_CreatedAt ?m))"
  let ?mj = "JObj [(''schema_version'', enc_int (md_SchemaVersion ?m)), (''wal_index'', enc_uint64 (md_WALIndex ?m)),
    (''created_at'', ?t), (''checksum'', JStr (md_Checksum ?m))]"
  let ?ms = "[(''metadata'', ?mj), (''payload'', j)]"
  have w: "time_wf (md_CreatedAt ?m)" "t_mono (md_CreatedAt ?m) = None" using assms by (simp_all add: file_ok_def)
  have e: "enc_Metadata ?m = Some ?mj"
    using w by (simp add: enc_Metadata_def enc_time_def marshal_time_def time_wf_def)
  have t: "dec_time x ?t = Some (md_CreatedAt ?m)" for x
    using w parse_format_time [OF w(1), of False] by (simp add: dec_time_def unmarshal_time_def time_Round0_def)
  have "compact (json_text j) = Some (json_text j)" using json_ok_mono [OF j(2)] by simp
  then have raw: "snap_marshal f = Some (json_text (JObj ?ms))"
    unfolding snap_marshal_def j(1) e object_text_json [symmetric] by simp
  have "utf8_valid (md_Checksum ?m)"
    using assms DecodeString_ascii [of "md_Checksum ?m"]
    by (auto simp: file_ok_def snap_check_def snap_checksum_def sha256_hex_def intro!: ascii_valid)
  then have ok: "json_ok 0 (JObj ?ms)"
    using j(2) by (auto simp: max_depth_def ascii_valid FormatRFC3339Nano_ascii)
  have "md_SchemaVersion ?m = 1" using assms by (simp add: file_ok_def snap_check_def snap_schemaVersion_def)
  then have m: "dec_Metadata zero_Metadata ?mj = Some ?m"
    using t by (simp add: dec_Metadata_def decode_struct_def find_field_def field_def zero_Metadata_def)
  have "unmarshal_struct snap_fields zero_snap_File (json_text (JObj ?ms)) = Some f"
    unfolding unmarshal_object_text [OF ok]
    using m j(1) by (simp add: snap_fields_def find_field_def plain_def raw_field_def field_def zero_snap_File_def)
  with raw that show ?thesis by blast
qed

definition dir_inv :: "snap_dir \<Rightarrow> bool" where
  "dir_inv dir \<longleftrightarrow> mwf dir \<and>
     (\<forall>e \<in> set dir. \<forall>i. candidateIndex e = Some i \<longrightarrow>
        fst e = snapshotName i \<and> (\<exists>f. snd e = snap_marshal f \<and> file_ok i f))"

text \<open>The checkpoint published for an index.\<close>

definition published :: "snap_dir \<Rightarrow> u64 \<Rightarrow> snap_File option" where
  "published dir i =
     (case map_of dir (snapshotName i) of
        Some (Some raw) \<Rightarrow> unmarshal_struct snap_fields zero_snap_File raw
      | _ \<Rightarrow> None)"

lemma ParseUint64_pad: "ParseUint64 (pad 20 (uint i)) = Some i" for i :: u64
proof -
  have "uint i < 2 ^ 64" using uint_lt2p [of i] by simp
  also have "(2 :: int) ^ 64 < 10 ^ 20" by simp
  finally have l: "uint i < 10 ^ 20" .
  have "pad 20 (uint i) \<noteq> []" using length_pad [of 20 "uint i"] by (metis list.size(3) zero_neq_numeral)
  then have "parse_dec (pad 20 (uint i)) = Some (uint i)"
    using digits_val_pad [of "uint i" 20] l pad_digits [of 20 "uint i"] by (simp add: parse_dec_def)
  then show ?thesis using uint_lt2p [of i] by (simp add: ParseUint64_def)
qed

lemma candidateIndex_snapshotName: "candidateIndex (snapshotName i, Some raw) = Some i"
  by (simp add: candidateIndex_def HasPrefix_def HasSuffix_def snapshotName_def ParseUint64_pad)

lemma snapshotName_inject [simp]: "snapshotName i = snapshotName k \<longleftrightarrow> i = k"
proof
  assume "snapshotName i = snapshotName k"
  then have "candidateIndex (snapshotName i, Some []) = candidateIndex (snapshotName k, Some [])" by (simp only:)
  then show "i = k" unfolding candidateIndex_snapshotName by simp
qed simp

lemma candidateIndex_temp: "candidateIndex (tempName io, c) = None"
  by (simp add: candidateIndex_def HasPrefix_def tempName_def)

lemma tempName_neq [simp]: "tempName io \<noteq> snapshotName i" "snapshotName i \<noteq> tempName io"
  by (simp_all add: tempName_def snapshotName_def)

lemma set_candidates:
  "mwf dir \<Longrightarrow> set (candidates dir) = {(n, i). \<exists>c. (n, c) \<in> set dir \<and> candidateIndex (n, c) = Some i}"
  by (auto simp: candidates_def set_sorted_items split: option.splits)

lemma hd_sort_key:
  assumes "sort_key f xs = y # ys"
  shows "y \<in> set xs" "x \<in> set xs \<Longrightarrow> f y \<le> f x"
proof -
  have s: "set xs = insert y (set ys)" using assms by (metis list.simps(15) set_sort)
  then show "y \<in> set xs" by simp
  have "sorted (map f (y # ys))" using assms by (metis sorted_sort_key)
  with s show "x \<in> set xs \<Longrightarrow> f y \<le> f x" by auto
qed

lemma dir_candidate:
  assumes "dir_inv dir" "(n, i) \<in> set (candidates dir)"
  obtains f raw where "n = snapshotName i" "map_of dir n = Some (Some raw)" "snap_marshal f = Some raw" "file_ok i f"
    "unmarshal_struct snap_fields zero_snap_File raw = Some f" "published dir i = Some f"
proof -
  have w: "mwf dir" using assms(1) by (simp add: dir_inv_def)
  obtain c where c: "(n, c) \<in> set dir" "candidateIndex (n, c) = Some i"
    using assms(2) set_candidates [OF w] by auto
  with assms(1) obtain f where f: "n = snapshotName i" "c = snap_marshal f" "file_ok i f"
    unfolding dir_inv_def by fastforce
  obtain raw where raw: "snap_marshal f = Some raw" "unmarshal_struct snap_fields zero_snap_File raw = Some f"
    using file_ok_marshal [OF f(3)] .
  have "map_of dir n = Some (Some raw)" using c(1) f(2) raw(1) w by (simp add: mwf_def map_of_is_SomeI)
  with f raw that show ?thesis by (simp add: published_def)
qed

lemma published_candidate:
  assumes "dir_inv dir"
  shows "published dir i \<noteq> None \<longleftrightarrow> (snapshotName i, i) \<in> set (candidates dir)"
proof
  have w: "mwf dir" using assms by (simp add: dir_inv_def)
  assume "published dir i \<noteq> None"
  then obtain raw where "map_of dir (snapshotName i) = Some (Some raw)"
    by (auto simp: published_def split: option.splits)
  then have "(snapshotName i, Some raw) \<in> set dir" by (rule map_of_SomeD)
  then show "(snapshotName i, i) \<in> set (candidates dir)"
    using set_candidates [OF w] candidateIndex_snapshotName by auto
next
  assume "(snapshotName i, i) \<in> set (candidates dir)"
  then show "published dir i \<noteq> None" using dir_candidate [OF assms] by (metis option.distinct(1))
qed

text \<open>\<open>LoadLatest\<close> returns the published checkpoint with the largest index.\<close>

lemma LoadLatest_spec:
  assumes "dir_inv dir"
  shows "(\<forall>i. published dir i = None) \<and> LoadLatest True True dir = Inr None \<or>
    (\<exists>i f. published dir i = Some f \<and> file_ok i f \<and> (\<forall>k. published dir k \<noteq> None \<longrightarrow> k \<le> i) \<and>
       LoadLatest True True dir = Inr (Some f))"
proof (cases "sort_key (\<lambda>(_, i). - uint i) (candidates dir)")
  case Nil
  then have "candidates dir = []" by (metis length_0_conv length_sort)
  then have "published dir i = None" for i using published_candidate [OF assms, of i] by simp
  with Nil show ?thesis by (simp add: LoadLatest_def)
next
  case (Cons y ys)
  obtain n i where y: "y = (n, i)" by (cases y)
  obtain f raw where f: "n = snapshotName i" "map_of dir n = Some (Some raw)" "file_ok i f"
    "unmarshal_struct snap_fields zero_snap_File raw = Some f" "published dir i = Some f"
    using dir_candidate [OF assms] hd_sort_key(1) [OF Cons] y by metis
  have "k \<le> i" if "published dir k \<noteq> None" for k
    using hd_sort_key(2) [OF Cons, of "(snapshotName k, k)"] published_candidate [OF assms, of k] that y
    by (simp add: word_le_def)
  moreover have "LoadLatest True True dir = Inr (Some f)"
    using Cons y f by (simp add: LoadLatest_def file_ok_def)
  ultimately show ?thesis using f by blast
qed

section \<open>Publishing\<close>

lemma dir_inv_temp:
  assumes "dir_inv dir"
  shows "dir_inv (discardTemp io dir c)" "published (discardTemp io dir c) = published dir"
  using assms unfolding dir_inv_def discardTemp_def published_def
  by (auto simp: set_mput set_mdel candidateIndex_temp fun_eq_iff)

lemma dir_inv_publish:
  assumes "dir_inv dir" "file_ok i f" "snap_marshal f = Some raw"
  shows "dir_inv (mput (snapshotName i) (Some raw) dir)"
    and "published (mput (snapshotName i) (Some raw) dir) = (published dir)(i \<mapsto> f)"
proof -
  have "fst e = snapshotName k \<and> (\<exists>g. snd e = snap_marshal g \<and> file_ok k g)"
    if "e \<in> set (mput (snapshotName i) (Some raw) dir)" "candidateIndex e = Some k" for e k
  proof (cases "e = (snapshotName i, Some raw)")
    case True
    then have "k = i" using that(2) candidateIndex_snapshotName by simp
    with True assms(2,3) show ?thesis by (auto intro: exI [of _ f])
  next
    case False
    then have "e \<in> set dir" using that(1) assms(1) by (auto simp: dir_inv_def set_mput)
    then show ?thesis using assms(1) that(2) by (simp add: dir_inv_def)
  qed
  then show "dir_inv (mput (snapshotName i) (Some raw) dir)"
    using assms(1) by (simp add: dir_inv_def)
  have "unmarshal_struct snap_fields zero_snap_File raw = Some f"
    using file_ok_marshal [OF assms(2)] assms(3) by (metis option.inject)
  then show "published (mput (snapshotName i) (Some raw) dir) = (published dir)(i \<mapsto> f)"
    by (auto simp: published_def fun_eq_iff)
qed

lemma newMetadata_ok:
  assumes "json_ok 1 j" "clock_ok (si_now io)"
  shows "file_ok i \<lparr>sf_Metadata = newMetadata io i (json_text j), sf_Payload = json_text j\<rparr>"
proof -
  have "json_text j \<noteq> []" using text_head [OF assms(1)] by (simp add: value_head_def)
  with assms show ?thesis
    by (auto simp: file_ok_def snap_check_def newMetadata_def Let_def snap_checksum_def clock_ok_def
        time_UTC_def time_IsZero_def)
qed

lemma snap_Save_cases:
  assumes "dir_inv dir" "json_ok 1 j" "clock_ok (si_now io)" "snap_Save io dir i (json_text j) = (dir', res)"
  obtains (saved) "res = Inr (newMetadata io i (json_text j))" "dir_inv dir'"
      "published dir' = (published dir)(i \<mapsto> \<lparr>sf_Metadata = newMetadata io i (json_text j), sf_Payload = json_text j\<rparr>)"
  | (failed) "res = Inl IOError" "dir_inv dir'" "published dir' = published dir"
proof -
  let ?f = "\<lparr>sf_Metadata = newMetadata io i (json_text j), sf_Payload = json_text j\<rparr>"
  have ok: "file_ok i ?f" by (rule newMetadata_ok [OF assms(2,3)])
  obtain raw where raw: "snap_marshal ?f = Some raw" using file_ok_marshal [OF ok] .
  have j: "json_text j \<noteq> []" using text_head [OF assms(2)] by (simp add: value_head_def)
  have "(\<exists>c. (dir', res) = (discardTemp io dir c, Inl IOError)) \<or> (dir', res) = (dir, Inl IOError) \<or>
    (dir', res) = (mput (snapshotName i) (Some raw) dir, Inr (newMetadata io i (json_text j)))"
    using assms(4) raw j unfolding snap_Save_def Let_def
    by (cases "si_write io") (auto split: if_splits)
  then show ?thesis
    using saved failed assms(1) dir_inv_temp [OF assms(1)] dir_inv_publish [OF assms(1) ok raw] by auto
qed

lemma LoadLatest_published:
  assumes "dir_inv dir" "dir_inv dir'" "published dir = published dir'"
  shows "LoadLatest True True dir = LoadLatest True True dir'"
  using LoadLatest_spec [OF assms(1)] LoadLatest_spec [OF assms(2)] assms(3)
  by (metis antisym option.distinct(1) option.inject)

text \<open>
  C19. A checkpoint is published atomically: whatever the operating system answers, a \<open>Save\<close> that
  returns an error leaves every published checkpoint and the one \<open>LoadLatest\<close> returns as they
  were, and one that succeeds publishes the payload under its index, touches no other checkpoint,
  and is what \<open>LoadLatest\<close> returns from then on unless a newer index is already published.
\<close>

theorem snapshot_publish:
  assumes "dir_inv dir" "json_ok 1 j" "clock_ok (si_now io)" "snap_Save io dir i (json_text j) = (dir', res)"
  shows "dir_inv dir' \<and>
    (case res of
       Inl e \<Rightarrow> published dir' = published dir \<and> LoadLatest True True dir' = LoadLatest True True dir
     | Inr m \<Rightarrow>
         published dir' = (published dir)(i \<mapsto> \<lparr>sf_Metadata = m, sf_Payload = json_text j\<rparr>) \<and> md_WALIndex m = i \<and>
         (if \<exists>k. published dir k \<noteq> None \<and> i < k then LoadLatest True True dir' = LoadLatest True True dir
          else LoadLatest True True dir' = Inr (Some \<lparr>sf_Metadata = m, sf_Payload = json_text j\<rparr>)))"
  using assms
proof (cases rule: snap_Save_cases)
  case failed
  then show ?thesis using LoadLatest_published [OF assms(1), of dir'] by simp
next
  case saved
  let ?f = "\<lparr>sf_Metadata = newMetadata io i (json_text j), sf_Payload = json_text j\<rparr>"
  have i: "md_WALIndex (newMetadata io i (json_text j)) = i" by (simp add: newMetadata_def Let_def)
  obtain b g where b: "published dir' b = Some g" "LoadLatest True True dir' = Inr (Some g)"
    "\<And>k. published dir' k \<noteq> None \<Longrightarrow> k \<le> b"
    using LoadLatest_spec [OF saved(2)] saved(3) by (metis fun_upd_same option.distinct(1))
  have "LoadLatest True True dir' = LoadLatest True True dir" if k: "published dir k \<noteq> None" "i < k" for k
  proof -
    have "k \<le> b" using b(3) [of k] k saved(3) by auto
    with k(2) have "b \<noteq> i" by auto
    then have "published dir b = Some g" using b(1) saved(3) by simp
    moreover obtain b' g' where b': "published dir b' = Some g'" "LoadLatest True True dir = Inr (Some g')"
      "\<And>k. published dir k \<noteq> None \<Longrightarrow> k \<le> b'"
      using LoadLatest_spec [OF assms(1)] k(1) by metis
    moreover have "b' \<le> b" using b(3) [of b'] b'(1) saved(3) by auto
    moreover have "b \<le> b'" using b'(3) [of b] calculation(1) by simp
    ultimately show ?thesis using b(2) by (metis antisym option.inject)
  qed
  moreover have "LoadLatest True True dir' = Inr (Some ?f)" if "\<not> (\<exists>k. published dir k \<noteq> None \<and> i < k)"
  proof -
    have "b \<le> i" using that b(1) saved(3) by (metis fun_upd_apply not_less option.distinct(1) order_refl)
    moreover have "i \<le> b" using b(3) [of i] saved(3) by simp
    ultimately have "b = i" by simp
    then show ?thesis using b saved(3) by simp
  qed
  ultimately show ?thesis using saved i by auto
qed

definition ex_save :: save_io where
  "ex_save = \<lparr>si_now = ai_now ex_io, si_create = True, si_temp = ''1'', si_chmod = True, si_write = None,
     si_sync = True, si_close = True, si_rename = True, si_remove = True\<rparr>"

theorem snapshot_publish_witness:
  "\<exists>dir' m. snap_Save ex_save [] 7 (json_text JNull) = (dir', Inr m) \<and>
     LoadLatest True True dir' = Inr (Some \<lparr>sf_Metadata = m, sf_Payload = json_text JNull\<rparr>)"
proof -
  let ?f = "\<lparr>sf_Metadata = newMetadata ex_save 7 (json_text JNull), sf_Payload = json_text JNull\<rparr>"
  have c: "clock_ok (si_now ex_save)" using ex_io_clock by (simp add: ex_save_def)
  have p: "json_ok 1 JNull" "dir_inv []" by (simp_all add: dir_inv_def mwf_def)
  obtain raw where raw: "snap_marshal ?f = Some raw" using file_ok_marshal [OF newMetadata_ok [OF p(1) c]] .
  have "snap_Save ex_save [] 7 (json_text JNull) =
    (mput (snapshotName 7) (Some raw) [], Inr (newMetadata ex_save 7 (json_text JNull)))"
    using raw unfolding snap_Save_def Let_def by (simp add: ex_save_def)
  with snapshot_publish [OF p(2) p(1) c this] show ?thesis by (simp add: published_def)
qed

end
