(* ===== verification/Crdt.thy ===== *)
theory Crdt
  imports Prelude
begin

text \<open>
  The contract the gossip layer relies on, whatever the aggregate: a replica has an abstract
  value in a semilattice, applying a message joins the message's value into it, and
  well-formed replicas stay well formed.  Convergence under reordering, duplication and
  regrouping of messages is proved once here; the \<open>SUM\<close> and \<open>TOPK\<close> replicas interpret the
  locale.
\<close>

locale semilattice_on =
  fixes join :: "'v \<Rightarrow> 'v \<Rightarrow> 'v" and carrier :: "'v \<Rightarrow> bool"
  assumes join_closed: "carrier a \<Longrightarrow> carrier b \<Longrightarrow> carrier (join a b)"
    and join_assoc: "carrier a \<Longrightarrow> carrier b \<Longrightarrow> carrier c \<Longrightarrow> join (join a b) c = join a (join b c)"
    and join_commute: "carrier a \<Longrightarrow> carrier b \<Longrightarrow> join a b = join b a"
    and join_idem: "carrier a \<Longrightarrow> join a a = a"
begin

definition joins :: "'v \<Rightarrow> 'v list \<Rightarrow> 'v" where
  "joins a bs = foldl join a bs"

lemma joins_Nil [simp]: "joins a [] = a"
  by (simp add: joins_def)

lemma joins_Cons [simp]: "joins a (b # bs) = joins (join a b) bs"
  by (simp add: joins_def)

lemma joins_closed: "carrier a \<Longrightarrow> list_all carrier bs \<Longrightarrow> carrier (joins a bs)"
  by (induction bs arbitrary: a) (auto simp: join_closed)

lemma joins_join:
  "carrier a \<Longrightarrow> carrier b \<Longrightarrow> list_all carrier bs \<Longrightarrow> joins (join a b) bs = join a (joins b bs)"
  by (induction bs arbitrary: b) (auto simp: join_closed join_assoc)

lemma join_joins_member:
  "carrier a \<Longrightarrow> list_all carrier bs \<Longrightarrow> b = a \<or> b \<in> set bs \<Longrightarrow> join b (joins a bs) = joins a bs"
proof (induction bs arbitrary: a)
  case Nil
  then show ?case by (simp add: join_idem)
next
  case (Cons c bs)
  then have c: "carrier c" "list_all carrier bs" by auto
  show ?case
  proof (cases "b \<in> set bs")
    case True
    with Cons c show ?thesis by (simp add: join_closed)
  next
    case False
    with Cons.prems consider "b = a" | "b = c" by auto
    then show ?thesis
    proof cases
      case 1
      with Cons.prems(1) c have "join b (joins (join a c) bs) = joins (join a (join a c)) bs"
        by (simp add: joins_join join_closed)
      also have "join a (join a c) = join a c"
        using Cons.prems(1) c by (simp add: join_assoc [symmetric] join_idem)
      finally show ?thesis by simp
    next
      case 2
      with Cons.prems(1) c have "join b (joins (join a c) bs) = joins (join c (join a c)) bs"
        by (simp add: joins_join join_closed)
      also have "join c (join a c) = join a c"
        using Cons.prems(1) c
        by (metis join_assoc join_closed join_commute join_idem)
      finally show ?thesis by simp
    qed
  qed
qed

lemma joins_absorb:
  "carrier a \<Longrightarrow> list_all carrier bs \<Longrightarrow> carrier x \<Longrightarrow> list_all carrier ys \<Longrightarrow>
   set (x # ys) \<subseteq> set (a # bs) \<Longrightarrow> join (joins x ys) (joins a bs) = joins a bs"
proof (induction ys arbitrary: x)
  case Nil
  then show ?case by (auto intro: join_joins_member)
next
  case (Cons y ys)
  have "join (joins x (y # ys)) (joins a bs) = join x (join (joins y ys) (joins a bs))"
    using Cons.prems by (simp add: joins_join joins_closed join_assoc)
  also have "\<dots> = join x (joins a bs)"
    using Cons.IH [of y] Cons.prems by auto
  also have "\<dots> = joins a bs"
    using Cons.prems by (auto intro: join_joins_member)
  finally show ?case .
qed

lemma joins_eq_of_set_eq:
  assumes "carrier a" "list_all carrier bs" "carrier x" "list_all carrier ys"
    and "set (x # ys) = set (a # bs)"
  shows "joins x ys = joins a bs"
proof -
  have "joins x ys = join (joins a bs) (joins x ys)"
    using assms joins_absorb [of x ys a bs] by simp
  also have "\<dots> = join (joins x ys) (joins a bs)"
    using assms by (simp add: join_commute joins_closed)
  also have "\<dots> = joins a bs"
    using assms joins_absorb [of a bs x ys] by simp
  finally show ?thesis .
qed

text \<open>The order of the semilattice.\<close>

definition below :: "'v \<Rightarrow> 'v \<Rightarrow> bool" where
  "below a b \<longleftrightarrow> join a b = b"

lemma below_refl: "carrier a \<Longrightarrow> below a a"
  by (simp add: below_def join_idem)

lemma below_trans: "carrier a \<Longrightarrow> carrier b \<Longrightarrow> carrier c \<Longrightarrow> below a b \<Longrightarrow> below b c \<Longrightarrow> below a c"
  unfolding below_def by (metis join_assoc)

lemma below_antisym: "carrier a \<Longrightarrow> carrier b \<Longrightarrow> below a b \<Longrightarrow> below b a \<Longrightarrow> a = b"
  unfolding below_def by (metis join_commute)

lemma below_join:
  assumes "carrier a" "carrier b"
  shows "below a (join a b)" "below b (join a b)"
  using assms unfolding below_def by (metis join_assoc join_idem, metis join_assoc join_commute join_idem)

lemma join_below:
  assumes "carrier a" "carrier b" "carrier c" "below a c" "below b c"
  shows "below (join a b) c"
  using assms unfolding below_def by (metis join_assoc)

lemma below_joins: "carrier a \<Longrightarrow> list_all carrier bs \<Longrightarrow> below a (joins a bs)"
  unfolding below_def by (rule join_joins_member) auto

lemma joins_append: "joins a (bs @ cs) = joins (joins a bs) cs"
  by (simp add: joins_def)

end

locale replica = semilattice_on join carrier
  for join :: "'v \<Rightarrow> 'v \<Rightarrow> 'v" and carrier :: "'v \<Rightarrow> bool" +
  fixes val :: "'s \<Rightarrow> 'v" and inv :: "'s \<Rightarrow> bool"
    and pval :: "'p \<Rightarrow> 'v" and pinv :: "'p \<Rightarrow> bool"
    and apply_msg :: "'s \<Rightarrow> 'p \<Rightarrow> 's"
  assumes val_carrier: "inv s \<Longrightarrow> carrier (val s)"
    and pval_carrier: "pinv p \<Longrightarrow> carrier (pval p)"
    and inv_apply: "inv s \<Longrightarrow> pinv p \<Longrightarrow> inv (apply_msg s p)"
    and val_apply: "inv s \<Longrightarrow> pinv p \<Longrightarrow> val (apply_msg s p) = join (val s) (pval p)"
begin

lemma inv_deliver: "inv s \<Longrightarrow> list_all pinv ps \<Longrightarrow> inv (foldl apply_msg s ps)"
  by (induction ps arbitrary: s) (auto simp: inv_apply)

lemma val_deliver:
  "inv s \<Longrightarrow> list_all pinv ps \<Longrightarrow> val (foldl apply_msg s ps) = joins (val s) (map pval ps)"
  by (induction ps arbitrary: s) (auto simp: inv_apply val_apply)

lemma converge:
  assumes "inv s" "list_all pinv ps" "inv t" "list_all pinv qs"
    and "insert (val s) (pval ` set ps) = insert (val t) (pval ` set qs)"
  shows "val (foldl apply_msg s ps) = val (foldl apply_msg t qs)"
proof -
  have "list_all carrier (map pval ps)" "list_all carrier (map pval qs)"
    using assms(2,4) pval_carrier by (auto simp: list_all_iff)
  then have "joins (val s) (map pval ps) = joins (val t) (map pval qs)"
    using assms by (intro joins_eq_of_set_eq) (auto simp: val_carrier)
  then show ?thesis using assms by (simp add: val_deliver)
qed

lemma redelivery:
  assumes "inv s" "list_all pinv ps" "set qs \<subseteq> set ps"
  shows "val (foldl apply_msg (foldl apply_msg s ps) qs) = val (foldl apply_msg s ps)"
proof -
  have "list_all pinv qs" using assms by (auto simp: list_all_iff)
  then have "val (foldl apply_msg s (ps @ qs)) = val (foldl apply_msg s ps)"
    using assms by (intro converge) auto
  then show ?thesis by simp
qed

end

end
