(* ===== verification/Sum.thy ===== *)
theory Sum
  imports Json Crdt
begin

text \<open>
  \<open>internal/aggregation/sum\<close>: the \<open>SUM\<close> aggregate, a grow-only counter with one \<open>uint64\<close>
  contribution per node.  Each operation runs under the counter's mutex, so it is one state
  transformer; an operation that fails returns the counter unchanged beside its error.
\<close>

section \<open>State\<close>

definition sum_schemaVersion :: int where "sum_schemaVersion = 1"

record GCounter =
  gc_nodeID :: string
  gc_version :: u64
  gc_contrib :: "(string, u64) gomap"

text \<open>\<open>State\<close>: the contribution map may be Go's nil map, here \<open>None\<close>.\<close>

record sum_State =
  ss_Contrib :: "(string, u64) gomap option"
  ss_Version :: u64

record sum_payload =
  sp_AggregateType :: string
  sp_StateVersion :: u64
  sp_ProtocolVersion :: string
  sp_SchemaVersion :: int
  sp_StatePayload :: "(string, u64) gomap option"

text \<open>The dynamic types \<open>stateFrom\<close> distinguishes.\<close>

datatype sum_peer =
    SumPeerState sum_State
  | SumPeerPtr "sum_State option"
  | SumPeerMap "(string, u64) gomap option"
  | SumPeerOther

section \<open>Operations\<close>

definition sum_New :: "string \<Rightarrow> go_error + GCounter" where
  "sum_New nodeID =
     (if \<not> ValidNodeID nodeID then Inl SumErrInvalidNodeID
      else Inr \<lparr>gc_nodeID = nodeID, gc_version = 0, gc_contrib = [(nodeID, 0)]\<rparr>)"

definition sum_validateContrib :: "(string, u64) gomap option \<Rightarrow> go_error option" where
  "sum_validateContrib contrib =
     (case contrib of
        None \<Rightarrow> Some SumErrInvalidPeerState
      | Some m \<Rightarrow> if list_all (\<lambda>(nodeID, _). ValidNodeID nodeID) m then None
                  else Some SumErrInvalidNodeID)"

fun sum_cloneLoop :: "(string, u64) gomap \<Rightarrow> (string, u64) gomap \<Rightarrow> (string, u64) gomap" where
  "sum_cloneLoop [] out = out"
| "sum_cloneLoop ((k, v) # es) out = sum_cloneLoop es (mput k v out)"

definition sum_cloneContrib :: "(string, u64) gomap \<Rightarrow> (string, u64) gomap" where
  "sum_cloneContrib m = sum_cloneLoop m []"

text \<open>The tail shared by \<open>FromState\<close> and \<open>Deserialize\<close>: install a contribution map.\<close>

definition sum_install :: "string \<Rightarrow> (string, u64) gomap \<Rightarrow> (string, u64) gomap" where
  "sum_install nodeID m =
     (let c = sum_cloneContrib m in if mhas c nodeID then c else mput nodeID 0 c)"

definition sum_FromState :: "string \<Rightarrow> sum_State \<Rightarrow> go_error + GCounter" where
  "sum_FromState nodeID st =
     (case sum_New nodeID of
        Inl e \<Rightarrow> Inl e
      | Inr g \<Rightarrow>
          (case sum_validateContrib (ss_Contrib st) of
             Some e \<Rightarrow> Inl e
           | None \<Rightarrow>
               Inr (g\<lparr>gc_contrib := sum_install nodeID (case ss_Contrib st of None \<Rightarrow> [] | Some m \<Rightarrow> m),
                      gc_version := ss_Version st\<rparr>)))"

definition sum_incrementFrom :: "'a go_any \<Rightarrow> go_error + u64" where
  "sum_incrementFrom value =
     (case value of
        AnyUint64 v \<Rightarrow> if v = 0 then Inl SumErrInvalidIncrement else Inr v
      | AnyUint v \<Rightarrow> if v = 0 then Inl SumErrInvalidIncrement else Inr v
      | AnyInt v \<Rightarrow> if v \<le> 0 then Inl SumErrInvalidIncrement else Inr (of_int v)
      | AnyInt64 v \<Rightarrow> if v \<le> 0 then Inl SumErrInvalidIncrement else Inr (of_int v)
      | AnyVal _ \<Rightarrow> Inl SumErrInvalidIncrement)"

definition sum_Update :: "GCounter \<Rightarrow> 'a go_any \<Rightarrow> GCounter \<times> (go_error + bool)" where
  "sum_Update g value =
     (case sum_incrementFrom value of
        Inl e \<Rightarrow> (g, Inl e)
      | Inr increment \<Rightarrow>
          (let current = mget 0 (gc_contrib g) (gc_nodeID g)
           in if max_uint64 - current < increment then (g, Inl SumErrOverflow)
              else (g\<lparr>gc_contrib := mput (gc_nodeID g) (current + increment) (gc_contrib g),
                      gc_version := gc_version g + 1\<rparr>, Inr True)))"

definition sum_stateFrom :: "sum_peer \<Rightarrow> go_error + sum_State" where
  "sum_stateFrom value =
     (case value of
        SumPeerState v \<Rightarrow> Inr v
      | SumPeerPtr None \<Rightarrow> Inl SumErrInvalidPeerState
      | SumPeerPtr (Some v) \<Rightarrow> Inr v
      | SumPeerMap m \<Rightarrow> Inr \<lparr>ss_Contrib = m, ss_Version = 0\<rparr>
      | SumPeerOther \<Rightarrow> Inl SumErrInvalidPeerState)"

definition max_u64 :: "u64 \<Rightarrow> u64 \<Rightarrow> u64" where
  "max_u64 a b = (if a > b then a else b)"

fun sum_mergeLoop ::
  "(string, u64) gomap \<Rightarrow> (string, u64) gomap \<times> bool \<Rightarrow> (string, u64) gomap \<times> bool" where
  "sum_mergeLoop [] (c, advanced) = (c, advanced)"
| "sum_mergeLoop ((nodeID, peerValue) # es) (c, advanced) =
     (if peerValue > mget 0 c nodeID then sum_mergeLoop es (mput nodeID peerValue c, True)
      else sum_mergeLoop es (c, advanced))"

definition sum_Merge :: "GCounter \<Rightarrow> sum_peer \<Rightarrow> GCounter \<times> (go_error + bool)" where
  "sum_Merge g peerState =
     (case sum_stateFrom peerState of
        Inl e \<Rightarrow> (g, Inl e)
      | Inr st \<Rightarrow>
          (case sum_validateContrib (ss_Contrib st) of
             Some e \<Rightarrow> (g, Inl e)
           | None \<Rightarrow>
               (let (c, advanced) =
                      sum_mergeLoop (case ss_Contrib st of None \<Rightarrow> [] | Some m \<Rightarrow> m) (gc_contrib g, False);
                    ver = (if advanced then max_u64 (gc_version g) (ss_Version st) + 1
                           else if ss_Version st > gc_version g then ss_Version st
                           else gc_version g)
                in (g\<lparr>gc_contrib := c, gc_version := ver\<rparr>, Inr advanced))))"

fun sum_total :: "(string, u64) gomap \<Rightarrow> u64 \<Rightarrow> go_error + u64" where
  "sum_total [] acc = Inr acc"
| "sum_total ((_, value) # es) acc =
     (if max_uint64 - acc < value then Inl SumErrOverflow else sum_total es (acc + value))"

definition sum_Estimate :: "GCounter \<Rightarrow> go_error + u64" where
  "sum_Estimate g = sum_total (gc_contrib g) 0"

definition sum_getState :: "GCounter \<Rightarrow> sum_State" where
  "sum_getState g = \<lparr>ss_Contrib = Some (sum_cloneContrib (gc_contrib g)), ss_Version = gc_version g\<rparr>"

text \<open>\<open>json.Marshal\<close> of this payload (strings, integers, a map) never fails.\<close>

definition sum_encodePayload :: "sum_payload \<Rightarrow> json" where
  "sum_encodePayload p =
     JObj [(''aggregate_type'', JStr (sp_AggregateType p)),
           (''state_version'', enc_uint64 (sp_StateVersion p)),
           (''protocol_version'', JStr (sp_ProtocolVersion p)),
           (''schema_version'', enc_int (sp_SchemaVersion p)),
           (''state_payload'', enc_map_uint64 (sp_StatePayload p))]"

definition sum_zeroPayload :: sum_payload where
  "sum_zeroPayload =
     \<lparr>sp_AggregateType = [], sp_StateVersion = 0, sp_ProtocolVersion = [], sp_SchemaVersion = 0,
      sp_StatePayload = None\<rparr>"

definition sum_decodePayload :: "json \<Rightarrow> sum_payload option" where
  "sum_decodePayload raw =
     decode_struct
       [(''aggregate_type'', field sp_AggregateType sp_AggregateType_update dec_string),
        (''state_version'', field sp_StateVersion sp_StateVersion_update dec_uint64),
        (''protocol_version'', field sp_ProtocolVersion sp_ProtocolVersion_update dec_string),
        (''schema_version'', field sp_SchemaVersion sp_SchemaVersion_update dec_int),
        (''state_payload'', field sp_StatePayload sp_StatePayload_update dec_map_uint64)]
       sum_zeroPayload raw"

definition sum_Serialize :: "GCounter \<Rightarrow> json" where
  "sum_Serialize g =
     (let st = sum_getState g
      in sum_encodePayload
           \<lparr>sp_AggregateType = AggregateSUM, sp_StateVersion = ss_Version st,
            sp_ProtocolVersion = ProtocolVersion, sp_SchemaVersion = sum_schemaVersion,
            sp_StatePayload = ss_Contrib st\<rparr>)"

definition sum_checkPayload :: "json \<Rightarrow> go_error + sum_payload" where
  "sum_checkPayload raw =
     (case sum_decodePayload raw of
        None \<Rightarrow> Inl JsonError
      | Some p \<Rightarrow>
          if sp_AggregateType p \<noteq> AggregateSUM \<or> sp_ProtocolVersion p \<noteq> ProtocolVersion \<or>
             sp_SchemaVersion p \<noteq> sum_schemaVersion then Inl SumErrUnsupportedVersion
          else (case sum_validateContrib (sp_StatePayload p) of
                  Some e \<Rightarrow> Inl e
                | None \<Rightarrow> Inr p))"

definition sum_StateFromSerialized :: "json \<Rightarrow> go_error + sum_State" where
  "sum_StateFromSerialized raw =
     (case sum_checkPayload raw of
        Inl e \<Rightarrow> Inl e
      | Inr p \<Rightarrow>
          Inr \<lparr>ss_Contrib = map_option sum_cloneContrib (sp_StatePayload p),
               ss_Version = sp_StateVersion p\<rparr>)"

definition sum_Deserialize :: "GCounter \<Rightarrow> json \<Rightarrow> GCounter \<times> go_error option" where
  "sum_Deserialize g raw =
     (case sum_checkPayload raw of
        Inl e \<Rightarrow> (g, Some e)
      | Inr p \<Rightarrow>
          (g\<lparr>gc_contrib := sum_install (gc_nodeID g) (case sp_StatePayload p of None \<Rightarrow> [] | Some m \<Rightarrow> m),
             gc_version := sp_StateVersion p\<rparr>, None))"


section \<open>Well-formedness and abstract value\<close>

definition sum_wf :: "GCounter \<Rightarrow> bool" where
  "sum_wf g \<longleftrightarrow> ValidNodeID (gc_nodeID g) \<and> mwf (gc_contrib g) \<and>
     list_all (\<lambda>(n, _). ValidNodeID n) (gc_contrib g) \<and> mhas (gc_contrib g) (gc_nodeID g)"

text \<open>The counter's value: the contribution of every node, absent nodes counting \<open>0\<close>.\<close>

definition sum_val :: "GCounter \<Rightarrow> string \<Rightarrow> u64" where
  "sum_val g = mget 0 (gc_contrib g)"

definition sum_join :: "(string \<Rightarrow> u64) \<Rightarrow> (string \<Rightarrow> u64) \<Rightarrow> string \<Rightarrow> u64" where
  "sum_join f h = (\<lambda>n. max (f n) (h n))"

text \<open>A peer state \<open>Merge\<close> accepts.\<close>

definition sum_peer_ok :: "sum_peer \<Rightarrow> bool" where
  "sum_peer_ok p =
     (case sum_stateFrom p of
        Inl _ \<Rightarrow> False
      | Inr st \<Rightarrow>
          (case ss_Contrib st of
             None \<Rightarrow> False
           | Some m \<Rightarrow> mwf m \<and> list_all (\<lambda>(n, _). ValidNodeID n) m))"

definition sum_peer_val :: "sum_peer \<Rightarrow> string \<Rightarrow> u64" where
  "sum_peer_val p =
     (case sum_stateFrom p of
        Inl _ \<Rightarrow> (\<lambda>_. 0)
      | Inr st \<Rightarrow> (case ss_Contrib st of None \<Rightarrow> (\<lambda>_. 0) | Some m \<Rightarrow> mget 0 m))"

subsection \<open>Cloning\<close>

lemma map_of_cloneLoop: "mwf m \<Longrightarrow> map_of (sum_cloneLoop m out) = map_of out ++ map_of m"
proof (induction m arbitrary: out)
  case (Cons e m)
  obtain k v where e: "e = (k, v)" by (cases e)
  with Cons.prems have "map_of m k = None" by (auto simp: mwf_def map_of_eq_None_iff)
  with Cons e show ?case
    by (auto simp: mwf_def map_add_def fun_eq_iff split: option.splits)
qed simp

lemma mwf_cloneLoop [wf_intros]: "mwf out \<Longrightarrow> mwf (sum_cloneLoop m out)"
  by (induction m out rule: sum_cloneLoop.induct) auto

lemma mwf_cloneContrib [simp, wf_intros]: "mwf (sum_cloneContrib m)"
  by (simp add: sum_cloneContrib_def mwf_cloneLoop)

lemma map_of_cloneContrib [simp]: "mwf m \<Longrightarrow> map_of (sum_cloneContrib m) = map_of m"
  by (simp add: sum_cloneContrib_def map_of_cloneLoop)

lemma keys_eq_of_map_of: "map_of m = map_of m' \<Longrightarrow> fst ` set m = fst ` set m'"
  by (metis dom_map_of_conv_image_fst)

lemma valid_keys_iff:
  "list_all (\<lambda>(n, _). ValidNodeID n) m \<longleftrightarrow> (\<forall>n \<in> fst ` set m. ValidNodeID n)"
  by (auto simp: list_all_iff)

lemma valid_keys_cong:
  "map_of m = map_of m' \<Longrightarrow>
   list_all (\<lambda>(n, _). ValidNodeID n) m = list_all (\<lambda>(n, _). ValidNodeID n) m'"
  by (metis valid_keys_iff keys_eq_of_map_of)

lemma valid_keys_mput [simp]:
  "list_all (\<lambda>(n, _). ValidNodeID n) (mput k v m) \<longleftrightarrow>
   ValidNodeID k \<and> list_all (\<lambda>(n, _). ValidNodeID n) m"
  unfolding valid_keys_iff keys_mput by blast

lemma mget_cong: "map_of m = map_of m' \<Longrightarrow> mget z m = mget z m'"
  by (simp add: mget_def fun_eq_iff)

lemma mhas_cong: "map_of m = map_of m' \<Longrightarrow> mhas m k = mhas m' k"
  by (simp add: mhas_def)

subsection \<open>Merge\<close>

lemma mergeLoop_val:
  "mwf es \<Longrightarrow> mget 0 (fst (sum_mergeLoop es (c, a))) n = max (mget 0 c n) (mget 0 es n)"
proof (induction es arbitrary: c a)
  case (Cons e es)
  obtain k v where e: "e = (k, v)" by (cases e)
  with Cons.prems have es: "mwf es" and k: "mget 0 es k = 0"
    by (auto simp: mwf_def mhas_iff intro: mget_absent)
  have step: "mget 0 (fst (sum_mergeLoop es (c', a'))) n = max (mget 0 c' n) (mget 0 es n)"
    for c' a' using Cons.IH es by blast
  show ?case
    using step e k by (auto simp: max_def not_less)
qed simp

lemma mergeLoop_advanced:
  "mwf es \<Longrightarrow> snd (sum_mergeLoop es (c, a)) \<longleftrightarrow> a \<or> (\<exists>n. mget 0 c n < mget 0 es n)"
proof (induction es arbitrary: c a)
  case Nil
  then show ?case by simp
next
  case (Cons e es)
  obtain k v where e: "e = (k, v)" by (cases e)
  with Cons.prems have es: "mwf es" and k: "mget 0 es k = 0"
    by (auto simp: mwf_def mhas_iff intro: mget_absent)
  have step: "snd (sum_mergeLoop es (c', a')) \<longleftrightarrow> a' \<or> (\<exists>n. mget 0 c' n < mget 0 es n)"
    for c' a' using Cons.IH es by blast
  show ?case
  proof (cases "mget 0 c k < v")
    case True
    with step e show ?thesis by auto
  next
    case False
    moreover have "(\<exists>n. mget 0 c n < mget 0 es n) \<longleftrightarrow> (\<exists>n. mget 0 c n < mget 0 ((k, v) # es) n)"
      using False k by (metis mget_Cons word_not_simps(1))
    ultimately show ?thesis using step e by simp
  qed
qed

lemma mergeLoop_mwf: "mwf c \<Longrightarrow> mwf (fst (sum_mergeLoop es (c, a)))"
  by (induction es "(c, a)" arbitrary: c a rule: sum_mergeLoop.induct) auto

lemma mergeLoop_keys:
  "fst ` set (fst (sum_mergeLoop es (c, a))) \<subseteq> fst ` set c \<union> fst ` set es \<and>
   fst ` set c \<subseteq> fst ` set (fst (sum_mergeLoop es (c, a)))"
  by (induction es "(c, a)" arbitrary: c a rule: sum_mergeLoop.induct) auto

lemma mergeLoop_unchanged:
  "mwf es \<Longrightarrow> \<not> snd (sum_mergeLoop es (c, a)) \<Longrightarrow> fst (sum_mergeLoop es (c, a)) = c"
proof (induction es "(c, a)" arbitrary: c a rule: sum_mergeLoop.induct)
  case (2 k v es c a)
  then have "mwf es" by (simp add: mwf_def)
  with 2 show ?case
    by (auto split: if_splits simp: mergeLoop_advanced)
qed simp

lemma sum_peer_okE:
  assumes "sum_peer_ok p"
  obtains st m where "sum_stateFrom p = Inr st" "ss_Contrib st = Some m" "mwf m"
    "list_all (\<lambda>(n, _). ValidNodeID n) m" "sum_validateContrib (Some m) = None"
    "sum_peer_val p = mget 0 m"
  using assms
  by (auto simp: sum_peer_ok_def sum_validateContrib_def sum_peer_val_def
      split: sum.splits option.splits)

lemma sum_Merge_ok:
  assumes "sum_stateFrom p = Inr st" "ss_Contrib st = Some m" "sum_validateContrib (Some m) = None"
  shows "sum_Merge g p =
    (g\<lparr>gc_contrib := fst (sum_mergeLoop m (gc_contrib g, False)),
       gc_version :=
         (if snd (sum_mergeLoop m (gc_contrib g, False)) then max_u64 (gc_version g) (ss_Version st) + 1
          else if ss_Version st > gc_version g then ss_Version st else gc_version g)\<rparr>,
     Inr (snd (sum_mergeLoop m (gc_contrib g, False))))"
  using assms by (simp add: sum_Merge_def Let_def split_beta)

lemma sum_Merge_wf:
  assumes "sum_wf g" "sum_peer_ok p"
  shows "sum_wf (fst (sum_Merge g p))"
proof -
  from assms(2) obtain st m where p: "sum_stateFrom p = Inr st" "ss_Contrib st = Some m"
    "list_all (\<lambda>(n, _). ValidNodeID n) m" "sum_validateContrib (Some m) = None"
    by (rule sum_peer_okE)
  have "mwf (fst (sum_mergeLoop m (gc_contrib g, False)))"
    using assms(1) by (simp add: sum_wf_def mergeLoop_mwf)
  moreover have "\<forall>n \<in> fst ` set (fst (sum_mergeLoop m (gc_contrib g, False))). ValidNodeID n"
    using assms(1) p(3) mergeLoop_keys [of m "gc_contrib g" False]
    unfolding sum_wf_def valid_keys_iff by blast
  moreover have "gc_nodeID g \<in> fst ` set (fst (sum_mergeLoop m (gc_contrib g, False)))"
    using assms(1) mergeLoop_keys [of m "gc_contrib g" False]
    unfolding sum_wf_def mhas_iff by blast
  ultimately show ?thesis
    using assms(1) p by (simp add: sum_Merge_ok sum_wf_def valid_keys_iff mhas_iff)
qed

lemma sum_Merge_val:
  assumes "sum_peer_ok p"
  shows "sum_val (fst (sum_Merge g p)) = sum_join (sum_val g) (sum_peer_val p)"
proof -
  from assms obtain st m where p: "sum_stateFrom p = Inr st" "ss_Contrib st = Some m" "mwf m"
    "sum_validateContrib (Some m) = None" "sum_peer_val p = mget 0 m"
    by (rule sum_peer_okE)
  then show ?thesis
    by (simp add: sum_Merge_ok sum_val_def sum_join_def mergeLoop_val fun_eq_iff)
qed

lemma sum_Merge_advanced:
  assumes "sum_peer_ok p"
  shows "snd (sum_Merge g p) = Inr (\<exists>n. sum_val g n < sum_peer_val p n)"
proof -
  from assms obtain st m where p: "sum_stateFrom p = Inr st" "ss_Contrib st = Some m" "mwf m"
    "sum_validateContrib (Some m) = None" "sum_peer_val p = mget 0 m"
    by (rule sum_peer_okE)
  then show ?thesis
    by (simp add: sum_Merge_ok sum_val_def mergeLoop_advanced)
qed

lemma sum_Merge_nodeID [simp]: "gc_nodeID (fst (sum_Merge g p)) = gc_nodeID g"
  by (auto simp: sum_Merge_def Let_def split: sum.splits option.splits prod.splits)

lemma sum_Merge_rejected:
  "snd (sum_Merge g p) = Inl e \<Longrightarrow> fst (sum_Merge g p) = g"
  by (auto simp: sum_Merge_def Let_def split: sum.splits option.splits prod.splits)

interpretation sum_semilattice: semilattice_on sum_join "\<lambda>_. True"
  by unfold_locales (auto simp: sum_join_def fun_eq_iff ac_simps)

interpretation sum_replica:
  replica sum_join "\<lambda>_. True" sum_val sum_wf sum_peer_val sum_peer_ok "\<lambda>g p. fst (sum_Merge g p)"
  by unfold_locales (auto simp: sum_Merge_wf sum_Merge_val)


subsection \<open>Update\<close>

lemma sum_Update_cases:
  "sum_Update g v =
     (case sum_incrementFrom v of
        Inl e \<Rightarrow> (g, Inl e)
      | Inr i \<Rightarrow>
          if 2 ^ 64 \<le> unat (sum_val g (gc_nodeID g)) + unat i then (g, Inl SumErrOverflow)
          else (g\<lparr>gc_contrib := mput (gc_nodeID g) (sum_val g (gc_nodeID g) + i) (gc_contrib g),
                  gc_version := gc_version g + 1\<rparr>, Inr True))"
  by (simp add: sum_Update_def sum_val_def word_max_minus_lt Let_def split: sum.split)

lemma sum_incrementFrom_pos: "sum_incrementFrom v = Inr i \<Longrightarrow>
    (\<forall>k. v = AnyInt k \<or> v = AnyInt64 k \<longrightarrow> k < 2 ^ 63) \<Longrightarrow> 0 < i"
proof -
  assume v: "sum_incrementFrom v = Inr i"
    and r: "\<forall>k. v = AnyInt k \<or> v = AnyInt64 k \<longrightarrow> k < 2 ^ 63"
  have "(of_int k :: u64) \<noteq> 0" if "0 < k" "k < 2 ^ 63" for k :: int
  proof
    assume "(of_int k :: u64) = 0"
    then have "uint (of_int k :: u64) = 0" by simp
    with that show False by (simp add: uint_word_of_int_eq word_of_int_eq_0_iff unsigned_of_int take_bit_eq_mod)
  qed
  with v r show "0 < i"
    by (auto simp: sum_incrementFrom_def word_gt_0 split: go_any.splits if_splits)
qed

lemma sum_Update_wf: "sum_wf g \<Longrightarrow> sum_wf (fst (sum_Update g v))"
  by (auto simp: sum_Update_cases sum_wf_def split: sum.split)

lemma sum_Update_nodeID [simp]: "gc_nodeID (fst (sum_Update g v)) = gc_nodeID g"
  by (auto simp: sum_Update_cases split: sum.split)

subsection \<open>Estimate\<close>

definition contrib_sum :: "(string, u64) gomap \<Rightarrow> nat" where
  "contrib_sum m = sum_list (map (unat \<circ> snd) m)"

lemma sum_total_spec:
  "sum_total m acc =
     (if unat acc + contrib_sum m < 2 ^ 64 then Inr (acc + of_nat (contrib_sum m))
      else Inl SumErrOverflow)"
proof (induction m acc rule: sum_total.induct)
  case (1 acc)
  then show ?case using unsigned_less [of acc] by (simp add: contrib_sum_def)
next
  case (2 k v es acc)
  show ?case
  proof (cases "unat acc + unat v < 2 ^ 64")
    case True
    with 2 show ?thesis
      by (simp add: word_max_minus_lt contrib_sum_def unat_add_no_wrap add.assoc)
  next
    case False
    then show ?thesis by (simp add: word_max_minus_lt contrib_sum_def)
  qed
qed

lemma contrib_sum_over:
  "mwf m \<Longrightarrow> finite A \<Longrightarrow> fst ` set m \<subseteq> A \<Longrightarrow> contrib_sum m = (\<Sum>k \<in> A. unat (mget 0 m k))"
proof (induction m arbitrary: A)
  case Nil
  then show ?case by (simp add: contrib_sum_def)
next
  case (Cons e m)
  obtain k v where e: "e = (k, v)" by (cases e)
  with Cons.prems have m: "mwf m" and k: "mget 0 m k = 0" "k \<in> A" "fst ` set m \<subseteq> A"
    by (auto simp: mwf_def mhas_iff intro: mget_absent)
  have "(\<Sum>n \<in> A. unat (mget 0 (e # m) n)) = unat v + (\<Sum>n \<in> A - {k}. unat (mget 0 m n))"
    using Cons.prems(2) k(2) e
    by (subst sum.remove [of A k]) (auto intro!: sum.cong)
  also have "(\<Sum>n \<in> A - {k}. unat (mget 0 m n)) = (\<Sum>n \<in> A. unat (mget 0 m n))"
    using Cons.prems(2) k by (simp add: sum.remove [of A k])
  also have "\<dots> = contrib_sum m"
    using Cons.IH [of A] m k Cons.prems(2) by simp
  finally show ?case by (simp add: contrib_sum_def e)
qed

lemma contrib_sum_cong:
  assumes "mwf m" "mwf m'" "mget 0 m = mget 0 m'"
  shows "contrib_sum m = contrib_sum m'"
proof -
  let ?A = "fst ` set m \<union> fst ` set m'"
  have "contrib_sum m = (\<Sum>k \<in> ?A. unat (mget 0 m k))"
    using assms(1) by (intro contrib_sum_over) auto
  moreover have "contrib_sum m' = (\<Sum>k \<in> ?A. unat (mget 0 m' k))"
    using assms(2) by (intro contrib_sum_over) auto
  ultimately show ?thesis using assms(3) by simp
qed

lemma sum_Estimate_cong:
  "sum_wf g \<Longrightarrow> sum_wf h \<Longrightarrow> sum_val g = sum_val h \<Longrightarrow> sum_Estimate g = sum_Estimate h"
  using contrib_sum_cong [of "gc_contrib g" "gc_contrib h"]
  by (simp add: sum_Estimate_def sum_total_spec sum_wf_def sum_val_def)

subsection \<open>Serialization\<close>

lemma sum_checkPayload_Serialize:
  assumes "sum_wf g"
  shows "sum_checkPayload (sum_Serialize g) =
    Inr \<lparr>sp_AggregateType = AggregateSUM, sp_StateVersion = gc_version g,
         sp_ProtocolVersion = ProtocolVersion, sp_SchemaVersion = sum_schemaVersion,
         sp_StatePayload = Some (sorted_items (sum_cloneContrib (gc_contrib g)))\<rparr>"
proof -
  let ?c = "sum_cloneContrib (gc_contrib g)"
  have "list_all (\<lambda>(n, _). ValidNodeID n) (sorted_items ?c)"
    using assms valid_keys_cong [of "sorted_items ?c" "gc_contrib g"]
    by (simp add: sum_wf_def map_of_sorted_items)
  then show ?thesis
    by (simp add: sum_checkPayload_def sum_Serialize_def sum_decodePayload_def sum_encodePayload_def
        sum_getState_def sum_zeroPayload_def decode_struct_def find_field_def field_def
        dec_enc_map_uint64 sum_schemaVersion_def sum_validateContrib_def Let_def)
qed

lemma sum_install_facts:
  assumes "mwf m" "list_all (\<lambda>(n, _). ValidNodeID n) m" "ValidNodeID nid"
  shows "mwf (sum_install nid m)" "list_all (\<lambda>(n, _). ValidNodeID n) (sum_install nid m)"
    "mhas (sum_install nid m) nid" "mget 0 (sum_install nid m) = mget 0 m"
proof -
  have c: "map_of (sum_cloneContrib m) = map_of m" using assms(1) by simp
  show "mwf (sum_install nid m)" by (simp add: sum_install_def Let_def)
  show "list_all (\<lambda>(n, _). ValidNodeID n) (sum_install nid m)"
    using assms valid_keys_cong [OF c] by (simp add: sum_install_def Let_def)
  show "mhas (sum_install nid m) nid" by (simp add: sum_install_def Let_def)
  show "mget 0 (sum_install nid m) = mget 0 m"
    using mget_cong [OF c, of 0] mhas_cong [OF c] mget_absent [of m nid]
    by (auto simp: sum_install_def Let_def fun_eq_iff)
qed


lemma sum_decodePayload_mwf:
  assumes "sum_decodePayload raw = Some p" "sp_StatePayload p = Some m"
  shows "mwf m"
proof -
  let ?P = "\<lambda>p. \<forall>m. sp_StatePayload p = Some m \<longrightarrow> mwf m"
  have "?P p"
    using assms(1) unfolding sum_decodePayload_def
    by (rule decode_struct_inv [where P = ?P])
      (auto simp: sum_zeroPayload_def field_def dec_map_uint64_mwf)
  with assms(2) show ?thesis by simp
qed

lemma sum_checkPayload_ok:
  assumes "sum_checkPayload raw = Inr p"
  obtains m where "sp_StatePayload p = Some m" "mwf m" "list_all (\<lambda>(n, _). ValidNodeID n) m"
  using assms sum_decodePayload_mwf
  by (fastforce simp: sum_checkPayload_def sum_validateContrib_def
      split: option.splits if_splits)

lemma sum_Deserialize_wf: "sum_wf g \<Longrightarrow> sum_wf (fst (sum_Deserialize g raw))"
  by (auto simp: sum_Deserialize_def sum_wf_def sum_install_facts
      elim!: sum_checkPayload_ok split: sum.split)

lemma sum_Deserialize_nodeID [simp]: "gc_nodeID (fst (sum_Deserialize g raw)) = gc_nodeID g"
  by (simp add: sum_Deserialize_def split: sum.split)

lemma sum_StateFromSerialized_ok:
  "sum_StateFromSerialized raw = Inr st \<Longrightarrow> sum_peer_ok (SumPeerState st)"
  by (auto simp: sum_StateFromSerialized_def sum_peer_ok_def sum_stateFrom_def
      valid_keys_cong [OF map_of_cloneContrib]
      elim!: sum_checkPayload_ok split: sum.splits)

lemma sum_Deserialize_Serialize:
  assumes "sum_wf g"
  shows "snd (sum_Deserialize h (sum_Serialize g)) = None"
    "sum_val (fst (sum_Deserialize h (sum_Serialize g))) = sum_val g"
    "gc_version (fst (sum_Deserialize h (sum_Serialize g))) = gc_version g"
proof -
  let ?c = "sum_cloneContrib (gc_contrib g)"
  have c: "map_of (sorted_items ?c) = map_of (gc_contrib g)"
    using assms by (simp add: sum_wf_def map_of_sorted_items)
  show "snd (sum_Deserialize h (sum_Serialize g)) = None"
    "gc_version (fst (sum_Deserialize h (sum_Serialize g))) = gc_version g"
    using assms by (simp_all add: sum_Deserialize_def sum_checkPayload_Serialize)
  have "mget 0 (sum_install (gc_nodeID h) (sorted_items ?c)) = mget 0 (sorted_items ?c)"
    using mget_absent [of "sorted_items ?c" "gc_nodeID h"]
      mget_cong [of "sum_cloneContrib (sorted_items ?c)" "sorted_items ?c" 0]
      mhas_cong [of "sum_cloneContrib (sorted_items ?c)" "sorted_items ?c"]
    by (auto simp: sum_install_def Let_def fun_eq_iff)
  then show "sum_val (fst (sum_Deserialize h (sum_Serialize g))) = sum_val g"
    using assms mget_cong [OF c, of 0]
    by (simp add: sum_Deserialize_def sum_checkPayload_Serialize sum_val_def)
qed


section \<open>Properties\<close>

text \<open>Delivery of a sequence of peer states, as the gossip layer performs it.\<close>

definition sum_deliver :: "GCounter \<Rightarrow> sum_peer list \<Rightarrow> GCounter" where
  "sum_deliver g ps = foldl (\<lambda>g p. fst (sum_Merge g p)) g ps"

text \<open>
  Two replicas that have seen the same set of contributions, their own included, hold the
  same contribution for every node and answer the same estimate, whatever the order, the
  grouping and the number of repetitions of the messages.
\<close>

lemma sum_convergence:
  assumes "sum_wf g" "sum_wf h" "list_all sum_peer_ok ps" "list_all sum_peer_ok qs"
    and "insert (sum_val g) (sum_peer_val ` set ps) = insert (sum_val h) (sum_peer_val ` set qs)"
  shows "sum_val (sum_deliver g ps) = sum_val (sum_deliver h qs) \<and>
         sum_Estimate (sum_deliver g ps) = sum_Estimate (sum_deliver h qs)"
proof -
  have v: "sum_val (sum_deliver g ps) = sum_val (sum_deliver h qs)"
    unfolding sum_deliver_def using assms by (intro sum_replica.converge)
  moreover have "sum_wf (sum_deliver g ps)" "sum_wf (sum_deliver h qs)"
    unfolding sum_deliver_def using assms by (auto intro: sum_replica.inv_deliver)
  ultimately show ?thesis using sum_Estimate_cong by blast
qed

definition ex_sum_a :: GCounter where
  "ex_sum_a = \<lparr>gc_nodeID = ''a'', gc_version = 1, gc_contrib = [(''a'', 5)]\<rparr>"

definition ex_sum_b :: GCounter where
  "ex_sum_b = \<lparr>gc_nodeID = ''b'', gc_version = 1, gc_contrib = [(''b'', 7)]\<rparr>"

lemma ex_sum_wf: "sum_wf ex_sum_a" "sum_wf ex_sum_b"
  by code_simp+

lemma ex_sum_peer_ok:
  "sum_peer_ok (SumPeerState (sum_getState ex_sum_a))"
  "sum_peer_ok (SumPeerState (sum_getState ex_sum_b))"
  by code_simp+

lemma ex_sum_peer_val:
  "sum_peer_val (SumPeerState (sum_getState ex_sum_a)) = sum_val ex_sum_a"
  "sum_peer_val (SumPeerState (sum_getState ex_sum_b)) = sum_val ex_sum_b"
  by (auto simp: sum_peer_val_def sum_stateFrom_def sum_getState_def sum_val_def ex_sum_a_def
      ex_sum_b_def sum_cloneContrib_def fun_eq_iff)

lemma sum_convergence_witness:
  "sum_Estimate (sum_deliver ex_sum_a [SumPeerState (sum_getState ex_sum_b)]) =
   sum_Estimate (sum_deliver ex_sum_b
     [SumPeerState (sum_getState ex_sum_a), SumPeerState (sum_getState ex_sum_a)])"
  using sum_convergence [of ex_sum_a ex_sum_b "[SumPeerState (sum_getState ex_sum_b)]"
      "[SumPeerState (sum_getState ex_sum_a), SumPeerState (sum_getState ex_sum_a)]"]
  by (simp add: ex_sum_wf ex_sum_peer_ok ex_sum_peer_val insert_commute)

text \<open>
  C6. \<open>Merge\<close> of an acceptable peer state takes the larger contribution of every node, reports
  \<open>advanced\<close> exactly when some contribution grew, keeps the counter well formed, and sets the
  Lamport version to one more than the larger of the two versions when it advanced and to the
  larger of the two otherwise.
\<close>

theorem sum_Merge_correct:
  assumes "sum_wf g" "sum_peer_ok p" "sum_stateFrom p = Inr st"
  shows "sum_wf (fst (sum_Merge g p)) \<and>
    (\<forall>n. sum_val (fst (sum_Merge g p)) n = max (sum_val g n) (sum_peer_val p n)) \<and>
    snd (sum_Merge g p) = Inr (\<exists>n. sum_val g n < sum_peer_val p n) \<and>
    gc_version (fst (sum_Merge g p)) =
      (if \<exists>n. sum_val g n < sum_peer_val p n then max (gc_version g) (ss_Version st) + 1
       else max (gc_version g) (ss_Version st))"
proof -
  from assms(2) obtain st' m where p: "sum_stateFrom p = Inr st'" "ss_Contrib st' = Some m"
    "mwf m" "sum_validateContrib (Some m) = None" "sum_peer_val p = mget 0 m"
    by (rule sum_peer_okE)
  then have "gc_version (fst (sum_Merge g p)) =
      (if \<exists>n. sum_val g n < sum_peer_val p n then max (gc_version g) (ss_Version st) + 1
       else max (gc_version g) (ss_Version st))"
    using assms(3) by (auto simp: sum_Merge_ok mergeLoop_advanced sum_val_def max_u64_def max_def)
  then show ?thesis
    using assms by (simp add: sum_Merge_wf sum_Merge_val sum_Merge_advanced sum_join_def)
qed

theorem sum_Merge_correct_witness:
  "sum_val (fst (sum_Merge ex_sum_a (SumPeerState (sum_getState ex_sum_b)))) ''b'' = 7"
proof -
  have "sum_stateFrom (SumPeerState (sum_getState ex_sum_b)) = Inr (sum_getState ex_sum_b)"
    by (simp add: sum_stateFrom_def)
  from sum_Merge_correct [OF ex_sum_wf(1) ex_sum_peer_ok(2) this]
  have "sum_val (fst (sum_Merge ex_sum_a (SumPeerState (sum_getState ex_sum_b)))) ''b'' =
      max (sum_val ex_sum_a ''b'') (sum_val ex_sum_b ''b'')"
    by (simp add: ex_sum_peer_val)
  then show ?thesis by (simp add: sum_val_def ex_sum_a_def ex_sum_b_def)
qed

text \<open>
  C29. \<open>Estimate\<close> returns the exact sum of the contributions when it fits in 64 bits and
  \<open>ErrOverflow\<close> otherwise; it never returns a wrapped value, and the result does not depend on
  the order in which the map is iterated.
\<close>

theorem sum_Estimate_exact:
  assumes "sum_wf g"
  shows "(case sum_Estimate g of
            Inr t \<Rightarrow> unat t = (\<Sum>n \<in> fst ` set (gc_contrib g). unat (sum_val g n))
          | Inl e \<Rightarrow> e = SumErrOverflow \<and>
              2 ^ 64 \<le> (\<Sum>n \<in> fst ` set (gc_contrib g). unat (sum_val g n))) \<and>
         (\<forall>m. mset m = mset (gc_contrib g) \<longrightarrow> sum_total m 0 = sum_Estimate g)"
proof -
  let ?S = "\<Sum>n \<in> fst ` set (gc_contrib g). unat (sum_val g n)"
  have s: "contrib_sum (gc_contrib g) = ?S"
    unfolding sum_val_def using assms by (intro contrib_sum_over) (auto simp: sum_wf_def)
  have perm: "contrib_sum m = contrib_sum (gc_contrib g)" if "mset m = mset (gc_contrib g)" for m
    unfolding contrib_sum_def using that by (metis mset_map sum_mset_sum_list)
  have "sum_total m 0 = sum_Estimate g" if "mset m = mset (gc_contrib g)" for m
    using perm [OF that] by (simp add: sum_Estimate_def sum_total_spec)
  moreover have "unat (of_nat k :: u64) = k" if "k < 2 ^ 64" for k
    using that by (simp add: unat_of_nat)
  from this [of ?S] have "case sum_Estimate g of Inr t \<Rightarrow> unat t = ?S | Inl e \<Rightarrow> e = SumErrOverflow \<and> 2 ^ 64 \<le> ?S"
    by (simp add: sum_Estimate_def sum_total_spec s del: of_nat_sum)
  ultimately show ?thesis by blast
qed

theorem sum_Estimate_exact_witness:
  "sum_wf ex_sum_a \<and> sum_total [(''a'', 5)] 0 = sum_Estimate ex_sum_a"
  using sum_Estimate_exact [OF ex_sum_wf(1)] ex_sum_wf(1) by (simp add: ex_sum_a_def)

text \<open>
  \<open>Update\<close> on every branch: an increment that is not a positive integer and one that would
  overflow the node's own contribution are refused with the counter unchanged; any other adds
  exactly the increment to the node's own contribution, touches no other contribution, and
  advances the version by one.
\<close>

lemma sum_Update_correct:
  assumes "sum_wf g"
  shows "case sum_incrementFrom v of
           Inl e \<Rightarrow> e = SumErrInvalidIncrement \<and> sum_Update g v = (g, Inl e)
         | Inr i \<Rightarrow>
             if 2 ^ 64 \<le> unat (sum_val g (gc_nodeID g)) + unat i
             then sum_Update g v = (g, Inl SumErrOverflow)
             else snd (sum_Update g v) = Inr True \<and> sum_wf (fst (sum_Update g v)) \<and>
               unat (sum_val (fst (sum_Update g v)) (gc_nodeID g)) =
                 unat (sum_val g (gc_nodeID g)) + unat i \<and>
               (\<forall>n. n \<noteq> gc_nodeID g \<longrightarrow> sum_val (fst (sum_Update g v)) n = sum_val g n) \<and>
               gc_version (fst (sum_Update g v)) = gc_version g + 1"
proof (cases "sum_incrementFrom v")
  case (Inl e)
  then have "e = SumErrInvalidIncrement"
    by (auto simp: sum_incrementFrom_def split: go_any.splits if_splits)
  with Inl show ?thesis by (simp add: sum_Update_cases)
next
  case (Inr i)
  show ?thesis
    using Inr sum_Update_wf [OF assms, of v]
    by (auto simp: sum_Update_cases sum_val_def unat_add_no_wrap not_le)
qed

lemma sum_Update_correct_witness:
  "unat (sum_val (fst (sum_Update ex_sum_a (AnyInt 3 :: unit go_any))) ''a'') = 8"
  using sum_Update_correct [OF ex_sum_wf(1), of "AnyInt 3 :: unit go_any"]
  by (simp add: sum_incrementFrom_def sum_val_def ex_sum_a_def)

text \<open>
  Serialization round trip: a counter restored from the serialized form of a well-formed
  counter has the same contributions and version, and re-serializing it gives the same document
  whenever the restoring node already occurs among the contributions.
\<close>

lemma sum_serialize_roundtrip:
  assumes "sum_wf g" "sum_wf h" "mhas (gc_contrib g) (gc_nodeID h)"
  shows "snd (sum_Deserialize h (sum_Serialize g)) = None \<and>
    sum_wf (fst (sum_Deserialize h (sum_Serialize g))) \<and>
    sum_val (fst (sum_Deserialize h (sum_Serialize g))) = sum_val g \<and>
    sum_Serialize (fst (sum_Deserialize h (sum_Serialize g))) = sum_Serialize g"
proof -
  let ?c = "sum_cloneContrib (gc_contrib g)"
  let ?h = "fst (sum_Deserialize h (sum_Serialize g))"
  have c: "map_of (sorted_items ?c) = map_of (gc_contrib g)"
    using assms(1) by (simp add: sum_wf_def map_of_sorted_items)
  have h: "gc_contrib ?h = sum_cloneContrib (sorted_items ?c)"
    using assms mhas_cong [OF c] mhas_cong [of "sum_cloneContrib (sorted_items ?c)" "sorted_items ?c"]
    by (simp add: sum_Deserialize_def sum_checkPayload_Serialize sum_install_def Let_def)
  have "mwf (gc_contrib g)" using assms(1) by (simp add: sum_wf_def)
  then have "sorted_items (sum_cloneContrib (gc_contrib ?h)) = sorted_items ?c"
    using c h by (intro sorted_items_cong) auto
  then have "sum_Serialize ?h = sum_Serialize g"
    using sum_Deserialize_Serialize(3) [OF assms(1), of h]
    by (simp add: sum_Serialize_def sum_getState_def sum_encodePayload_def enc_map_uint64_def Let_def)
  with assms show ?thesis
    by (simp add: sum_Deserialize_Serialize sum_Deserialize_wf)
qed

lemma sum_serialize_roundtrip_witness:
  "sum_Serialize (fst (sum_Deserialize ex_sum_a (sum_Serialize ex_sum_a))) = sum_Serialize ex_sum_a"
  using sum_serialize_roundtrip [OF ex_sum_wf(1) ex_sum_wf(1)]
  by (simp add: ex_sum_a_def mhas_def)

end
