(* ===== verification/Ranked.thy ===== *)
theory Ranked
  imports Main
begin

text \<open>
  The best \<open>k\<close> elements of a finite set under an injective rank, as a sorted list: the reference
  specification of a bounded leaderboard.  \<open>is_topk_absorb\<close> is what makes truncation
  compatible with merging: cutting one side before the union loses nothing that could be kept.
\<close>

definition is_topk :: "('a \<Rightarrow> 'b::linorder) \<Rightarrow> nat \<Rightarrow> 'a set \<Rightarrow> 'a list \<Rightarrow> bool" where
  "is_topk f k S L \<longleftrightarrow> finite S \<and> sorted (map f L) \<and> distinct L \<and> set L \<subseteq> S \<and>
     length L = min k (card S) \<and> (\<forall>x \<in> set L. \<forall>y \<in> S - set L. f x < f y)"

text \<open>The same without the assumption that ranks differ: ties may be kept or left out.\<close>

definition is_best :: "('a \<Rightarrow> 'b::linorder) \<Rightarrow> nat \<Rightarrow> 'a set \<Rightarrow> 'a list \<Rightarrow> bool" where
  "is_best f k S L \<longleftrightarrow> finite S \<and> sorted (map f L) \<and> distinct L \<and> set L \<subseteq> S \<and>
     length L = min k (card S) \<and> (\<forall>x \<in> set L. \<forall>y \<in> S - set L. f x \<le> f y)"

lemma is_best_take:
  assumes "finite S" "set xs = S" "distinct xs" "sorted (map f xs)"
  shows "is_best f k S (take k xs)"
proof -
  have "f x \<le> f y" if x: "x \<in> set (take k xs)" and y: "y \<in> S - set (take k xs)" for x y
  proof -
    have "y \<in> set (drop k xs)" using y assms(2) by (metis Diff_iff Un_iff append_take_drop_id set_append)
    moreover have "sorted (map f (take k xs) @ map f (drop k xs))" using assms(4) by (metis append_take_drop_id map_append)
    ultimately show ?thesis using x by (auto simp: sorted_append)
  qed
  moreover have "length (take k xs) = min k (card S)" using assms(2,3) distinct_card by fastforce
  moreover have "sorted (map f (take k xs))" using assms(4) by (simp add: take_map [symmetric])
  ultimately show ?thesis using assms(1,2,3) by (auto simp: is_best_def dest: in_set_takeD)
qed

lemma is_best_topk: "is_best f k S L \<Longrightarrow> inj_on f S \<Longrightarrow> is_topk f k S L"
  unfolding is_best_def is_topk_def by (metis DiffE inj_onD order_less_le subsetD)

lemma is_topk_best: "is_topk f k S L \<Longrightarrow> is_best f k S L"
  unfolding is_best_def is_topk_def by (simp add: less_imp_le)

lemma is_topk_full: "is_topk f k S L \<Longrightarrow> set L \<noteq> S \<Longrightarrow> length L = k"
  unfolding is_topk_def by (metis card_subset_eq distinct_card min_def)

lemma is_topk_exchange:
  assumes "is_topk f k S L" "is_topk f k S M" "x \<in> set L" "x \<notin> set M"
  shows False
proof -
  have c: "card (set L) = card (set M)"
    using assms(1,2) by (simp add: is_topk_def distinct_card)
  have "\<not> set M \<subseteq> set L"
    using assms(3,4) c card_subset_eq [of "set L" "set M"] by auto
  then obtain y where y: "y \<in> set M" "y \<notin> set L" by blast
  have "x \<in> S" "y \<in> S" using assms(1,2,3) y(1) by (auto simp: is_topk_def)
  with assms y have "f x < f y" "f y < f x" unfolding is_topk_def by blast+
  then show False by simp
qed

lemma is_topk_unique:
  assumes "is_topk f k S L" "is_topk f k S M" "inj_on f S"
  shows "L = M"
proof -
  have eq: "set L = set M"
    using is_topk_exchange [OF assms(1,2)] is_topk_exchange [OF assms(2,1)] by blast
  have i: "inj_on f (set L)" using assms(1,3) by (auto simp: is_topk_def intro: inj_on_subset)
  with assms(1,2) eq have "map f L = map f M"
    by (intro sorted_distinct_set_unique) (simp_all add: is_topk_def distinct_map)
  with eq i show ?thesis by (metis map_inj_on Un_absorb)
qed

lemma is_topk_absorb:
  assumes A: "is_topk f k A L" and M: "is_topk f k (set L \<union> B) M" and "finite B"
  shows "is_topk f k (A \<union> B) M"
proof (cases "set L = A")
  case True
  with M show ?thesis by simp
next
  case False
  with A have k: "length L = k" by (rule is_topk_full)
  have LA: "set L \<subseteq> A" "finite A" "card (set L) = k"
    using A k by (auto simp: is_topk_def distinct_card)
  have "k \<le> card (set L \<union> B)" "k \<le> card (A \<union> B)"
    using LA assms(3) by (metis Un_upper1 card_mono finite_Un finite_set,
        metis card_mono finite_Un le_supI1)
  moreover from this(1) M have "length M = k" by (simp add: is_topk_def)
  moreover have "f x < f y" if x: "x \<in> set M" and y: "y \<in> (A \<union> B) - set M" for x y
  proof (cases "y \<in> set L \<union> B")
    case True
    with M x y show ?thesis unfolding is_topk_def by blast
  next
    case False
    with y have y': "y \<in> A - set L" by blast
    show ?thesis
    proof (cases "x \<in> set L")
      case True
      with A y' show ?thesis unfolding is_topk_def by blast
    next
      case x': False
      have "card (set M) = k" using M \<open>length M = k\<close> by (metis distinct_card is_topk_def)
      with LA(3) x x' have "\<not> set L \<subseteq> set M"
        by (metis card_subset_eq finite_set)
      then obtain z where z: "z \<in> set L" "z \<notin> set M" by blast
      have "f x < f z" using M x z unfolding is_topk_def by blast
      also have "f z < f y" using A z y' unfolding is_topk_def by blast
      finally show ?thesis .
    qed
  qed
  ultimately show ?thesis
    using M LA assms(3) unfolding is_topk_def by auto
qed

lemma is_topk_take:
  assumes "finite S" "sorted (map f L)" "distinct L" "set L = S" "inj_on f S"
  shows "is_topk f k S (take k L)"
  using assms by (intro is_best_topk is_best_take)

lemma is_topk_self: "is_topk f k S L \<Longrightarrow> is_topk f k (set L) L"
  by (auto simp: is_topk_def distinct_card)

lemma is_topk_shorter:
  assumes "is_topk f k S L" "inj_on f S" "j \<le> k"
  shows "is_topk f j S (take j L)"
proof -
  have "f x < f y" if x: "x \<in> set (take j L)" and y: "y \<in> S - set (take j L)" for x y
  proof (cases "y \<in> set L")
    case True
    have "set L \<subseteq> S" using assms(1) by (simp add: is_topk_def)
    then have "is_topk f j (set L) (take j L)"
      using assms(1,2) by (intro is_topk_take) (auto simp: is_topk_def intro: inj_on_subset)
    with x y True show ?thesis unfolding is_topk_def by blast
  next
    case False
    with assms(1) x y show ?thesis unfolding is_topk_def by (metis DiffD1 DiffI in_set_takeD)
  qed
  moreover have "sorted (map f (take j L))"
    using assms(1) by (metis is_topk_def sorted_wrt_take take_map)
  ultimately show ?thesis
    using assms by (auto simp: is_topk_def dest: in_set_takeD)
qed

end
