(* ===== verification/TopK.thy ===== *)
theory TopK
  imports Json Crdt Ranked "HOL-Library.Product_Lexorder"
begin

text \<open>
  \<open>internal/aggregation/topk\<close>: the \<open>TOPK\<close> aggregate, a set of candidate tuples cut to the \<open>kmax\<close>
  best in the order score descending, event time descending, origin ascending, item ascending.

  \<open>sort.Slice\<close> promises a sorted permutation and nothing about elements that compare equal; the
  model sorts by insertion.  \<open>canonicalize_unique\<close> shows the result is the only sorted
  arrangement whenever no candidate has the score \<open>-0.0\<close>: \<open>candidateKey\<close> prints \<open>-0\<close> and
  \<open>0\<close> differently, so both can be kept although the comparison finds them equal.

  The printed key of a candidate is represented by the tuple of the four printed fields: the
  printed score, time and origin contain no NUL byte, so the text determines the tuple, and
  printing the score and a normalized time is injective on values that are not NaN.
\<close>

section \<open>State\<close>

definition topk_schemaVersion :: int where "topk_schemaVersion = 1"

record Candidate =
  c_ItemID :: string
  c_Score :: f64
  c_EventTS :: gotime
  c_OriginNodeID :: string

record topk_State =
  ts_Candidates :: "Candidate list"
  ts_Version :: u64

record topk_Set =
  tk_kmax :: int
  tk_version :: u64
  tk_candidates :: "Candidate list"

record topk_payload =
  tp_AggregateType :: string
  tp_StateVersion :: u64
  tp_ProtocolVersion :: string
  tp_SchemaVersion :: int
  tp_StatePayload :: "Candidate list"

text \<open>The dynamic types the type switches distinguish.\<close>

datatype topk_value = TopkCandidate Candidate | TopkCandidatePtr "Candidate option" | TopkValueOther

datatype topk_peer =
    TopkPeerState topk_State
  | TopkPeerPtr "topk_State option"
  | TopkPeerSlice "Candidate list"
  | TopkPeerOther

datatype topk_opts =
    OptsNil | OptsStruct int | OptsPtr "int option" | OptsInt int | OptsOther

section \<open>Validation and canonical form\<close>

definition topk_validateCandidate :: "Candidate \<Rightarrow> go_error option" where
  "topk_validateCandidate c =
     (if TrimSpace (c_ItemID c) = [] then Some TopkErrInvalidCandidate
      else if \<not> ValidNodeID (c_OriginNodeID c) then Some TopkErrInvalidCandidate
      else if IsNaN (c_Score c) \<or> IsInf (c_Score c) then Some TopkErrInvalidCandidate
      else if time_IsZero (c_EventTS c) then Some TopkErrInvalidCandidate
      else None)"

fun topk_validateCandidates :: "Candidate list \<Rightarrow> go_error option" where
  "topk_validateCandidates [] = None"
| "topk_validateCandidates (c # cs) =
     (case topk_validateCandidate c of Some e \<Rightarrow> Some e | None \<Rightarrow> topk_validateCandidates cs)"

definition topk_normalizeCandidate :: "Candidate \<Rightarrow> Candidate" where
  "topk_normalizeCandidate c = c\<lparr>c_EventTS := time_Round0 (time_UTC (c_EventTS c))\<rparr>"

type_synonym cand_key = "string \<times> f64 \<times> int \<times> string"

definition topk_candidateKey :: "Candidate \<Rightarrow> cand_key" where
  "topk_candidateKey c = (c_ItemID c, c_Score c, t_inst (c_EventTS c), c_OriginNodeID c)"

text \<open>The comparison \<open>sortCandidates\<close> passes to \<open>sort.Slice\<close>.\<close>

definition topk_less :: "Candidate \<Rightarrow> Candidate \<Rightarrow> bool" where
  "topk_less l r =
     (if \<not> f64_eq (c_Score l) (c_Score r) then f64_less (c_Score r) (c_Score l)
      else if \<not> time_Equal (c_EventTS l) (c_EventTS r) then time_After (c_EventTS l) (c_EventTS r)
      else if c_OriginNodeID l \<noteq> c_OriginNodeID r then c_OriginNodeID l < c_OriginNodeID r
      else c_ItemID l < c_ItemID r)"

fun topk_insert :: "Candidate \<Rightarrow> Candidate list \<Rightarrow> Candidate list" where
  "topk_insert x [] = [x]"
| "topk_insert x (y # ys) = (if topk_less y x then y # topk_insert x ys else x # y # ys)"

fun topk_sortCandidates :: "Candidate list \<Rightarrow> Candidate list" where
  "topk_sortCandidates [] = []"
| "topk_sortCandidates (x # xs) = topk_insert x (topk_sortCandidates xs)"

fun topk_byTuple :: "Candidate list \<Rightarrow> (cand_key, Candidate) gomap \<Rightarrow> (cand_key, Candidate) gomap" where
  "topk_byTuple [] m = m"
| "topk_byTuple (c # cs) m =
     (let n = topk_normalizeCandidate c in topk_byTuple cs (mput (topk_candidateKey n) n m))"

definition topk_canonicalize :: "Candidate list \<Rightarrow> int \<Rightarrow> Candidate list" where
  "topk_canonicalize cs kmax =
     (let out = topk_sortCandidates (map snd (topk_byTuple cs []))
      in if int (length out) > kmax then take (nat kmax) out else out)"

text \<open>\<open>reflect.DeepEqual\<close> on candidate slices: floats by \<open>==\<close>, times by their fields.\<close>

definition topk_candEqual :: "Candidate \<Rightarrow> Candidate \<Rightarrow> bool" where
  "topk_candEqual a b \<longleftrightarrow> c_ItemID a = c_ItemID b \<and> f64_eq (c_Score a) (c_Score b) \<and>
     c_EventTS a = c_EventTS b \<and> c_OriginNodeID a = c_OriginNodeID b"

definition topk_DeepEqual :: "Candidate list \<Rightarrow> Candidate list \<Rightarrow> bool" where
  "topk_DeepEqual xs ys \<longleftrightarrow> list_all2 topk_candEqual xs ys"

section \<open>Operations\<close>

definition topk_New :: "int \<Rightarrow> go_error + topk_Set" where
  "topk_New kmax =
     (if kmax \<le> 0 then Inl TopkErrInvalidK
      else Inr \<lparr>tk_kmax = kmax, tk_version = 0, tk_candidates = []\<rparr>)"

definition topk_FromState :: "int \<Rightarrow> topk_State \<Rightarrow> go_error + topk_Set" where
  "topk_FromState kmax st =
     (case topk_New kmax of
        Inl e \<Rightarrow> Inl e
      | Inr s \<Rightarrow>
          (case topk_validateCandidates (ts_Candidates st) of
             Some e \<Rightarrow> Inl e
           | None \<Rightarrow> Inr (s\<lparr>tk_candidates := topk_canonicalize (ts_Candidates st) kmax,
                             tk_version := ts_Version st\<rparr>)))"

definition topk_candidateFrom :: "topk_value \<Rightarrow> go_error + Candidate" where
  "topk_candidateFrom v =
     (case v of
        TopkCandidate c \<Rightarrow> Inr c
      | TopkCandidatePtr None \<Rightarrow> Inl TopkErrInvalidCandidate
      | TopkCandidatePtr (Some c) \<Rightarrow> Inr c
      | TopkValueOther \<Rightarrow> Inl TopkErrInvalidCandidate)"

definition topk_stateFrom :: "topk_peer \<Rightarrow> go_error + topk_State" where
  "topk_stateFrom v =
     (case v of
        TopkPeerState st \<Rightarrow> Inr st
      | TopkPeerPtr None \<Rightarrow> Inl TopkErrInvalidPeerState
      | TopkPeerPtr (Some st) \<Rightarrow> Inr st
      | TopkPeerSlice cs \<Rightarrow> Inr \<lparr>ts_Candidates = cs, ts_Version = 0\<rparr>
      | TopkPeerOther \<Rightarrow> Inl TopkErrInvalidPeerState)"

definition topk_Update :: "topk_Set \<Rightarrow> topk_value \<Rightarrow> topk_Set \<times> (go_error + bool)" where
  "topk_Update s v =
     (case topk_candidateFrom v of
        Inl e \<Rightarrow> (s, Inl e)
      | Inr c \<Rightarrow>
          (case topk_validateCandidate c of
             Some e \<Rightarrow> (s, Inl e)
           | None \<Rightarrow>
               (let cs = topk_canonicalize (tk_candidates s @ [c]) (tk_kmax s);
                    advanced = (\<not> topk_DeepEqual (tk_candidates s) cs)
                in (s\<lparr>tk_candidates := cs,
                      tk_version := (if advanced then tk_version s + 1 else tk_version s)\<rparr>,
                    Inr advanced))))"

definition topk_max :: "u64 \<Rightarrow> u64 \<Rightarrow> u64" where
  "topk_max a b = (if a > b then a else b)"

definition topk_Merge :: "topk_Set \<Rightarrow> topk_peer \<Rightarrow> topk_Set \<times> (go_error + bool)" where
  "topk_Merge s p =
     (case topk_stateFrom p of
        Inl e \<Rightarrow> (s, Inl e)
      | Inr st \<Rightarrow>
          (case topk_validateCandidates (ts_Candidates st) of
             Some e \<Rightarrow> (s, Inl e)
           | None \<Rightarrow>
               (let cs = topk_canonicalize (tk_candidates s @ ts_Candidates st) (tk_kmax s);
                    advanced = (\<not> topk_DeepEqual (tk_candidates s) cs);
                    ver = (if advanced then topk_max (tk_version s) (ts_Version st) + 1
                           else if ts_Version st > tk_version s then ts_Version st
                           else tk_version s)
                in (s\<lparr>tk_candidates := cs, tk_version := ver\<rparr>, Inr advanced))))"

definition topk_optsK :: "topk_Set \<Rightarrow> topk_opts \<Rightarrow> go_error + int" where
  "topk_optsK s opts =
     (case opts of
        OptsNil \<Rightarrow> Inr (tk_kmax s)
      | OptsStruct k \<Rightarrow> if k \<le> 0 then Inl TopkErrInvalidK else Inr k
      | OptsPtr None \<Rightarrow> Inl TopkErrInvalidK
      | OptsPtr (Some k) \<Rightarrow> if k \<le> 0 then Inl TopkErrInvalidK else Inr k
      | OptsInt k \<Rightarrow> if k \<le> 0 then Inl TopkErrInvalidK else Inr k
      | OptsOther \<Rightarrow> Inl TopkErrInvalidK)"

definition topk_Estimate :: "topk_Set \<Rightarrow> topk_opts \<Rightarrow> go_error + Candidate list" where
  "topk_Estimate s opts =
     (case topk_optsK s opts of
        Inl e \<Rightarrow> Inl e
      | Inr k0 \<Rightarrow>
          (let k1 = (if k0 > tk_kmax s then tk_kmax s else k0);
               k = (if k1 > int (length (tk_candidates s)) then int (length (tk_candidates s)) else k1)
           in Inr (take (nat k) (tk_candidates s))))"

definition topk_getState :: "topk_Set \<Rightarrow> topk_State" where
  "topk_getState s = \<lparr>ts_Candidates = tk_candidates s, ts_Version = tk_version s\<rparr>"

section \<open>Serialization\<close>

definition topk_encodeCandidate :: "Candidate \<Rightarrow> json option" where
  "topk_encodeCandidate c =
     (case enc_float64 (c_Score c) of
        None \<Rightarrow> None
      | Some sc \<Rightarrow>
          (case enc_time (c_EventTS c) of
             None \<Rightarrow> None
           | Some ts \<Rightarrow>
               Some (JObj [(''item_id'', JStr (c_ItemID c)), (''score'', sc), (''event_ts'', ts),
                           (''origin_node_id'', JStr (c_OriginNodeID c))])))"

fun topk_encodeCandidates :: "Candidate list \<Rightarrow> json list option" where
  "topk_encodeCandidates [] = Some []"
| "topk_encodeCandidates (c # cs) =
     (case topk_encodeCandidate c of
        None \<Rightarrow> None
      | Some j \<Rightarrow> map_option (\<lambda>js. j # js) (topk_encodeCandidates cs))"

definition topk_zeroCandidate :: Candidate where
  "topk_zeroCandidate =
     \<lparr>c_ItemID = [], c_Score = 0, c_EventTS = time_zero, c_OriginNodeID = []\<rparr>"

definition topk_decodeCandidate :: "Candidate decoder" where
  "topk_decodeCandidate =
     decode_struct
       [(''item_id'', field c_ItemID c_ItemID_update dec_string),
        (''score'', field c_Score c_Score_update dec_float64),
        (''event_ts'', field c_EventTS c_EventTS_update dec_time),
        (''origin_node_id'', field c_OriginNodeID c_OriginNodeID_update dec_string)]"

definition topk_zeroPayload :: topk_payload where
  "topk_zeroPayload =
     \<lparr>tp_AggregateType = [], tp_StateVersion = 0, tp_ProtocolVersion = [], tp_SchemaVersion = 0,
      tp_StatePayload = []\<rparr>"

definition topk_decodePayload :: "json \<Rightarrow> topk_payload option" where
  "topk_decodePayload raw =
     decode_struct
       [(''aggregate_type'', field tp_AggregateType tp_AggregateType_update dec_string),
        (''state_version'', field tp_StateVersion tp_StateVersion_update dec_uint64),
        (''protocol_version'', field tp_ProtocolVersion tp_ProtocolVersion_update dec_string),
        (''schema_version'', field tp_SchemaVersion tp_SchemaVersion_update dec_int),
        (''state_payload'', field tp_StatePayload tp_StatePayload_update
           (dec_slice topk_zeroCandidate topk_decodeCandidate))]
       topk_zeroPayload raw"

text \<open>\<open>Serialize\<close> fails when a kept candidate has a time that RFC 3339 cannot express.\<close>

definition topk_Serialize :: "topk_Set \<Rightarrow> go_error + json" where
  "topk_Serialize s =
     (let st = topk_getState s
      in case topk_encodeCandidates (ts_Candidates st) of
           None \<Rightarrow> Inl JsonError
         | Some js \<Rightarrow>
             Inr (JObj [(''aggregate_type'', JStr AggregateTOPK),
                        (''state_version'', enc_uint64 (ts_Version st)),
                        (''protocol_version'', JStr ProtocolVersion),
                        (''schema_version'', enc_int topk_schemaVersion),
                        (''state_payload'', JArr js)]))"

definition topk_checkPayload :: "json \<Rightarrow> go_error + topk_payload" where
  "topk_checkPayload raw =
     (case topk_decodePayload raw of
        None \<Rightarrow> Inl JsonError
      | Some p \<Rightarrow>
          if tp_AggregateType p \<noteq> AggregateTOPK \<or> tp_ProtocolVersion p \<noteq> ProtocolVersion \<or>
             tp_SchemaVersion p \<noteq> topk_schemaVersion then Inl TopkErrUnsupportedVersion
          else (case topk_validateCandidates (tp_StatePayload p) of
                  Some e \<Rightarrow> Inl e
                | None \<Rightarrow> Inr p))"

definition topk_StateFromSerialized :: "json \<Rightarrow> go_error + topk_State" where
  "topk_StateFromSerialized raw =
     (case topk_checkPayload raw of
        Inl e \<Rightarrow> Inl e
      | Inr p \<Rightarrow> Inr \<lparr>ts_Candidates = tp_StatePayload p, ts_Version = tp_StateVersion p\<rparr>)"

definition topk_Deserialize :: "topk_Set \<Rightarrow> json \<Rightarrow> topk_Set \<times> go_error option" where
  "topk_Deserialize s raw =
     (case topk_checkPayload raw of
        Inl e \<Rightarrow> (s, Some e)
      | Inr p \<Rightarrow>
          (s\<lparr>tk_candidates := topk_canonicalize (tp_StatePayload p) (tk_kmax s),
             tk_version := tp_StateVersion p\<rparr>, None))"


section \<open>The order\<close>

definition cand_rank :: "Candidate \<Rightarrow> int \<times> int \<times> string \<times> string" where
  "cand_rank c = (- f64_key (c_Score c), - t_inst (c_EventTS c), c_OriginNodeID c, c_ItemID c)"

text \<open>A candidate the program accepts and whose score is not the negative zero.\<close>

definition cand_ok :: "Candidate \<Rightarrow> bool" where
  "cand_ok c \<longleftrightarrow> topk_validateCandidate c = None \<and> c_Score c \<noteq> f64_negzero"

definition cand_normal :: "Candidate \<Rightarrow> bool" where
  "cand_normal c \<longleftrightarrow> t_off (c_EventTS c) = 0 \<and> t_mono (c_EventTS c) = None"

lemma cand_ok_finite: "cand_ok c \<Longrightarrow> f64_finite (c_Score c)"
  by (auto simp: cand_ok_def topk_validateCandidate_def f64_finite_iff split: if_splits)

lemma validateCandidates_iff:
  "topk_validateCandidates cs = None \<longleftrightarrow> (\<forall>c \<in> set cs. topk_validateCandidate c = None)"
  by (induction cs) (auto split: option.splits)

lemma validateCandidates_error: "topk_validateCandidates cs = Some e \<Longrightarrow> e = TopkErrInvalidCandidate"
  by (induction cs) (auto simp: topk_validateCandidate_def split: option.splits if_splits)

lemma topk_less_rank:
  assumes "\<not> IsNaN (c_Score a)" "\<not> IsNaN (c_Score b)"
  shows "topk_less a b \<longleftrightarrow> cand_rank a < cand_rank b"
  using assms
  by (auto simp: topk_less_def cand_rank_def f64_eq_def f64_less_def time_Equal_def time_After_def
      less_prod_simp)

lemma cand_normal_normalize [simp]: "cand_normal (topk_normalizeCandidate c)"
  by (simp add: cand_normal_def topk_normalizeCandidate_def time_Round0_def time_UTC_def)

lemma normalize_normal [simp]: "cand_normal c \<Longrightarrow> topk_normalizeCandidate c = c"
  by (simp add: cand_normal_def topk_normalizeCandidate_def time_Round0_def time_UTC_def)

lemma cand_ok_normalize [simp]: "cand_ok (topk_normalizeCandidate c) \<longleftrightarrow> cand_ok c"
  by (simp add: cand_ok_def topk_validateCandidate_def topk_normalizeCandidate_def time_Round0_def
      time_UTC_def time_IsZero_def)

lemma cand_normal_eqI:
  assumes "cand_normal a" "cand_normal b" "c_ItemID a = c_ItemID b" "c_Score a = c_Score b"
    "t_inst (c_EventTS a) = t_inst (c_EventTS b)" "c_OriginNodeID a = c_OriginNodeID b"
  shows "a = b"
  using assms by (cases a; cases b; cases "c_EventTS a"; cases "c_EventTS b")
    (auto simp: cand_normal_def)

lemma cand_key_inj:
  "cand_normal a \<Longrightarrow> cand_normal b \<Longrightarrow> topk_candidateKey a = topk_candidateKey b \<Longrightarrow> a = b"
  by (rule cand_normal_eqI) (auto simp: topk_candidateKey_def)

lemma cand_rank_inj:
  assumes "\<forall>c \<in> S. cand_ok c \<and> cand_normal c"
  shows "inj_on cand_rank S"
proof (rule inj_onI)
  fix a b assume "a \<in> S" "b \<in> S" and r: "cand_rank a = cand_rank b"
  with assms have ab: "cand_ok a" "cand_ok b" "cand_normal a" "cand_normal b" by auto
  moreover from ab r have "c_Score a = c_Score b"
    by (intro f64_key_inj) (auto simp: cand_rank_def cand_ok_def)
  ultimately show "a = b"
    using r by (intro cand_normal_eqI) (auto simp: cand_rank_def)
qed

section \<open>Canonical form\<close>

lemma set_topk_insert [simp]: "set (topk_insert x ys) = insert x (set ys)"
  by (induction ys) auto

lemma set_sortCandidates [simp]: "set (topk_sortCandidates xs) = set xs"
  by (induction xs) auto

lemma mset_topk_insert [simp]: "mset (topk_insert x ys) = add_mset x (mset ys)"
  by (induction ys) auto

lemma mset_sortCandidates [simp]: "mset (topk_sortCandidates xs) = mset xs"
  by (induction xs) auto

lemma sorted_topk_insert:
  "\<forall>c \<in> set (x # ys). \<not> IsNaN (c_Score c) \<Longrightarrow> sorted (map cand_rank ys) \<Longrightarrow>
   sorted (map cand_rank (topk_insert x ys))"
  by (induction ys) (auto simp: topk_less_rank not_less)

lemma sorted_sortCandidates:
  "\<forall>c \<in> set xs. \<not> IsNaN (c_Score c) \<Longrightarrow> sorted (map cand_rank (topk_sortCandidates xs))"
  by (induction xs) (auto intro!: sorted_topk_insert)

definition keyed :: "(cand_key, Candidate) gomap \<Rightarrow> bool" where
  "keyed m \<longleftrightarrow> mwf m \<and> (\<forall>(k, c) \<in> set m. k = topk_candidateKey c \<and> cand_normal c)"

lemma keyed_step:
  assumes "keyed m" "cand_normal c"
  shows "keyed (mput (topk_candidateKey c) c m) \<and>
    snd ` set (mput (topk_candidateKey c) c m) = insert c (snd ` set m)"
proof -
  have m: "mwf m" using assms(1) by (simp add: keyed_def)
  have "keyed (mput (topk_candidateKey c) c m)"
    using assms m by (auto simp: keyed_def set_mput)
  moreover have "c' = c" if "(topk_candidateKey c, c') \<in> set m" for c'
    using that assms cand_key_inj by (fastforce simp: keyed_def)
  then have "snd ` set (mput (topk_candidateKey c) c m) = insert c (snd ` set m)"
    using m by (force simp: set_mput)
  ultimately show ?thesis by blast
qed

lemma byTuple_spec:
  "keyed m \<Longrightarrow> keyed (topk_byTuple cs m) \<and>
   snd ` set (topk_byTuple cs m) = topk_normalizeCandidate ` set cs \<union> snd ` set m"
proof (induction cs arbitrary: m)
  case (Cons c cs)
  let ?n = "topk_normalizeCandidate c"
  have "keyed (mput (topk_candidateKey ?n) ?n m)"
    "snd ` set (mput (topk_candidateKey ?n) ?n m) = insert ?n (snd ` set m)"
    using keyed_step [OF Cons.prems, of ?n] by simp_all
  with Cons.IH show ?case by (simp add: Let_def)
qed simp

lemma keyed_distinct:
  assumes "keyed m"
  shows "distinct (map snd m)"
proof -
  have "map fst m = map (topk_candidateKey \<circ> snd) m"
    using assms by (auto simp: keyed_def)
  then have "distinct (map topk_candidateKey (map snd m))"
    using assms by (metis keyed_def map_map mwf_def)
  then show ?thesis by (simp only: distinct_map)
qed

lemma keyed_Nil [simp]: "keyed []"
  by (simp add: keyed_def)

lemma canonicalize_take:
  "0 \<le> k \<Longrightarrow> topk_canonicalize cs k = take (nat k) (topk_sortCandidates (map snd (topk_byTuple cs [])))"
  by (auto simp: topk_canonicalize_def Let_def)

text \<open>
  \<open>canonicalizeCandidates\<close> computes the best \<open>kmax\<close> of the normalized candidates; by
  \<open>is_topk_unique\<close> that determines the result.
\<close>

lemma canonicalize_best:
  assumes "topk_validateCandidates cs = None" "0 \<le> k"
  shows "is_best cand_rank (nat k) (topk_normalizeCandidate ` set cs) (topk_canonicalize cs k)"
proof -
  let ?m = "topk_byTuple cs []" and ?S = "topk_normalizeCandidate ` set cs"
  have m: "keyed ?m" "set (map snd ?m) = ?S" using byTuple_spec [of "[]" cs] by simp_all
  have "\<not> IsNaN (c_Score c)" if "c \<in> set cs" for c
    using assms(1) that by (auto simp: validateCandidates_iff topk_validateCandidate_def split: if_splits)
  then have "\<forall>c \<in> set (map snd ?m). \<not> IsNaN (c_Score c)" unfolding m(2) by (auto simp: topk_normalizeCandidate_def)
  then have "sorted (map cand_rank (topk_sortCandidates (map snd ?m)))" by (rule sorted_sortCandidates)
  moreover have "distinct (topk_sortCandidates (map snd ?m))"
    using keyed_distinct [OF m(1)] by (metis mset_sortCandidates mset_eq_imp_distinct_iff)
  ultimately show ?thesis
    unfolding canonicalize_take [OF assms(2)] using m(2) by (intro is_best_take) simp_all
qed


lemma canonicalize_topk:
  assumes "\<forall>c \<in> set cs. cand_ok c" "0 \<le> k"
  shows "is_topk cand_rank (nat k) (topk_normalizeCandidate ` set cs) (topk_canonicalize cs k)"
proof (rule is_best_topk)
  have "topk_validateCandidates cs = None" using assms(1) by (simp add: validateCandidates_iff cand_ok_def)
  then show "is_best cand_rank (nat k) (topk_normalizeCandidate ` set cs) (topk_canonicalize cs k)"
    using assms(2) by (rule canonicalize_best)
  show "inj_on cand_rank (topk_normalizeCandidate ` set cs)" using assms(1) by (intro cand_rank_inj) simp
qed

lemma canonicalize_unique:
  assumes "\<forall>c \<in> set cs. cand_ok c" "0 \<le> k"
    "is_topk cand_rank (nat k) (topk_normalizeCandidate ` set cs) L"
  shows "topk_canonicalize cs k = L"
  using canonicalize_topk [OF assms(1,2)] assms(3)
  by (rule is_topk_unique) (auto intro!: cand_rank_inj simp: assms(1))

section \<open>Invariant and value\<close>

definition topk_canonical :: "int \<Rightarrow> Candidate list \<Rightarrow> bool" where
  "topk_canonical k L \<longleftrightarrow> 0 < k \<and> int (length L) \<le> k \<and> sorted (map cand_rank L) \<and> distinct L \<and>
     list_all (\<lambda>c. cand_ok c \<and> cand_normal c) L"

definition topk_wf :: "topk_Set \<Rightarrow> bool" where
  "topk_wf s \<longleftrightarrow> topk_canonical (tk_kmax s) (tk_candidates s)"

definition topk_join :: "int \<Rightarrow> Candidate list \<Rightarrow> Candidate list \<Rightarrow> Candidate list" where
  "topk_join k a b = topk_canonicalize (a @ b) k"

definition topk_peer_cands :: "topk_peer \<Rightarrow> Candidate list" where
  "topk_peer_cands p = (case topk_stateFrom p of Inl _ \<Rightarrow> [] | Inr st \<Rightarrow> ts_Candidates st)"

definition topk_peer_ok :: "topk_peer \<Rightarrow> bool" where
  "topk_peer_ok p =
     (case topk_stateFrom p of Inl _ \<Rightarrow> False | Inr st \<Rightarrow> list_all cand_ok (ts_Candidates st))"

lemma topk_canonicalD:
  assumes "topk_canonical k L"
  shows "\<forall>c \<in> set L. cand_ok c" "\<forall>c \<in> set L. cand_normal c" "0 < k" "0 \<le> k"
  using assms by (auto simp: topk_canonical_def list_all_iff)

lemma normalize_canonical [simp]:
  "topk_canonical k L \<Longrightarrow> topk_normalizeCandidate ` set L = set L"
  using topk_canonicalD(2) [of k L] by force

lemma topk_canonical_is_topk:
  "topk_canonical k L \<Longrightarrow> is_topk cand_rank (nat k) (set L) L"
  by (auto simp: topk_canonical_def is_topk_def distinct_card)

lemma is_topk_canonical:
  assumes "is_topk cand_rank (nat k) S L" "\<forall>c \<in> S. cand_ok c \<and> cand_normal c" "0 < k"
  shows "topk_canonical k L"
  using assms by (auto simp: topk_canonical_def is_topk_def list_all_iff)

lemma canonicalize_canonical [wf_intros]:
  "\<forall>c \<in> set cs. cand_ok c \<Longrightarrow> 0 < k \<Longrightarrow> topk_canonical k (topk_canonicalize cs k)"
  by (rule is_topk_canonical [OF canonicalize_topk]) auto

lemma topk_join_topk:
  assumes "topk_canonical k a" "\<forall>c \<in> set b. cand_ok c"
  shows "is_topk cand_rank (nat k) (set a \<union> topk_normalizeCandidate ` set b) (topk_join k a b)"
proof -
  have "\<forall>c \<in> set (a @ b). cand_ok c" using topk_canonicalD(1) [OF assms(1)] assms(2) by auto
  from canonicalize_topk [OF this topk_canonicalD(4) [OF assms(1)]] assms(1) show ?thesis
    by (simp add: topk_join_def image_Un)
qed

lemma canonicalize_best_join:
  assumes "topk_canonical k a" "topk_validateCandidates b = None"
  shows "is_best cand_rank (nat k) (set a \<union> topk_normalizeCandidate ` set b) (topk_canonicalize (a @ b) k)"
proof -
  have "topk_validateCandidates (a @ b) = None"
    using assms topk_canonicalD(1) [OF assms(1)] by (auto simp: validateCandidates_iff cand_ok_def)
  from canonicalize_best [OF this topk_canonicalD(4) [OF assms(1)]] assms(1) show ?thesis by (simp add: image_Un)
qed

text \<open>Cutting the peer's candidates first does not change what is kept.\<close>

lemma topk_join_absorb:
  assumes "topk_canonical k a" "\<forall>c \<in> set b. cand_ok c"
  shows "topk_join k a b = topk_join k a (topk_canonicalize b k)"
proof -
  note k = topk_canonicalD [OF assms(1)]
  let ?B = "topk_normalizeCandidate ` set b" and ?b = "topk_canonicalize b k"
  have b: "topk_canonical k ?b" using assms(2) k(3) by (rule canonicalize_canonical)
  have "is_topk cand_rank (nat k) (set ?b \<union> set a) (topk_join k a ?b)"
    using topk_join_topk [OF assms(1) topk_canonicalD(1) [OF b]] b by (simp add: Un_commute)
  with canonicalize_topk [OF assms(2) k(4)]
  have "is_topk cand_rank (nat k) (?B \<union> set a) (topk_join k a ?b)"
    by (rule is_topk_absorb) simp
  then have "is_topk cand_rank (nat k) (set a \<union> ?B) (topk_join k a ?b)"
    by (simp only: Un_commute)
  moreover have "inj_on cand_rank (set a \<union> ?B)"
    using assms(2) k by (intro cand_rank_inj) auto
  ultimately show ?thesis
    using is_topk_unique [OF topk_join_topk [OF assms]] by blast
qed

lemma topk_join_closed:
  assumes "topk_canonical k a" "topk_canonical k b"
  shows "topk_canonical k (topk_join k a b)"
  unfolding topk_join_def
  using topk_canonicalD [OF assms(1)] topk_canonicalD [OF assms(2)]
  by (intro canonicalize_canonical) auto

lemma topk_join_three:
  assumes "topk_canonical k a" "topk_canonical k b" "topk_canonical k c"
  shows "is_topk cand_rank (nat k) (set a \<union> set b \<union> set c) (topk_join k (topk_join k a b) c)"
proof -
  have "is_topk cand_rank (nat k) (set a \<union> set b) (topk_join k a b)"
    using topk_join_topk [OF assms(1) topk_canonicalD(1) [OF assms(2)]] assms(2) by simp
  moreover have "is_topk cand_rank (nat k) (set (topk_join k a b) \<union> set c) (topk_join k (topk_join k a b) c)"
    using topk_join_topk [OF topk_join_closed [OF assms(1,2)] topk_canonicalD(1) [OF assms(3)]]
      assms(3) by simp
  ultimately show ?thesis by (rule is_topk_absorb) simp
qed

lemma topk_join_commute:
  assumes "topk_canonical k a" "topk_canonical k b"
  shows "topk_join k a b = topk_join k b a"
proof -
  note a = topk_canonicalD [OF assms(1)] and b = topk_canonicalD [OF assms(2)]
  have "is_topk cand_rank (nat k) (set a \<union> set b) (topk_join k b a)"
    using topk_join_topk [OF assms(2) a(1)] assms by (simp add: Un_commute)
  with topk_join_topk [OF assms(1) b(1)] show ?thesis
    unfolding normalize_canonical [OF assms(2)]
    by (rule is_topk_unique) (use a b in \<open>auto intro!: cand_rank_inj\<close>)
qed

lemma topk_join_assoc:
  assumes "topk_canonical k a" "topk_canonical k b" "topk_canonical k c"
  shows "topk_join k (topk_join k a b) c = topk_join k a (topk_join k b c)"
proof -
  have eq: "topk_join k a (topk_join k b c) = topk_join k (topk_join k b c) a"
    using assms by (intro topk_join_commute topk_join_closed)
  have "is_topk cand_rank (nat k) (set a \<union> set b \<union> set c) (topk_join k (topk_join k b c) a)"
    using topk_join_three [OF assms(2,3,1)] by (simp only: Un_ac)
  with topk_join_three [OF assms] show ?thesis
    unfolding eq by (rule is_topk_unique)
      (use assms in \<open>auto intro!: cand_rank_inj dest: topk_canonicalD\<close>)
qed

lemma topk_join_idem: "topk_canonical k a \<Longrightarrow> topk_join k a a = a"
  unfolding topk_join_def using topk_canonicalD [of k a] topk_canonical_is_topk [of k a]
  by (intro canonicalize_unique) auto

interpretation topk_semilattice: semilattice_on "topk_join k" "topk_canonical k" for k
  by unfold_locales (auto intro: topk_join_closed topk_join_assoc topk_join_commute topk_join_idem)

section \<open>Operations on well-formed sets\<close>

lemma topk_DeepEqual_iff:
  assumes "\<forall>c \<in> set a. cand_ok c" "\<forall>c \<in> set b. cand_ok c"
  shows "topk_DeepEqual a b \<longleftrightarrow> a = b"
proof -
  have "topk_candEqual x y \<longleftrightarrow> x = y" if "cand_ok x" "cand_ok y" for x y
  proof
    assume e: "topk_candEqual x y"
    then have "c_Score x = c_Score y"
      using that by (intro f64_key_inj) (auto simp: topk_candEqual_def f64_eq_def cand_ok_def)
    with e show "x = y" by (cases x; cases y) (simp add: topk_candEqual_def)
  next
    assume "x = y"
    with that show "topk_candEqual x y"
      using cand_ok_finite [of x] by (simp add: topk_candEqual_def f64_eq_def f64_finite_iff)
  qed
  with assms have "topk_DeepEqual a b \<longleftrightarrow> list_all2 (=) a b"
    unfolding topk_DeepEqual_def by (intro list.rel_cong) (auto simp: in_set_conv_nth)
  then show ?thesis by (simp add: list.rel_eq)
qed

lemma topk_peer_okD:
  assumes "topk_peer_ok p"
  obtains st where "topk_stateFrom p = Inr st" "topk_peer_cands p = ts_Candidates st"
    "\<forall>c \<in> set (ts_Candidates st). cand_ok c" "topk_validateCandidates (ts_Candidates st) = None"
  using assms that
  by (auto simp: topk_peer_ok_def topk_peer_cands_def validateCandidates_iff cand_ok_def list_all_iff
      split: sum.splits)

lemma topk_join_canonical:
  assumes "topk_canonical k a" "\<forall>c \<in> set b. cand_ok c"
  shows "topk_canonical k (topk_join k a b)"
  unfolding topk_join_def using topk_canonicalD [OF assms(1)] assms(2)
  by (intro canonicalize_canonical) auto

lemma topk_Merge_ok:
  assumes "topk_wf s" "topk_peer_ok p" "topk_stateFrom p = Inr st"
  defines "L \<equiv> topk_join (tk_kmax s) (tk_candidates s) (ts_Candidates st)"
  shows "topk_Merge s p =
    (s\<lparr>tk_candidates := L,
       tk_version := (if tk_candidates s \<noteq> L then max (tk_version s) (ts_Version st) + 1
                      else max (tk_version s) (ts_Version st))\<rparr>,
     Inr (tk_candidates s \<noteq> L))"
proof -
  have st: "\<forall>c \<in> set (ts_Candidates st). cand_ok c" "topk_validateCandidates (ts_Candidates st) = None"
    using assms(2,3) by (auto elim!: topk_peer_okD)
  have s: "topk_canonical (tk_kmax s) (tk_candidates s)" using assms(1) by (simp add: topk_wf_def)
  have "topk_DeepEqual (tk_candidates s) L \<longleftrightarrow> tk_candidates s = L"
    unfolding L_def
    using topk_canonicalD(1) [OF s] topk_canonicalD(1) [OF topk_join_canonical [OF s st(1)]]
    by (rule topk_DeepEqual_iff)
  then show ?thesis
    using st(2) assms(3)
    by (auto simp: topk_Merge_def Let_def L_def topk_join_def topk_max_def max_def)
qed

lemma topk_Merge_wf:
  assumes "topk_wf s" "topk_peer_ok p"
  shows "topk_wf (fst (topk_Merge s p))" "tk_kmax (fst (topk_Merge s p)) = tk_kmax s"
    "tk_candidates (fst (topk_Merge s p)) = topk_join (tk_kmax s) (tk_candidates s) (topk_peer_cands p)"
proof -
  obtain st where st: "topk_stateFrom p = Inr st" "topk_peer_cands p = ts_Candidates st"
    "\<forall>c \<in> set (ts_Candidates st). cand_ok c" using assms(2) by (rule topk_peer_okD)
  have s: "topk_canonical (tk_kmax s) (tk_candidates s)" using assms(1) by (simp add: topk_wf_def)
  show "topk_wf (fst (topk_Merge s p))" "tk_kmax (fst (topk_Merge s p)) = tk_kmax s"
    "tk_candidates (fst (topk_Merge s p)) = topk_join (tk_kmax s) (tk_candidates s) (topk_peer_cands p)"
    using topk_join_canonical [OF s st(3)] st(2)
    by (simp_all add: topk_Merge_ok [OF assms st(1)] topk_wf_def)
qed

lemma topk_Merge_rejected: "snd (topk_Merge s p) = Inl e \<Longrightarrow> fst (topk_Merge s p) = s"
  by (auto simp: topk_Merge_def Let_def split: sum.splits option.splits)

lemma topk_Merge_kmax [simp]: "tk_kmax (fst (topk_Merge s p)) = tk_kmax s"
  by (auto simp: topk_Merge_def Let_def split: sum.splits option.splits)

interpretation topk_replica:
  replica "topk_join k" "topk_canonical k" tk_candidates "\<lambda>s. topk_wf s \<and> tk_kmax s = k"
    "\<lambda>p. topk_canonicalize (topk_peer_cands p) k" "\<lambda>p. topk_peer_ok p \<and> 0 < k"
    "\<lambda>s p. fst (topk_Merge s p)" for k
proof unfold_locales
  fix s :: topk_Set and p
  assume s: "topk_wf s \<and> tk_kmax s = k" and p: "topk_peer_ok p \<and> 0 < k"
  then show "topk_wf (fst (topk_Merge s p)) \<and> tk_kmax (fst (topk_Merge s p)) = k"
    by (simp add: topk_Merge_wf)
  have "\<forall>c \<in> set (topk_peer_cands p). cand_ok c" using p by (auto elim!: topk_peer_okD)
  with s p show "tk_candidates (fst (topk_Merge s p)) =
      topk_join k (tk_candidates s) (topk_canonicalize (topk_peer_cands p) k)"
    by (auto simp: topk_Merge_wf topk_wf_def intro: topk_join_absorb)
qed (auto simp: topk_wf_def elim!: topk_peer_okD intro: canonicalize_canonical)

lemma topk_Update_ok:
  assumes "topk_wf s" "topk_candidateFrom v = Inr c" "cand_ok c"
  defines "L \<equiv> topk_join (tk_kmax s) (tk_candidates s) [c]"
  shows "topk_Update s v =
    (s\<lparr>tk_candidates := L,
       tk_version := (if tk_candidates s \<noteq> L then tk_version s + 1 else tk_version s)\<rparr>,
     Inr (tk_candidates s \<noteq> L))"
proof -
  have s: "topk_canonical (tk_kmax s) (tk_candidates s)" using assms(1) by (simp add: topk_wf_def)
  have c: "\<forall>x \<in> set [c]. cand_ok x" using assms(3) by simp
  have "topk_DeepEqual (tk_candidates s) L \<longleftrightarrow> tk_candidates s = L"
    unfolding L_def
    using topk_canonicalD(1) [OF s] topk_canonicalD(1) [OF topk_join_canonical [OF s c]]
    by (rule topk_DeepEqual_iff)
  moreover have "topk_validateCandidate c = None" using assms(3) by (simp add: cand_ok_def)
  ultimately show ?thesis
    using assms(2) by (simp add: topk_Update_def Let_def L_def topk_join_def)
qed

lemma topk_Update_kmax [simp]: "tk_kmax (fst (topk_Update s v)) = tk_kmax s"
  by (auto simp: topk_Update_def Let_def split: sum.splits option.splits)

section \<open>Serialization\<close>

lemma decodeCandidate_encode:
  assumes "topk_encodeCandidate c = Some j" "cand_normal c"
  shows "topk_decodeCandidate z j = Some c"
proof -
  obtain sc ts where j: "enc_float64 (c_Score c) = Some sc" "enc_time (c_EventTS c) = Some ts"
    "j = JObj [(''item_id'', JStr (c_ItemID c)), (''score'', sc), (''event_ts'', ts),
               (''origin_node_id'', JStr (c_OriginNodeID c))]"
    using assms(1) by (auto simp: topk_encodeCandidate_def split: option.splits)
  have "dec_time old ts = Some (c_EventTS c)" for old
    using dec_enc_time [OF j(2)] assms(2) by (simp add: cand_normal_def time_Round0_def)
  then show ?thesis
    using dec_enc_float64 [OF j(1)] j(3)
    by (simp add: topk_decodeCandidate_def decode_struct_def find_field_def field_def)
qed

lemma dec_elems_encode:
  "topk_encodeCandidates cs = Some js \<Longrightarrow> \<forall>c \<in> set cs. cand_normal c \<Longrightarrow>
   dec_elems z topk_decodeCandidate js = Some cs"
  by (induction cs arbitrary: js) (auto split: option.splits simp: decodeCandidate_encode)

lemma topk_checkPayload_Serialize:
  assumes "topk_wf s" "topk_Serialize s = Inr j"
  shows "topk_checkPayload j =
    Inr \<lparr>tp_AggregateType = AggregateTOPK, tp_StateVersion = tk_version s,
         tp_ProtocolVersion = ProtocolVersion, tp_SchemaVersion = topk_schemaVersion,
         tp_StatePayload = tk_candidates s\<rparr>"
proof -
  obtain js where js: "topk_encodeCandidates (tk_candidates s) = Some js"
    "j = JObj [(''aggregate_type'', JStr AggregateTOPK), (''state_version'', enc_uint64 (tk_version s)),
               (''protocol_version'', JStr ProtocolVersion),
               (''schema_version'', enc_int topk_schemaVersion), (''state_payload'', JArr js)]"
    using assms(2) by (auto simp: topk_Serialize_def topk_getState_def Let_def split: option.splits)
  have s: "topk_canonical (tk_kmax s) (tk_candidates s)" using assms(1) by (simp add: topk_wf_def)
  have "topk_validateCandidates (tk_candidates s) = None"
    using topk_canonicalD(1) [OF s] by (simp add: validateCandidates_iff cand_ok_def)
  then show ?thesis
    using dec_elems_encode [OF js(1) topk_canonicalD(2) [OF s]]
    by (simp add: js(2) topk_checkPayload_def topk_decodePayload_def decode_struct_def find_field_def
        field_def dec_slice_def topk_zeroPayload_def topk_schemaVersion_def)
qed

lemma canonicalize_canonical_id: "topk_canonical k L \<Longrightarrow> topk_canonicalize L k = L"
  using topk_canonicalD [of k L] topk_canonical_is_topk [of k L]
  by (intro canonicalize_unique) auto

lemma encodeCandidates_Some:
  "(\<exists>js. topk_encodeCandidates cs = Some js) \<longleftrightarrow> (\<forall>c \<in> set cs. topk_encodeCandidate c \<noteq> None)"
  by (induction cs) (auto split: option.splits)

lemma topk_Serialize_ok_iff:
  assumes "topk_wf s"
  shows "(\<exists>j. topk_Serialize s = Inr j) \<longleftrightarrow>
    (\<forall>c \<in> set (tk_candidates s). 0 \<le> time_year (c_EventTS c) \<and> time_year (c_EventTS c) \<le> 9999)"
proof -
  have s: "topk_canonical (tk_kmax s) (tk_candidates s)" using assms by (simp add: topk_wf_def)
  have "topk_encodeCandidate c \<noteq> None \<longleftrightarrow> 0 \<le> time_year (c_EventTS c) \<and> time_year (c_EventTS c) \<le> 9999"
    if "c \<in> set (tk_candidates s)" for c
    using that topk_canonicalD(1,2) [OF s] cand_ok_finite [of c]
    by (auto simp: topk_encodeCandidate_def enc_float64_def enc_time_def marshal_time_def cand_normal_def)
  then show ?thesis
    using encodeCandidates_Some [of "tk_candidates s"]
    by (auto simp: topk_Serialize_def topk_getState_def Let_def split: option.splits)
qed

section \<open>Properties\<close>

definition topk_deliver :: "topk_Set \<Rightarrow> topk_peer list \<Rightarrow> topk_Set" where
  "topk_deliver s ps = foldl (\<lambda>s p. fst (topk_Merge s p)) s ps"

definition topk_seen :: "topk_Set \<Rightarrow> topk_peer list \<Rightarrow> Candidate set" where
  "topk_seen s ps =
     set (tk_candidates s) \<union> topk_normalizeCandidate ` (\<Union>p \<in> set ps. set (topk_peer_cands p))"

lemma topk_deliver_wf:
  assumes "topk_wf s" "list_all topk_peer_ok ps"
  shows "topk_wf (topk_deliver s ps) \<and> tk_kmax (topk_deliver s ps) = tk_kmax s"
proof -
  have "0 < tk_kmax s" using assms(1) by (simp add: topk_wf_def topk_canonical_def)
  with assms show ?thesis
    unfolding topk_deliver_def by (intro topk_replica.inv_deliver) (auto simp: list_all_iff)
qed

lemma topk_deliver_topk:
  "topk_wf s \<Longrightarrow> list_all topk_peer_ok ps \<Longrightarrow>
   is_topk cand_rank (nat (tk_kmax s)) (topk_seen s ps) (tk_candidates (topk_deliver s ps))"
proof (induction ps arbitrary: s)
  case Nil
  then show ?case by (simp add: topk_seen_def topk_deliver_def topk_wf_def topk_canonical_is_topk)
next
  case (Cons p ps)
  let ?s = "fst (topk_Merge s p)" and ?B = "topk_normalizeCandidate ` (\<Union>p \<in> set ps. set (topk_peer_cands p))"
  have p: "topk_peer_ok p" "list_all topk_peer_ok ps" using Cons.prems by auto
  have "\<forall>c \<in> set (topk_peer_cands p). cand_ok c" using p(1) by (auto elim!: topk_peer_okD)
  then have "is_topk cand_rank (nat (tk_kmax s))
      (set (tk_candidates s) \<union> topk_normalizeCandidate ` set (topk_peer_cands p)) (tk_candidates ?s)"
    using Cons.prems(1) p by (simp add: topk_Merge_wf topk_join_topk topk_wf_def)
  moreover have "is_topk cand_rank (nat (tk_kmax s)) (set (tk_candidates ?s) \<union> ?B)
      (tk_candidates (topk_deliver s (p # ps)))"
    using Cons.IH [of ?s] topk_Merge_wf [OF Cons.prems(1) p(1)] p(2)
    by (simp add: topk_seen_def topk_deliver_def)
  ultimately have "is_topk cand_rank (nat (tk_kmax s))
      ((set (tk_candidates s) \<union> topk_normalizeCandidate ` set (topk_peer_cands p)) \<union> ?B)
      (tk_candidates (topk_deliver s (p # ps)))"
    by (rule is_topk_absorb) simp
  then show ?case by (simp add: topk_seen_def image_Un Un_assoc)
qed

lemma topk_seen_inj:
  assumes "topk_wf s" "list_all topk_peer_ok ps"
  shows "inj_on cand_rank (topk_seen s ps)"
proof (rule cand_rank_inj)
  have "\<forall>c \<in> set (topk_peer_cands p). cand_ok c" if "p \<in> set ps" for p
    using that assms(2) by (auto simp: list_all_iff elim!: topk_peer_okD)
  moreover have "topk_canonical (tk_kmax s) (tk_candidates s)" using assms(1) by (simp add: topk_wf_def)
  ultimately show "\<forall>c \<in> topk_seen s ps. cand_ok c \<and> cand_normal c"
    using topk_canonicalD(1,2) by (auto simp: topk_seen_def)
qed

text \<open>
  Two replicas with the same bound that have seen the same candidates, in any order, grouped
  in any way into peer states and repeated any number of times, keep the same list, and give the
  same answer to every query; the list is the best \<open>kmax\<close> of everything seen, so
  truncating on the way loses nothing.
\<close>

lemma topk_convergence:
  assumes "topk_wf s" "topk_wf t" "tk_kmax s = tk_kmax t"
    and "list_all topk_peer_ok ps" "list_all topk_peer_ok qs" "topk_seen s ps = topk_seen t qs"
  shows "tk_candidates (topk_deliver s ps) = tk_candidates (topk_deliver t qs) \<and>
    topk_Estimate (topk_deliver s ps) opts = topk_Estimate (topk_deliver t qs) opts \<and>
    is_topk cand_rank (nat (tk_kmax s)) (topk_seen s ps) (tk_candidates (topk_deliver s ps))"
proof -
  note best = topk_deliver_topk [OF assms(1,4)] topk_deliver_topk [OF assms(2,5)]
  have eq: "tk_candidates (topk_deliver s ps) = tk_candidates (topk_deliver t qs)"
    using best assms(3,6) topk_seen_inj [OF assms(1,4)] is_topk_unique by metis
  moreover have "tk_kmax (topk_deliver s ps) = tk_kmax (topk_deliver t qs)"
    using topk_deliver_wf assms by simp
  ultimately have "topk_Estimate (topk_deliver s ps) opts = topk_Estimate (topk_deliver t qs) opts"
    unfolding topk_Estimate_def topk_optsK_def by (simp only:)
  with eq best(1) show ?thesis by simp
qed

definition ex_cand :: "string \<Rightarrow> f64 \<Rightarrow> int \<Rightarrow> string \<Rightarrow> Candidate" where
  "ex_cand i x n z =
     \<lparr>c_ItemID = i, c_Score = x, c_EventTS = \<lparr>t_inst = n, t_off = 0, t_mono = None\<rparr>, c_OriginNodeID = z\<rparr>"

definition ex_topk :: "Candidate list \<Rightarrow> topk_Set" where
  "ex_topk cs = \<lparr>tk_kmax = 2, tk_version = 1, tk_candidates = cs\<rparr>"

lemma ex_topk_wf: "topk_wf (ex_topk [])" "topk_wf (ex_topk [ex_cand ''x'' 5 1 ''a''])"
  by code_simp+

lemma ex_topk_peer_ok:
  "topk_peer_ok (TopkPeerSlice [ex_cand ''x'' 5 1 ''a''])"
  "topk_peer_ok (TopkPeerSlice [ex_cand ''y'' 7 1 ''b''])"
  "topk_peer_ok (TopkPeerSlice [ex_cand ''y'' 7 1 ''b'', ex_cand ''x'' 5 1 ''a''])"
  by code_simp+

lemma normalize_ex_cand [simp]: "topk_normalizeCandidate (ex_cand i x n z) = ex_cand i x n z"
  by (simp add: cand_normal_def ex_cand_def)

lemma topk_convergence_witness:
  "tk_candidates (topk_deliver (ex_topk [])
     [TopkPeerSlice [ex_cand ''x'' 5 1 ''a''], TopkPeerSlice [ex_cand ''y'' 7 1 ''b'']]) =
   tk_candidates (topk_deliver (ex_topk [ex_cand ''x'' 5 1 ''a''])
     [TopkPeerSlice [ex_cand ''y'' 7 1 ''b'', ex_cand ''x'' 5 1 ''a'']])"
proof -
  have k: "tk_kmax (ex_topk []) = tk_kmax (ex_topk [ex_cand ''x'' 5 1 ''a''])" by (simp add: ex_topk_def)
  have p: "list_all topk_peer_ok
      [TopkPeerSlice [ex_cand ''x'' 5 1 ''a''], TopkPeerSlice [ex_cand ''y'' 7 1 ''b'']]"
    "list_all topk_peer_ok [TopkPeerSlice [ex_cand ''y'' 7 1 ''b'', ex_cand ''x'' 5 1 ''a'']]"
    by (simp_all add: ex_topk_peer_ok)
  show ?thesis
    using topk_convergence [OF ex_topk_wf k p]
    by (simp add: topk_seen_def topk_peer_cands_def topk_stateFrom_def ex_topk_def insert_commute)
qed

text \<open>
  C28. \<open>Merge\<close> on every branch: a value that is not a state and a state with an invalid candidate are
  refused with the set unchanged.  Any other state leaves \<open>kmax\<close> of the candidates of both sides, or all
  of them, sorted, without duplicates, and none left out ranks before one kept.  When no score is
  the negative zero the set stays well formed, what is kept is exactly the best \<open>kmax\<close> of the union,
  \<open>advanced\<close> is reported exactly when the list changed, and the Lamport version is set accordingly.
\<close>

theorem topk_Merge_correct:
  assumes "topk_wf s"
  shows "case topk_stateFrom p of
      Inl e \<Rightarrow> e = TopkErrInvalidPeerState \<and> topk_Merge s p = (s, Inl e)
    | Inr st \<Rightarrow>
        if \<exists>c \<in> set (ts_Candidates st). topk_validateCandidate c \<noteq> None
        then topk_Merge s p = (s, Inl TopkErrInvalidCandidate)
        else
          is_best cand_rank (nat (tk_kmax s)) (set (tk_candidates s) \<union> topk_normalizeCandidate ` set (ts_Candidates st))
            (tk_candidates (fst (topk_Merge s p))) \<and>
          ((\<forall>c \<in> set (ts_Candidates st). c_Score c \<noteq> f64_negzero) \<longrightarrow>
             topk_wf (fst (topk_Merge s p)) \<and>
             is_topk cand_rank (nat (tk_kmax s)) (set (tk_candidates s) \<union> topk_normalizeCandidate ` set (ts_Candidates st))
               (tk_candidates (fst (topk_Merge s p))) \<and>
             snd (topk_Merge s p) = Inr (tk_candidates (fst (topk_Merge s p)) \<noteq> tk_candidates s) \<and>
             tk_version (fst (topk_Merge s p)) =
               max (tk_version s) (ts_Version st) +
                 (if tk_candidates (fst (topk_Merge s p)) \<noteq> tk_candidates s then 1 else 0))"
proof (cases "topk_stateFrom p")
  case (Inl e)
  then have "e = TopkErrInvalidPeerState" by (auto simp: topk_stateFrom_def split: topk_peer.splits option.splits)
  with Inl show ?thesis by (simp add: topk_Merge_def)
next
  case (Inr st)
  have c: "topk_canonical (tk_kmax s) (tk_candidates s)" using assms by (simp add: topk_wf_def)
  show ?thesis
  proof (cases "topk_validateCandidates (ts_Candidates st)")
    case (Some e)
    then have "\<exists>c \<in> set (ts_Candidates st). topk_validateCandidate c \<noteq> None"
      using validateCandidates_iff [of "ts_Candidates st"] by auto
    with Inr Some validateCandidates_error [OF Some] show ?thesis by (simp add: topk_Merge_def)
  next
    case None
    then have v: "\<forall>c \<in> set (ts_Candidates st). topk_validateCandidate c = None" by (simp add: validateCandidates_iff)
    have b: "is_best cand_rank (nat (tk_kmax s)) (set (tk_candidates s) \<union> topk_normalizeCandidate ` set (ts_Candidates st))
        (tk_candidates (fst (topk_Merge s p)))"
      using canonicalize_best_join [OF c None] Inr None by (simp add: topk_Merge_def Let_def)
    have exact: "topk_wf (fst (topk_Merge s p)) \<and>
       is_topk cand_rank (nat (tk_kmax s)) (set (tk_candidates s) \<union> topk_normalizeCandidate ` set (ts_Candidates st))
         (tk_candidates (fst (topk_Merge s p))) \<and>
       snd (topk_Merge s p) = Inr (tk_candidates (fst (topk_Merge s p)) \<noteq> tk_candidates s) \<and>
       tk_version (fst (topk_Merge s p)) = max (tk_version s) (ts_Version st) +
         (if tk_candidates (fst (topk_Merge s p)) \<noteq> tk_candidates s then 1 else 0)"
      if z: "\<forall>c \<in> set (ts_Candidates st). c_Score c \<noteq> f64_negzero"
    proof -
      have o: "\<forall>c \<in> set (ts_Candidates st). cand_ok c" using v z by (simp add: cand_ok_def)
      then have p: "topk_peer_ok p" using Inr by (simp add: topk_peer_ok_def list_all_iff)
      show ?thesis using topk_Merge_wf(1) [OF assms p] topk_join_topk [OF c o] by (auto simp: topk_Merge_ok [OF assms p Inr])
    qed
    show ?thesis using v b exact unfolding Inr sum.case by simp
  qed
qed

theorem topk_Merge_correct_witness:
  "snd (topk_Merge (ex_topk []) (TopkPeerSlice [ex_cand ''x'' 5 1 ''a''])) = Inr True"
proof -
  have "topk_validateCandidate (ex_cand ''x'' 5 1 ''a'') = None"
    "c_Score (ex_cand ''x'' 5 1 ''a'') \<noteq> f64_negzero" by code_simp+
  then show ?thesis
    using topk_Merge_correct [OF ex_topk_wf(1), of "TopkPeerSlice [ex_cand ''x'' 5 1 ''a'']"]
    by (auto simp: is_topk_def ex_topk_def topk_stateFrom_def)
qed

text \<open>
  C31. \<open>Update\<close> on every branch: a value that is not a candidate and an invalid candidate are refused
  with the set unchanged.  Any other candidate leaves \<open>kmax\<close> of the old ones and the normalized new
  one, or all of them, sorted, without duplicates, and none left out ranks before one kept.  When its
  score is not the negative zero the set stays well formed, what is kept is exactly the best \<open>kmax\<close>,
  and \<open>advanced\<close> and the version say exactly whether the list changed.  (A negative zero ties with a
  zero, and \<open>DeepEqual\<close> does not tell them apart.)
\<close>

theorem topk_Update_correct:
  assumes "topk_wf s"
  shows "case topk_candidateFrom v of
      Inl e \<Rightarrow> e = TopkErrInvalidCandidate \<and> topk_Update s v = (s, Inl e)
    | Inr c \<Rightarrow>
        if topk_validateCandidate c \<noteq> None then topk_Update s v = (s, Inl TopkErrInvalidCandidate)
        else
          is_best cand_rank (nat (tk_kmax s)) (insert (topk_normalizeCandidate c) (set (tk_candidates s)))
            (tk_candidates (fst (topk_Update s v))) \<and>
          (c_Score c \<noteq> f64_negzero \<longrightarrow>
             topk_wf (fst (topk_Update s v)) \<and>
             is_topk cand_rank (nat (tk_kmax s)) (insert (topk_normalizeCandidate c) (set (tk_candidates s)))
               (tk_candidates (fst (topk_Update s v))) \<and>
             snd (topk_Update s v) = Inr (tk_candidates (fst (topk_Update s v)) \<noteq> tk_candidates s) \<and>
             tk_version (fst (topk_Update s v)) =
               tk_version s + (if tk_candidates (fst (topk_Update s v)) \<noteq> tk_candidates s then 1 else 0))"
proof (cases "topk_candidateFrom v")
  case (Inl e)
  then have "e = TopkErrInvalidCandidate"
    by (auto simp: topk_candidateFrom_def split: topk_value.splits option.splits)
  with Inl show ?thesis by (simp add: topk_Update_def)
next
  case (Inr c)
  have s: "topk_canonical (tk_kmax s) (tk_candidates s)" using assms by (simp add: topk_wf_def)
  show ?thesis
  proof (cases "topk_validateCandidate c")
    case (Some e)
    then have "e = TopkErrInvalidCandidate" by (auto simp: topk_validateCandidate_def split: if_splits)
    with Inr Some show ?thesis by (simp add: topk_Update_def)
  next
    case None
    have b: "is_best cand_rank (nat (tk_kmax s)) (insert (topk_normalizeCandidate c) (set (tk_candidates s)))
        (tk_candidates (fst (topk_Update s v)))"
      using canonicalize_best_join [OF s, of "[c]"] Inr None by (simp add: topk_Update_def Let_def)
    show ?thesis
    proof (cases "c_Score c = f64_negzero")
      case True
      with b None show ?thesis unfolding Inr sum.case by simp
    next
      case False
      with None have o: "cand_ok c" "\<forall>x \<in> set [c]. cand_ok x" by (simp_all add: cand_ok_def)
      from Inr None b False topk_join_topk [OF s o(2)] topk_join_canonical [OF s o(2)] show ?thesis
        by (auto simp: topk_Update_ok [OF assms Inr o(1)] topk_wf_def)
    qed
  qed
qed

theorem topk_Update_correct_witness:
  "topk_wf (fst (topk_Update (ex_topk []) (TopkCandidate (ex_cand ''x'' 5 1 ''a''))))"
proof -
  have "topk_validateCandidate (ex_cand ''x'' 5 1 ''a'') = None"
    "c_Score (ex_cand ''x'' 5 1 ''a'') \<noteq> f64_negzero" by code_simp+
  then show ?thesis
    using topk_Update_correct [OF ex_topk_wf(1), of "TopkCandidate (ex_cand ''x'' 5 1 ''a'')"]
    by (simp add: topk_candidateFrom_def)
qed

text \<open>
  C30. A query after any sequence of merges of acceptable states (valid candidates, no score the
  negative zero) answers the best \<open>min k kmax\<close> candidates of
  everything seen, in order; a bound that is not positive is refused with \<open>ErrInvalidK\<close>.
\<close>

theorem topk_Estimate_best:
  assumes "topk_wf s" "list_all topk_peer_ok ps"
  shows "case topk_optsK (topk_deliver s ps) opts of
      Inl e \<Rightarrow> e = TopkErrInvalidK \<and> topk_Estimate (topk_deliver s ps) opts = Inl e
    | Inr k \<Rightarrow> 0 < k \<and>
        (\<exists>L. topk_Estimate (topk_deliver s ps) opts = Inr L \<and>
             is_topk cand_rank (nat (min k (tk_kmax s))) (topk_seen s ps) L)"
proof (cases "topk_optsK (topk_deliver s ps) opts")
  case (Inl e)
  then have "e = TopkErrInvalidK"
    by (auto simp: topk_optsK_def split: topk_opts.splits option.splits if_splits)
  with Inl show ?thesis by (simp add: topk_Estimate_def)
next
  case (Inr k)
  let ?s = "topk_deliver s ps"
  have w: "topk_wf ?s" "tk_kmax ?s = tk_kmax s" using topk_deliver_wf [OF assms] by auto
  then have "0 < k"
    using Inr by (auto simp: topk_optsK_def topk_wf_def topk_canonical_def
        split: topk_opts.splits option.splits if_splits)
  moreover have "topk_Estimate ?s opts = Inr (take (nat (min k (tk_kmax s))) (tk_candidates ?s))"
    using Inr w(2) by (auto simp: topk_Estimate_def Let_def min_def)
  moreover have "is_topk cand_rank (nat (min k (tk_kmax s))) (topk_seen s ps)
      (take (nat (min k (tk_kmax s))) (tk_candidates ?s))"
    using is_topk_shorter [OF topk_deliver_topk [OF assms] topk_seen_inj [OF assms]] by simp
  ultimately show ?thesis using Inr by simp
qed

theorem topk_Estimate_best_witness:
  "topk_Estimate (topk_deliver (ex_topk [])
     [TopkPeerSlice [ex_cand ''x'' 5 1 ''a''], TopkPeerSlice [ex_cand ''y'' 7 1 ''b'']]) (OptsInt 1) = Inr [ex_cand ''y'' 7 1 ''b'']"
proof -
  let ?x = "ex_cand ''x'' 5 1 ''a''" and ?y = "ex_cand ''y'' 7 1 ''b''"
  let ?ps = "[TopkPeerSlice [?x], TopkPeerSlice [?y]]"
  have p: "list_all topk_peer_ok ?ps" by (simp add: ex_topk_peer_ok)
  have seen: "topk_seen (ex_topk []) ?ps = {?x, ?y}"
    by (simp add: topk_seen_def topk_peer_cands_def topk_stateFrom_def ex_topk_def insert_commute)
  have "topk_optsK (topk_deliver (ex_topk []) ?ps) (OptsInt 1) = Inr 1" by (simp add: topk_optsK_def)
  then obtain L where L: "topk_Estimate (topk_deliver (ex_topk []) ?ps) (OptsInt 1) = Inr L" "is_topk cand_rank 1 {?x, ?y} L"
    using topk_Estimate_best [OF ex_topk_wf(1) p, of "OptsInt 1"] seen by (auto simp: ex_topk_def)
  have ne: "?x \<noteq> ?y" by (simp add: ex_cand_def)
  have lt: "cand_rank ?y < cand_rank ?x" by code_simp
  have "length L = 1" using L(2) ne by (simp add: is_topk_def)
  then obtain z where z: "L = [z]" by (auto simp: length_Suc_conv)
  with L(2) ne lt have "z = ?y" by (auto simp: is_topk_def)
  with L(1) z show ?thesis by simp
qed

text \<open>
  C32. Serialization round trip: when \<open>Serialize\<close> succeeds, a set with the same bound restored
  from the document has the same candidates and version; and it succeeds exactly when every kept
  event time lies in the years RFC 3339 can express.
\<close>

theorem topk_serialize_roundtrip:
  assumes "topk_wf s"
  shows "((\<exists>j. topk_Serialize s = Inr j) \<longleftrightarrow>
      (\<forall>c \<in> set (tk_candidates s). 0 \<le> time_year (c_EventTS c) \<and> time_year (c_EventTS c) \<le> 9999)) \<and>
    (\<forall>j h. topk_Serialize s = Inr j \<and> tk_kmax h = tk_kmax s \<longrightarrow>
       topk_Deserialize h j =
         (h\<lparr>tk_candidates := tk_candidates s, tk_version := tk_version s\<rparr>, None) \<and>
       topk_StateFromSerialized j = Inr (topk_getState s))"
proof (intro conjI allI impI)
  fix j and h :: topk_Set assume a: "topk_Serialize s = Inr j \<and> tk_kmax h = tk_kmax s"
  then have p: "topk_checkPayload j =
    Inr \<lparr>tp_AggregateType = AggregateTOPK, tp_StateVersion = tk_version s,
         tp_ProtocolVersion = ProtocolVersion, tp_SchemaVersion = topk_schemaVersion,
         tp_StatePayload = tk_candidates s\<rparr>"
    using topk_checkPayload_Serialize [OF assms] by blast
  then show "topk_StateFromSerialized j = Inr (topk_getState s)"
    by (simp add: topk_StateFromSerialized_def topk_getState_def)
  show "topk_Deserialize h j = (h\<lparr>tk_candidates := tk_candidates s, tk_version := tk_version s\<rparr>, None)"
    using p a assms by (simp add: topk_Deserialize_def canonicalize_canonical_id topk_wf_def)
qed (rule topk_Serialize_ok_iff [OF assms])

theorem topk_serialize_roundtrip_witness:
  "\<exists>j. topk_Serialize (ex_topk [ex_cand ''x'' 5 1 ''a'']) = Inr j \<and>
       topk_StateFromSerialized j = Inr (topk_getState (ex_topk [ex_cand ''x'' 5 1 ''a'']))"
proof -
  let ?s = "ex_topk [ex_cand ''x'' 5 1 ''a'']"
  have "time_year (c_EventTS (ex_cand ''x'' 5 1 ''a'')) = 1" by code_simp
  then have "\<forall>c \<in> set (tk_candidates ?s). 0 \<le> time_year (c_EventTS c) \<and> time_year (c_EventTS c) \<le> 9999"
    by (simp add: ex_topk_def)
  then show ?thesis using topk_serialize_roundtrip [OF ex_topk_wf(2)] by blast
qed

text \<open>
  The order is not total on what \<open>validateCandidate\<close> accepts: the scores \<open>0\<close> and \<open>-0\<close>
  compare equal but give different keys, so which of two candidates that differ only in the sign
  of the zero survives truncation depends on the iteration order of the Go map.
\<close>

theorem topk_negative_zero_order:
  "\<exists>a b. topk_validateCandidate a = None \<and> topk_validateCandidate b = None \<and>
         topk_candidateKey a \<noteq> topk_candidateKey b \<and> \<not> topk_less a b \<and> \<not> topk_less b a \<and>
         topk_canonicalize [a, b] 1 \<noteq> topk_canonicalize [b, a] 1"
proof -
  let ?a = "ex_cand ''x'' 0 1 ''a''" and ?b = "ex_cand ''x'' f64_negzero 1 ''a''"
  have "topk_validateCandidate ?a = None" "topk_validateCandidate ?b = None"
    "topk_candidateKey ?a \<noteq> topk_candidateKey ?b" "\<not> topk_less ?a ?b" "\<not> topk_less ?b ?a"
    "topk_canonicalize [?a, ?b] 1 \<noteq> topk_canonicalize [?b, ?a] 1"
    by code_simp+
  then show ?thesis by blast
qed

end
