(* ===== verification/Protocol.thy ===== *)
theory Protocol
  imports Json TopK
begin

text \<open>
  \<open>internal/gossip/protocol\<close>: the payloads nodes exchange (\<open>delta.go\<close>, \<open>sync.go\<close>), their
  JSON forms, and the checks made on what was received.  A Go error that wraps a sentinel with
  \<open>%w\<close> is represented by the sentinel.  A \<open>json.RawMessage\<close> is the JSON value it holds, \<open>None\<close>
  when it is empty.
\<close>

section \<open>Messages\<close>

definition MaxDeltaRangeSize :: u64 where "MaxDeltaRangeSize = 256"

record StateDelta =
  sd_AggregateType :: string
  sd_DeltaVersion :: u64
  sd_OriginNodeID :: string
  sd_DeltaSequence :: u64
  sd_Delta :: "json option"

record SUMDelta =
  sumd_NodeID :: string
  sumd_Value :: u64

text \<open>\<open>TOPKDelta\<close> has the fields, the types and the JSON names of \<open>topk.Candidate\<close>.\<close>

type_synonym TOPKDelta = Candidate

record AggregateDigest =
  ad_Version :: u64
  ad_Checksum :: string

record StateDigest =
  dg_SUM :: AggregateDigest
  dg_TOPK :: AggregateDigest
  dg_MembershipVersion :: u64
  dg_DeltaSequences :: "(string, u64) gomap option"

record DeltaRange =
  dr_OriginNodeID :: string
  dr_FromSequence :: u64
  dr_ToSequence :: u64

record DeltaRangeReq =
  drq_Ranges :: "DeltaRange list"
  drq_KnownVersions :: StateDigest

record DeltaRangeResp =
  drp_Deltas :: "StateDelta list"

record SnapshotReq =
  srq_WantAggregateTypes :: "string list"
  srq_KnownVersions :: StateDigest

record SnapshotResp =
  srp_SnapshotVersion :: u64
  srp_SUMState :: "json option"
  srp_TOPKState :: "json option"
  srp_DeltaSequences :: "(string, u64) gomap option"
  srp_CreatedAt :: gotime

section \<open>JSON forms\<close>

definition enc_SUMDelta :: "SUMDelta \<Rightarrow> json" where
  "enc_SUMDelta d = JObj [(''node_id'', JStr (sumd_NodeID d)), (''value'', enc_uint64 (sumd_Value d))]"

definition zero_SUMDelta :: SUMDelta where
  "zero_SUMDelta = \<lparr>sumd_NodeID = [], sumd_Value = 0\<rparr>"

definition dec_SUMDelta :: "SUMDelta decoder" where
  "dec_SUMDelta = decode_struct
     [(''node_id'', field sumd_NodeID sumd_NodeID_update dec_string),
      (''value'', field sumd_Value sumd_Value_update dec_uint64)]"

definition enc_StateDelta :: "StateDelta \<Rightarrow> json" where
  "enc_StateDelta d = JObj
     ([(''aggregate_type'', JStr (sd_AggregateType d)),
       (''delta_version'', enc_uint64 (sd_DeltaVersion d))] @
      omitempty (sd_OriginNodeID d = []) ''origin_node_id'' (JStr (sd_OriginNodeID d)) @
      omitempty (sd_DeltaSequence d = 0) ''delta_sequence'' (enc_uint64 (sd_DeltaSequence d)) @
      [(''delta'', enc_raw (sd_Delta d))])"

definition zero_StateDelta :: StateDelta where
  "zero_StateDelta =
     \<lparr>sd_AggregateType = [], sd_DeltaVersion = 0, sd_OriginNodeID = [], sd_DeltaSequence = 0,
      sd_Delta = None\<rparr>"

definition dec_StateDelta :: "StateDelta decoder" where
  "dec_StateDelta = decode_struct
     [(''aggregate_type'', field sd_AggregateType sd_AggregateType_update dec_string),
      (''delta_version'', field sd_DeltaVersion sd_DeltaVersion_update dec_uint64),
      (''origin_node_id'', field sd_OriginNodeID sd_OriginNodeID_update dec_string),
      (''delta_sequence'', field sd_DeltaSequence sd_DeltaSequence_update dec_uint64),
      (''delta'', field sd_Delta sd_Delta_update dec_raw)]"

definition enc_AggregateDigest :: "AggregateDigest \<Rightarrow> json" where
  "enc_AggregateDigest d = JObj
     ((''version'', enc_uint64 (ad_Version d)) #
      omitempty (ad_Checksum d = []) ''checksum'' (JStr (ad_Checksum d)))"

definition zero_AggregateDigest :: AggregateDigest where
  "zero_AggregateDigest = \<lparr>ad_Version = 0, ad_Checksum = []\<rparr>"

definition dec_AggregateDigest :: "AggregateDigest decoder" where
  "dec_AggregateDigest = decode_struct
     [(''version'', field ad_Version ad_Version_update dec_uint64),
      (''checksum'', field ad_Checksum ad_Checksum_update dec_string)]"

text \<open>\<open>omitempty\<close> drops a nil map and an empty one.\<close>

definition map_empty :: "(string, u64) gomap option \<Rightarrow> bool" where
  "map_empty m = (case m of None \<Rightarrow> True | Some es \<Rightarrow> es = [])"

definition enc_StateDigest :: "StateDigest \<Rightarrow> json" where
  "enc_StateDigest d = JObj
     ([(''sum'', enc_AggregateDigest (dg_SUM d)), (''topk'', enc_AggregateDigest (dg_TOPK d)),
       (''membership_version'', enc_uint64 (dg_MembershipVersion d))] @
      omitempty (map_empty (dg_DeltaSequences d)) ''delta_sequences''
        (enc_map_uint64 (dg_DeltaSequences d)))"

definition zero_StateDigest :: StateDigest where
  "zero_StateDigest =
     \<lparr>dg_SUM = zero_AggregateDigest, dg_TOPK = zero_AggregateDigest, dg_MembershipVersion = 0,
      dg_DeltaSequences = None\<rparr>"

definition dec_StateDigest :: "StateDigest decoder" where
  "dec_StateDigest = decode_struct
     [(''sum'', field dg_SUM dg_SUM_update dec_AggregateDigest),
      (''topk'', field dg_TOPK dg_TOPK_update dec_AggregateDigest),
      (''membership_version'', field dg_MembershipVersion dg_MembershipVersion_update dec_uint64),
      (''delta_sequences'', field dg_DeltaSequences dg_DeltaSequences_update dec_map_uint64)]"

definition enc_DeltaRange :: "DeltaRange \<Rightarrow> json" where
  "enc_DeltaRange r = JObj
     [(''origin_node_id'', JStr (dr_OriginNodeID r)),
      (''from_sequence'', enc_uint64 (dr_FromSequence r)),
      (''to_sequence'', enc_uint64 (dr_ToSequence r))]"

definition zero_DeltaRange :: DeltaRange where
  "zero_DeltaRange = \<lparr>dr_OriginNodeID = [], dr_FromSequence = 0, dr_ToSequence = 0\<rparr>"

definition dec_DeltaRange :: "DeltaRange decoder" where
  "dec_DeltaRange = decode_struct
     [(''origin_node_id'', field dr_OriginNodeID dr_OriginNodeID_update dec_string),
      (''from_sequence'', field dr_FromSequence dr_FromSequence_update dec_uint64),
      (''to_sequence'', field dr_ToSequence dr_ToSequence_update dec_uint64)]"

definition enc_DeltaRangeReq :: "DeltaRangeReq \<Rightarrow> json" where
  "enc_DeltaRangeReq q = JObj
     [(''ranges'', JArr (map enc_DeltaRange (drq_Ranges q))),
      (''known_versions'', enc_StateDigest (drq_KnownVersions q))]"

definition dec_DeltaRangeReq :: "DeltaRangeReq decoder" where
  "dec_DeltaRangeReq = decode_struct
     [(''ranges'', field drq_Ranges drq_Ranges_update (dec_slice zero_DeltaRange dec_DeltaRange)),
      (''known_versions'', field drq_KnownVersions drq_KnownVersions_update dec_StateDigest)]"

definition enc_DeltaRangeResp :: "DeltaRangeResp \<Rightarrow> json" where
  "enc_DeltaRangeResp r = JObj [(''deltas'', JArr (map enc_StateDelta (drp_Deltas r)))]"

definition dec_DeltaRangeResp :: "DeltaRangeResp decoder" where
  "dec_DeltaRangeResp = decode_struct
     [(''deltas'', field drp_Deltas drp_Deltas_update (dec_slice zero_StateDelta dec_StateDelta))]"

definition enc_SnapshotReq :: "SnapshotReq \<Rightarrow> json" where
  "enc_SnapshotReq q = JObj
     [(''want_aggregate_types'', JArr (map JStr (srq_WantAggregateTypes q))),
      (''known_versions'', enc_StateDigest (srq_KnownVersions q))]"

definition dec_SnapshotReq :: "SnapshotReq decoder" where
  "dec_SnapshotReq = decode_struct
     [(''want_aggregate_types'',
         field srq_WantAggregateTypes srq_WantAggregateTypes_update (dec_slice [] dec_string)),
      (''known_versions'', field srq_KnownVersions srq_KnownVersions_update dec_StateDigest)]"

definition enc_SnapshotResp :: "SnapshotResp \<Rightarrow> json option" where
  "enc_SnapshotResp r =
     (case enc_time (srp_CreatedAt r) of
        None \<Rightarrow> None
      | Some t \<Rightarrow> Some (JObj
          ((''snapshot_version'', enc_uint64 (srp_SnapshotVersion r)) #
           omitempty (srp_SUMState r = None) ''sum_state'' (enc_raw (srp_SUMState r)) @
           omitempty (srp_TOPKState r = None) ''topk_state'' (enc_raw (srp_TOPKState r)) @
           omitempty (map_empty (srp_DeltaSequences r)) ''delta_sequences''
             (enc_map_uint64 (srp_DeltaSequences r)) @
           [(''created_at'', t)])))"

definition zero_SnapshotResp :: SnapshotResp where
  "zero_SnapshotResp =
     \<lparr>srp_SnapshotVersion = 0, srp_SUMState = None, srp_TOPKState = None, srp_DeltaSequences = None,
      srp_CreatedAt = time_zero\<rparr>"

definition dec_SnapshotResp :: "SnapshotResp decoder" where
  "dec_SnapshotResp = decode_struct
     [(''snapshot_version'', field srp_SnapshotVersion srp_SnapshotVersion_update dec_uint64),
      (''sum_state'', field srp_SUMState srp_SUMState_update dec_raw),
      (''topk_state'', field srp_TOPKState srp_TOPKState_update dec_raw),
      (''delta_sequences'', field srp_DeltaSequences srp_DeltaSequences_update dec_map_uint64),
      (''created_at'', field srp_CreatedAt srp_CreatedAt_update dec_time)]"

section \<open>Deltas\<close>

definition NewSUMStateDelta :: "u64 \<Rightarrow> SUMDelta \<Rightarrow> go_error + StateDelta" where
  "NewSUMStateDelta deltaVersion delta =
     (if \<not> ValidNodeID (sumd_NodeID delta) then Inl ErrInvalidDeltaPayload
      else Inr \<lparr>sd_AggregateType = AggregateSUM, sd_DeltaVersion = deltaVersion,
                sd_OriginNodeID = sumd_NodeID delta, sd_DeltaSequence = 0,
                sd_Delta = Some (enc_SUMDelta delta)\<rparr>)"

definition NewTOPKStateDelta :: "u64 \<Rightarrow> TOPKDelta \<Rightarrow> go_error + StateDelta" where
  "NewTOPKStateDelta deltaVersion delta =
     (case topk_encodeCandidate delta of
        None \<Rightarrow> Inl JsonError
      | Some raw \<Rightarrow>
          Inr \<lparr>sd_AggregateType = AggregateTOPK, sd_DeltaVersion = deltaVersion,
               sd_OriginNodeID = c_OriginNodeID delta, sd_DeltaSequence = 0, sd_Delta = Some raw\<rparr>)"

text \<open>\<open>json.Unmarshal\<close> of the raw message into a zero struct; the empty message is a syntax error.\<close>

definition unmarshal_raw :: "'a decoder \<Rightarrow> 'a \<Rightarrow> json option \<Rightarrow> 'a option" where
  "unmarshal_raw d z raw = (case raw of None \<Rightarrow> None | Some j \<Rightarrow> d z j)"

definition DecodeSUMDelta :: "StateDelta \<Rightarrow> go_error + SUMDelta" where
  "DecodeSUMDelta stateDelta =
     (if sd_AggregateType stateDelta \<noteq> AggregateSUM then Inl ErrInvalidAggregateType
      else case unmarshal_raw dec_SUMDelta zero_SUMDelta (sd_Delta stateDelta) of
             None \<Rightarrow> Inl ErrInvalidDeltaPayload
           | Some delta \<Rightarrow>
               if \<not> ValidNodeID (sumd_NodeID delta) then Inl ErrInvalidDeltaPayload
               else if sd_OriginNodeID stateDelta \<noteq> [] \<and> sd_OriginNodeID stateDelta \<noteq> sumd_NodeID delta
                 then Inl ErrInvalidDeltaPayload
               else Inr delta)"

definition DecodeTOPKDelta :: "StateDelta \<Rightarrow> go_error + TOPKDelta" where
  "DecodeTOPKDelta stateDelta =
     (if sd_AggregateType stateDelta \<noteq> AggregateTOPK then Inl ErrInvalidAggregateType
      else case unmarshal_raw topk_decodeCandidate topk_zeroCandidate (sd_Delta stateDelta) of
             None \<Rightarrow> Inl ErrInvalidDeltaPayload
           | Some delta \<Rightarrow>
               if sd_OriginNodeID stateDelta \<noteq> [] \<and> sd_OriginNodeID stateDelta \<noteq> c_OriginNodeID delta
                 then Inl ErrInvalidDeltaPayload
               else Inr delta)"

section \<open>Anti-entropy messages\<close>

fun dedupTypes :: "string list \<Rightarrow> string list \<Rightarrow> string list \<Rightarrow> go_error + string list" where
  "dedupTypes [] seen out = Inr out"
| "dedupTypes (a # as) seen out =
     (if a \<noteq> AggregateSUM \<and> a \<noteq> AggregateTOPK then Inl ErrInvalidAggregateType
      else if a \<in> set seen then dedupTypes as seen out
      else dedupTypes as (a # seen) (out @ [a]))"

definition NewSnapshotReq :: "string list \<Rightarrow> StateDigest \<Rightarrow> go_error + SnapshotReq" where
  "NewSnapshotReq want known =
     (if want = [] then Inl ErrInvalidSnapshotReq
      else case dedupTypes want [] [] of
             Inl e \<Rightarrow> Inl e
           | Inr out \<Rightarrow> Inr \<lparr>srq_WantAggregateTypes = out, srq_KnownVersions = known\<rparr>)"

text \<open>The loop over \<open>DeltaSequences\<close> in the two decoders.\<close>

definition validSequences :: "(string, u64) gomap option \<Rightarrow> bool" where
  "validSequences m =
     (case m of None \<Rightarrow> True | Some es \<Rightarrow> list_all (\<lambda>(n, s). ValidNodeID n \<and> s \<noteq> 0) es)"

definition DecodeStateDigest :: "json \<Rightarrow> go_error + StateDigest" where
  "DecodeStateDigest raw =
     (case dec_StateDigest zero_StateDigest raw of
        None \<Rightarrow> Inl ErrInvalidDigest
      | Some d \<Rightarrow> if validSequences (dg_DeltaSequences d) then Inr d else Inl ErrInvalidDigest)"

fun validateDeltaRangesLoop :: "DeltaRange list \<Rightarrow> string list \<Rightarrow> go_error option" where
  "validateDeltaRangesLoop [] seen = None"
| "validateDeltaRangesLoop (r # rs) seen =
     (if \<not> ValidNodeID (dr_OriginNodeID r) \<or> dr_FromSequence r = 0 \<or>
         dr_ToSequence r < dr_FromSequence r \<or>
         dr_ToSequence r - dr_FromSequence r + 1 > MaxDeltaRangeSize
      then Some ErrInvalidDeltaRange
      else if dr_OriginNodeID r \<in> set seen then Some ErrInvalidDeltaRange
      else validateDeltaRangesLoop rs (dr_OriginNodeID r # seen))"

definition validateDeltaRanges :: "DeltaRange list \<Rightarrow> go_error option" where
  "validateDeltaRanges ranges =
     (if ranges = [] then Some ErrInvalidDeltaRange else validateDeltaRangesLoop ranges [])"

definition validateRecoveredDelta :: "StateDelta \<Rightarrow> go_error option" where
  "validateRecoveredDelta d =
     (if \<not> ValidNodeID (sd_OriginNodeID d) \<or> sd_DeltaSequence d = 0 then Some ErrInvalidDeltaRange
      else if sd_AggregateType d = AggregateSUM then
        (case DecodeSUMDelta d of Inl _ \<Rightarrow> Some ErrInvalidDeltaRange | Inr _ \<Rightarrow> None)
      else if sd_AggregateType d = AggregateTOPK then
        (case DecodeTOPKDelta d of Inl _ \<Rightarrow> Some ErrInvalidDeltaRange | Inr _ \<Rightarrow> None)
      else Some ErrInvalidDeltaRange)"

fun validateRecoveredLoop :: "StateDelta list \<Rightarrow> go_error option" where
  "validateRecoveredLoop [] = None"
| "validateRecoveredLoop (d # ds) =
     (case validateRecoveredDelta d of Some e \<Rightarrow> Some e | None \<Rightarrow> validateRecoveredLoop ds)"

definition validateRecoveredDeltas :: "StateDelta list \<Rightarrow> go_error option" where
  "validateRecoveredDeltas ds =
     (if ds = [] then Some ErrInvalidDeltaRange else validateRecoveredLoop ds)"

definition NewDeltaRangeReq :: "DeltaRange list \<Rightarrow> StateDigest \<Rightarrow> go_error + DeltaRangeReq" where
  "NewDeltaRangeReq ranges known =
     (case validateDeltaRanges ranges of
        Some e \<Rightarrow> Inl e
      | None \<Rightarrow> Inr \<lparr>drq_Ranges = ranges, drq_KnownVersions = known\<rparr>)"

definition DecodeDeltaRangeReq :: "json \<Rightarrow> go_error + DeltaRangeReq" where
  "DecodeDeltaRangeReq raw =
     (case dec_DeltaRangeReq \<lparr>drq_Ranges = [], drq_KnownVersions = zero_StateDigest\<rparr> raw of
        None \<Rightarrow> Inl ErrInvalidDeltaRange
      | Some q \<Rightarrow> (case validateDeltaRanges (drq_Ranges q) of Some e \<Rightarrow> Inl e | None \<Rightarrow> Inr q))"

definition NewDeltaRangeResp :: "StateDelta list \<Rightarrow> go_error + DeltaRangeResp" where
  "NewDeltaRangeResp deltas =
     (case validateRecoveredDeltas deltas of
        Some e \<Rightarrow> Inl e
      | None \<Rightarrow> Inr \<lparr>drp_Deltas = deltas\<rparr>)"

definition DecodeDeltaRangeResp :: "json \<Rightarrow> go_error + DeltaRangeResp" where
  "DecodeDeltaRangeResp raw =
     (case dec_DeltaRangeResp \<lparr>drp_Deltas = []\<rparr> raw of
        None \<Rightarrow> Inl ErrInvalidDeltaRange
      | Some r \<Rightarrow> (case validateRecoveredDeltas (drp_Deltas r) of Some e \<Rightarrow> Inl e | None \<Rightarrow> Inr r))"

definition DecodeSnapshotReq :: "json \<Rightarrow> go_error + SnapshotReq" where
  "DecodeSnapshotReq raw =
     (case dec_SnapshotReq \<lparr>srq_WantAggregateTypes = [], srq_KnownVersions = zero_StateDigest\<rparr> raw of
        None \<Rightarrow> Inl ErrInvalidSnapshotReq
      | Some q \<Rightarrow>
          if srq_WantAggregateTypes q = [] then Inl ErrInvalidSnapshotReq
          else if list_all (\<lambda>a. a = AggregateSUM \<or> a = AggregateTOPK) (srq_WantAggregateTypes q)
            then Inr q else Inl ErrInvalidAggregateType)"

definition DecodeSnapshotResp :: "json \<Rightarrow> go_error + SnapshotResp" where
  "DecodeSnapshotResp raw =
     (case dec_SnapshotResp zero_SnapshotResp raw of
        None \<Rightarrow> Inl ErrInvalidSnapshot
      | Some r \<Rightarrow>
          if time_IsZero (srp_CreatedAt r) then Inl ErrInvalidSnapshot
          else if srp_SUMState r = None \<and> srp_TOPKState r = None then Inl ErrInvalidSnapshot
          else if \<not> validSequences (srp_DeltaSequences r) then Inl ErrInvalidSnapshot
          else Inr r)"

section \<open>Round trips\<close>

lemma dec_enc_SUMDelta [simp]: "dec_SUMDelta z (enc_SUMDelta d) = Some d"
  by (simp add: dec_SUMDelta_def enc_SUMDelta_def codec_simps)

lemma dec_enc_StateDelta:
  "sd_Delta d \<noteq> None \<Longrightarrow> dec_StateDelta zero_StateDelta (enc_StateDelta d) = Some d"
  by (cases d) (auto simp: dec_StateDelta_def enc_StateDelta_def zero_StateDelta_def codec_simps
      enc_raw_def dec_raw_def)

lemma dec_enc_AggregateDigest [simp]:
  "dec_AggregateDigest zero_AggregateDigest (enc_AggregateDigest d) = Some d"
  by (cases d) (simp add: dec_AggregateDigest_def enc_AggregateDigest_def zero_AggregateDigest_def
      codec_simps)

text \<open>What a sequence map becomes on the wire: in key order, and nil when it is empty.\<close>

definition wire_seqs :: "(string, u64) gomap option \<Rightarrow> (string, u64) gomap option" where
  "wire_seqs m = (if map_empty m then None else map_option sorted_items m)"

definition seqs_wf :: "(string, u64) gomap option \<Rightarrow> bool" where
  "seqs_wf m \<longleftrightarrow> validSequences m \<and> (case m of None \<Rightarrow> True | Some es \<Rightarrow> mwf es)"

definition seq_get :: "(string, u64) gomap option \<Rightarrow> string \<Rightarrow> u64" where
  "seq_get m k = (case m of None \<Rightarrow> 0 | Some es \<Rightarrow> mget 0 es k)"

lemma seq_get_wire [simp]: "seq_get (wire_seqs m) = seq_get m"
  by (auto simp: seq_get_def wire_seqs_def map_empty_def mget_def map_of_sorted_items fun_eq_iff
      split: option.splits)

lemma validSequences_wire: "seqs_wf m \<Longrightarrow> validSequences (wire_seqs m)"
  by (auto simp: seqs_wf_def validSequences_def wire_seqs_def list_all_iff set_sorted_items
      split: option.splits)

lemma dec_wire_seqs:
  "seqs_wf m \<Longrightarrow> \<not> map_empty m \<Longrightarrow> dec_map_uint64 None (enc_map_uint64 m) = Some (wire_seqs m)"
  by (auto simp: seqs_wf_def wire_seqs_def map_empty_def dec_enc_map_uint64 split: option.splits)

lemma dec_enc_StateDigest:
  assumes "seqs_wf (dg_DeltaSequences d)"
  shows "dec_StateDigest zero_StateDigest (enc_StateDigest d) =
    Some (d\<lparr>dg_DeltaSequences := wire_seqs (dg_DeltaSequences d)\<rparr>)"
proof (cases "map_empty (dg_DeltaSequences d)")
  case True
  then show ?thesis
    by (cases d) (simp add: dec_StateDigest_def enc_StateDigest_def zero_StateDigest_def codec_simps
        wire_seqs_def)
next
  case False
  with dec_wire_seqs [OF assms] show ?thesis
    by (cases d) (simp add: dec_StateDigest_def enc_StateDigest_def zero_StateDigest_def codec_simps)
qed

lemma dec_enc_DeltaRange [simp]: "dec_DeltaRange z (enc_DeltaRange r) = Some r"
  by (cases r) (simp add: dec_DeltaRange_def enc_DeltaRange_def codec_simps)

lemma validateRecoveredLoop_iff:
  "validateRecoveredLoop ds = None \<longleftrightarrow> (\<forall>d \<in> set ds. validateRecoveredDelta d = None)"
  by (induction ds) (auto split: option.splits)

lemma validateRecoveredDelta_raw: "validateRecoveredDelta d = None \<Longrightarrow> sd_Delta d \<noteq> None"
  by (cases "sd_Delta d") (auto simp: validateRecoveredDelta_def DecodeSUMDelta_def
      DecodeTOPKDelta_def unmarshal_raw_def split: if_splits)

lemma validateDeltaRangesLoop_iff:
  "validateDeltaRangesLoop rs seen = None \<longleftrightarrow>
     distinct (map dr_OriginNodeID rs) \<and> set seen \<inter> dr_OriginNodeID ` set rs = {} \<and>
     (\<forall>r \<in> set rs. ValidNodeID (dr_OriginNodeID r) \<and> dr_FromSequence r \<noteq> 0 \<and>
        dr_FromSequence r \<le> dr_ToSequence r \<and>
        dr_ToSequence r - dr_FromSequence r + 1 \<le> MaxDeltaRangeSize)"
  by (induction rs seen rule: validateDeltaRangesLoop.induct) (auto simp: not_less not_le)

lemma range_size_no_wrap:
  fixes a b :: u64
  assumes "a \<noteq> 0" "a \<le> b"
  shows "unat (b - a + 1) = unat b - unat a + 1"
proof -
  have "unat b < 2 ^ 64" using unsigned_less [of b] by simp
  moreover have "0 < unat a" using assms(1) by (simp add: unat_gt_0)
  moreover have "unat (b - a) = unat b - unat a" using assms(2) by (simp add: unat_sub)
  moreover have "unat a \<le> unat b" using assms(2) by (simp add: word_le_nat_alt)
  ultimately show ?thesis by (subst unat_add_no_wrap) simp_all
qed

section \<open>Properties\<close>

text \<open>
  A delta built from a \<open>SUM\<close> contribution decodes to that contribution, and a delta built
  from a normalized \<open>TOPK\<close> candidate decodes to that candidate, also after it crossed the wire
  as a \<open>StateDelta\<close>; the constructors fail only on an invalid node id and on a candidate JSON
  cannot express.
\<close>

lemma delta_roundtrip:
  assumes "cand_normal c"
  shows "(case NewSUMStateDelta v d of
            Inl e \<Rightarrow> e = ErrInvalidDeltaPayload \<and> \<not> ValidNodeID (sumd_NodeID d)
          | Inr sd \<Rightarrow> DecodeSUMDelta sd = Inr d \<and> sd_DeltaVersion sd = v \<and>
              dec_StateDelta zero_StateDelta (enc_StateDelta sd) = Some sd) \<and>
         (case NewTOPKStateDelta v c of
            Inl e \<Rightarrow> e = JsonError \<and> topk_encodeCandidate c = None
          | Inr sd \<Rightarrow> DecodeTOPKDelta sd = Inr c \<and> sd_DeltaVersion sd = v \<and>
              dec_StateDelta zero_StateDelta (enc_StateDelta sd) = Some sd)"
proof (rule conjI)
  show "case NewSUMStateDelta v d of
      Inl e \<Rightarrow> e = ErrInvalidDeltaPayload \<and> \<not> ValidNodeID (sumd_NodeID d)
    | Inr sd \<Rightarrow> DecodeSUMDelta sd = Inr d \<and> sd_DeltaVersion sd = v \<and>
        dec_StateDelta zero_StateDelta (enc_StateDelta sd) = Some sd"
    by (simp add: NewSUMStateDelta_def DecodeSUMDelta_def unmarshal_raw_def dec_enc_StateDelta)
next
  show "case NewTOPKStateDelta v c of
      Inl e \<Rightarrow> e = JsonError \<and> topk_encodeCandidate c = None
    | Inr sd \<Rightarrow> DecodeTOPKDelta sd = Inr c \<and> sd_DeltaVersion sd = v \<and>
        dec_StateDelta zero_StateDelta (enc_StateDelta sd) = Some sd"
    using decodeCandidate_encode [OF _ assms]
    by (cases "topk_encodeCandidate c")
      (simp_all add: NewTOPKStateDelta_def DecodeTOPKDelta_def unmarshal_raw_def dec_enc_StateDelta)
qed

lemma delta_roundtrip_witness:
  "\<exists>sd. NewTOPKStateDelta 3 (ex_cand ''x'' 5 1 ''a'') = Inr sd \<and>
        DecodeTOPKDelta sd = Inr (ex_cand ''x'' 5 1 ''a'')"
proof -
  let ?c = "ex_cand ''x'' 5 1 ''a''"
  have "f64_finite (c_Score ?c)" "0 \<le> time_year (c_EventTS ?c)" "time_year (c_EventTS ?c) \<le> 9999"
    "\<bar>t_off (c_EventTS ?c)\<bar> < 86400" by code_simp+
  then have n: "cand_normal ?c" "topk_encodeCandidate ?c \<noteq> None"
    by (simp_all add: topk_encodeCandidate_def enc_float64_def enc_time_def marshal_time_def
        cand_normal_def ex_cand_def)
  show ?thesis
    using delta_roundtrip [OF n(1), where v = 3 and d = "\<lparr>sumd_NodeID = ''a'', sumd_Value = 1\<rparr>"] n(2)
    by (cases "NewTOPKStateDelta 3 (ex_cand ''x'' 5 1 ''a'')") auto
qed

lemma DecodeDeltaRangeReq_New:
  assumes "seqs_wf (dg_DeltaSequences g)" "NewDeltaRangeReq rs g = Inr q"
  shows "DecodeDeltaRangeReq (enc_DeltaRangeReq q) =
    Inr \<lparr>drq_Ranges = rs, drq_KnownVersions = g\<lparr>dg_DeltaSequences := wire_seqs (dg_DeltaSequences g)\<rparr>\<rparr>"
proof -
  have q: "q = \<lparr>drq_Ranges = rs, drq_KnownVersions = g\<rparr>" "validateDeltaRanges rs = None"
    using assms(2) by (auto simp: NewDeltaRangeReq_def split: option.splits)
  have "dec_slice zero_DeltaRange dec_DeltaRange old (JArr (map enc_DeltaRange rs)) = Some rs" for old
    by (rule dec_slice_map) simp
  with q dec_enc_StateDigest [OF assms(1)] show ?thesis
    by (simp add: DecodeDeltaRangeReq_def dec_DeltaRangeReq_def enc_DeltaRangeReq_def codec_simps)
qed

lemma DecodeDeltaRangeResp_New:
  assumes "NewDeltaRangeResp ds = Inr r"
  shows "DecodeDeltaRangeResp (enc_DeltaRangeResp r) = Inr r"
proof -
  have r: "r = \<lparr>drp_Deltas = ds\<rparr>" "validateRecoveredDeltas ds = None"
    using assms by (auto simp: NewDeltaRangeResp_def split: option.splits)
  have raw: "sd_Delta d \<noteq> None" if "d \<in> set ds" for d
    using r(2) that validateRecoveredDelta_raw
    by (auto simp: validateRecoveredDeltas_def validateRecoveredLoop_iff split: if_splits)
  have "dec_slice zero_StateDelta dec_StateDelta old (JArr (map enc_StateDelta ds)) = Some ds" for old
    by (rule dec_slice_map) (rule dec_enc_StateDelta [OF raw])
  with r show ?thesis
    by (simp add: DecodeDeltaRangeResp_def dec_DeltaRangeResp_def enc_DeltaRangeResp_def codec_simps)
qed

lemma dedupTypes_spec:
  "dedupTypes as seen out = Inr res \<Longrightarrow> distinct out \<Longrightarrow> set seen = set out \<Longrightarrow>
   list_all (\<lambda>a. a = AggregateSUM \<or> a = AggregateTOPK) out \<Longrightarrow>
   set res = set out \<union> set as \<and> distinct res \<and>
   list_all (\<lambda>a. a = AggregateSUM \<or> a = AggregateTOPK) res"
  by (induction as seen out rule: dedupTypes.induct) (auto split: if_splits)

lemma DecodeSnapshotReq_New:
  assumes "seqs_wf (dg_DeltaSequences g)" "NewSnapshotReq want g = Inr q"
  shows "set (srq_WantAggregateTypes q) = set want \<and> distinct (srq_WantAggregateTypes q) \<and>
    DecodeSnapshotReq (enc_SnapshotReq q) =
      Inr (q\<lparr>srq_KnownVersions := g\<lparr>dg_DeltaSequences := wire_seqs (dg_DeltaSequences g)\<rparr>\<rparr>)"
proof -
  obtain out where q: "q = \<lparr>srq_WantAggregateTypes = out, srq_KnownVersions = g\<rparr>"
    "dedupTypes want [] [] = Inr out" "want \<noteq> []"
    using assms(2) by (auto simp: NewSnapshotReq_def split: if_splits sum.splits)
  then have out: "set out = set want" "distinct out"
    "list_all (\<lambda>a. a = AggregateSUM \<or> a = AggregateTOPK) out" "out \<noteq> []"
    using dedupTypes_spec [OF q(2)] by auto
  have "dec_slice [] dec_string old (JArr (map JStr out)) = Some out" for old
    by (rule dec_slice_map) simp
  with q(1) out dec_enc_StateDigest [OF assms(1)] show ?thesis
    by (simp add: DecodeSnapshotReq_def dec_SnapshotReq_def enc_SnapshotReq_def codec_simps)
qed

lemma dec_enc_SnapshotResp:
  assumes "enc_SnapshotResp r = Some j" "seqs_wf (srp_DeltaSequences r)" "t_off (srp_CreatedAt r) mod 60 = 0"
  shows "dec_SnapshotResp zero_SnapshotResp j =
    Some (r\<lparr>srp_DeltaSequences := wire_seqs (srp_DeltaSequences r), srp_CreatedAt := time_Round0 (srp_CreatedAt r)\<rparr>)"
proof -
  obtain t where t: "enc_time (srp_CreatedAt r) = Some t"
    using assms(1) by (auto simp: enc_SnapshotResp_def split: option.splits)
  have d: "dec_time old t = Some (time_Round0 (srp_CreatedAt r))" for old
    using dec_enc_time [OF t assms(3)] .
  show ?thesis
  proof (cases "map_empty (srp_DeltaSequences r)")
    case True
    with assms(1) t d show ?thesis
      by (cases r) (auto simp: dec_SnapshotResp_def enc_SnapshotResp_def zero_SnapshotResp_def
          codec_simps wire_seqs_def dec_raw_def enc_raw_def)
  next
    case False
    with assms(1) t d dec_wire_seqs [OF assms(2)] show ?thesis
      by (cases r) (auto simp: dec_SnapshotResp_def enc_SnapshotResp_def zero_SnapshotResp_def
          codec_simps dec_raw_def enc_raw_def)
  qed
qed

lemma DecodeSnapshotResp_enc:
  assumes "enc_SnapshotResp r = Some j" "seqs_wf (srp_DeltaSequences r)"
    "srp_SUMState r \<noteq> None \<or> srp_TOPKState r \<noteq> None" "\<not> time_IsZero (srp_CreatedAt r)"
    "t_off (srp_CreatedAt r) = 0" "t_mono (srp_CreatedAt r) = None"
  shows "DecodeSnapshotResp j = Inr (r\<lparr>srp_DeltaSequences := wire_seqs (srp_DeltaSequences r)\<rparr>)"
proof -
  have "time_Round0 (srp_CreatedAt r) = srp_CreatedAt r" using assms(6) by (simp add: time_Round0_def)
  with assms validSequences_wire [OF assms(2)] dec_enc_SnapshotResp [OF assms(1,2)] show ?thesis
    by (auto simp: DecodeSnapshotResp_def)
qed

text \<open>
  C33. Every anti-entropy message a node builds is accepted by the decoder of the receiving node
  and carries the same content: digests up to the order of the sequence map, range requests
  and range responses that passed their own validation, snapshot requests.
\<close>

theorem sync_roundtrip:
  assumes "seqs_wf (dg_DeltaSequences g)"
  defines "g' \<equiv> g\<lparr>dg_DeltaSequences := wire_seqs (dg_DeltaSequences g)\<rparr>"
  shows "DecodeStateDigest (enc_StateDigest g) = Inr g' \<and>
    seq_get (dg_DeltaSequences g') = seq_get (dg_DeltaSequences g) \<and>
    (\<forall>q. NewDeltaRangeReq rs g = Inr q \<longrightarrow>
         DecodeDeltaRangeReq (enc_DeltaRangeReq q) = Inr \<lparr>drq_Ranges = rs, drq_KnownVersions = g'\<rparr>) \<and>
    (\<forall>r. NewDeltaRangeResp ds = Inr r \<longrightarrow> DecodeDeltaRangeResp (enc_DeltaRangeResp r) = Inr r) \<and>
    (\<forall>q. NewSnapshotReq want g = Inr q \<longrightarrow>
         set (srq_WantAggregateTypes q) = set want \<and> distinct (srq_WantAggregateTypes q) \<and>
         DecodeSnapshotReq (enc_SnapshotReq q) = Inr (q\<lparr>srq_KnownVersions := g'\<rparr>))"
proof (intro conjI)
  show "DecodeStateDigest (enc_StateDigest g) = Inr g'"
    unfolding g'_def DecodeStateDigest_def dec_enc_StateDigest [OF assms(1)]
    using validSequences_wire [OF assms(1)] by simp
  show "seq_get (dg_DeltaSequences g') = seq_get (dg_DeltaSequences g)" by (simp add: g'_def)
qed (auto simp: g'_def DecodeDeltaRangeReq_New [OF assms(1)] DecodeDeltaRangeResp_New
      dest: DecodeSnapshotReq_New [OF assms(1)])

definition ex_digest :: StateDigest where
  "ex_digest = zero_StateDigest\<lparr>dg_DeltaSequences := Some [(''b'', 2), (''a'', 3)]\<rparr>"

lemma ex_digest_wf: "seqs_wf (dg_DeltaSequences ex_digest)"
  by code_simp

theorem sync_roundtrip_witness:
  "seq_get (dg_DeltaSequences (ex_digest\<lparr>dg_DeltaSequences := wire_seqs (dg_DeltaSequences ex_digest)\<rparr>))
     ''a'' = 3"
proof -
  have "seq_get (dg_DeltaSequences ex_digest) ''a'' = 3" by code_simp
  then show ?thesis
    using sync_roundtrip [OF ex_digest_wf, of "[]" "[]" "[]"] by simp
qed

text \<open>
  A range request that passes validation names each origin once, and every range in it
  starts at a positive sequence and spans between 1 and 256 sequences; the 64-bit size
  computation of the check does not wrap.
\<close>

lemma validateDeltaRanges_bounds:
  "validateDeltaRanges rs = None \<longleftrightarrow>
     rs \<noteq> [] \<and> distinct (map dr_OriginNodeID rs) \<and>
     list_all (\<lambda>r. ValidNodeID (dr_OriginNodeID r) \<and> 0 < unat (dr_FromSequence r) \<and>
       unat (dr_FromSequence r) \<le> unat (dr_ToSequence r) \<and>
       unat (dr_ToSequence r) < unat (dr_FromSequence r) + 256) rs"
proof -
  have "dr_FromSequence r \<noteq> 0 \<and> dr_FromSequence r \<le> dr_ToSequence r \<and>
        dr_ToSequence r - dr_FromSequence r + 1 \<le> MaxDeltaRangeSize \<longleftrightarrow>
      0 < unat (dr_FromSequence r) \<and> unat (dr_FromSequence r) \<le> unat (dr_ToSequence r) \<and>
        unat (dr_ToSequence r) < unat (dr_FromSequence r) + 256" for r :: DeltaRange
  proof (cases "dr_FromSequence r \<noteq> 0 \<and> dr_FromSequence r \<le> dr_ToSequence r")
    case True
    then have "unat (dr_ToSequence r - dr_FromSequence r + 1) =
        unat (dr_ToSequence r) - unat (dr_FromSequence r) + 1"
      by (intro range_size_no_wrap) auto
    with True show ?thesis
      by (auto simp: MaxDeltaRangeSize_def word_le_nat_alt unat_gt_0)
  next
    case False
    then show ?thesis by (auto simp: word_le_nat_alt unat_gt_0)
  qed
  then show ?thesis
    by (auto simp: validateDeltaRanges_def validateDeltaRangesLoop_iff list_all_iff)
qed

end
