(* ===== verification/AntiEntropy.thy ===== *)
theory AntiEntropy
  imports Protocol
begin

text \<open>
  \<open>internal/gossip/anti_entropy\<close>: the bounded per-origin history of deltas (\<open>history.go\<close>) and the
  comparison of two digests (\<open>digest.go\<close>).

  The eviction and watermark loops of the code have no bound of their own, so they are partial
  functions and \<open>None\<close> means that the call does not return; on reachable histories they return
  (\<open>Record_returns\<close>, \<open>AdvanceWatermarks_returns\<close>).  The inner map \<open>bySequence\<close> is shared with
  \<open>entries\<close> in Go; the model writes it back.
\<close>

section \<open>Delta history\<close>

record DeltaHistory =
  dh_capacity :: int
  dh_entries :: "(string, (u64, StateDelta) gomap) gomap"
  dh_contiguous :: "(string, u64) gomap"

definition NewDeltaHistory :: "int \<Rightarrow> go_error + DeltaHistory" where
  "NewDeltaHistory capacity =
     (if capacity \<le> 0 then Inl ErrInvalidHistoryCapacity
      else Inr \<lparr>dh_capacity = capacity, dh_entries = [], dh_contiguous = []\<rparr>)"

definition oldestSequence :: "u64 \<Rightarrow> (u64, StateDelta) gomap \<Rightarrow> u64" where
  "oldestSequence start m = foldl (\<lambda>oldest s. if s < oldest then s else oldest) start (map fst m)"

partial_function (option) evictLoop ::
  "int \<Rightarrow> u64 \<Rightarrow> (u64, StateDelta) gomap \<Rightarrow> (u64, StateDelta) gomap option" where
  "evictLoop capacity start m =
     (if int (length m) > capacity then evictLoop capacity start (mdel (oldestSequence start m) m)
      else Some m)"

partial_function (option) watermarkLoop :: "(u64, StateDelta) gomap \<Rightarrow> u64 \<Rightarrow> u64 option" where
  "watermarkLoop m w = (if mhas m (w + 1) then watermarkLoop m (w + 1) else Some w)"

definition Record :: "DeltaHistory \<Rightarrow> StateDelta \<Rightarrow> (DeltaHistory \<times> go_error option) option" where
  "Record h delta =
     (if \<not> ValidNodeID (sd_OriginNodeID delta) \<or> sd_DeltaSequence delta = 0
      then Some (h, Some ErrInvalidHistoryDelta)
      else
        (let o_id = sd_OriginNodeID delta;
             bySequence = mget [] (dh_entries h) o_id
         in if mhas bySequence (sd_DeltaSequence delta) then Some (h, None)
            else
              (case evictLoop (dh_capacity h) (sd_DeltaSequence delta)
                      (mput (sd_DeltaSequence delta) delta bySequence) of
                 None \<Rightarrow> None
               | Some kept \<Rightarrow>
                   (case watermarkLoop kept (mget 0 (dh_contiguous h) o_id) of
                      None \<Rightarrow> None
                    | Some w \<Rightarrow>
                        Some (h\<lparr>dh_entries := mput o_id kept (dh_entries h),
                                dh_contiguous := mput o_id w (dh_contiguous h)\<rparr>, None)))))"

definition Watermarks :: "DeltaHistory \<Rightarrow> (string, u64) gomap" where
  "Watermarks h = filter (\<lambda>(_, s). s > 0) (dh_contiguous h)"

definition advanceOne :: "DeltaHistory \<Rightarrow> string \<Rightarrow> u64 \<Rightarrow> DeltaHistory option" where
  "advanceOne h nodeID s =
     (if \<not> ValidNodeID nodeID \<or> s \<le> mget 0 (dh_contiguous h) nodeID then Some h
      else
        (let kept = filter (\<lambda>(t, _). \<not> t \<le> s) (mget [] (dh_entries h) nodeID)
         in case watermarkLoop kept s of
              None \<Rightarrow> None
            | Some w \<Rightarrow>
                Some (h\<lparr>dh_entries := (if mhas (dh_entries h) nodeID then mput nodeID kept (dh_entries h)
                                       else dh_entries h),
                        dh_contiguous := mput nodeID w (dh_contiguous h)\<rparr>)))"

fun AdvanceWatermarks :: "DeltaHistory \<Rightarrow> (string, u64) gomap \<Rightarrow> DeltaHistory option" where
  "AdvanceWatermarks h [] = Some h"
| "AdvanceWatermarks h ((nodeID, s) # ws) =
     (case advanceOne h nodeID s of None \<Rightarrow> None | Some h' \<Rightarrow> AdvanceWatermarks h' ws)"

function rangeLoop :: "(u64, StateDelta) gomap \<Rightarrow> u64 \<Rightarrow> u64 \<Rightarrow> StateDelta list option" where
  "rangeLoop m s to =
     (case map_of m s of
        None \<Rightarrow> None
      | Some d \<Rightarrow>
          if s = to then Some [d] else map_option (\<lambda>ds. d # ds) (rangeLoop m (s + 1) to))"
  by pat_completeness auto

text \<open>The distance to the end of the range, which may be reached by wrapping around.\<close>

termination rangeLoop
proof (relation "measure (\<lambda>(m, s, to). unat (to - s))")
  fix m :: "(u64, StateDelta) gomap" and s to :: u64 and d
  assume "s \<noteq> to"
  then have "to - s \<noteq> 0" by simp
  then have "unat (to - s - 1) < unat (to - s)"
    by (metis measure_unat word_less_nat_alt word_neq_0_conv)
  then show "((m, s + 1, to), m, s, to) \<in> measure (\<lambda>(m, s, to). unat (to - s))"
    by (simp add: algebra_simps)
qed simp

declare rangeLoop.simps [simp del]

definition Range :: "DeltaHistory \<Rightarrow> DeltaRange \<Rightarrow> StateDelta list option" where
  "Range h r =
     (if \<not> ValidNodeID (dr_OriginNodeID r) \<or> dr_FromSequence r = 0 \<or>
         dr_ToSequence r < dr_FromSequence r \<or>
         dr_ToSequence r - dr_FromSequence r + 1 > MaxDeltaRangeSize then None
      else
        (case map_of (dh_entries h) (dr_OriginNodeID r) of
           None \<Rightarrow> None
         | Some bySequence \<Rightarrow> rangeLoop bySequence (dr_FromSequence r) (dr_ToSequence r)))"

section \<open>Digest comparison\<close>

definition digest_seqs :: "StateDigest \<Rightarrow> (string, u64) gomap" where
  "digest_seqs d = (case dg_DeltaSequences d of None \<Rightarrow> [] | Some es \<Rightarrow> es)"

definition missingRange :: "StateDigest \<Rightarrow> StateDigest \<Rightarrow> string \<Rightarrow> DeltaRange" where
  "missingRange local peer o_id =
     (let from = mget 0 (digest_seqs local) o_id + 1;
          to = mget 0 (digest_seqs peer) o_id
      in \<lparr>dr_OriginNodeID = o_id, dr_FromSequence = from,
          dr_ToSequence = (if to - from + 1 > MaxDeltaRangeSize then from + MaxDeltaRangeSize - 1 else to)\<rparr>)"

definition MissingDeltaRanges :: "StateDigest \<Rightarrow> StateDigest \<Rightarrow> DeltaRange list" where
  "MissingDeltaRanges local peer =
     map (missingRange local peer)
       (sort (map fst (filter (\<lambda>(o_id, s). s > mget 0 (digest_seqs local) o_id) (digest_seqs peer))))"

definition digestNeedsSnapshot :: "AggregateDigest \<Rightarrow> AggregateDigest \<Rightarrow> bool" where
  "digestNeedsSnapshot local peer \<longleftrightarrow>
     ad_Version peer > ad_Version local \<or>
     (ad_Version peer = ad_Version local \<and> ad_Checksum peer \<noteq> [] \<and> ad_Checksum local \<noteq> [] \<and>
      ad_Checksum peer \<noteq> ad_Checksum local)"

definition AggregatesNeedingSnapshot :: "StateDigest \<Rightarrow> StateDigest \<Rightarrow> string list" where
  "AggregatesNeedingSnapshot local peer =
     (if digestNeedsSnapshot (dg_SUM local) (dg_SUM peer) then [AggregateSUM] else []) @
     (if digestNeedsSnapshot (dg_TOPK local) (dg_TOPK peer) then [AggregateTOPK] else [])"

section \<open>Loops\<close>

lemma mdel_absent: "k \<notin> fst ` set m \<Longrightarrow> mdel k m = m"
  by (induction m) (auto simp: mdel_def)

lemma evictLoop_small: "int (length m) \<le> cap \<Longrightarrow> evictLoop cap s m = Some m"
  by (subst evictLoop.simps) simp

lemma oldest_foldl:
  "foldl (\<lambda>oldest s. if s < oldest then s else oldest) a xs = Min (insert a (set xs))" for a :: u64
proof (induction xs arbitrary: a)
  case (Cons x xs)
  have "Min (insert (if x < a then x else a) (set xs)) = Min (insert a (insert x (set xs)))"
    by (cases "set xs = {}") (auto simp: min_def)
  then show ?case by (simp only: foldl_Cons Cons.IH list.set)
qed simp

lemma oldestSequence_Min:
  "s \<in> fst ` set m \<Longrightarrow> oldestSequence s m = Min (fst ` set m)"
  by (simp add: oldestSequence_def oldest_foldl insert_absorb)

text \<open>One eviction suffices when the map held at most \<open>capacity\<close> entries before the insertion.\<close>

lemma evictLoop_insert:
  assumes "mwf m" "int (length m) \<le> cap" "0 < cap" "\<not> mhas m s"
  shows "evictLoop cap s (mput s d m) =
    Some (if int (length m) = cap then mdel (Min (insert s (fst ` set m))) (mput s d m) else mput s d m)"
proof -
  let ?m = "mput s d m"
  have s: "s \<notin> fst ` set m" using assms(4) by (simp add: mhas_iff)
  then have len: "length ?m = Suc (length m)" by (simp add: length_mput)
  show ?thesis
  proof (cases "int (length m) = cap")
    case True
    have o: "oldestSequence s ?m = Min (insert s (fst ` set m))"
      using oldestSequence_Min [of s ?m] by simp
    have "Min (insert s (fst ` set m)) \<in> fst ` set ?m"
      unfolding keys_mput by (rule Min_in) auto
    then have "Suc (length (mdel (oldestSequence s ?m) ?m)) = length ?m"
      unfolding o using assms(1) by (intro length_mdel_present) auto
    with True len have "evictLoop cap s (mdel (oldestSequence s ?m) ?m) = Some (mdel (oldestSequence s ?m) ?m)"
      by (intro evictLoop_small) simp
    with True len o show ?thesis by (subst evictLoop.simps) simp
  next
    case False
    with assms(2) len show ?thesis by (simp add: evictLoop_small)
  qed
qed

lemma watermarkLoop_returns:
  assumes "\<not> mhas m 0"
  shows "\<exists>w'. watermarkLoop m w = Some w' \<and> w \<le> w' \<and> \<not> mhas m (w' + 1) \<and>
    (\<forall>s. w < s \<and> s \<le> w' \<longrightarrow> mhas m s)"
proof (induction "unat (- 1 - w)" arbitrary: w rule: less_induct)
  case less
  show ?case
  proof (cases "mhas m (w + 1)")
    case False
    then show ?thesis by (subst watermarkLoop.simps) auto
  next
    case True
    with assms have nz: "w + 1 \<noteq> 0" by auto
    then have wm: "w \<noteq> max_uint64" by auto
    then have lt: "w < w + 1" by (rule word_le_add1)
    have "- 1 - w \<noteq> 0" using wm by (metis eq_iff_diff_eq_0)
    then have "unat (- 1 - w - 1) < unat (- 1 - w)"
      by (metis measure_unat word_less_nat_alt word_neq_0_conv)
    then have "unat (- 1 - (w + 1)) < unat (- 1 - w)" by (simp add: algebra_simps)
    from less [OF this] obtain w' where w': "watermarkLoop m (w + 1) = Some w'" "w + 1 \<le> w'"
      "\<not> mhas m (w' + 1)" "\<forall>s. w + 1 < s \<and> s \<le> w' \<longrightarrow> mhas m s" by blast
    have "mhas m s" if "w < s" "s \<le> w'" for s
    proof (cases "s = w + 1")
      case False
      with that(1) have "w + 1 < s" by (metis inc_le order_le_less)
      with w'(4) that(2) show ?thesis by blast
    qed (use True in simp)
    moreover have "watermarkLoop m w = Some w'" using w'(1) True by (subst watermarkLoop.simps) simp
    ultimately show ?thesis using w' lt by auto
  qed
qed

section \<open>Invariant\<close>

definition hist_map_wf :: "int \<Rightarrow> string \<Rightarrow> (u64, StateDelta) gomap \<Rightarrow> bool" where
  "hist_map_wf cap o_id m \<longleftrightarrow> mwf m \<and> int (length m) \<le> cap \<and>
     list_all (\<lambda>(s, d). s \<noteq> 0 \<and> sd_OriginNodeID d = o_id \<and> sd_DeltaSequence d = s) m"

definition hist_wf :: "DeltaHistory \<Rightarrow> bool" where
  "hist_wf h \<longleftrightarrow> 0 < dh_capacity h \<and> mwf (dh_entries h) \<and> mwf (dh_contiguous h) \<and>
     list_all (\<lambda>(o_id, m). ValidNodeID o_id \<and> hist_map_wf (dh_capacity h) o_id m) (dh_entries h) \<and>
     list_all (\<lambda>(o_id, _). ValidNodeID o_id) (dh_contiguous h) \<and>
     (\<forall>o_id. \<not> mhas (mget [] (dh_entries h) o_id) (mget 0 (dh_contiguous h) o_id + 1))"

abbreviation watermark :: "DeltaHistory \<Rightarrow> string \<Rightarrow> u64" where
  "watermark h o_id \<equiv> mget 0 (dh_contiguous h) o_id"

abbreviation held :: "DeltaHistory \<Rightarrow> string \<Rightarrow> (u64, StateDelta) gomap" where
  "held h o_id \<equiv> mget [] (dh_entries h) o_id"

lemma hist_map_wf_Nil [simp]: "0 < cap \<Longrightarrow> hist_map_wf cap o_id []"
  by (simp add: hist_map_wf_def)

lemma hist_map_wf_nz: "hist_map_wf cap o_id m \<Longrightarrow> \<not> mhas m 0"
  by (auto simp: hist_map_wf_def mhas_iff list_all_iff)

lemma hist_map_wf_sub:
  assumes "hist_map_wf cap o_id m" "set m' \<subseteq> set m" "mwf m'" "length m' \<le> length m"
  shows "hist_map_wf cap o_id m'"
  using assms unfolding hist_map_wf_def list_all_iff by auto

lemma list_all_mput:
  "mwf m \<Longrightarrow> list_all (\<lambda>(k, v). P k v) m \<Longrightarrow> P k v \<Longrightarrow> list_all (\<lambda>(k, v). P k v) (mput k v m)"
  by (auto simp: list_all_iff set_mput)

lemma held_wf: "hist_wf h \<Longrightarrow> hist_map_wf (dh_capacity h) o_id (held h o_id)"
  by (auto simp: hist_wf_def mget_def list_all_iff split: option.splits dest: map_of_SomeD)

lemma mwf_mput_len: "length (mdel k m) \<le> length m"
  by (simp add: mdel_def AList.delete_eq)

text \<open>The map after an insertion, eviction included.\<close>

lemma evict_wf:
  assumes m: "hist_map_wf cap o_id m" "0 < cap" "\<not> mhas m s" "s \<noteq> 0"
    and d: "sd_OriginNodeID d = o_id" "sd_DeltaSequence d = s"
    and e: "evictLoop cap s (mput s d m) = Some kept"
  shows "hist_map_wf cap o_id kept \<and> set kept \<subseteq> insert (s, d) (set m)"
proof -
  have mw: "mwf m" "int (length m) \<le> cap" using m(1) by (simp_all add: hist_map_wf_def)
  let ?k = "Min (insert s (fst ` set m))"
  have k: "kept = (if int (length m) = cap then mdel ?k (mput s d m) else mput s d m)"
    using evictLoop_insert [OF mw m(2,3), of d] e by simp
  have "length (mput s d m) = Suc (length m)" using m(3) by (simp add: length_mput mhas_iff)
  moreover have "Suc (length (mdel ?k (mput s d m))) = length (mput s d m)"
  proof (rule length_mdel_present)
    show "?k \<in> fst ` set (mput s d m)" unfolding keys_mput by (rule Min_in) auto
  qed (simp add: mw)
  ultimately have "int (length kept) \<le> cap" using k mw(2) by auto
  moreover have "mwf kept" using k mw(1) by simp
  moreover have "set kept \<subseteq> insert (s, d) (set m)"
    using k set_mput [OF mw(1), of s d] by (auto simp: set_mdel)
  moreover from this have "list_all (\<lambda>(s, d). s \<noteq> 0 \<and> sd_OriginNodeID d = o_id \<and> sd_DeltaSequence d = s) kept"
    using m(1,4) d unfolding hist_map_wf_def list_all_iff by auto
  ultimately show ?thesis by (simp add: hist_map_wf_def)
qed

lemma hist_wf_install:
  assumes "hist_wf h" "ValidNodeID o_id" "hist_map_wf (dh_capacity h) o_id kept"
    and "\<not> mhas kept (w + 1)"
  shows "hist_wf (h\<lparr>dh_entries := mput o_id kept (dh_entries h),
                    dh_contiguous := mput o_id w (dh_contiguous h)\<rparr>)"
  using assms by (auto simp: hist_wf_def intro!: list_all_mput)

lemma hist_wf_install_new:
  assumes "hist_wf h" "ValidNodeID o_id" "\<not> mhas (dh_entries h) o_id"
  shows "hist_wf (h\<lparr>dh_contiguous := mput o_id w (dh_contiguous h)\<rparr>)"
  using assms mget_absent [OF assms(3), of "[]"] by (auto simp: hist_wf_def intro!: list_all_mput)

text \<open>What one call does to the watermarks: they only grow, and they grow over what is held.\<close>

lemma Record_returns:
  assumes "hist_wf h"
  obtains h' e where "Record h d = Some (h', e)" "hist_wf h'" "dh_capacity h' = dh_capacity h"
    "\<And>o_id. watermark h o_id \<le> watermark h' o_id"
    "\<And>o_id. set (held h' o_id) \<subseteq> set (held h o_id) \<union>
       (if e = None \<and> o_id = sd_OriginNodeID d then {(sd_DeltaSequence d, d)} else {})"
    "\<And>o_id s. watermark h o_id < s \<Longrightarrow> s \<le> watermark h' o_id \<Longrightarrow>
       mhas (held h o_id) s \<or> (o_id = sd_OriginNodeID d \<and> s = sd_DeltaSequence d)"
    "e = None \<longleftrightarrow> ValidNodeID (sd_OriginNodeID d) \<and> sd_DeltaSequence d \<noteq> 0"
proof -
  let ?o = "sd_OriginNodeID d" and ?s = "sd_DeltaSequence d"
  let ?m = "held h ?o"
  consider (bad) "\<not> ValidNodeID ?o \<or> ?s = 0" | (dup) "ValidNodeID ?o" "?s \<noteq> 0" "mhas ?m ?s"
    | (new) "ValidNodeID ?o" "?s \<noteq> 0" "\<not> mhas ?m ?s" by blast
  then show ?thesis
  proof cases
    case bad
    then show ?thesis using that [of h "Some ErrInvalidHistoryDelta"] assms by (auto simp: Record_def)
  next
    case dup
    then show ?thesis using that [of h None] assms by (auto simp: Record_def Let_def)
  next
    case new
    have cap: "0 < dh_capacity h" using assms by (simp add: hist_wf_def)
    note m = held_wf [OF assms, of ?o]
    have mw: "mwf ?m" "int (length ?m) \<le> dh_capacity h" using m by (simp_all add: hist_map_wf_def)
    obtain kept where k: "evictLoop (dh_capacity h) ?s (mput ?s d ?m) = Some kept"
      using evictLoop_insert [OF mw cap new(3), of d] by blast
    have kw: "hist_map_wf (dh_capacity h) ?o kept" "set kept \<subseteq> insert (?s, d) (set ?m)"
      using evict_wf [OF m cap new(3,2) refl refl k] by auto
    obtain w where w: "watermarkLoop kept (watermark h ?o) = Some w" "watermark h ?o \<le> w"
      "\<not> mhas kept (w + 1)" "\<forall>s. watermark h ?o < s \<and> s \<le> w \<longrightarrow> mhas kept s"
      using watermarkLoop_returns [OF hist_map_wf_nz [OF kw(1)]] by blast
    let ?h = "h\<lparr>dh_entries := mput ?o kept (dh_entries h), dh_contiguous := mput ?o w (dh_contiguous h)\<rparr>"
    have r: "Record h d = Some (?h, None)" using new k w(1) by (simp add: Record_def Let_def)
    have i: "hist_wf ?h" using hist_wf_install [OF assms new(1) kw(1) w(3)] .
    have grow: "mhas ?m s \<or> s = ?s" if "watermark h ?o < s" "s \<le> w" for s
      using w(4) that kw(2) by (fastforce simp: mhas_iff)
    from r i show ?thesis
      by (rule that [of ?h None]) (use w(2) kw(2) new grow in \<open>auto split: if_splits\<close>)
  qed
qed

lemma advanceOne_returns:
  assumes "hist_wf h"
  obtains h' where "advanceOne h n s = Some h'" "hist_wf h'" "dh_capacity h' = dh_capacity h"
    "\<And>o_id. watermark h o_id \<le> watermark h' o_id"
    "\<And>o_id. set (held h' o_id) \<subseteq> set (held h o_id)"
    "\<And>o_id t. watermark h o_id < t \<Longrightarrow> t \<le> watermark h' o_id \<Longrightarrow>
       mhas (held h o_id) t \<or> (o_id = n \<and> t \<le> s)"
    "ValidNodeID n \<Longrightarrow> s \<le> watermark h' n"
proof (cases "\<not> ValidNodeID n \<or> s \<le> watermark h n")
  case True
  then show ?thesis using that [of h] assms by (auto simp: advanceOne_def)
next
  case False
  let ?m = "held h n" and ?kept = "filter (\<lambda>(t, _). \<not> t \<le> s) (held h n)"
  have kw: "hist_map_wf (dh_capacity h) n ?kept"
    using held_wf [OF assms, of n]
    by (rule hist_map_wf_sub) (use held_wf [OF assms, of n] in \<open>auto simp: hist_map_wf_def\<close>)
  obtain w where w: "watermarkLoop ?kept s = Some w" "s \<le> w"
    "\<not> mhas ?kept (w + 1)" "\<forall>t. s < t \<and> t \<le> w \<longrightarrow> mhas ?kept t"
    using watermarkLoop_returns [OF hist_map_wf_nz [OF kw]] by blast
  let ?h = "h\<lparr>dh_entries := (if mhas (dh_entries h) n then mput n ?kept (dh_entries h) else dh_entries h),
              dh_contiguous := mput n w (dh_contiguous h)\<rparr>"
  have r: "advanceOne h n s = Some ?h" using False w(1) by (simp add: advanceOne_def Let_def)
  have i: "hist_wf ?h"
    using hist_wf_install [OF assms _ kw w(3)] hist_wf_install_new [OF assms] False by auto
  have grow: "mhas ?m t \<or> t \<le> s" if "t \<le> w" for t
    using w(4) that by (fastforce simp: mhas_iff not_le)
  have "watermark h n \<le> w" using False w(2) by auto
  with r i show ?thesis
    by (intro that [of ?h]) (use w(2) grow mget_absent [of "dh_entries h" n] in \<open>auto split: if_splits\<close>)
qed

lemma Record_step:
  assumes "hist_wf h" "Record h d = Some (h', None)"
  shows "hist_wf h'" "dh_capacity h' = dh_capacity h"
    "(s, c) \<in> set (held h' o_id) \<Longrightarrow> (s, c) \<in> set (held h o_id) \<or>
       (o_id = sd_OriginNodeID d \<and> s = sd_DeltaSequence d \<and> c = d)"
    "watermark h o_id < t \<Longrightarrow> t \<le> watermark h' o_id \<Longrightarrow>
       mhas (held h o_id) t \<or> (o_id = sd_OriginNodeID d \<and> t = sd_DeltaSequence d)"
    "watermark h o_id \<le> watermark h' o_id"
proof -
  from assms(1) obtain g e where g: "Record h d = Some (g, e)" "hist_wf g"
    "dh_capacity g = dh_capacity h" "\<And>o_id. watermark h o_id \<le> watermark g o_id"
    "\<And>o_id. set (held g o_id) \<subseteq> set (held h o_id) \<union>
       (if e = None \<and> o_id = sd_OriginNodeID d then {(sd_DeltaSequence d, d)} else {})"
    "\<And>o_id s. watermark h o_id < s \<Longrightarrow> s \<le> watermark g o_id \<Longrightarrow>
       mhas (held h o_id) s \<or> (o_id = sd_OriginNodeID d \<and> s = sd_DeltaSequence d)"
    by (rule Record_returns [where d = d]) blast
  with assms(2) have h': "h' = g" "e = None" by auto
  show "hist_wf h'" "dh_capacity h' = dh_capacity h" "watermark h o_id \<le> watermark h' o_id"
    using g(2,3,4) h' by simp_all
  show "(s, c) \<in> set (held h' o_id) \<Longrightarrow> (s, c) \<in> set (held h o_id) \<or>
       (o_id = sd_OriginNodeID d \<and> s = sd_DeltaSequence d \<and> c = d)"
    using g(5) [of o_id] h' by (auto split: if_splits)
  show "watermark h o_id < t \<Longrightarrow> t \<le> watermark h' o_id \<Longrightarrow>
       mhas (held h o_id) t \<or> (o_id = sd_OriginNodeID d \<and> t = sd_DeltaSequence d)"
    using g(6) h' by simp
qed

lemma advanceOne_step:
  assumes "hist_wf h" "advanceOne h n s = Some h'"
  shows "hist_wf h'" "dh_capacity h' = dh_capacity h" "set (held h' o_id) \<subseteq> set (held h o_id)"
    "watermark h o_id < t \<Longrightarrow> t \<le> watermark h' o_id \<Longrightarrow> mhas (held h o_id) t \<or> (o_id = n \<and> t \<le> s)"
    "watermark h o_id \<le> watermark h' o_id" "ValidNodeID n \<Longrightarrow> s \<le> watermark h' n"
proof -
  from assms(1) obtain g where g: "advanceOne h n s = Some g" "hist_wf g"
    "dh_capacity g = dh_capacity h" "\<And>o_id. watermark h o_id \<le> watermark g o_id"
    "\<And>o_id. set (held g o_id) \<subseteq> set (held h o_id)"
    "\<And>o_id t. watermark h o_id < t \<Longrightarrow> t \<le> watermark g o_id \<Longrightarrow>
       mhas (held h o_id) t \<or> (o_id = n \<and> t \<le> s)"
    "ValidNodeID n \<Longrightarrow> s \<le> watermark g n"
    by (rule advanceOne_returns [where n = n and s = s]) blast
  moreover from g(1) assms(2) have "h' = g" by simp
  ultimately show "hist_wf h'" "dh_capacity h' = dh_capacity h" "set (held h' o_id) \<subseteq> set (held h o_id)"
    "watermark h o_id < t \<Longrightarrow> t \<le> watermark h' o_id \<Longrightarrow> mhas (held h o_id) t \<or> (o_id = n \<and> t \<le> s)"
    "watermark h o_id \<le> watermark h' o_id" "ValidNodeID n \<Longrightarrow> s \<le> watermark h' n"
    by blast+
qed

section \<open>Reachable histories\<close>

text \<open>
  \<open>hist_reach cap ds ws h\<close>: \<open>h\<close> is reached from a new history by recording the deltas \<open>ds\<close> and
  advancing with the watermarks \<open>ws\<close>, interleaved in some way.
\<close>

inductive hist_reach :: "int \<Rightarrow> StateDelta list \<Rightarrow> (string, u64) gomap \<Rightarrow> DeltaHistory \<Rightarrow> bool" where
  reach_new: "NewDeltaHistory cap = Inr h \<Longrightarrow> hist_reach cap [] [] h"
| reach_record: "hist_reach cap ds ws h \<Longrightarrow> Record h d = Some (h', None) \<Longrightarrow> hist_reach cap (ds @ [d]) ws h'"
| reach_advance: "hist_reach cap ds ws h \<Longrightarrow> advanceOne h n s = Some h' \<Longrightarrow> hist_reach cap ds (ws @ [(n, s)]) h'"

inductive_cases hist_reach_NilE: "hist_reach cap [] [] h"

lemma hist_reach_wf: "hist_reach cap ds ws h \<Longrightarrow> hist_wf h \<and> dh_capacity h = cap"
proof (induction rule: hist_reach.induct)
  case (reach_new cap h)
  then show ?case by (auto simp: NewDeltaHistory_def hist_wf_def split: if_splits)
next
  case (reach_record cap ds ws h d h')
  then show ?case using Record_step(1,2) by metis
next
  case (reach_advance cap ds ws h n s h')
  then show ?case using advanceOne_step(1,2) by metis
qed

lemma hist_reach_held:
  "hist_reach cap ds ws h \<Longrightarrow> (s, d) \<in> set (held h o_id) \<Longrightarrow>
   d \<in> set ds \<and> sd_OriginNodeID d = o_id \<and> sd_DeltaSequence d = s"
proof (induction arbitrary: s d rule: hist_reach.induct)
  case (reach_new cap h)
  then show ?case by (auto simp: NewDeltaHistory_def split: if_splits)
next
  case (reach_record cap ds ws h d' h')
  then have "hist_wf h" using hist_reach_wf by blast
  from Record_step(3) [OF this reach_record.hyps(2) reach_record.prems] reach_record.IH [of s d]
  show ?case by auto
next
  case (reach_advance cap ds ws h n t h')
  then have "hist_wf h" using hist_reach_wf by blast
  from advanceOne_step(3) [OF this reach_advance.hyps(2)] reach_advance.prems reach_advance.IH
  show ?case by blast
qed

definition covered :: "StateDelta list \<Rightarrow> (string, u64) gomap \<Rightarrow> string \<Rightarrow> u64 \<Rightarrow> bool" where
  "covered ds ws o_id s \<longleftrightarrow>
     list_ex (\<lambda>d. sd_OriginNodeID d = o_id \<and> sd_DeltaSequence d = s) ds \<or>
     list_ex (\<lambda>(n, t). n = o_id \<and> s \<le> t) ws"

lemma covered_held:
  assumes "hist_reach cap ds ws h" "mhas (held h o_id) s"
  shows "covered ds ws o_id s"
proof -
  obtain d where "(s, d) \<in> set (held h o_id)" using assms(2) by (auto simp: mhas_iff)
  with hist_reach_held [OF assms(1)] show ?thesis unfolding covered_def list_ex_iff by blast
qed

lemma covered_mono: "covered ds ws o_id s \<Longrightarrow> covered (ds @ es) (ws @ vs) o_id s"
  by (auto simp: covered_def)

lemma hist_reach_covered:
  "hist_reach cap ds ws h \<Longrightarrow> 0 < s \<Longrightarrow> s \<le> watermark h o_id \<Longrightarrow> covered ds ws o_id s"
proof (induction arbitrary: s rule: hist_reach.induct)
  case (reach_new cap h)
  then show ?case by (auto simp: NewDeltaHistory_def split: if_splits)
next
  case (reach_record cap ds ws h d h')
  have "hist_wf h" using hist_reach_wf reach_record.hyps(1) by blast
  from Record_step(4) [OF this reach_record.hyps(2), of o_id s]
  consider "s \<le> watermark h o_id" | "mhas (held h o_id) s"
    | "o_id = sd_OriginNodeID d" "s = sd_DeltaSequence d"
    using reach_record.prems by force
  then show ?case
  proof cases
    case 3
    then show ?thesis by (simp add: covered_def)
  qed (use reach_record covered_held covered_mono [of ds ws o_id s "[d]" "[]"] in auto)
next
  case (reach_advance cap ds ws h n t h')
  have "hist_wf h" using hist_reach_wf reach_advance.hyps(1) by blast
  from advanceOne_step(4) [OF this reach_advance.hyps(2), of o_id s]
  consider "s \<le> watermark h o_id" | "mhas (held h o_id) s" | "o_id = n" "s \<le> t"
    using reach_advance.prems by force
  then show ?case
  proof cases
    case 3
    then show ?thesis by (simp add: covered_def)
  qed (use reach_advance covered_held covered_mono [of ds ws o_id s "[]" "[(n, t)]"] in auto)
qed

lemma AdvanceWatermarks_returns:
  "hist_wf h \<Longrightarrow> \<exists>h'. AdvanceWatermarks h ws = Some h' \<and> hist_wf h' \<and> dh_capacity h' = dh_capacity h \<and>
     (\<forall>o_id. watermark h o_id \<le> watermark h' o_id) \<and>
     (\<forall>(n, s) \<in> set ws. ValidNodeID n \<longrightarrow> s \<le> watermark h' n)"
proof (induction ws arbitrary: h)
  case (Cons e ws)
  obtain n s where e: "e = (n, s)" by (cases e)
  from Cons.prems obtain h1 where r: "advanceOne h n s = Some h1"
    by (rule advanceOne_returns [where n = n and s = s])
  note h1 = r advanceOne_step [OF Cons.prems r]
  from Cons.IH [OF h1(2)] obtain h2 where h2: "AdvanceWatermarks h1 ws = Some h2" "hist_wf h2"
    "dh_capacity h2 = dh_capacity h1" "\<forall>o_id. watermark h1 o_id \<le> watermark h2 o_id"
    "\<forall>(n, s) \<in> set ws. ValidNodeID n \<longrightarrow> s \<le> watermark h2 n" by blast
  have "watermark h o_id \<le> watermark h2 o_id" for o_id using h1(6) h2(4) order_trans by blast
  moreover have "ValidNodeID n \<Longrightarrow> s \<le> watermark h2 n" using h1(7) h2(4) order_trans by blast
  ultimately show ?case using h1(1,3) h2 e by auto
qed auto

text \<open>A contiguous run of sequence numbers, as the range loop enumerates it.\<close>

lemma rangeLoop_spec:
  assumes "s \<le> to"
  shows "case rangeLoop m s to of
      None \<Rightarrow> \<exists>t. s \<le> t \<and> t \<le> to \<and> \<not> mhas m t
    | Some ds \<Rightarrow> length ds = unat to - unat s + 1 \<and>
        (\<forall>i < length ds. map_of m (s + of_nat i) = Some (ds ! i))"
  using assms
proof (induction "unat to - unat s" arbitrary: s)
  case 0
  then have "s = to" by (simp add: word_le_nat_alt order_antisym word_unat_eq_iff)
  then show ?case by (auto simp: rangeLoop.simps mhas_def split: option.splits)
next
  case (Suc k)
  then have ne: "s \<noteq> to" by auto
  with Suc.prems have lt: "s < to" by simp
  then have "s \<noteq> max_uint64" by (metis word_order.extremum_strict)
  then have up: "unat (s + 1) = unat s + 1" "s + 1 \<le> to"
    using lt by (simp_all add: unat_Suc_no_wrap inc_le)
  show ?case
  proof (cases "map_of m s")
    case None
    then show ?thesis using Suc.prems by (auto simp: rangeLoop.simps [of m s] mhas_def)
  next
    case (Some d)
    have ih: "case rangeLoop m (s + 1) to of
        None \<Rightarrow> \<exists>t. s + 1 \<le> t \<and> t \<le> to \<and> \<not> mhas m t
      | Some ds \<Rightarrow> length ds = unat to - unat (s + 1) + 1 \<and>
          (\<forall>i < length ds. map_of m (s + 1 + of_nat i) = Some (ds ! i))"
      using Suc.hyps(2) up by (intro Suc.hyps(1)) auto
    show ?thesis
    proof (cases "rangeLoop m (s + 1) to")
      case None
      with ih obtain t where "s + 1 \<le> t" "t \<le> to" "\<not> mhas m t" by auto
      moreover from this(1) have "s \<le> t" using up(1) by (simp add: word_le_nat_alt)
      ultimately show ?thesis using None Some ne by (auto simp: rangeLoop.simps [of m s])
    next
      case (Some ds)
      have "map_of m (s + of_nat i) = Some ((d # ds) ! i)" if "i < Suc (length ds)" for i
        using that ih Some \<open>map_of m s = Some d\<close> by (cases i) (auto simp: add.assoc)
      then show ?thesis
        using ih Some \<open>map_of m s = Some d\<close> ne up Suc.hyps(2)
        by (auto simp: rangeLoop.simps [of m s])
    qed
  qed
qed

lemma mget_filter_pos: "mwf m \<Longrightarrow> mget 0 (filter (\<lambda>(_, s). s > 0) m) k = mget 0 m k" for m :: "('k, u64) gomap"
proof (induction m)
  case (Cons e m)
  obtain a s where e: "e = (a, s)" by (cases e)
  with Cons.prems have "mwf m" "mget 0 m a = 0" by (auto simp: mwf_def mhas_iff intro: mget_absent)
  with Cons.IH e show ?case by (auto simp: word_gt_0)
qed simp

lemma Watermarks_spec:
  assumes "hist_wf h"
  shows "seqs_wf (Some (Watermarks h))" "seq_get (Some (Watermarks h)) = watermark h"
  using assms mget_filter_pos [of "dh_contiguous h"]
  by (auto simp: hist_wf_def seqs_wf_def validSequences_def Watermarks_def seq_get_def list_all_iff fun_eq_iff)

section \<open>Properties\<close>

text \<open>
  C25. Every call on a reachable history returns: the eviction loop and both watermark loops end
  although their conditions do not bound them, no call makes a watermark smaller, \<open>Record\<close>
  refuses exactly the deltas without a valid origin or sequence, and advancing reaches every
  valid watermark it was given.
\<close>

theorem history_total:
  assumes "hist_reach cap ds ws h"
  shows "(\<exists>h' e. Record h d = Some (h', e) \<and> (\<forall>o_id. watermark h o_id \<le> watermark h' o_id) \<and>
            (e = None \<longleftrightarrow> ValidNodeID (sd_OriginNodeID d) \<and> sd_DeltaSequence d \<noteq> 0)) \<and>
         (\<exists>h'. AdvanceWatermarks h vs = Some h' \<and> (\<forall>o_id. watermark h o_id \<le> watermark h' o_id) \<and>
            (\<forall>(n, s) \<in> set vs. ValidNodeID n \<longrightarrow> s \<le> watermark h' n))"
proof (rule conjI)
  have wf: "hist_wf h" using hist_reach_wf [OF assms] by simp
  then show "\<exists>h' e. Record h d = Some (h', e) \<and> (\<forall>o_id. watermark h o_id \<le> watermark h' o_id) \<and>
      (e = None \<longleftrightarrow> ValidNodeID (sd_OriginNodeID d) \<and> sd_DeltaSequence d \<noteq> 0)"
    by (rule Record_returns [where d = d]) blast
  show "\<exists>h'. AdvanceWatermarks h vs = Some h' \<and> (\<forall>o_id. watermark h o_id \<le> watermark h' o_id) \<and>
      (\<forall>(n, s) \<in> set vs. ValidNodeID n \<longrightarrow> s \<le> watermark h' n)"
    using AdvanceWatermarks_returns [OF wf] by blast
qed

definition ex_delta :: "string \<Rightarrow> u64 \<Rightarrow> StateDelta" where
  "ex_delta n s =
     \<lparr>sd_AggregateType = AggregateSUM, sd_DeltaVersion = s, sd_OriginNodeID = n, sd_DeltaSequence = s,
      sd_Delta = Some (enc_SUMDelta \<lparr>sumd_NodeID = n, sumd_Value = 9\<rparr>)\<rparr>"

definition ex_hist :: DeltaHistory where
  "ex_hist = \<lparr>dh_capacity = 2, dh_entries = [(''a'', [(1, ex_delta ''a'' 1)])], dh_contiguous = [(''a'', 1)]\<rparr>"

lemma ex_hist_reach: "hist_reach 2 [ex_delta ''a'' 1] [] ex_hist"
proof -
  let ?h = "\<lparr>dh_capacity = 2, dh_entries = [], dh_contiguous = []\<rparr>"
  have "hist_reach 2 [] [] ?h" by (rule reach_new) (simp add: NewDeltaHistory_def)
  moreover have "Record ?h (ex_delta ''a'' 1) = Some (ex_hist, None)"
  proof -
    have v: "ValidNodeID ''a''" by code_simp
    have w: "watermarkLoop [(1, ex_delta ''a'' 1)] 0 = Some 1"
      by (subst watermarkLoop.simps, subst watermarkLoop.simps) (simp add: mhas_def)
    have e: "evictLoop 2 1 [(1, ex_delta ''a'' 1)] = Some [(1, ex_delta ''a'' 1)]"
      by (rule evictLoop_small) simp
    show ?thesis
      using v w e by (simp add: Record_def Let_def mput_fresh ex_hist_def)
        (simp add: ex_delta_def mput_fresh)
  qed
  ultimately have "hist_reach 2 ([] @ [ex_delta ''a'' 1]) [] ex_hist" by (rule reach_record)
  then show ?thesis by simp
qed

theorem history_total_witness:
  "\<exists>h'. AdvanceWatermarks ex_hist [(''b'', 7)] = Some h' \<and> 7 \<le> watermark h' ''b''"
proof -
  have v: "ValidNodeID ''b''" by code_simp
  show ?thesis using history_total [OF ex_hist_reach, of "ex_delta ''a'' 2" "[(''b'', 7)]"] v by auto
qed

lemma rangeLoop_held: "rangeLoop m s to = Some out \<Longrightarrow> d \<in> set out \<Longrightarrow> \<exists>q. (q, d) \<in> set m"
proof (induction m s to arbitrary: out rule: rangeLoop.induct)
  case (1 m s to)
  then show ?case
    by (auto simp: rangeLoop.simps [of m s] split: option.splits if_splits dest!: map_of_SomeD)
qed

lemma Range_recorded:
  assumes "hist_reach cap ds ws h" "Range h r = Some out"
  shows "set out \<subseteq> set ds"
proof
  fix d assume d: "d \<in> set out"
  obtain m where m: "map_of (dh_entries h) (dr_OriginNodeID r) = Some m" "rangeLoop m (dr_FromSequence r) (dr_ToSequence r) = Some out"
    using assms(2) by (auto simp: Range_def split: if_splits option.splits)
  then obtain q where "(q, d) \<in> set (held h (dr_OriginNodeID r))" using rangeLoop_held [OF m(2) d] by (auto simp: mget_def)
  then show "d \<in> set ds" using hist_reach_held [OF assms(1)] by blast
qed

text \<open>
  C4. A history is honest: on every reachable history, whatever \<open>Range\<close> serves was recorded here; each
  sequence up to the watermark a node advertises for an origin was recorded here or lies below a
  watermark learnt from a snapshot; no origin holds more than \<open>capacity\<close> deltas; and the advertised
  map passes the validation of the receiving node.
\<close>

theorem history_sound:
  assumes "hist_reach cap ds ws h"
  shows "(\<forall>r out. Range h r = Some out \<longrightarrow> set out \<subseteq> set ds) \<and>
    (\<forall>o_id s. 0 < s \<and> s \<le> seq_get (Some (Watermarks h)) o_id \<longrightarrow> covered ds ws o_id s) \<and>
    seqs_wf (Some (Watermarks h)) \<and> (\<forall>o_id. int (length (held h o_id)) \<le> cap)"
proof -
  have wf: "hist_wf h" "dh_capacity h = cap" using hist_reach_wf [OF assms] by auto
  have "int (length (held h o_id)) \<le> cap" for o_id
    using held_wf [OF wf(1), of o_id] wf(2) by (simp add: hist_map_wf_def)
  moreover have "covered ds ws o_id s" if "0 < s" "s \<le> seq_get (Some (Watermarks h)) o_id" for o_id s
    using hist_reach_covered [OF assms] that by (simp add: Watermarks_spec(2) [OF wf(1)])
  ultimately show ?thesis using Watermarks_spec(1) [OF wf(1)] Range_recorded [OF assms] by blast
qed

theorem history_sound_witness: "covered [ex_delta ''a'' 1] [] ''a'' 1"
proof -
  have "seq_get (Some (Watermarks ex_hist)) ''a'' = 1" by code_simp
  then have "0 < (1 :: u64) \<and> 1 \<le> seq_get (Some (Watermarks ex_hist)) ''a''" by simp
  with history_sound [OF ex_hist_reach] show ?thesis by blast
qed

text \<open>
  C26. \<open>Range\<close> answers a valid range completely or not at all: the answer is the recorded deltas
  of that origin, one for every sequence of the range in increasing order; it refuses exactly
  when the range is invalid or one of its sequences is not held.
\<close>

theorem Range_exact:
  assumes "hist_reach cap ds ws h"
  shows "case Range h r of
      Some out \<Rightarrow>
        0 < unat (dr_FromSequence r) \<and> unat (dr_FromSequence r) \<le> unat (dr_ToSequence r) \<and>
        length out = unat (dr_ToSequence r) - unat (dr_FromSequence r) + 1 \<and> length out \<le> 256 \<and>
        (\<forall>i < length out. out ! i \<in> set ds \<and> sd_OriginNodeID (out ! i) = dr_OriginNodeID r \<and>
           sd_DeltaSequence (out ! i) = dr_FromSequence r + of_nat i)
    | None \<Rightarrow> validateDeltaRanges [r] \<noteq> None \<or>
        (\<exists>s. dr_FromSequence r \<le> s \<and> s \<le> dr_ToSequence r \<and> \<not> mhas (held h (dr_OriginNodeID r)) s)"
proof (cases "validateDeltaRanges [r] = None")
  case False
  then have "Range h r = None"
    by (auto simp: validateDeltaRanges_def Range_def split: if_splits)
  with False show ?thesis by simp
next
  case True
  let ?from = "dr_FromSequence r" and ?to = "dr_ToSequence r" and ?m = "held h (dr_OriginNodeID r)"
  from True have v: "ValidNodeID (dr_OriginNodeID r)" "?from \<noteq> 0" "?from \<le> ?to"
    "?to - ?from + 1 \<le> MaxDeltaRangeSize"
    by (auto simp: validateDeltaRanges_def split: if_splits)
  then have size: "unat ?to - unat ?from + 1 \<le> 256" "0 < unat ?from" "unat ?from \<le> unat ?to"
    using range_size_no_wrap [OF v(2,3)]
    by (auto simp: MaxDeltaRangeSize_def word_le_nat_alt unat_gt_0)
  show ?thesis
  proof (cases "map_of (dh_entries h) (dr_OriginNodeID r)")
    case None
    then have "Range h r = None" "\<not> mhas ?m ?from" by (simp_all add: Range_def mget_def)
    with v(3) show ?thesis by auto
  next
    case (Some m)
    then have R: "Range h r = rangeLoop ?m ?from ?to"
      using v by (auto simp: Range_def mget_def)
    note spec = rangeLoop_spec [OF v(3), of ?m]
    show ?thesis
    proof (cases "rangeLoop ?m ?from ?to")
      case None
      with spec R show ?thesis by auto
    next
      case (Some out)
      have "out ! i \<in> set ds \<and> sd_OriginNodeID (out ! i) = dr_OriginNodeID r \<and>
          sd_DeltaSequence (out ! i) = ?from + of_nat i" if "i < length out" for i
        using spec Some that hist_reach_held [OF assms] by (auto dest!: map_of_SomeD)
      with spec Some R size show ?thesis by simp
    qed
  qed
qed

theorem Range_exact_witness:
  "Range ex_hist \<lparr>dr_OriginNodeID = ''a'', dr_FromSequence = 1, dr_ToSequence = 1\<rparr> =
     Some [ex_delta ''a'' 1]"
proof -
  let ?r = "\<lparr>dr_OriginNodeID = ''a'', dr_FromSequence = 1, dr_ToSequence = 1\<rparr>"
  have v: "validateDeltaRanges [?r] = None" and h: "mhas (held ex_hist ''a'') 1" by code_simp+
  have "case Range ex_hist ?r of Some out \<Rightarrow> length out = 1 \<and> out ! 0 = ex_delta ''a'' 1 | None \<Rightarrow> False"
    using Range_exact [OF ex_hist_reach, of ?r] v h by (auto split: option.splits dest: antisym)
  then show ?thesis
    by (auto simp: length_Suc_conv split: option.splits)
qed

lemma missingRange_spec:
  assumes "mget 0 (digest_seqs local) n < mget 0 (digest_seqs peer) n"
  shows "unat (dr_FromSequence (missingRange local peer n)) = unat (mget 0 (digest_seqs local) n) + 1"
    "unat (dr_ToSequence (missingRange local peer n)) =
       min (unat (mget 0 (digest_seqs peer) n)) (unat (mget 0 (digest_seqs local) n) + 256)"
proof -
  let ?l = "mget 0 (digest_seqs local) n" and ?p = "mget 0 (digest_seqs peer) n"
  have lt: "unat ?l < unat ?p" using assms by (simp add: word_less_nat_alt)
  have "?l \<noteq> max_uint64" using assms by (metis word_order.extremum_strict)
  then have fr: "unat (?l + 1) = unat ?l + 1" by (simp add: unat_Suc_no_wrap)
  have nz: "?l + 1 \<noteq> 0" using fr by (metis add_is_0 unat_0 zero_neq_one)
  have le: "?l + 1 \<le> ?p" using fr lt by (simp add: word_le_nat_alt)
  have size: "unat (?p - (?l + 1) + 1) = unat ?p - unat ?l"
    using range_size_no_wrap [OF nz le] fr lt by simp
  show "unat (dr_FromSequence (missingRange local peer n)) = unat ?l + 1"
    using fr by (simp add: missingRange_def Let_def)
  have cut: "unat (?l + 1 + MaxDeltaRangeSize - 1) = unat ?l + 256" if "256 < unat ?p - unat ?l"
  proof -
    have "unat ?p < 2 ^ 64" using unsigned_less [of ?p] by simp
    with that have "unat (?l + 256) = unat ?l + unat (256 :: u64)"
      by (intro unat_add_no_wrap) simp
    moreover have "?l + 1 + MaxDeltaRangeSize - 1 = ?l + 256" by (simp add: MaxDeltaRangeSize_def)
    ultimately show ?thesis by simp
  qed
  show "unat (dr_ToSequence (missingRange local peer n)) = min (unat ?p) (unat ?l + 256)"
  proof (cases "256 < unat ?p - unat ?l")
    case True
    then have "?p - (?l + 1) + 1 > MaxDeltaRangeSize"
      using size by (simp add: word_less_nat_alt MaxDeltaRangeSize_def)
    with True cut show ?thesis by (simp add: missingRange_def Let_def)
  next
    case False
    then have "\<not> ?p - (?l + 1) + 1 > MaxDeltaRangeSize"
      using size by (simp add: word_less_nat_alt MaxDeltaRangeSize_def)
    with False lt show ?thesis by (simp add: missingRange_def Let_def)
  qed
qed

text \<open>
  C27. Comparing digests asks for exactly what is missing: one range for every origin whose peer
  watermark is larger, starting right after the local watermark and reaching the peer's or 256
  sequences ahead, whichever comes first, with no wrap-around; the ranges pass the validation of
  \<open>NewDeltaRangeReq\<close>.
\<close>

theorem MissingDeltaRanges_exact:
  assumes "seqs_wf (dg_DeltaSequences peer)"
  shows "set (map dr_OriginNodeID (MissingDeltaRanges local peer)) =
      {n. seq_get (dg_DeltaSequences local) n < seq_get (dg_DeltaSequences peer) n} \<and>
    list_all (\<lambda>r. let n = dr_OriginNodeID r in
        unat (dr_FromSequence r) = unat (seq_get (dg_DeltaSequences local) n) + 1 \<and>
        unat (dr_ToSequence r) = min (unat (seq_get (dg_DeltaSequences peer) n))
          (unat (seq_get (dg_DeltaSequences local) n) + 256)) (MissingDeltaRanges local peer) \<and>
    (MissingDeltaRanges local peer = [] \<or> validateDeltaRanges (MissingDeltaRanges local peer) = None)"
proof -
  let ?l = "mget 0 (digest_seqs local)" and ?p = "mget 0 (digest_seqs peer)"
  let ?ns = "map fst (filter (\<lambda>(n, s). s > ?l n) (digest_seqs peer))"
  have g: "seq_get (dg_DeltaSequences d) = mget 0 (digest_seqs d)" for d
    by (auto simp: seq_get_def digest_seqs_def fun_eq_iff split: option.splits)
  have wf: "mwf (digest_seqs peer)" "list_all (\<lambda>(n, s). ValidNodeID n \<and> s \<noteq> 0) (digest_seqs peer)"
    using assms by (auto simp: seqs_wf_def digest_seqs_def validSequences_def split: option.splits)
  have mem: "(n, s) \<in> set (digest_seqs peer) \<and> ?l n < s \<longleftrightarrow> ?l n < ?p n \<and> s = ?p n" for n s
    using wf(1) mget_mem [of "digest_seqs peer" n s 0] mget_absent [of "digest_seqs peer" n 0]
    by (auto simp: mget_def mhas_def split: option.splits dest: map_of_SomeD)
  have ns: "set ?ns = {n. ?l n < ?p n}" using mem by force
  have dist: "distinct ?ns" using wf(1) by (metis mwf_def mwf_filter)
  have valid: "ValidNodeID n" if "?l n < ?p n" for n
    using wf(2) mem [of n "?p n"] that by (auto simp: list_all_iff)
  have o: "map dr_OriginNodeID (MissingDeltaRanges local peer) = sort ?ns"
    by (simp add: MissingDeltaRanges_def comp_def missingRange_def Let_def)
  have rs: "\<exists>n. ?l n < ?p n \<and> r = missingRange local peer n" if "r \<in> set (MissingDeltaRanges local peer)" for r
    using that ns by (auto simp: MissingDeltaRanges_def)
  have on: "dr_OriginNodeID (missingRange local peer n) = n" for n
    by (simp add: missingRange_def Let_def)
  have b: "list_all (\<lambda>r. let n = dr_OriginNodeID r in
        unat (dr_FromSequence r) = unat (?l n) + 1 \<and>
        unat (dr_ToSequence r) = min (unat (?p n)) (unat (?l n) + 256)) (MissingDeltaRanges local peer)"
    unfolding list_all_iff using rs on missingRange_spec by (fastforce simp: Let_def)
  have v: "validateDeltaRanges (MissingDeltaRanges local peer) = None" if "MissingDeltaRanges local peer \<noteq> []"
    unfolding validateDeltaRanges_bounds
  proof (intro conjI that)
    show "distinct (map dr_OriginNodeID (MissingDeltaRanges local peer))" using o dist by simp
    show "list_all (\<lambda>r. ValidNodeID (dr_OriginNodeID r) \<and> 0 < unat (dr_FromSequence r) \<and>
       unat (dr_FromSequence r) \<le> unat (dr_ToSequence r) \<and>
       unat (dr_ToSequence r) < unat (dr_FromSequence r) + 256) (MissingDeltaRanges local peer)"
      unfolding list_all_iff
    proof
      fix r assume "r \<in> set (MissingDeltaRanges local peer)"
      with rs obtain n where n: "?l n < ?p n" "r = missingRange local peer n" by blast
      then have "unat (?l n) < unat (?p n)" by (simp add: word_less_nat_alt)
      with n show "ValidNodeID (dr_OriginNodeID r) \<and> 0 < unat (dr_FromSequence r) \<and>
         unat (dr_FromSequence r) \<le> unat (dr_ToSequence r) \<and>
         unat (dr_ToSequence r) < unat (dr_FromSequence r) + 256"
        using valid missingRange_spec [OF n(1)] by (simp add: on)
    qed
  qed
  have "set (map dr_OriginNodeID (MissingDeltaRanges local peer)) = {n. ?l n < ?p n}"
    unfolding o set_sort by (rule ns)
  moreover have "MissingDeltaRanges local peer = [] \<or> validateDeltaRanges (MissingDeltaRanges local peer) = None"
    using v by (cases "MissingDeltaRanges local peer = []") auto
  ultimately show ?thesis unfolding g using b by (intro conjI)
qed

theorem MissingDeltaRanges_exact_witness:
  "set (map dr_OriginNodeID (MissingDeltaRanges zero_StateDigest ex_digest)) = {''a'', ''b''}"
proof -
  have "{n. seq_get (dg_DeltaSequences zero_StateDigest) n < seq_get (dg_DeltaSequences ex_digest) n} = {''a'', ''b''}"
    by (auto simp: seq_get_def zero_StateDigest_def ex_digest_def split: if_splits)
  then show ?thesis using MissingDeltaRanges_exact [OF ex_digest_wf, of zero_StateDigest] by simp
qed

end
