(* ===== verification/Pipeline.thy ===== *)
theory Pipeline
  imports Sum AntiEntropy JsonText
begin

text \<open>
  \<open>internal/aggregation/pipeline\<close>: the manager that owns the two aggregates, journals every
  effective mutation before it is acknowledged, and queues the deltas to gossip.

  The \<open>Journal\<close> interface is the pair of functions \<open>jd\<close> and \<open>js\<close> on a journal state, arguments of
  the operations that write; the manager holds \<open>None\<close> for the nil journal.  An operation returns
  the manager and Go's results: \<open>Inl\<close> the error, \<open>Inr\<close> the others.  The mutex makes each operation
  atomic.  The outbound channel is its buffered content with its capacity.
\<close>

section \<open>State\<close>

record pipe_Config =
  pc_NodeID :: string
  pc_TopKMax :: int
  pc_OutboundQueueSize :: int

record LocalUpdate =
  lu_AggregateType :: string
  lu_Value :: "topk_value go_any"

record Estimates =
  es_SUM :: u64
  es_TOPK :: "Candidate list"

record 'j Manager =
  mg_nodeID :: string
  mg_sum :: GCounter
  mg_topk :: topk_Set
  mg_outbound :: "StateDelta list"
  mg_capacity :: nat
  mg_closed :: bool
  mg_dropped :: u64
  mg_deltaSeq :: u64
  mg_journal :: "'j option"

type_synonym 'j append_delta = "'j \<Rightarrow> StateDelta \<Rightarrow> 'j \<times> go_error option"
type_synonym 'j append_snapshot = "'j \<Rightarrow> SnapshotResp \<Rightarrow> 'j \<times> go_error option"

definition pipe_New :: "pipe_Config \<Rightarrow> go_error + 'j Manager" where
  "pipe_New config =
     (if \<not> ValidNodeID (pc_NodeID config) then Inl ErrInvalidConfig
      else if pc_TopKMax config \<le> 0 \<or> pc_OutboundQueueSize config \<le> 0 then Inl ErrInvalidConfig
      else case sum_New (pc_NodeID config) of
             Inl e \<Rightarrow> Inl e
           | Inr sumState \<Rightarrow>
               (case topk_New (pc_TopKMax config) of
                  Inl e \<Rightarrow> Inl e
                | Inr topkState \<Rightarrow>
                    Inr \<lparr>mg_nodeID = pc_NodeID config, mg_sum = sumState, mg_topk = topkState,
                         mg_outbound = [], mg_capacity = nat (pc_OutboundQueueSize config),
                         mg_closed = False, mg_dropped = 0, mg_deltaSeq = 0, mg_journal = None\<rparr>))"

section \<open>Journal and queue\<close>

text \<open>Every failure of the journal is reported as \<open>ErrPersistence\<close>.\<close>

definition appendDelta :: "'j append_delta \<Rightarrow> 'j Manager \<Rightarrow> StateDelta \<Rightarrow> 'j Manager \<times> go_error option" where
  "appendDelta jd m delta =
     (case mg_journal m of
        None \<Rightarrow> (m, None)
      | Some j \<Rightarrow>
          (let (j', e) = jd j delta
           in (m\<lparr>mg_journal := Some j'\<rparr>, case e of None \<Rightarrow> None | Some _ \<Rightarrow> Some ErrPersistence)))"

definition appendSnapshot :: "'j append_snapshot \<Rightarrow> 'j Manager \<Rightarrow> SnapshotResp \<Rightarrow> 'j Manager \<times> go_error option" where
  "appendSnapshot js m snapshot =
     (case mg_journal m of
        None \<Rightarrow> (m, None)
      | Some j \<Rightarrow>
          (let (j', e) = js j snapshot
           in (m\<lparr>mg_journal := Some j'\<rparr>, case e of None \<Rightarrow> None | Some _ \<Rightarrow> Some ErrPersistence)))"

definition enqueue :: "'j Manager \<Rightarrow> StateDelta \<Rightarrow> 'j Manager" where
  "enqueue m delta =
     (if mg_closed m then m\<lparr>mg_dropped := mg_dropped m + 1\<rparr>
      else if length (mg_outbound m) < mg_capacity m then m\<lparr>mg_outbound := mg_outbound m @ [delta]\<rparr>
      else m\<lparr>mg_dropped := mg_dropped m + 1\<rparr>)"

definition pipe_Close :: "'j Manager \<Rightarrow> 'j Manager" where
  "pipe_Close m = (if mg_closed m then m else m\<lparr>mg_closed := True\<rparr>)"

definition DrainOutbound :: "'j Manager \<Rightarrow> 'j Manager \<times> StateDelta list" where
  "DrainOutbound m = (m\<lparr>mg_outbound := []\<rparr>, mg_outbound m)"

text \<open>\<open>NextOutbound\<close> waits for one of its cases; when both are ready Go picks either.\<close>

inductive NextOutbound :: "bool \<Rightarrow> 'j Manager \<Rightarrow> 'j Manager \<Rightarrow> go_error + StateDelta \<Rightarrow> bool" where
  next_cancelled: "NextOutbound True m m (Inl ContextDone)"
| next_delta: "mg_outbound m = d # ds \<Longrightarrow> NextOutbound done m (m\<lparr>mg_outbound := ds\<rparr>) (Inr d)"
| next_closed: "mg_outbound m = [] \<Longrightarrow> mg_closed m \<Longrightarrow> NextOutbound done m m (Inl ErrOutboundQueueClosed)"

definition DroppedOutbound :: "'j Manager \<Rightarrow> u64" where
  "DroppedOutbound m = mg_dropped m"

definition SetJournal :: "'j Manager \<Rightarrow> 'j option \<Rightarrow> 'j Manager" where
  "SetJournal m j = m\<lparr>mg_journal := j\<rparr>"

text \<open>The compare-and-swap loop, under the mutex.\<close>

definition advanceAtomic :: "u64 \<Rightarrow> u64 \<Rightarrow> u64" where
  "advanceAtomic current candidate = (if candidate \<le> current then current else candidate)"

definition maxUint64 :: "u64 \<Rightarrow> u64 \<Rightarrow> u64" where
  "maxUint64 a b = (if a > b then a else b)"

section \<open>Local updates\<close>

definition applyLocalSUM ::
  "'j append_delta \<Rightarrow> 'j Manager \<Rightarrow> topk_value go_any \<Rightarrow> 'j Manager \<times> (go_error + StateDelta \<times> bool)" where
  "applyLocalSUM jd m v =
     (let before = sum_Serialize (mg_sum m);
          beforeSequence = mg_deltaSeq m;
          (s, r) = sum_Update (mg_sum m) v;
          m1 = m\<lparr>mg_sum := s\<rparr>
      in case r of
           Inl e \<Rightarrow> (m1, Inl e)
         | Inr advanced \<Rightarrow>
             if \<not> advanced then (m1, Inr (zero_StateDelta, False))
             else
               (let state = sum_getState s;
                    val = mget 0 (case ss_Contrib state of None \<Rightarrow> [] | Some c \<Rightarrow> c) (mg_nodeID m)
                in case NewSUMStateDelta (ss_Version state) \<lparr>sumd_NodeID = mg_nodeID m, sumd_Value = val\<rparr> of
                     Inl e \<Rightarrow> (m1, Inl e)
                   | Inr d0 \<Rightarrow>
                       (let delta = d0\<lparr>sd_OriginNodeID := mg_nodeID m, sd_DeltaSequence := mg_deltaSeq m + 1\<rparr>;
                            m2 = m1\<lparr>mg_deltaSeq := mg_deltaSeq m + 1\<rparr>;
                            (m3, e) = appendDelta jd m2 delta
                        in case e of
                             Some err \<Rightarrow>
                               (m3\<lparr>mg_sum := fst (sum_Deserialize (mg_sum m3) before),
                                   mg_deltaSeq := beforeSequence\<rparr>, Inl err)
                           | None \<Rightarrow> (enqueue m3 delta, Inr (delta, True)))))"

definition applyLocalTOPK ::
  "'j append_delta \<Rightarrow> 'j Manager \<Rightarrow> topk_value go_any \<Rightarrow> 'j Manager \<times> (go_error + StateDelta \<times> bool)" where
  "applyLocalTOPK jd m v =
     (case v of
        AnyVal (TopkCandidate c0) \<Rightarrow>
          (let candidate = c0\<lparr>c_OriginNodeID := mg_nodeID m\<rparr>
           in case topk_Serialize (mg_topk m) of
                Inl e \<Rightarrow> (m, Inl e)
              | Inr before \<Rightarrow>
                  (let beforeSequence = mg_deltaSeq m;
                       (s, r) = topk_Update (mg_topk m) (TopkCandidate candidate);
                       m1 = m\<lparr>mg_topk := s\<rparr>
                   in case r of
                        Inl e \<Rightarrow> (m1, Inl e)
                      | Inr advanced \<Rightarrow>
                          if \<not> advanced then (m1, Inr (zero_StateDelta, False))
                          else
                            (case NewTOPKStateDelta (ts_Version (topk_getState s)) candidate of
                               Inl e \<Rightarrow> (m1, Inl e)
                             | Inr d0 \<Rightarrow>
                                 (let delta = d0\<lparr>sd_OriginNodeID := mg_nodeID m,
                                                 sd_DeltaSequence := mg_deltaSeq m + 1\<rparr>;
                                      m2 = m1\<lparr>mg_deltaSeq := mg_deltaSeq m + 1\<rparr>;
                                      (m3, e) = appendDelta jd m2 delta
                                  in case e of
                                       Some err \<Rightarrow>
                                         (m3\<lparr>mg_topk := fst (topk_Deserialize (mg_topk m3) before),
                                             mg_deltaSeq := beforeSequence\<rparr>, Inl err)
                                     | None \<Rightarrow> (enqueue m3 delta, Inr (delta, True))))))
      | _ \<Rightarrow> (m, Inl ErrInvalidUpdate))"

definition ApplyLocalUpdate ::
  "'j append_delta \<Rightarrow> 'j Manager \<Rightarrow> LocalUpdate \<Rightarrow> 'j Manager \<times> (go_error + StateDelta \<times> bool)" where
  "ApplyLocalUpdate jd m update =
     (if lu_AggregateType update = AggregateSUM then applyLocalSUM jd m (lu_Value update)
      else if lu_AggregateType update = AggregateTOPK then applyLocalTOPK jd m (lu_Value update)
      else (m, Inl ErrInvalidUpdate))"

section \<open>Received deltas\<close>

text \<open>
  The \<open>err\<close> that \<open>Merge\<close> assigns inside the two cases is a new variable of the case, declared by
  the \<open>:=\<close> that decodes the delta, so the test after the switch reads the outer one, which is nil:
  a rejected merge counts as one that did not advance.
\<close>

definition advanced_of :: "go_error + bool \<Rightarrow> bool" where
  "advanced_of r = (case r of Inl _ \<Rightarrow> False | Inr a \<Rightarrow> a)"

definition finishReceived ::
  "'j append_delta \<Rightarrow> 'j Manager \<Rightarrow> StateDelta \<Rightarrow> bool \<Rightarrow> bool \<Rightarrow> u64 \<Rightarrow>
   ('j Manager \<Rightarrow> 'j Manager \<times> go_error option) \<Rightarrow> 'j Manager \<times> (go_error + bool)" where
  "finishReceived jd m delta persist advanced beforeSequence rollback =
     (let m1 = (if sd_OriginNodeID delta = mg_nodeID m
                then m\<lparr>mg_deltaSeq := advanceAtomic (mg_deltaSeq m) (sd_DeltaSequence delta)\<rparr> else m)
      in if advanced \<and> persist then
           (let (m2, e) = appendDelta jd m1 delta
            in case e of
                 None \<Rightarrow> (m2, Inr advanced)
               | Some err \<Rightarrow>
                   (let (m3, re) = rollback m2
                    in case re of
                         Some rerr \<Rightarrow> (m3, Inl rerr)
                       | None \<Rightarrow> (m3\<lparr>mg_deltaSeq := beforeSequence\<rparr>, Inl err)))
         else (m1, Inr advanced))"

definition rollbackSum :: "json \<Rightarrow> 'j Manager \<Rightarrow> 'j Manager \<times> go_error option" where
  "rollbackSum before m = (let (s, e) = sum_Deserialize (mg_sum m) before in (m\<lparr>mg_sum := s\<rparr>, e))"

definition rollbackTopk :: "json \<Rightarrow> 'j Manager \<Rightarrow> 'j Manager \<times> go_error option" where
  "rollbackTopk before m = (let (s, e) = topk_Deserialize (mg_topk m) before in (m\<lparr>mg_topk := s\<rparr>, e))"

definition applyReceivedDeltaLocked ::
  "'j append_delta \<Rightarrow> 'j Manager \<Rightarrow> StateDelta \<Rightarrow> bool \<Rightarrow> 'j Manager \<times> (go_error + bool)" where
  "applyReceivedDeltaLocked jd m delta persist =
     (if sd_AggregateType delta = AggregateSUM then
        (case DecodeSUMDelta delta of
           Inl e \<Rightarrow> (m, Inl e)
         | Inr sumDelta \<Rightarrow>
             (let before = sum_Serialize (mg_sum m);
                  (s, r) = sum_Merge (mg_sum m)
                    (SumPeerState \<lparr>ss_Contrib = Some [(sumd_NodeID sumDelta, sumd_Value sumDelta)],
                                   ss_Version = sd_DeltaVersion delta\<rparr>)
              in finishReceived jd (m\<lparr>mg_sum := s\<rparr>) delta persist (advanced_of r) (mg_deltaSeq m)
                   (rollbackSum before)))
      else if sd_AggregateType delta = AggregateTOPK then
        (case DecodeTOPKDelta delta of
           Inl e \<Rightarrow> (m, Inl e)
         | Inr topkDelta \<Rightarrow>
             (case topk_Serialize (mg_topk m) of
                Inl e \<Rightarrow> (m, Inl e)
              | Inr before \<Rightarrow>
                  (let (s, r) = topk_Merge (mg_topk m)
                         (TopkPeerState \<lparr>ts_Candidates = [topkDelta], ts_Version = sd_DeltaVersion delta\<rparr>)
                   in finishReceived jd (m\<lparr>mg_topk := s\<rparr>) delta persist (advanced_of r) (mg_deltaSeq m)
                        (rollbackTopk before))))
      else (m, Inl ErrInvalidUpdate))"

definition ApplyReceivedDelta ::
  "'j append_delta \<Rightarrow> 'j Manager \<Rightarrow> StateDelta \<Rightarrow> 'j Manager \<times> (go_error + bool)" where
  "ApplyReceivedDelta jd m delta = applyReceivedDeltaLocked jd m delta True"

definition ReplayDelta :: "'j append_delta \<Rightarrow> 'j Manager \<Rightarrow> StateDelta \<Rightarrow> 'j Manager \<times> go_error option" where
  "ReplayDelta jd m delta =
     (let (m', r) = applyReceivedDeltaLocked jd m delta False
      in (m', case r of Inl e \<Rightarrow> Some e | Inr _ \<Rightarrow> None))"

section \<open>Digest and snapshots\<close>

definition StateChecksum :: "json \<Rightarrow> string" where
  "StateChecksum raw = sha256_hex (json_text raw)"

definition ownSequence :: "'j Manager \<Rightarrow> (string, u64) gomap option" where
  "ownSequence m = (if mg_deltaSeq m > 0 then Some [(mg_nodeID m, mg_deltaSeq m)] else None)"

definition Digest :: "'j Manager \<Rightarrow> go_error + StateDigest" where
  "Digest m =
     (case topk_Serialize (mg_topk m) of
        Inl e \<Rightarrow> Inl e
      | Inr topkRaw \<Rightarrow>
          Inr \<lparr>dg_SUM = \<lparr>ad_Version = ss_Version (sum_getState (mg_sum m)),
                         ad_Checksum = StateChecksum (sum_Serialize (mg_sum m))\<rparr>,
               dg_TOPK = \<lparr>ad_Version = ts_Version (topk_getState (mg_topk m)),
                          ad_Checksum = StateChecksum topkRaw\<rparr>,
               dg_MembershipVersion = 0, dg_DeltaSequences = ownSequence m\<rparr>)"

fun snapshotLoop :: "'j Manager \<Rightarrow> string list \<Rightarrow> SnapshotResp \<Rightarrow> go_error + SnapshotResp" where
  "snapshotLoop m [] resp = Inr resp"
| "snapshotLoop m (a # as) resp =
     (if a = AggregateSUM then
        snapshotLoop m as (resp\<lparr>srp_SUMState := Some (sum_Serialize (mg_sum m)),
          srp_SnapshotVersion := maxUint64 (srp_SnapshotVersion resp) (ss_Version (sum_getState (mg_sum m)))\<rparr>)
      else if a = AggregateTOPK then
        (case topk_Serialize (mg_topk m) of
           Inl e \<Rightarrow> Inl e
         | Inr raw \<Rightarrow>
             snapshotLoop m as (resp\<lparr>srp_TOPKState := Some raw,
               srp_SnapshotVersion := maxUint64 (srp_SnapshotVersion resp) (ts_Version (topk_getState (mg_topk m)))\<rparr>))
      else Inl ErrInvalidUpdate)"

definition snapshotLocked :: "gotime \<Rightarrow> 'j Manager \<Rightarrow> string list \<Rightarrow> go_error + SnapshotResp" where
  "snapshotLocked now m want =
     (case snapshotLoop m want
             \<lparr>srp_SnapshotVersion = 0, srp_SUMState = None, srp_TOPKState = None,
              srp_DeltaSequences = ownSequence m, srp_CreatedAt = time_UTC now\<rparr> of
        Inl e \<Rightarrow> Inl e
      | Inr resp \<Rightarrow>
          if srp_SUMState resp = None \<and> srp_TOPKState resp = None then Inl ErrInvalidUpdate
          else Inr resp)"

definition pipe_Snapshot :: "gotime \<Rightarrow> 'j Manager \<Rightarrow> string list \<Rightarrow> go_error + SnapshotResp" where
  "pipe_Snapshot now m want = snapshotLocked now m want"

definition applySnapshotSum :: "'j Manager \<Rightarrow> json option \<Rightarrow> 'j Manager \<times> (go_error + bool)" where
  "applySnapshotSum m raw =
     (case raw of
        None \<Rightarrow> (m, Inr False)
      | Some j \<Rightarrow>
          (case sum_StateFromSerialized j of
             Inl e \<Rightarrow> (m, Inl e)
           | Inr state \<Rightarrow>
               (let (s, r) = sum_Merge (mg_sum m) (SumPeerState state) in (m\<lparr>mg_sum := s\<rparr>, r))))"

definition applySnapshotTopk :: "'j Manager \<Rightarrow> json option \<Rightarrow> 'j Manager \<times> (go_error + bool)" where
  "applySnapshotTopk m raw =
     (case raw of
        None \<Rightarrow> (m, Inr False)
      | Some j \<Rightarrow>
          (case topk_StateFromSerialized j of
             Inl e \<Rightarrow> (m, Inl e)
           | Inr state \<Rightarrow>
               (let (s, r) = topk_Merge (mg_topk m) (TopkPeerState state) in (m\<lparr>mg_topk := s\<rparr>, r))))"

definition applySnapshotLocked :: "'j Manager \<Rightarrow> SnapshotResp \<Rightarrow> 'j Manager \<times> (go_error + bool)" where
  "applySnapshotLocked m snapshot =
     (case applySnapshotSum m (srp_SUMState snapshot) of
        (m1, Inl e) \<Rightarrow> (m1, Inl e)
      | (m1, Inr a1) \<Rightarrow>
          (case applySnapshotTopk m1 (srp_TOPKState snapshot) of
             (m2, Inl e) \<Rightarrow> (m2, Inl e)
           | (m2, Inr a2) \<Rightarrow>
               (m2\<lparr>mg_deltaSeq := advanceAtomic (mg_deltaSeq m2)
                     (seq_get (srp_DeltaSequences snapshot) (mg_nodeID m))\<rparr>, Inr (a1 \<or> a2))))"

definition ApplySnapshot :: "'j append_snapshot \<Rightarrow> 'j Manager \<Rightarrow> SnapshotResp \<Rightarrow> 'j Manager \<times> (go_error + bool)" where
  "ApplySnapshot js m snapshot =
     (let beforeSUM = sum_Serialize (mg_sum m)
      in case topk_Serialize (mg_topk m) of
           Inl e \<Rightarrow> (m, Inl e)
         | Inr beforeTOPK \<Rightarrow>
             (let beforeSequence = mg_deltaSeq m
              in case applySnapshotLocked m snapshot of
                   (m1, Inl e) \<Rightarrow> (m1, Inl e)
                 | (m1, Inr advanced) \<Rightarrow>
                     if \<not> advanced then (m1, Inr False)
                     else
                       (let (m2, e) = appendSnapshot js m1 snapshot
                        in case e of
                             None \<Rightarrow> (m2, Inr True)
                           | Some err \<Rightarrow>
                               (case rollbackSum beforeSUM m2 of
                                  (m3, Some se) \<Rightarrow> (m3, Inl se)
                                | (m3, None) \<Rightarrow>
                                    (case rollbackTopk beforeTOPK m3 of
                                       (m4, Some te) \<Rightarrow> (m4, Inl te)
                                     | (m4, None) \<Rightarrow> (m4\<lparr>mg_deltaSeq := beforeSequence\<rparr>, Inl err))))))"

definition ReplaySnapshot :: "'j Manager \<Rightarrow> SnapshotResp \<Rightarrow> 'j Manager \<times> go_error option" where
  "ReplaySnapshot m snapshot =
     (let (m', r) = applySnapshotLocked m snapshot in (m', case r of Inl e \<Rightarrow> Some e | Inr _ \<Rightarrow> None))"

definition RestoreCheckpoint :: "'j Manager \<Rightarrow> SnapshotResp \<Rightarrow> 'j Manager \<times> go_error option" where
  "RestoreCheckpoint m checkpoint =
     (case (srp_SUMState checkpoint, srp_TOPKState checkpoint) of
        (Some sumRaw, Some topkRaw) \<Rightarrow>
          (case rollbackSum sumRaw m of
             (m1, Some e) \<Rightarrow> (m1, Some e)
           | (m1, None) \<Rightarrow>
               (case rollbackTopk topkRaw m1 of
                  (m2, Some e) \<Rightarrow> (m2, Some e)
                | (m2, None) \<Rightarrow>
                    (m2\<lparr>mg_deltaSeq := advanceAtomic (mg_deltaSeq m2)
                          (seq_get (srp_DeltaSequences checkpoint) (mg_nodeID m))\<rparr>, None)))
      | _ \<Rightarrow> (m, Some ErrInvalidUpdate))"

text \<open>The \<open>Checkpointer\<close> is the function \<open>save\<close> on a store state; \<open>None\<close> is the nil interface.\<close>

definition Checkpoint ::
  "('c \<Rightarrow> SnapshotResp \<Rightarrow> 'c \<times> go_error option) \<Rightarrow> gotime \<Rightarrow> 'j Manager \<Rightarrow> 'c option \<Rightarrow> 'c option \<times> go_error option" where
  "Checkpoint save now m checkpointer =
     (case checkpointer of
        None \<Rightarrow> (None, Some ErrPersistence)
      | Some c \<Rightarrow>
          (case snapshotLocked now m [AggregateSUM, AggregateTOPK] of
             Inl e \<Rightarrow> (Some c, Some e)
           | Inr state \<Rightarrow>
               (let (c', e) = save c state
                in (Some c', case e of None \<Rightarrow> None | Some _ \<Rightarrow> Some ErrPersistence))))"

definition pipe_Estimates :: "'j Manager \<Rightarrow> int \<Rightarrow> go_error + Estimates" where
  "pipe_Estimates m topK =
     (case sum_Estimate (mg_sum m) of
        Inl e \<Rightarrow> Inl e
      | Inr sumEstimate \<Rightarrow>
          (case topk_Estimate (mg_topk m) (OptsInt topK) of
             Inl e \<Rightarrow> Inl e
           | Inr topkEstimate \<Rightarrow> Inr \<lparr>es_SUM = sumEstimate, es_TOPK = topkEstimate\<rparr>))"

section \<open>Invariant\<close>

text \<open>
  A candidate that keeps the \<open>TOPK\<close> state serializable: accepted, not the negative zero, and in a
  year RFC 3339 can express once it is converted to UTC.
\<close>

definition cand_good :: "Candidate \<Rightarrow> bool" where
  "cand_good c \<longleftrightarrow> cand_ok c \<and>
     (let y = time_year (c_EventTS (topk_normalizeCandidate c)) in 0 \<le> y \<and> y \<le> 9999)"

definition mg_wf :: "'j Manager \<Rightarrow> bool" where
  "mg_wf m \<longleftrightarrow> ValidNodeID (mg_nodeID m) \<and> sum_wf (mg_sum m) \<and> gc_nodeID (mg_sum m) = mg_nodeID m \<and>
     topk_wf (mg_topk m) \<and> list_all cand_good (tk_candidates (mg_topk m)) \<and>
     0 < mg_capacity m \<and> length (mg_outbound m) \<le> mg_capacity m"

text \<open>The replicated value of a manager and the value of a mutation.\<close>

definition mg_val :: "'j Manager \<Rightarrow> (string \<Rightarrow> u64) \<times> Candidate list" where
  "mg_val m = (sum_val (mg_sum m), tk_candidates (mg_topk m))"

definition mg_join :: "int \<Rightarrow> (string \<Rightarrow> u64) \<times> Candidate list \<Rightarrow> (string \<Rightarrow> u64) \<times> Candidate list \<Rightarrow>
    (string \<Rightarrow> u64) \<times> Candidate list" where
  "mg_join k a b = (sum_join (fst a) (fst b), topk_join k (snd a) (snd b))"

definition mg_carrier :: "int \<Rightarrow> (string \<Rightarrow> u64) \<times> Candidate list \<Rightarrow> bool" where
  "mg_carrier k a \<longleftrightarrow> topk_canonical k (snd a)"

datatype mutation = MutDelta StateDelta | MutSnapshot SnapshotResp

fun apply_mutation :: "'j append_delta \<Rightarrow> 'j Manager \<Rightarrow> mutation \<Rightarrow> 'j Manager" where
  "apply_mutation jd m (MutDelta d) = fst (ReplayDelta jd m d)"
| "apply_mutation jd m (MutSnapshot s) = fst (ReplaySnapshot m s)"

text \<open>Mutations that carry a value the aggregates accept.\<close>

definition delta_good :: "StateDelta \<Rightarrow> bool" where
  "delta_good d \<longleftrightarrow> ok (DecodeSUMDelta d) \<or> (case DecodeTOPKDelta d of Inl _ \<Rightarrow> False | Inr c \<Rightarrow> cand_good c)"

definition snap_good :: "SnapshotResp \<Rightarrow> bool" where
  "snap_good s \<longleftrightarrow>
     (case srp_SUMState s of None \<Rightarrow> True | Some j \<Rightarrow> ok (sum_StateFromSerialized j)) \<and>
     (case srp_TOPKState s of
        None \<Rightarrow> True
      | Some j \<Rightarrow> (case topk_StateFromSerialized j of Inl _ \<Rightarrow> False | Inr st \<Rightarrow> list_all cand_good (ts_Candidates st)))"

text \<open>
  A delta or a snapshot that carries no candidate the aggregate accepts but that would break its
  invariant (the negative zero, or a UTC year beyond 9999, which cannot be serialized).  What does not
  decode is allowed, and so is a candidate that \<open>Merge\<close> rejects; a snapshot with a rejected candidate
  does not decode.
\<close>

definition delta_tame :: "StateDelta \<Rightarrow> bool" where
  "delta_tame d \<longleftrightarrow>
     (case DecodeTOPKDelta d of Inl _ \<Rightarrow> True | Inr c \<Rightarrow> topk_validateCandidate c \<noteq> None \<or> cand_good c)"

definition snap_tame :: "SnapshotResp \<Rightarrow> bool" where
  "snap_tame s \<longleftrightarrow>
     (case srp_TOPKState s of
        None \<Rightarrow> True
      | Some j \<Rightarrow> (case topk_StateFromSerialized j of Inl _ \<Rightarrow> True | Inr st \<Rightarrow> list_all cand_good (ts_Candidates st)))"

text \<open>A \<open>TOPK\<close> delta whose candidate \<open>Merge\<close> rejects.\<close>

definition delta_rejected :: "StateDelta \<Rightarrow> bool" where
  "delta_rejected d \<longleftrightarrow> (case DecodeTOPKDelta d of Inl _ \<Rightarrow> False | Inr c \<Rightarrow> topk_validateCandidate c \<noteq> None)"

text \<open>A snapshot with a \<open>SUM\<close> part that decodes and a \<open>TOPK\<close> part that does not.\<close>

definition half_valid :: "SnapshotResp \<Rightarrow> bool" where
  "half_valid s \<longleftrightarrow>
     (case srp_SUMState s of None \<Rightarrow> False | Some j \<Rightarrow> ok (sum_StateFromSerialized j)) \<and>
     (case srp_TOPKState s of None \<Rightarrow> False | Some j \<Rightarrow> \<not> ok (topk_StateFromSerialized j))"

fun mut_good :: "mutation \<Rightarrow> bool" where
  "mut_good (MutDelta d) = delta_good d"
| "mut_good (MutSnapshot s) = snap_good s"

definition delta_val :: "int \<Rightarrow> StateDelta \<Rightarrow> (string \<Rightarrow> u64) \<times> Candidate list" where
  "delta_val k d =
     (case DecodeSUMDelta d of
        Inr sd \<Rightarrow> (mget 0 [(sumd_NodeID sd, sumd_Value sd)], [])
      | Inl _ \<Rightarrow> (\<lambda>_. 0, case DecodeTOPKDelta d of Inl _ \<Rightarrow> [] | Inr c \<Rightarrow> topk_canonicalize [c] k))"

definition snap_val :: "int \<Rightarrow> SnapshotResp \<Rightarrow> (string \<Rightarrow> u64) \<times> Candidate list" where
  "snap_val k s =
     ((case srp_SUMState s of
         None \<Rightarrow> (\<lambda>_. 0)
       | Some j \<Rightarrow> (case sum_StateFromSerialized j of Inl _ \<Rightarrow> (\<lambda>_. 0) | Inr st \<Rightarrow> sum_peer_val (SumPeerState st))),
      (case srp_TOPKState s of
         None \<Rightarrow> []
       | Some j \<Rightarrow> (case topk_StateFromSerialized j of Inl _ \<Rightarrow> [] | Inr st \<Rightarrow> topk_canonicalize (ts_Candidates st) k)))"

fun mut_val :: "int \<Rightarrow> mutation \<Rightarrow> (string \<Rightarrow> u64) \<times> Candidate list" where
  "mut_val k (MutDelta d) = delta_val k d"
| "mut_val k (MutSnapshot s) = snap_val k s"

lemma cand_good_ok: "cand_good c \<Longrightarrow> cand_ok c"
  by (simp add: cand_good_def)

lemma cand_good_normalize [simp]: "cand_good (topk_normalizeCandidate c) \<longleftrightarrow> cand_good c"
  by (simp add: cand_good_def)

lemma mg_wf_topk:
  assumes "mg_wf m"
  shows "topk_canonical (tk_kmax (mg_topk m)) (tk_candidates (mg_topk m))"
  using assms by (simp add: mg_wf_def topk_wf_def)

lemma canonical_good_years:
  assumes "topk_canonical k L" "list_all cand_good L" "c \<in> set L"
  shows "0 \<le> time_year (c_EventTS c) \<and> time_year (c_EventTS c) \<le> 9999"
proof -
  have "topk_normalizeCandidate c = c" using topk_canonicalD(2) [OF assms(1)] assms(3) by simp
  with assms(2,3) show ?thesis by (auto simp: list_all_iff cand_good_def Let_def)
qed

lemma mg_wf_serializes:
  assumes "mg_wf m"
  obtains j where "topk_Serialize (mg_topk m) = Inr j"
proof -
  have "topk_wf (mg_topk m)" "list_all cand_good (tk_candidates (mg_topk m))"
    using assms by (simp_all add: mg_wf_def)
  then have "\<exists>j. topk_Serialize (mg_topk m) = Inr j"
    using canonical_good_years [OF mg_wf_topk [OF assms]] by (simp add: topk_Serialize_ok_iff)
  then show ?thesis using that by blast
qed

lemma topk_join_good:
  assumes "topk_canonical k a" "list_all cand_good a" "list_all cand_good b"
  shows "list_all cand_good (topk_join k a b)"
proof -
  have "\<forall>c \<in> set b. cand_ok c" using assms(3) cand_good_ok by (auto simp: list_all_iff)
  then have "set (topk_join k a b) \<subseteq> set a \<union> topk_normalizeCandidate ` set b"
    using topk_join_topk [OF assms(1)] by (simp add: is_topk_def)
  with assms(2,3) show ?thesis by (auto simp: list_all_iff)
qed

lemma canonicalize_Nil [simp]: "0 \<le> k \<Longrightarrow> topk_canonicalize [] k = []"
  by (simp add: canonicalize_take)

lemma topk_join_Nil: "topk_canonical k a \<Longrightarrow> topk_join k a [] = a"
  by (simp add: topk_join_def canonicalize_canonical_id)

interpretation mg_semilattice: semilattice_on "mg_join k" "mg_carrier k" for k
proof unfold_locales
  fix a b c :: "(string \<Rightarrow> u64) \<times> Candidate list"
  assume a: "mg_carrier k a"
  then show "mg_join k a a = a"
    by (simp add: mg_join_def mg_carrier_def topk_join_idem sum_semilattice.join_idem)
  assume b: "mg_carrier k b"
  with a show "mg_carrier k (mg_join k a b)" "mg_join k a b = mg_join k b a"
    by (auto simp: mg_join_def mg_carrier_def topk_join_closed sum_semilattice.join_commute
        intro: topk_join_commute)
  assume "mg_carrier k c"
  with a b show "mg_join k (mg_join k a b) c = mg_join k a (mg_join k b c)"
    by (simp add: mg_join_def mg_carrier_def topk_join_assoc sum_semilattice.join_assoc)
qed

section \<open>Mutations\<close>

text \<open>What every operation leaves alone.\<close>

definition same_frame :: "'j Manager \<Rightarrow> 'j Manager \<Rightarrow> bool" where
  "same_frame m m' \<longleftrightarrow> mg_nodeID m' = mg_nodeID m \<and> tk_kmax (mg_topk m') = tk_kmax (mg_topk m) \<and>
     mg_capacity m' = mg_capacity m"

abbreviation kmax :: "'j Manager \<Rightarrow> int" where
  "kmax m \<equiv> tk_kmax (mg_topk m)"

lemma same_frame_refl [simp]: "same_frame m m"
  by (simp add: same_frame_def)

lemma same_frame_trans: "same_frame a b \<Longrightarrow> same_frame b c \<Longrightarrow> same_frame a c"
  by (simp add: same_frame_def)

text \<open>Merging a state into one of the two aggregates.\<close>

lemma mg_merge_sum:
  assumes "mg_wf m" "sum_peer_ok p"
  defines "m' \<equiv> m\<lparr>mg_sum := fst (sum_Merge (mg_sum m) p)\<rparr>"
  shows "mg_wf m'" "same_frame m m'" "mg_val m' = mg_join (kmax m) (mg_val m) (sum_peer_val p, [])"
    "ok (snd (sum_Merge (mg_sum m) p))"
  using assms(1) sum_Merge_wf [OF _ assms(2), of "mg_sum m"] sum_Merge_val [OF assms(2), of "mg_sum m"]
    sum_Merge_advanced [OF assms(2), of "mg_sum m"] topk_join_Nil [OF mg_wf_topk [OF assms(1)]]
  by (auto simp: m'_def mg_wf_def same_frame_def mg_val_def mg_join_def ok_def)

lemma mg_merge_topk:
  assumes "mg_wf m" "topk_stateFrom p = Inr st" "list_all cand_good (ts_Candidates st)"
  defines "m' \<equiv> m\<lparr>mg_topk := fst (topk_Merge (mg_topk m) p)\<rparr>"
  shows "mg_wf m'" "same_frame m m'"
    "mg_val m' = mg_join (kmax m) (mg_val m) (\<lambda>_. 0, topk_canonicalize (ts_Candidates st) (kmax m))"
    "ok (snd (topk_Merge (mg_topk m) p))"
proof -
  have t: "topk_wf (mg_topk m)" "list_all cand_good (tk_candidates (mg_topk m))"
    using assms(1) by (simp_all add: mg_wf_def)
  have oks: "\<forall>c \<in> set (ts_Candidates st). cand_ok c"
    using assms(3) cand_good_ok by (auto simp: list_all_iff)
  then have p: "topk_peer_ok p" "topk_peer_cands p = ts_Candidates st"
    using assms(2) by (simp_all add: topk_peer_ok_def topk_peer_cands_def list_all_iff)
  note c = mg_wf_topk [OF assms(1)] and w = topk_Merge_wf [OF t(1) p(1)]
  have good: "list_all cand_good (topk_join (kmax m) (tk_candidates (mg_topk m)) (ts_Candidates st))"
    using topk_join_good [OF c t(2) assms(3)] .
  then show "mg_wf m'" using assms(1) w p(2) by (simp add: m'_def mg_wf_def)
  show "same_frame m m'" using w by (simp add: m'_def same_frame_def)
  show "mg_val m' = mg_join (kmax m) (mg_val m) (\<lambda>_. 0, topk_canonicalize (ts_Candidates st) (kmax m))"
    using w p(2) topk_join_absorb [OF c oks] by (simp add: m'_def mg_val_def mg_join_def sum_join_def)
  show "ok (snd (topk_Merge (mg_topk m) p))"
    using topk_Merge_ok [OF t(1) p(1) assms(2)] by (simp add: ok_def)
qed

lemma mg_wf_deltaSeq [simp]:
  "mg_wf (m\<lparr>mg_deltaSeq := q\<rparr>) = mg_wf m" "mg_val (m\<lparr>mg_deltaSeq := q\<rparr>) = mg_val m"
  "same_frame m (m'\<lparr>mg_deltaSeq := q\<rparr>) = same_frame m m'"
  by (simp_all add: mg_wf_def mg_val_def same_frame_def)

lemma mg_wf_journal [simp]:
  "mg_wf (m\<lparr>mg_journal := j\<rparr>) = mg_wf m" "mg_val (m\<lparr>mg_journal := j\<rparr>) = mg_val m"
  "same_frame m (m'\<lparr>mg_journal := j\<rparr>) = same_frame m m'"
  by (simp_all add: mg_wf_def mg_val_def same_frame_def)

text \<open>The merge a delta asks for, before the bookkeeping of \<open>finishReceived\<close>.\<close>

definition delta_merged :: "'j Manager \<Rightarrow> StateDelta \<Rightarrow> 'j Manager \<times> bool" where
  "delta_merged m d =
     (case DecodeSUMDelta d of
        Inr sd \<Rightarrow>
          (let (s, r) = sum_Merge (mg_sum m)
                 (SumPeerState \<lparr>ss_Contrib = Some [(sumd_NodeID sd, sumd_Value sd)], ss_Version = sd_DeltaVersion d\<rparr>)
           in (m\<lparr>mg_sum := s\<rparr>, advanced_of r))
      | Inl _ \<Rightarrow>
          (case DecodeTOPKDelta d of
             Inr c \<Rightarrow>
               (let (s, r) = topk_Merge (mg_topk m) (TopkPeerState \<lparr>ts_Candidates = [c], ts_Version = sd_DeltaVersion d\<rparr>)
                in (m\<lparr>mg_topk := s\<rparr>, advanced_of r))
           | Inl _ \<Rightarrow> (m, False)))"

lemma decode_exclusive:
  "DecodeSUMDelta d = Inr sd \<Longrightarrow> sd_AggregateType d = AggregateSUM \<and> ValidNodeID (sumd_NodeID sd)"
  "DecodeTOPKDelta d = Inr c \<Longrightarrow> sd_AggregateType d = AggregateTOPK"
  by (auto simp: DecodeSUMDelta_def DecodeTOPKDelta_def split: if_splits option.splits)

lemma aggregate_neq [simp]: "AggregateTOPK \<noteq> AggregateSUM" "AggregateSUM \<noteq> AggregateTOPK"
  by (simp_all add: AggregateTOPK_def AggregateSUM_def)

lemma DecodeSUM_of_TOPK: "DecodeTOPKDelta d = Inr c \<Longrightarrow> DecodeSUMDelta d = Inl ErrInvalidAggregateType"
  using decode_exclusive(2) [of d c] by (simp add: DecodeSUMDelta_def)

lemma delta_merged_spec:
  assumes "mg_wf m" "delta_good d"
  shows "mg_wf (fst (delta_merged m d))" "same_frame m (fst (delta_merged m d))"
    "mg_val (fst (delta_merged m d)) = mg_join (kmax m) (mg_val m) (delta_val (kmax m) d)"
proof -
  have "mg_wf (fst (delta_merged m d)) \<and> same_frame m (fst (delta_merged m d)) \<and>
    mg_val (fst (delta_merged m d)) = mg_join (kmax m) (mg_val m) (delta_val (kmax m) d)"
  proof (cases "DecodeSUMDelta d")
    case (Inr sd)
    let ?p = "SumPeerState \<lparr>ss_Contrib = Some [(sumd_NodeID sd, sumd_Value sd)], ss_Version = sd_DeltaVersion d\<rparr>"
    have p: "sum_peer_ok ?p" "sum_peer_val ?p = mget 0 [(sumd_NodeID sd, sumd_Value sd)]"
      using decode_exclusive(1) [OF Inr]
      by (simp_all add: sum_peer_ok_def sum_peer_val_def sum_stateFrom_def mwf_def)
    from mg_merge_sum [OF assms(1) p(1)] p(2) Inr show ?thesis
      by (simp add: delta_merged_def delta_val_def split_beta)
  next
    case (Inl e)
    with assms(2) obtain c where c: "DecodeTOPKDelta d = Inr c" "cand_good c"
      by (auto simp: delta_good_def ok_def split: sum.splits)
    from mg_merge_topk [OF assms(1), of "TopkPeerState \<lparr>ts_Candidates = [c], ts_Version = sd_DeltaVersion d\<rparr>"]
      c Inl show ?thesis
      by (simp add: delta_merged_def delta_val_def split_beta topk_stateFrom_def)
  qed
  then show "mg_wf (fst (delta_merged m d))" "same_frame m (fst (delta_merged m d))"
    "mg_val (fst (delta_merged m d)) = mg_join (kmax m) (mg_val m) (delta_val (kmax m) d)" by auto
qed

text \<open>The bookkeeping on a good delta.\<close>

definition delta_before :: "'j Manager \<Rightarrow> StateDelta \<Rightarrow> 'j Manager \<Rightarrow> 'j Manager \<times> go_error option" where
  "delta_before m d =
     (if ok (DecodeSUMDelta d) then rollbackSum (sum_Serialize (mg_sum m))
      else rollbackTopk (case topk_Serialize (mg_topk m) of Inl _ \<Rightarrow> JNull | Inr j \<Rightarrow> j))"

lemma applyReceived_good:
  assumes "mg_wf m" "delta_good d"
  shows "applyReceivedDeltaLocked jd m d persist =
    finishReceived jd (fst (delta_merged m d)) d persist (snd (delta_merged m d)) (mg_deltaSeq m) (delta_before m d)"
proof (cases "DecodeSUMDelta d")
  case (Inr sd)
  with decode_exclusive(1) [OF Inr] show ?thesis
    by (simp add: applyReceivedDeltaLocked_def delta_merged_def delta_before_def ok_def split_beta Let_def)
next
  case (Inl e)
  with assms(2) obtain c where c: "DecodeTOPKDelta d = Inr c"
    by (auto simp: delta_good_def ok_def split: sum.splits)
  obtain j where "topk_Serialize (mg_topk m) = Inr j" using assms(1) by (rule mg_wf_serializes)
  with Inl c decode_exclusive(2) [OF c] show ?thesis
    by (simp add: applyReceivedDeltaLocked_def delta_merged_def delta_before_def ok_def split_beta Let_def)
qed

lemma sum_Merge_changed:
  assumes "sum_peer_ok p"
  shows "advanced_of (snd (sum_Merge g p)) \<longleftrightarrow> sum_val (fst (sum_Merge g p)) \<noteq> sum_val g"
proof -
  have "a < b \<longleftrightarrow> max a b \<noteq> a" for a b :: u64 by (auto simp: max_def)
  then have "(\<exists>n. sum_val g n < sum_peer_val p n) \<longleftrightarrow> sum_join (sum_val g) (sum_peer_val p) \<noteq> sum_val g"
    by (simp only: sum_join_def fun_eq_iff not_all)
  then show ?thesis
    using sum_Merge_advanced [OF assms, of g] sum_Merge_val [OF assms, of g] by (simp add: advanced_of_def)
qed

lemma topk_Merge_changed:
  assumes "topk_wf s" "topk_peer_ok p"
  shows "advanced_of (snd (topk_Merge s p)) \<longleftrightarrow> tk_candidates (fst (topk_Merge s p)) \<noteq> tk_candidates s"
proof -
  obtain st where "topk_stateFrom p = Inr st" using assms(2) by (rule topk_peer_okD)
  from topk_Merge_ok [OF assms this] show ?thesis by (auto simp: advanced_of_def)
qed

lemma delta_merged_advanced:
  assumes "mg_wf m" "delta_good d"
  shows "snd (delta_merged m d) \<longleftrightarrow> mg_val (fst (delta_merged m d)) \<noteq> mg_val m"
proof (cases "DecodeSUMDelta d")
  case (Inr sd)
  then have "sum_peer_ok (SumPeerState \<lparr>ss_Contrib = Some [(sumd_NodeID sd, sumd_Value sd)], ss_Version = sd_DeltaVersion d\<rparr>)"
    using decode_exclusive(1) [OF Inr] by (simp add: sum_peer_ok_def sum_stateFrom_def mwf_def)
  from sum_Merge_changed [OF this, of "mg_sum m"] Inr show ?thesis
    by (simp add: delta_merged_def split_beta mg_val_def)
next
  case (Inl e)
  with assms(2) obtain c where c: "DecodeTOPKDelta d = Inr c" "cand_good c"
    by (auto simp: delta_good_def split: sum.splits)
  then have "topk_peer_ok (TopkPeerState \<lparr>ts_Candidates = [c], ts_Version = sd_DeltaVersion d\<rparr>)"
    using cand_good_ok by (simp add: topk_peer_ok_def topk_stateFrom_def)
  from topk_Merge_changed [OF _ this, of "mg_topk m"] assms(1) Inl c show ?thesis
    by (simp add: delta_merged_def split_beta mg_val_def mg_wf_def)
qed

text \<open>Rolling back restores both aggregates.\<close>

lemma rollbackSum_restores:
  assumes "mg_wf m" "mg_wf m'" "mg_nodeID m' = mg_nodeID m"
  shows "\<exists>g. rollbackSum (sum_Serialize (mg_sum m)) m' = (m'\<lparr>mg_sum := g\<rparr>, None) \<and>
    sum_wf g \<and> gc_nodeID g = mg_nodeID m \<and> sum_val g = sum_val (mg_sum m) \<and> gc_version g = gc_version (mg_sum m)"
proof -
  have w: "sum_wf (mg_sum m)" "sum_wf (mg_sum m')" "gc_nodeID (mg_sum m') = mg_nodeID m"
    using assms by (simp_all add: mg_wf_def)
  show ?thesis
    using sum_Deserialize_Serialize [OF w(1), of "mg_sum m'"] sum_Deserialize_wf [OF w(2), of "sum_Serialize (mg_sum m)"]
      sum_Deserialize_nodeID [of "mg_sum m'" "sum_Serialize (mg_sum m)"] w(3)
    by (auto simp: rollbackSum_def split_beta Let_def)
qed

lemma rollbackTopk_restores:
  assumes "mg_wf m" "kmax m' = kmax m" "topk_Serialize (mg_topk m) = Inr j"
  shows "rollbackTopk j m' = (m'\<lparr>mg_topk := mg_topk m\<rparr>, None)"
proof -
  have "topk_wf (mg_topk m)" using assms(1) by (simp add: mg_wf_def)
  from topk_checkPayload_Serialize [OF this assms(3)] canonicalize_canonical_id [OF mg_wf_topk [OF assms(1)]]
  have "topk_Deserialize (mg_topk m') j = (mg_topk m, None)"
    using assms(2) by (simp add: topk_Deserialize_def)
  then show ?thesis by (simp add: rollbackTopk_def)
qed

definition same_state :: "'j Manager \<Rightarrow> 'j Manager \<Rightarrow> bool" where
  "same_state m m' \<longleftrightarrow> mg_val m' = mg_val m \<and> gc_version (mg_sum m') = gc_version (mg_sum m) \<and>
     tk_version (mg_topk m') = tk_version (mg_topk m) \<and> mg_deltaSeq m' = mg_deltaSeq m \<and>
     mg_outbound m' = mg_outbound m \<and> mg_dropped m' = mg_dropped m \<and> mg_closed m' = mg_closed m"

lemma delta_merged_other:
  "mg_outbound (fst (delta_merged m d)) = mg_outbound m" "mg_dropped (fst (delta_merged m d)) = mg_dropped m"
  "mg_closed (fst (delta_merged m d)) = mg_closed m" "mg_journal (fst (delta_merged m d)) = mg_journal m"
  "mg_deltaSeq (fst (delta_merged m d)) = mg_deltaSeq m"
  "ok (DecodeSUMDelta d) \<Longrightarrow> mg_topk (fst (delta_merged m d)) = mg_topk m"
  "\<not> ok (DecodeSUMDelta d) \<Longrightarrow> mg_sum (fst (delta_merged m d)) = mg_sum m"
  by (auto simp: delta_merged_def split_beta Let_def split: sum.splits)

lemma delta_before_restores:
  assumes "mg_wf m" "delta_good d" "mg_wf m'" "same_frame m m'"
    and "ok (DecodeSUMDelta d) \<Longrightarrow> mg_topk m' = mg_topk m"
    and "\<not> ok (DecodeSUMDelta d) \<Longrightarrow> mg_sum m' = mg_sum m"
  obtains m3 where "delta_before m d m' = (m3, None)" "mg_wf m3" "same_frame m m3" "mg_val m3 = mg_val m"
    "gc_version (mg_sum m3) = gc_version (mg_sum m)" "tk_version (mg_topk m3) = tk_version (mg_topk m)"
    "mg_journal m3 = mg_journal m'" "mg_outbound m3 = mg_outbound m'" "mg_dropped m3 = mg_dropped m'"
    "mg_closed m3 = mg_closed m'"
proof (cases "ok (DecodeSUMDelta d)")
  case True
  from rollbackSum_restores [OF assms(1,3)] assms(4) obtain g where
    g: "rollbackSum (sum_Serialize (mg_sum m)) m' = (m'\<lparr>mg_sum := g\<rparr>, None)" "sum_wf g"
      "gc_nodeID g = mg_nodeID m" "sum_val g = sum_val (mg_sum m)" "gc_version g = gc_version (mg_sum m)"
    by (auto simp: same_frame_def)
  with True assms(3,4,5) show ?thesis
    by (intro that [of "m'\<lparr>mg_sum := g\<rparr>"])
      (simp_all add: delta_before_def mg_wf_def same_frame_def mg_val_def)
next
  case False
  obtain j where j: "topk_Serialize (mg_topk m) = Inr j" using assms(1) by (rule mg_wf_serializes)
  have "rollbackTopk j m' = (m'\<lparr>mg_topk := mg_topk m\<rparr>, None)"
    using assms(4) by (intro rollbackTopk_restores [OF assms(1) _ j]) (simp add: same_frame_def)
  with False j assms(1,3,4,6) show ?thesis
    by (intro that [of "m'\<lparr>mg_topk := mg_topk m\<rparr>"])
      (simp_all add: delta_before_def mg_wf_def same_frame_def mg_val_def)
qed

text \<open>What the journal saw, when an operation reports success or a persistence failure.\<close>

definition journaled :: "'j append_delta \<Rightarrow> 'j Manager \<Rightarrow> 'j Manager \<Rightarrow> StateDelta \<Rightarrow> bool" where
  "journaled jd m m' d \<longleftrightarrow>
     (case mg_journal m of None \<Rightarrow> mg_journal m' = None
      | Some j \<Rightarrow> snd (jd j d) = None \<and> mg_journal m' = Some (fst (jd j d)))"

definition journal_failed :: "'j append_delta \<Rightarrow> 'j Manager \<Rightarrow> 'j Manager \<Rightarrow> StateDelta \<Rightarrow> bool" where
  "journal_failed jd m m' d \<longleftrightarrow>
     (case mg_journal m of None \<Rightarrow> False
      | Some j \<Rightarrow> snd (jd j d) \<noteq> None \<and> mg_journal m' = Some (fst (jd j d)))"

lemma journaled_cong:
  assumes "mg_journal m = mg_journal n" "mg_journal m' = mg_journal n'"
  shows "journaled jd m m' d = journaled jd n n' d" "journal_failed jd m m' d = journal_failed jd n n' d"
  unfolding journaled_def journal_failed_def assms by (rule refl)+

lemma appendDelta_cases:
  "(snd (appendDelta jd m d) = None \<and> journaled jd m (fst (appendDelta jd m d)) d \<or>
    snd (appendDelta jd m d) = Some ErrPersistence \<and> journal_failed jd m (fst (appendDelta jd m d)) d) \<and>
   (\<exists>j. fst (appendDelta jd m d) = m\<lparr>mg_journal := j\<rparr>)"
proof (cases "mg_journal m")
  case None
  then have "fst (appendDelta jd m d) = m\<lparr>mg_journal := None\<rparr>" by (simp add: appendDelta_def)
  then have "\<exists>j. fst (appendDelta jd m d) = m\<lparr>mg_journal := j\<rparr>" by blast
  with None show ?thesis by (simp add: appendDelta_def journaled_def)
next
  case (Some j)
  then show ?thesis
    by (auto simp: appendDelta_def journaled_def journal_failed_def split_beta split: option.splits)
qed

lemma ApplyReceivedDelta_spec:
  assumes "mg_wf m" "delta_good d" "ApplyReceivedDelta jd m d = (m', r)"
  shows "mg_wf m' \<and> same_frame m m' \<and>
    (case r of
       Inr adv \<Rightarrow> mg_val m' = mg_join (kmax m) (mg_val m) (delta_val (kmax m) d) \<and>
         (adv \<longleftrightarrow> mg_val m' \<noteq> mg_val m) \<and>
         (if adv then journaled jd m m' d else mg_journal m' = mg_journal m)
     | Inl e \<Rightarrow> e = ErrPersistence \<and> same_state m m' \<and> journal_failed jd m m' d)"
proof -
  let ?m0 = "fst (delta_merged m d)" and ?adv = "snd (delta_merged m d)"
  define m1 where "m1 = (if sd_OriginNodeID d = mg_nodeID ?m0
      then ?m0\<lparr>mg_deltaSeq := advanceAtomic (mg_deltaSeq ?m0) (sd_DeltaSequence d)\<rparr> else ?m0)"
  have m1: "mg_wf m1" "same_frame m m1" "mg_val m1 = mg_join (kmax m) (mg_val m) (delta_val (kmax m) d)"
    "mg_journal m1 = mg_journal m" "mg_outbound m1 = mg_outbound m" "mg_dropped m1 = mg_dropped m"
    "mg_closed m1 = mg_closed m" "?adv \<longleftrightarrow> mg_val m1 \<noteq> mg_val m" "mg_topk m1 = mg_topk ?m0" "mg_sum m1 = mg_sum ?m0"
    using delta_merged_spec [OF assms(1,2)] delta_merged_other(1-5) [of m d] delta_merged_advanced [OF assms(1,2)]
    by (simp_all add: m1_def)
  have R: "ApplyReceivedDelta jd m d = finishReceived jd ?m0 d True ?adv (mg_deltaSeq m) (delta_before m d)"
    unfolding ApplyReceivedDelta_def by (rule applyReceived_good [OF assms(1,2)])
  show ?thesis
  proof (cases ?adv)
    case False
    with R assms(3) m1 show ?thesis by (simp add: finishReceived_def m1_def [symmetric] Let_def split: sum.splits)
  next
    case True
    obtain j where j: "fst (appendDelta jd m1 d) = m1\<lparr>mg_journal := j\<rparr>" using appendDelta_cases [of jd m1 d] by blast
    show ?thesis
    proof (cases "snd (appendDelta jd m1 d)")
      case None
      then have "journaled jd m1 (m1\<lparr>mg_journal := j\<rparr>) d" using appendDelta_cases [of jd m1 d] j by auto
      moreover have "(m', r) = (m1\<lparr>mg_journal := j\<rparr>, Inr True)"
        using R assms(3) True None j by (simp add: finishReceived_def m1_def [symmetric] Let_def split_beta)
      ultimately show ?thesis using m1 True by (simp add: journaled_def)
    next
      case (Some e)
      then have e: "e = ErrPersistence" "journal_failed jd m1 (m1\<lparr>mg_journal := j\<rparr>) d"
        using appendDelta_cases [of jd m1 d] j by auto
      let ?m2 = "m1\<lparr>mg_journal := j\<rparr>"
      have w: "mg_wf ?m2" "same_frame m ?m2" "ok (DecodeSUMDelta d) \<Longrightarrow> mg_topk ?m2 = mg_topk m"
        "\<not> ok (DecodeSUMDelta d) \<Longrightarrow> mg_sum ?m2 = mg_sum m"
        using m1 delta_merged_other(6,7) [of d] by simp_all
      obtain m3 where m3: "delta_before m d ?m2 = (m3, None)" "mg_wf m3" "same_frame m m3"
        "mg_val m3 = mg_val m" "gc_version (mg_sum m3) = gc_version (mg_sum m)"
        "tk_version (mg_topk m3) = tk_version (mg_topk m)" "mg_journal m3 = mg_journal ?m2"
        "mg_outbound m3 = mg_outbound ?m2" "mg_dropped m3 = mg_dropped ?m2" "mg_closed m3 = mg_closed ?m2"
        by (rule delta_before_restores [OF assms(1,2) w])
      have "(m', r) = (m3\<lparr>mg_deltaSeq := mg_deltaSeq m\<rparr>, Inl e)"
        using R assms(3) True Some m3(1) j by (simp add: finishReceived_def m1_def [symmetric] Let_def split_beta)
      then show ?thesis
        using m3 e m1(4-7) by (simp add: same_state_def journal_failed_def split: option.splits)
    qed
  qed
qed

text \<open>Deltas that are not taken in.\<close>

lemma advanceAtomic_max: "advanceAtomic a b = max a b"
  by (auto simp: advanceAtomic_def max_def)

lemma received_undecodable:
  assumes "\<not> ok (DecodeSUMDelta d)" "\<not> ok (DecodeTOPKDelta d)"
  shows "fst (ApplyReceivedDelta jd m d) = m" "\<exists>e. snd (ApplyReceivedDelta jd m d) = Inl e"
  using assms by (auto simp: ApplyReceivedDelta_def applyReceivedDeltaLocked_def ok_def split: sum.splits)

lemma received_rejected:
  assumes "mg_wf m" "DecodeTOPKDelta d = Inr c" "topk_validateCandidate c \<noteq> None"
  shows "ApplyReceivedDelta jd m d =
    (m\<lparr>mg_deltaSeq := (if sd_OriginNodeID d = mg_nodeID m then max (mg_deltaSeq m) (sd_DeltaSequence d) else mg_deltaSeq m)\<rparr>, Inr False)"
proof -
  obtain j where j: "topk_Serialize (mg_topk m) = Inr j" using assms(1) by (rule mg_wf_serializes)
  have "topk_Merge (mg_topk m) (TopkPeerState \<lparr>ts_Candidates = [c], ts_Version = v\<rparr>) = (mg_topk m, Inl e)"
    if "topk_validateCandidate c = Some e" for v e using that by (simp add: topk_Merge_def topk_stateFrom_def)
  with j assms(2,3) decode_exclusive(2) [OF assms(2)] show ?thesis
    by (auto simp: ApplyReceivedDelta_def applyReceivedDeltaLocked_def finishReceived_def advanced_of_def advanceAtomic_max Let_def)
qed

text \<open>A tame delta is good, or the manager keeps its value.\<close>

lemma received_not_good:
  assumes "mg_wf m" "delta_tame d" "\<not> delta_good d" "ApplyReceivedDelta jd m d = (m', r)"
  shows "mg_wf m'" "same_frame m m'" "mg_val m' = mg_val m" "mg_journal m' = mg_journal m"
proof -
  have "m' = m \<or> (\<exists>q. m' = m\<lparr>mg_deltaSeq := q\<rparr>)"
  proof (cases "DecodeTOPKDelta d")
    case (Inl e)
    then have "\<not> ok (DecodeSUMDelta d)" using assms(3) by (simp add: delta_good_def)
    with Inl received_undecodable(1) [of d jd m] assms(4) show ?thesis by (simp add: ok_def)
  next
    case (Inr c)
    with assms(2,3) have "topk_validateCandidate c \<noteq> None" by (auto simp: delta_tame_def delta_good_def)
    with received_rejected [OF assms(1) Inr this, of jd] assms(4) show ?thesis by auto
  qed
  with assms(1) show "mg_wf m'" "same_frame m m'" "mg_val m' = mg_val m" "mg_journal m' = mg_journal m" by auto
qed

lemma ReplayDelta_spec:
  assumes "mg_wf m" "delta_good d"
  shows "mg_wf (fst (ReplayDelta jd m d))" "same_frame m (fst (ReplayDelta jd m d))"
    "mg_val (fst (ReplayDelta jd m d)) = mg_join (kmax m) (mg_val m) (delta_val (kmax m) d)"
    "snd (ReplayDelta jd m d) = None"
  using delta_merged_spec [OF assms]
  by (simp_all add: ReplayDelta_def applyReceived_good [OF assms] finishReceived_def split_beta Let_def)

lemma applySnapshotSum_spec:
  assumes "mg_wf m" "snap_good s"
  obtains m1 a where "applySnapshotSum m (srp_SUMState s) = (m1, Inr a)" "mg_wf m1" "same_frame m m1"
    "mg_val m1 = mg_join (kmax m) (mg_val m) (fst (snap_val (kmax m) s), [])" "mg_deltaSeq m1 = mg_deltaSeq m"
proof (cases "srp_SUMState s")
  case None
  then show ?thesis
    using assms(1) topk_join_Nil [OF mg_wf_topk [OF assms(1)]]
    by (intro that [of m False])
      (simp_all add: applySnapshotSum_def snap_val_def mg_join_def mg_val_def sum_join_def)
next
  case (Some j)
  with assms(2) obtain st where st: "sum_StateFromSerialized j = Inr st"
    by (auto simp: snap_good_def ok_def split: sum.splits)
  note p = sum_StateFromSerialized_ok [OF st]
  obtain a where "snd (sum_Merge (mg_sum m) (SumPeerState st)) = Inr a"
    using mg_merge_sum(4) [OF assms(1) p] by (cases "snd (sum_Merge (mg_sum m) (SumPeerState st))") auto
  with mg_merge_sum(1,2,3) [OF assms(1) p] Some st show ?thesis
    by (intro that [of "m\<lparr>mg_sum := fst (sum_Merge (mg_sum m) (SumPeerState st))\<rparr>" a])
      (simp_all add: applySnapshotSum_def snap_val_def split_beta)
qed

lemma applySnapshotTopk_spec:
  assumes "mg_wf m" "snap_good s"
  obtains m1 a where "applySnapshotTopk m (srp_TOPKState s) = (m1, Inr a)" "mg_wf m1" "same_frame m m1"
    "mg_val m1 = mg_join (kmax m) (mg_val m) (\<lambda>_. 0, snd (snap_val (kmax m) s))" "mg_deltaSeq m1 = mg_deltaSeq m"
proof (cases "srp_TOPKState s")
  case None
  then show ?thesis
    using assms(1) topk_join_Nil [OF mg_wf_topk [OF assms(1)]]
    by (intro that [of m False])
      (simp_all add: applySnapshotTopk_def snap_val_def mg_join_def mg_val_def sum_join_def)
next
  case (Some j)
  with assms(2) obtain st where st: "topk_StateFromSerialized j = Inr st" "list_all cand_good (ts_Candidates st)"
    by (auto simp: snap_good_def split: sum.splits)
  have p: "topk_stateFrom (TopkPeerState st) = Inr st" by (simp add: topk_stateFrom_def)
  obtain a where "snd (topk_Merge (mg_topk m) (TopkPeerState st)) = Inr a"
    using mg_merge_topk(4) [OF assms(1) p st(2)] by (cases "snd (topk_Merge (mg_topk m) (TopkPeerState st))") auto
  with mg_merge_topk(1,2,3) [OF assms(1) p st(2)] Some st show ?thesis
    by (intro that [of "m\<lparr>mg_topk := fst (topk_Merge (mg_topk m) (TopkPeerState st))\<rparr>" a])
      (simp_all add: applySnapshotTopk_def snap_val_def split_beta)
qed

lemma snap_val_carrier: "snap_good s \<Longrightarrow> 0 < k \<Longrightarrow> mg_carrier k (snap_val k s)"
  using canonicalize_canonical [of "[]" k]
  by (auto simp: mg_carrier_def snap_val_def snap_good_def list_all_iff cand_good_ok
      intro!: canonicalize_canonical split: option.splits sum.splits)

lemma delta_val_carrier: "delta_good d \<Longrightarrow> 0 < k \<Longrightarrow> mg_carrier k (delta_val k d)"
  using canonicalize_canonical [of "[]" k]
  by (auto simp: mg_carrier_def delta_val_def delta_good_def cand_good_ok
      intro!: canonicalize_canonical split: sum.splits)

lemma applySnapshotLocked_spec:
  assumes "mg_wf m" "snap_good s"
  obtains m' a where "applySnapshotLocked m s = (m', Inr a)" "mg_wf m'" "same_frame m m'"
    "mg_val m' = mg_join (kmax m) (mg_val m) (snap_val (kmax m) s)"
    "mg_deltaSeq m' = advanceAtomic (mg_deltaSeq m) (seq_get (srp_DeltaSequences s) (mg_nodeID m))"
proof -
  obtain m1 a where a: "applySnapshotSum m (srp_SUMState s) = (m1, Inr a)" "mg_wf m1" "same_frame m m1"
    "mg_val m1 = mg_join (kmax m) (mg_val m) (fst (snap_val (kmax m) s), [])" "mg_deltaSeq m1 = mg_deltaSeq m"
    using assms by (rule applySnapshotSum_spec)
  obtain m2 b where b: "applySnapshotTopk m1 (srp_TOPKState s) = (m2, Inr b)" "mg_wf m2" "same_frame m1 m2"
    "mg_val m2 = mg_join (kmax m1) (mg_val m1) (\<lambda>_. 0, snd (snap_val (kmax m1) s))" "mg_deltaSeq m2 = mg_deltaSeq m1"
    using a(2) assms(2) by (rule applySnapshotTopk_spec)
  have k: "kmax m1 = kmax m" using a(3) by (simp add: same_frame_def)
  have "mg_val m2 = mg_join (kmax m) (mg_val m) (snap_val (kmax m) s)"
    unfolding b(4) a(4) k using topk_join_Nil [OF mg_wf_topk [OF assms(1)]]
    by (simp add: mg_join_def sum_join_def mg_val_def)
  then show ?thesis
    using a b same_frame_trans [OF a(3) b(3)]
    by (intro that [of "m2\<lparr>mg_deltaSeq := advanceAtomic (mg_deltaSeq m2) (seq_get (srp_DeltaSequences s) (mg_nodeID m))\<rparr>" "a \<or> b"])
      (simp_all add: applySnapshotLocked_def)
qed

lemma ReplaySnapshot_spec:
  assumes "mg_wf m" "snap_good s"
  shows "mg_wf (fst (ReplaySnapshot m s))" "same_frame m (fst (ReplaySnapshot m s))"
    "mg_val (fst (ReplaySnapshot m s)) = mg_join (kmax m) (mg_val m) (snap_val (kmax m) s)"
proof -
  obtain m' a where "applySnapshotLocked m s = (m', Inr a)" "mg_wf m'" "same_frame m m'"
    "mg_val m' = mg_join (kmax m) (mg_val m) (snap_val (kmax m) s)"
    using assms by (rule applySnapshotLocked_spec)
  then show "mg_wf (fst (ReplaySnapshot m s))" "same_frame m (fst (ReplaySnapshot m s))"
    "mg_val (fst (ReplaySnapshot m s)) = mg_join (kmax m) (mg_val m) (snap_val (kmax m) s)"
    by (simp_all add: ReplaySnapshot_def)
qed

interpretation mg_replica:
  replica "mg_join k" "mg_carrier k" mg_val "\<lambda>m. mg_wf m \<and> kmax m = k" "mut_val k" "\<lambda>u. mut_good u \<and> 0 < k"
    "apply_mutation jd" for k and jd :: "'j append_delta"
proof unfold_locales
  fix m :: "'j Manager" and u
  assume m: "mg_wf m \<and> kmax m = k"
  then show "mg_carrier k (mg_val m)" using mg_wf_topk [of m] by (simp add: mg_carrier_def mg_val_def)
  assume u: "mut_good u \<and> 0 < k"
  show "mg_wf (apply_mutation jd m u) \<and> kmax (apply_mutation jd m u) = k"
    "mg_val (apply_mutation jd m u) = mg_join k (mg_val m) (mut_val k u)"
    using m u ReplayDelta_spec [of m _ jd] ReplaySnapshot_spec [of m]
    by (cases u; auto simp: same_frame_def)+
next
  fix u assume "mut_good u \<and> 0 < k"
  then show "mg_carrier k (mut_val k u)" by (cases u) (auto simp: delta_val_carrier snap_val_carrier)
qed

section \<open>Local updates\<close>

lemma enqueue_frame [simp]:
  "mg_sum (enqueue m d) = mg_sum m" "mg_topk (enqueue m d) = mg_topk m" "mg_nodeID (enqueue m d) = mg_nodeID m"
  "mg_journal (enqueue m d) = mg_journal m" "mg_deltaSeq (enqueue m d) = mg_deltaSeq m"
  "mg_capacity (enqueue m d) = mg_capacity m"
  by (simp_all add: enqueue_def)

lemma enqueue_wf: "mg_wf m \<Longrightarrow> mg_wf (enqueue m d)"
  by (auto simp: mg_wf_def enqueue_def)

text \<open>A delta that was produced is queued, or counted as dropped when the queue is full or closed.\<close>

definition queued :: "'j Manager \<Rightarrow> 'j Manager \<Rightarrow> StateDelta \<Rightarrow> bool" where
  "queued m m' d \<longleftrightarrow>
     (if mg_closed m \<or> length (mg_outbound m) = mg_capacity m
      then mg_outbound m' = mg_outbound m \<and> mg_dropped m' = mg_dropped m + 1
      else mg_outbound m' = mg_outbound m @ [d] \<and> mg_dropped m' = mg_dropped m)"

lemma enqueue_queued:
  assumes "mg_wf m" "mg_outbound m2 = mg_outbound m" "mg_dropped m2 = mg_dropped m"
    "mg_closed m2 = mg_closed m" "mg_capacity m2 = mg_capacity m"
  shows "queued m (enqueue m2 d) d"
  using assms by (auto simp: queued_def enqueue_def mg_wf_def)

text \<open>The form of the deltas a local \<open>SUM\<close> update produces.\<close>

definition sum_delta :: "string \<Rightarrow> StateDelta \<Rightarrow> bool" where
  "sum_delta n d \<longleftrightarrow>
     (\<exists>v q x. d = \<lparr>sd_AggregateType = AggregateSUM, sd_DeltaVersion = v, sd_OriginNodeID = n, sd_DeltaSequence = q,
        sd_Delta = Some (enc_SUMDelta \<lparr>sumd_NodeID = n, sumd_Value = x\<rparr>)\<rparr>)"

lemma applyLocalSUM_spec:
  assumes "mg_wf m" "applyLocalSUM jd m v = (m', r)"
  shows "mg_wf m' \<and> same_frame m m' \<and>
    (case r of
       Inl e \<Rightarrow> same_state m m' \<and>
         (e = SumErrInvalidIncrement \<and> m' = m \<or> e = SumErrOverflow \<and> m' = m \<or>
          e = ErrPersistence \<and> (\<exists>d. journal_failed jd m m' d \<and> sum_delta (mg_nodeID m) d))
     | Inr (d, adv) \<Rightarrow> adv \<and>
         (\<exists>i. sum_incrementFrom v = Inr i \<and>
              unat (sum_val (mg_sum m') (mg_nodeID m)) = unat (sum_val (mg_sum m) (mg_nodeID m)) + unat i) \<and>
         (\<forall>n. n \<noteq> mg_nodeID m \<longrightarrow> sum_val (mg_sum m') n = sum_val (mg_sum m) n) \<and>
         mg_topk m' = mg_topk m \<and>
         DecodeSUMDelta d = Inr \<lparr>sumd_NodeID = mg_nodeID m, sumd_Value = sum_val (mg_sum m') (mg_nodeID m)\<rparr> \<and>
         sd_DeltaVersion d = gc_version (mg_sum m') \<and> sd_OriginNodeID d = mg_nodeID m \<and>
         sd_DeltaSequence d = mg_deltaSeq m + 1 \<and> mg_deltaSeq m' = mg_deltaSeq m + 1 \<and>
         journaled jd m m' d \<and> queued m m' d \<and> sum_delta (mg_nodeID m) d)"
proof -
  let ?g = "mg_sum m" and ?n = "mg_nodeID m"
  have w: "sum_wf ?g" "gc_nodeID ?g = ?n" "ValidNodeID ?n" using assms(1) by (simp_all add: mg_wf_def)
  show ?thesis
  proof (cases "snd (sum_Update ?g v)")
    case (Inl e)
    then have u: "sum_Update ?g v = (?g, Inl e)" "e = SumErrInvalidIncrement \<or> e = SumErrOverflow"
      by (auto simp: sum_Update_cases sum_incrementFrom_def split: sum.splits go_any.splits if_splits)
    then have "(m', r) = (m, Inl e)" using assms(2) by (simp add: applyLocalSUM_def)
    with u(2) assms(1) show ?thesis by (auto simp: same_state_def)
  next
    case (Inr a)
    then obtain i g where i: "sum_incrementFrom v = Inr i" "sum_Update ?g v = (g, Inr True)"
      "unat (sum_val ?g ?n) + unat i < 2 ^ 64"
      "g = ?g\<lparr>gc_contrib := mput ?n (sum_val ?g ?n + i) (gc_contrib ?g), gc_version := gc_version ?g + 1\<rparr>"
      using w(2) by (auto simp: sum_Update_cases split: sum.splits if_splits)
    have gv: "sum_val g n = (if n = ?n then sum_val ?g ?n + i else sum_val ?g n)" for n
      by (simp add: i(4) sum_val_def)
    have gw: "sum_wf g" "gc_nodeID g = ?n" using sum_Update_wf [OF w(1), of v] i(2,4) w(2) by simp_all
    have own: "mget 0 (sum_cloneContrib (gc_contrib g)) ?n = sum_val g ?n"
      using mget_cong [OF map_of_cloneContrib, of "gc_contrib g" 0] gw(1) by (simp add: sum_wf_def sum_val_def)
    define d where "d = \<lparr>sd_AggregateType = AggregateSUM, sd_DeltaVersion = gc_version g, sd_OriginNodeID = ?n,
        sd_DeltaSequence = mg_deltaSeq m + 1,
        sd_Delta = Some (enc_SUMDelta \<lparr>sumd_NodeID = ?n, sumd_Value = sum_val g ?n\<rparr>)\<rparr>"
    have sd: "sum_delta ?n d" by (auto simp: d_def sum_delta_def)
    define m2 where "m2 = m\<lparr>mg_sum := g, mg_deltaSeq := mg_deltaSeq m + 1\<rparr>"
    have m2: "mg_wf m2" "same_frame m m2" using assms(1) gw by (simp_all add: m2_def mg_wf_def same_frame_def)
    have dd: "DecodeSUMDelta d = Inr \<lparr>sumd_NodeID = ?n, sumd_Value = sum_val g ?n\<rparr>"
      using w(3) by (simp add: d_def DecodeSUMDelta_def unmarshal_raw_def)
    have R: "applyLocalSUM jd m v =
        (let (m3, e) = appendDelta jd m2 d
         in case e of
              Some err \<Rightarrow> (m3\<lparr>mg_sum := fst (sum_Deserialize (mg_sum m3) (sum_Serialize ?g)), mg_deltaSeq := mg_deltaSeq m\<rparr>, Inl err)
            | None \<Rightarrow> (enqueue m3 d, Inr (d, True)))"
      unfolding d_def m2_def applyLocalSUM_def using w(3) i(2) own
      by (simp add: Let_def sum_getState_def NewSUMStateDelta_def)
    obtain j where j: "fst (appendDelta jd m2 d) = m2\<lparr>mg_journal := j\<rparr>" using appendDelta_cases [of jd m2 d] by blast
    show ?thesis
    proof (cases "snd (appendDelta jd m2 d)")
      case None
      then have "journaled jd m2 (m2\<lparr>mg_journal := j\<rparr>) d" using appendDelta_cases [of jd m2 d] j by auto
      then have jn: "journaled jd m (enqueue (m2\<lparr>mg_journal := j\<rparr>) d) d"
        using journaled_cong(1) [of m2 m "m2\<lparr>mg_journal := j\<rparr>" "enqueue (m2\<lparr>mg_journal := j\<rparr>) d"]
        by (simp add: m2_def)
      have mr: "m' = enqueue (m2\<lparr>mg_journal := j\<rparr>) d" "r = Inr (d, True)"
        using assms(2) R None j by (simp_all add: split_beta Let_def)
      have q: "queued m m' d" unfolding mr by (rule enqueue_queued [OF assms(1)]) (simp_all add: m2_def)
      have wf: "mg_wf m'" unfolding mr by (rule enqueue_wf) (use m2 in simp)
      have fr: "same_frame m m'" using m2(2) by (simp add: mr same_frame_def)
      have ex: "mg_sum m' = g" "mg_topk m' = mg_topk m" "mg_deltaSeq m' = mg_deltaSeq m + 1"
        "sd_DeltaVersion d = gc_version g" "sd_OriginNodeID d = ?n" "sd_DeltaSequence d = mg_deltaSeq m + 1"
        by (simp_all add: mr m2_def d_def)
      have "unat (sum_val g ?n) = unat (sum_val ?g ?n) + unat i" using i(3) by (simp add: gv unat_add_no_wrap)
      with wf fr ex jn q dd gv i(1) sd show ?thesis by (simp add: mr(2) flip: mr(1))
    next
      case (Some e)
      then have e: "e = ErrPersistence" "journal_failed jd m2 (m2\<lparr>mg_journal := j\<rparr>) d"
        using appendDelta_cases [of jd m2 d] j by auto
      define h where "h = fst (sum_Deserialize g (sum_Serialize ?g))"
      have h: "fst (sum_Deserialize g (sum_Serialize ?g)) = h" "sum_wf h" "gc_nodeID h = ?n"
        "sum_val h = sum_val ?g" "gc_version h = gc_version ?g"
        using sum_Deserialize_Serialize [OF w(1), of g] sum_Deserialize_wf [OF gw(1)] gw(2)
        by (simp_all add: h_def)
      have mr: "m' = m2\<lparr>mg_journal := j, mg_sum := h, mg_deltaSeq := mg_deltaSeq m\<rparr>" "r = Inl ErrPersistence"
        using assms(2) R Some j h(1) e(1) by (simp_all add: split_beta Let_def m2_def)
      have jf: "journal_failed jd m m' d"
        using e(2) journaled_cong(2) [of m2 m "m2\<lparr>mg_journal := j\<rparr>" m'] by (simp add: mr m2_def)
      show ?thesis using jf assms(1) h sd
        by (auto simp: mr m2_def mg_wf_def same_frame_def same_state_def mg_val_def)
    qed
  qed
qed

section \<open>Snapshots\<close>

lemma sum_StateFromSerialized_Serialize:
  assumes "sum_wf g"
  obtains st where "sum_StateFromSerialized (sum_Serialize g) = Inr st"
    "sum_peer_val (SumPeerState st) = sum_val g" "ss_Version st = gc_version g"
proof -
  let ?c = "sum_cloneContrib (sorted_items (sum_cloneContrib (gc_contrib g)))"
  have g: "mwf (gc_contrib g)" using assms by (simp add: sum_wf_def)
  have "map_of ?c = map_of (gc_contrib g)" using g by (simp add: map_of_sorted_items)
  from mget_cong [OF this, of 0] show ?thesis
    by (intro that [of "\<lparr>ss_Contrib = Some ?c, ss_Version = gc_version g\<rparr>"])
      (simp_all add: sum_StateFromSerialized_def sum_checkPayload_Serialize [OF assms] sum_peer_val_def
        sum_stateFrom_def sum_val_def)
qed

lemma snapshot_full:
  assumes "mg_wf m"
  obtains s j where "snapshotLocked now m [AggregateSUM, AggregateTOPK] = Inr s"
    "srp_SUMState s = Some (sum_Serialize (mg_sum m))" "srp_TOPKState s = Some j"
    "topk_Serialize (mg_topk m) = Inr j" "srp_DeltaSequences s = ownSequence m"
    "srp_CreatedAt s = time_UTC now"
proof -
  obtain j where j: "topk_Serialize (mg_topk m) = Inr j" using assms by (rule mg_wf_serializes)
  then show ?thesis
    by (intro that [of "\<lparr>srp_SnapshotVersion = maxUint64 (maxUint64 0 (gc_version (mg_sum m))) (tk_version (mg_topk m)),
        srp_SUMState = Some (sum_Serialize (mg_sum m)), srp_TOPKState = Some j,
        srp_DeltaSequences = ownSequence m, srp_CreatedAt = time_UTC now\<rparr>" j])
      (simp_all add: snapshotLocked_def sum_getState_def topk_getState_def)
qed

lemma snapshot_full_val:
  assumes "mg_wf m" "srp_SUMState s = Some (sum_Serialize (mg_sum m))" "srp_TOPKState s = Some j"
    "topk_Serialize (mg_topk m) = Inr j"
  shows "snap_good s \<and> snap_val (kmax m) s = mg_val m"
proof -
  have w: "sum_wf (mg_sum m)" "topk_wf (mg_topk m)" "list_all cand_good (tk_candidates (mg_topk m))"
    using assms(1) by (simp_all add: mg_wf_def)
  obtain st where st: "sum_StateFromSerialized (sum_Serialize (mg_sum m)) = Inr st"
    "sum_peer_val (SumPeerState st) = sum_val (mg_sum m)"
    using w(1) by (rule sum_StateFromSerialized_Serialize)
  have "topk_StateFromSerialized j = Inr \<lparr>ts_Candidates = tk_candidates (mg_topk m), ts_Version = tk_version (mg_topk m)\<rparr>"
    using topk_checkPayload_Serialize [OF w(2) assms(4)] by (simp add: topk_StateFromSerialized_def)
  with st assms w(3) canonicalize_canonical_id [OF mg_wf_topk [OF assms(1)]] show ?thesis
    by (simp add: snap_good_def snap_val_def mg_val_def)
qed

lemma ownSequence_get: "seq_get (ownSequence m) (mg_nodeID m) = mg_deltaSeq m"
  by (simp add: seq_get_def ownSequence_def word_gt_0)

lemma applySnapshot_other:
  "mg_outbound (fst (applySnapshotLocked m s)) = mg_outbound m" "mg_dropped (fst (applySnapshotLocked m s)) = mg_dropped m"
  "mg_closed (fst (applySnapshotLocked m s)) = mg_closed m" "mg_journal (fst (applySnapshotLocked m s)) = mg_journal m"
  by (auto simp: applySnapshotLocked_def applySnapshotSum_def applySnapshotTopk_def split_beta Let_def
      split: sum.splits option.splits prod.splits)

text \<open>Snapshots that are not taken in, and the one that is taken in half and not journaled.\<close>

lemma snapshot_refused:
  assumes "mg_wf m" "snap_tame s" "\<not> snap_good s" "\<not> half_valid s"
  shows "fst (ApplySnapshot js m s) = m" "\<not> ok (snd (ApplySnapshot js m s))"
proof -
  obtain t where t: "topk_Serialize (mg_topk m) = Inr t" using assms(1) by (rule mg_wf_serializes)
  consider j e where "srp_SUMState s = Some j" "sum_StateFromSerialized j = Inl e"
    | j e where "srp_SUMState s = None" "srp_TOPKState s = Some j" "topk_StateFromSerialized j = Inl e"
    using assms(2-4) by (auto simp: snap_good_def snap_tame_def half_valid_def ok_def split: option.splits sum.splits)
  then show "fst (ApplySnapshot js m s) = m" "\<not> ok (snd (ApplySnapshot js m s))"
    using t by (cases; auto simp: ApplySnapshot_def applySnapshotLocked_def applySnapshotSum_def applySnapshotTopk_def ok_def)+
qed

lemma half_valid_snapshot:
  assumes "mg_wf m" "half_valid s" "ApplySnapshot js m s = (m', r)"
  shows "mg_wf m'" "same_frame m m'" "\<not> ok r" "mg_journal m' = mg_journal m"
    "mg_val m' = mg_join (kmax m) (mg_val m) (fst (snap_val (kmax m) s), [])"
proof -
  obtain t where t: "topk_Serialize (mg_topk m) = Inr t" using assms(1) by (rule mg_wf_serializes)
  let ?s = "s\<lparr>srp_TOPKState := None\<rparr>"
  have g: "snap_good ?s" using assms(2) by (auto simp: half_valid_def snap_good_def split: option.splits)
  obtain m1 a where m1: "applySnapshotSum m (srp_SUMState ?s) = (m1, Inr a)" "mg_wf m1" "same_frame m m1"
    "mg_val m1 = mg_join (kmax m) (mg_val m) (fst (snap_val (kmax m) ?s), [])" "mg_deltaSeq m1 = mg_deltaSeq m"
    using assms(1) g by (rule applySnapshotSum_spec)
  obtain j e where "srp_TOPKState s = Some j" "topk_StateFromSerialized j = Inl e"
    using assms(2) by (auto simp: half_valid_def ok_def split: option.splits sum.splits)
  then have "(m', r) = (m1, Inl e)"
    using assms(3) t m1(1) by (simp add: ApplySnapshot_def applySnapshotLocked_def applySnapshotTopk_def)
  moreover have "mg_journal m1 = mg_journal m"
    using m1(1) by (auto simp: applySnapshotSum_def split_beta split: option.splits sum.splits)
  ultimately show "mg_wf m'" "same_frame m m'" "\<not> ok r" "mg_journal m' = mg_journal m"
    "mg_val m' = mg_join (kmax m) (mg_val m) (fst (snap_val (kmax m) s), [])"
    using m1 by (auto simp: ok_def snap_val_def)
qed

lemma ApplySnapshot_spec:
  assumes "mg_wf m" "snap_good s" "ApplySnapshot js m s = (m', r)"
  shows "mg_wf m' \<and> same_frame m m' \<and>
    (case r of
       Inr adv \<Rightarrow> mg_val m' = mg_join (kmax m) (mg_val m) (snap_val (kmax m) s)
     | Inl e \<Rightarrow> e = ErrPersistence \<and> same_state m m')"
proof -
  obtain j where j: "topk_Serialize (mg_topk m) = Inr j" using assms(1) by (rule mg_wf_serializes)
  obtain m1 a where m1: "applySnapshotLocked m s = (m1, Inr a)" "mg_wf m1" "same_frame m m1"
    "mg_val m1 = mg_join (kmax m) (mg_val m) (snap_val (kmax m) s)"
    using assms(1,2) by (rule applySnapshotLocked_spec)
  have o: "mg_outbound m1 = mg_outbound m" "mg_dropped m1 = mg_dropped m" "mg_closed m1 = mg_closed m"
    using applySnapshot_other [of m s] m1(1) by simp_all
  obtain q e where q: "appendSnapshot js m1 s = (m1\<lparr>mg_journal := q\<rparr>, e)" "e = None \<or> e = Some ErrPersistence"
  proof (cases "mg_journal m1")
    case None
    then have "m1 = m1\<lparr>mg_journal := None\<rparr>" by simp
    with None that [of None None] show ?thesis by (simp add: appendSnapshot_def)
  next
    case (Some x)
    with that [of "Some (fst (js x s))" "case snd (js x s) of None \<Rightarrow> None | Some _ \<Rightarrow> Some ErrPersistence"]
    show ?thesis by (auto simp: appendSnapshot_def split_beta Let_def split: option.splits)
  qed
  show ?thesis
  proof (cases "a \<and> e \<noteq> None")
    case False
    with assms(3) j m1 q have "m' = m1 \<or> m' = m1\<lparr>mg_journal := q\<rparr>" "\<exists>b. r = Inr b"
      by (auto simp: ApplySnapshot_def Let_def split: if_splits)
    with m1 show ?thesis by auto
  next
    case True
    let ?m2 = "m1\<lparr>mg_journal := q\<rparr>"
    have "mg_wf ?m2" "mg_nodeID ?m2 = mg_nodeID m" using m1 by (simp_all add: same_frame_def)
    from rollbackSum_restores [OF assms(1) this] obtain g where
      g: "rollbackSum (sum_Serialize (mg_sum m)) ?m2 = (?m2\<lparr>mg_sum := g\<rparr>, None)" "sum_wf g"
        "gc_nodeID g = mg_nodeID m" "sum_val g = sum_val (mg_sum m)" "gc_version g = gc_version (mg_sum m)" by blast
    have t: "rollbackTopk j (?m2\<lparr>mg_sum := g\<rparr>) = (?m2\<lparr>mg_sum := g, mg_topk := mg_topk m\<rparr>, None)"
      using m1(3) by (subst rollbackTopk_restores [OF assms(1) _ j]) (simp_all add: same_frame_def)
    have "m' = ?m2\<lparr>mg_sum := g, mg_topk := mg_topk m, mg_deltaSeq := mg_deltaSeq m\<rparr>" "r = Inl ErrPersistence"
      using assms(3) j m1(1) q True g(1) t by (auto simp: ApplySnapshot_def Let_def)
    with g(2-5) assms(1) m1(2,3) o show ?thesis
      by (simp add: mg_wf_def same_frame_def same_state_def mg_val_def)
  qed
qed

section \<open>Properties\<close>

lemma topk_Estimate_cong:
  assumes "tk_candidates s = tk_candidates t" "tk_kmax s = tk_kmax t"
  shows "topk_Estimate s opts = topk_Estimate t opts"
  unfolding topk_Estimate_def topk_optsK_def assms by (rule refl)

definition replay :: "'j append_delta \<Rightarrow> 'j Manager \<Rightarrow> mutation list \<Rightarrow> 'j Manager" where
  "replay jd m us = foldl (apply_mutation jd) m us"

lemma pipe_New_wf:
  "pipe_New c = Inr m \<Longrightarrow> mg_wf m \<and> kmax m = pc_TopKMax c \<and> mg_nodeID m = pc_NodeID c"
  by (auto simp: pipe_New_def sum_New_def topk_New_def mg_wf_def sum_wf_def topk_wf_def topk_canonical_def
      mwf_def mhas_def split: if_splits)

text \<open>
  C1. Replaying a log is order-independent: two managers with the same bound that applied the same
  set of accepted mutations (deltas or snapshots), in any order and with any repetition, hold the
  same contributions and the same candidates, answer every query alike and offer anti-entropy the
  same values.
\<close>

theorem pipeline_convergence:
  fixes m n :: "'j Manager"
  assumes "mg_wf m" "mg_wf n" "kmax m = kmax n" "list_all mut_good us" "list_all mut_good vs"
    and "insert (mg_val m) (mut_val (kmax m) ` set us) = insert (mg_val n) (mut_val (kmax m) ` set vs)"
  shows "mg_val (replay jd m us) = mg_val (replay jd n vs) \<and>
    pipe_Estimates (replay jd m us) q = pipe_Estimates (replay jd n vs) q"
proof -
  have k: "0 < kmax m" using topk_canonicalD(3) [OF mg_wf_topk [OF assms(1)]] .
  have g: "list_all (\<lambda>u. mut_good u \<and> 0 < kmax m) us" "list_all (\<lambda>u. mut_good u \<and> 0 < kmax m) vs"
    using assms(4,5) k by (auto simp: list_all_iff)
  have m: "mg_wf m \<and> kmax m = kmax m" and n: "mg_wf n \<and> kmax n = kmax m" using assms(1,2,3) by auto
  have v: "mg_val (replay jd m us) = mg_val (replay jd n vs)"
    unfolding replay_def using mg_replica.converge [OF m g(1) n g(2) assms(6)] .
  have wf: "mg_wf (replay jd m us) \<and> kmax (replay jd m us) = kmax m"
    "mg_wf (replay jd n vs) \<and> kmax (replay jd n vs) = kmax m"
    unfolding replay_def using mg_replica.inv_deliver [OF m g(1)] mg_replica.inv_deliver [OF n g(2)] by auto
  then have "sum_Estimate (mg_sum (replay jd m us)) = sum_Estimate (mg_sum (replay jd n vs))"
    using v by (intro sum_Estimate_cong) (auto simp: mg_wf_def mg_val_def)
  moreover have "topk_Estimate (mg_topk (replay jd m us)) (OptsInt q) = topk_Estimate (mg_topk (replay jd n vs)) (OptsInt q)"
    using v wf by (intro topk_Estimate_cong) (auto simp: mg_val_def)
  ultimately have "pipe_Estimates (replay jd m us) q = pipe_Estimates (replay jd n vs) q"
    unfolding pipe_Estimates_def by (simp only:)
  with v show ?thesis by (rule conjI)
qed

definition ex_config :: pipe_Config where
  "ex_config = \<lparr>pc_NodeID = ''a'', pc_TopKMax = 2, pc_OutboundQueueSize = 4\<rparr>"

definition ex_manager :: "unit Manager" where
  "ex_manager = \<lparr>mg_nodeID = ''a'',
     mg_sum = \<lparr>gc_nodeID = ''a'', gc_version = 0, gc_contrib = [(''a'', 0)]\<rparr>,
     mg_topk = \<lparr>tk_kmax = 2, tk_version = 0, tk_candidates = []\<rparr>,
     mg_outbound = [], mg_capacity = 4, mg_closed = False, mg_dropped = 0, mg_deltaSeq = 0, mg_journal = None\<rparr>"

lemma ex_manager_New: "pipe_New ex_config = Inr ex_manager"
proof -
  have "ValidNodeID ''a''" by code_simp
  then show ?thesis by (simp add: pipe_New_def ex_config_def ex_manager_def sum_New_def topk_New_def)
qed

lemma ex_manager_wf: "mg_wf ex_manager"
  using pipe_New_wf [OF ex_manager_New] by simp

definition ex_jd :: "unit append_delta" where "ex_jd j d = (j, None)"

lemma ex_delta_decodes: "DecodeSUMDelta (ex_delta ''a'' s) = Inr \<lparr>sumd_NodeID = ''a'', sumd_Value = 9\<rparr>"
proof -
  have "ValidNodeID ''a''" by code_simp
  then show ?thesis by (simp add: ex_delta_def DecodeSUMDelta_def unmarshal_raw_def)
qed

lemma ex_delta_good: "delta_good (ex_delta ''a'' s)"
  by (simp add: delta_good_def ex_delta_decodes)

theorem pipeline_convergence_witness:
  "mg_val (replay ex_jd ex_manager [MutDelta (ex_delta ''a'' 1), MutDelta (ex_delta ''a'' 2)]) =
   mg_val (replay ex_jd ex_manager [MutDelta (ex_delta ''a'' 2), MutDelta (ex_delta ''a'' 2), MutDelta (ex_delta ''a'' 1)])"
  using pipeline_convergence [OF ex_manager_wf ex_manager_wf refl,
      of "[MutDelta (ex_delta ''a'' 1), MutDelta (ex_delta ''a'' 2)]"
         "[MutDelta (ex_delta ''a'' 2), MutDelta (ex_delta ''a'' 2), MutDelta (ex_delta ''a'' 1)]" ex_jd 1]
  by (simp add: ex_delta_good insert_commute)

text \<open>
  C3. A received delta on every branch: one that does not decode is refused with the manager
  unchanged; one whose candidate \<open>Merge\<close> rejects is reported as a success that did not advance, changes
  no value and moves at most the sequence counter; any other is merged, journaled and reported
  exactly: on success the manager holds the join of its value and the delta's, \<open>advanced\<close> says whether
  that changed anything, and the journal accepted the delta if it did; when the journal fails, the
  error is \<open>ErrPersistence\<close> and values, versions, sequence counter and queue are those before the call.
  Excluded are candidates that are accepted although their score is the negative zero or their UTC
  year is beyond 9999.
\<close>

theorem ApplyReceivedDelta_correct:
  assumes "mg_wf m" "delta_tame d" "ApplyReceivedDelta jd m d = (m', r)"
  shows "mg_wf m' \<and> same_frame m m' \<and>
    (if \<not> ok (DecodeSUMDelta d) \<and> \<not> ok (DecodeTOPKDelta d) then m' = m \<and> (\<exists>e. r = Inl e)
     else if delta_rejected d then
       r = Inr False \<and>
       m' = m\<lparr>mg_deltaSeq := (if sd_OriginNodeID d = mg_nodeID m then max (mg_deltaSeq m) (sd_DeltaSequence d) else mg_deltaSeq m)\<rparr>
     else
       (case r of
          Inr adv \<Rightarrow> mg_val m' = mg_join (kmax m) (mg_val m) (delta_val (kmax m) d) \<and>
            (adv \<longleftrightarrow> mg_val m' \<noteq> mg_val m) \<and>
            (if adv then journaled jd m m' d else mg_journal m' = mg_journal m)
        | Inl e \<Rightarrow> e = ErrPersistence \<and> same_state m m' \<and> journal_failed jd m m' d))"
proof (cases "delta_good d")
  case True
  then have "ok (DecodeSUMDelta d) \<or> ok (DecodeTOPKDelta d)" by (auto simp: delta_good_def ok_def split: sum.splits)
  moreover have "\<not> delta_rejected d"
    using True decode_exclusive by (fastforce simp: delta_good_def delta_rejected_def ok_def cand_good_def cand_ok_def split: sum.splits)
  ultimately show ?thesis using ApplyReceivedDelta_spec [OF assms(1) True assms(3)] by auto
next
  case False
  note w = received_not_good [OF assms(1,2) False assms(3)]
  show ?thesis
  proof (cases "DecodeTOPKDelta d")
    case (Inl e)
    then have "\<not> ok (DecodeSUMDelta d)" "\<not> ok (DecodeTOPKDelta d)" using False by (simp_all add: delta_good_def ok_def)
    with received_undecodable [OF this, of jd m] assms(3) w show ?thesis by auto
  next
    case (Inr c)
    with assms(2) False have v: "topk_validateCandidate c \<noteq> None" by (auto simp: delta_tame_def delta_good_def)
    with Inr have "delta_rejected d" "ok (DecodeTOPKDelta d)" by (simp_all add: delta_rejected_def ok_def)
    with received_rejected [OF assms(1) Inr v, of jd] assms(3) w show ?thesis by auto
  qed
qed

theorem ApplyReceivedDelta_correct_witness:
  "\<exists>m' r. ApplyReceivedDelta ex_jd ex_manager (ex_delta ''a'' 1) = (m', r) \<and> mg_wf m' \<and>
     (case r of
        Inr adv \<Rightarrow> mg_val m' = mg_join (kmax ex_manager) (mg_val ex_manager) (delta_val (kmax ex_manager) (ex_delta ''a'' 1))
      | Inl e \<Rightarrow> e = ErrPersistence \<and> same_state ex_manager m')"
proof -
  obtain m' r where m': "ApplyReceivedDelta ex_jd ex_manager (ex_delta ''a'' 1) = (m', r)" by fastforce
  have s: "ok (DecodeSUMDelta (ex_delta ''a'' 1))" using ex_delta_good [of 1] by (simp add: ex_delta_decodes)
  have "\<exists>e. DecodeTOPKDelta (ex_delta ''a'' 1) = Inl e"
    using s decode_exclusive by (cases "DecodeTOPKDelta (ex_delta ''a'' 1)") (fastforce simp: ok_def split: sum.splits)+
  then have "delta_tame (ex_delta ''a'' 1)" "\<not> delta_rejected (ex_delta ''a'' 1)" by (auto simp: delta_tame_def delta_rejected_def)
  with ApplyReceivedDelta_correct [OF ex_manager_wf _ m'] m' s show ?thesis by (auto split: sum.splits)
qed

text \<open>
  C22. A local \<open>SUM\<close> update on every branch: a bad increment or an overflow changes nothing; a journal
  failure is reported and leaves values, versions, sequence counter and queue as they were; a
  success adds exactly the increment to the node's own contribution and to no other, and returns a
  delta that carries the node's whole contribution under the next sequence number, accepted by the
  journal and then queued for gossip or counted as dropped.
\<close>

theorem ApplyLocalUpdate_SUM_correct:
  assumes "mg_wf m"
    and "ApplyLocalUpdate jd m \<lparr>lu_AggregateType = AggregateSUM, lu_Value = v\<rparr> = (m', r)"
  shows "mg_wf m' \<and> same_frame m m' \<and>
    (case r of
       Inl e \<Rightarrow> same_state m m' \<and>
         (e = SumErrInvalidIncrement \<and> m' = m \<or> e = SumErrOverflow \<and> m' = m \<or>
          e = ErrPersistence \<and> (\<exists>d. journal_failed jd m m' d))
     | Inr (d, adv) \<Rightarrow> adv \<and>
         (\<exists>i. sum_incrementFrom v = Inr i \<and>
              unat (sum_val (mg_sum m') (mg_nodeID m)) = unat (sum_val (mg_sum m) (mg_nodeID m)) + unat i) \<and>
         (\<forall>n. n \<noteq> mg_nodeID m \<longrightarrow> sum_val (mg_sum m') n = sum_val (mg_sum m) n) \<and>
         mg_topk m' = mg_topk m \<and>
         DecodeSUMDelta d = Inr \<lparr>sumd_NodeID = mg_nodeID m, sumd_Value = sum_val (mg_sum m') (mg_nodeID m)\<rparr> \<and>
         sd_DeltaVersion d = gc_version (mg_sum m') \<and> sd_OriginNodeID d = mg_nodeID m \<and>
         sd_DeltaSequence d = mg_deltaSeq m + 1 \<and> mg_deltaSeq m' = mg_deltaSeq m + 1 \<and>
         journaled jd m m' d \<and> queued m m' d)"
proof -
  have "applyLocalSUM jd m v = (m', r)" using assms(2) by (simp add: ApplyLocalUpdate_def)
  from applyLocalSUM_spec [OF assms(1) this] show ?thesis by (auto split: sum.splits)
qed

theorem ApplyLocalUpdate_SUM_correct_witness:
  "\<exists>m' r. ApplyLocalUpdate ex_jd ex_manager \<lparr>lu_AggregateType = AggregateSUM, lu_Value = AnyInt 3\<rparr> = (m', r) \<and> mg_wf m'"
proof -
  obtain m' r where r: "ApplyLocalUpdate ex_jd ex_manager \<lparr>lu_AggregateType = AggregateSUM, lu_Value = AnyInt 3\<rparr> = (m', r)"
    by fastforce
  with ApplyLocalUpdate_SUM_correct [OF ex_manager_wf r] show ?thesis by blast
qed

text \<open>
  Snapshot transfer: a well-formed manager always produces a full snapshot, and a peer with the
  same bound that applies it ends with the join of the two values, or, when its journal fails, with
  the values, versions and counters it had; in particular it misses nothing the sender had.
\<close>

lemma snapshot_transfer:
  fixes m n :: "'j Manager"
  assumes "mg_wf m" "mg_wf n" "kmax m = kmax n"
  shows "\<exists>s. pipe_Snapshot now n [AggregateSUM, AggregateTOPK] = Inr s \<and>
    (case ApplySnapshot js m s of
       (m', Inr adv) \<Rightarrow> mg_wf m' \<and> mg_val m' = mg_join (kmax m) (mg_val m) (mg_val n)
     | (m', Inl e) \<Rightarrow> e = ErrPersistence \<and> mg_wf m' \<and> same_state m m')"
proof -
  obtain s j where s: "snapshotLocked now n [AggregateSUM, AggregateTOPK] = Inr s"
    "srp_SUMState s = Some (sum_Serialize (mg_sum n))" "srp_TOPKState s = Some j" "topk_Serialize (mg_topk n) = Inr j"
    using assms(2) by (rule snapshot_full)
  from snapshot_full_val [OF assms(2) s(2,3,4)] have g: "snap_good s" "snap_val (kmax m) s = mg_val n"
    using assms(3) by auto
  obtain m' r where r: "ApplySnapshot js m s = (m', r)" by fastforce
  from ApplySnapshot_spec [OF assms(1) g(1) r] g(2) s(1) show ?thesis
    by (auto simp: pipe_Snapshot_def r split: sum.splits)
qed

lemma snapshot_transfer_witness:
  "\<exists>s. pipe_Snapshot time_zero ex_manager [AggregateSUM, AggregateTOPK] = Inr s"
  using snapshot_transfer [OF ex_manager_wf ex_manager_wf refl] by blast

text \<open>
  C21. Checkpoint round trip: the state \<open>Checkpoint\<close> hands to the store, restored into a manager of
  the same node with the same bound, gives back every contribution, every candidate, both versions
  and a sequence counter no smaller than the one at the checkpoint.
\<close>

theorem checkpoint_roundtrip:
  fixes m n :: "'j Manager"
  assumes "mg_wf m" "mg_wf n" "kmax m = kmax n" "mg_nodeID m = mg_nodeID n"
  shows "\<exists>s n'. snapshotLocked now m [AggregateSUM, AggregateTOPK] = Inr s \<and>
    RestoreCheckpoint n s = (n', None) \<and> mg_wf n' \<and> mg_val n' = mg_val m \<and>
    gc_version (mg_sum n') = gc_version (mg_sum m) \<and> mg_topk n' = mg_topk m \<and>
    mg_deltaSeq n' = max (mg_deltaSeq n) (mg_deltaSeq m)"
proof -
  obtain s j where s: "snapshotLocked now m [AggregateSUM, AggregateTOPK] = Inr s"
    "srp_SUMState s = Some (sum_Serialize (mg_sum m))" "srp_TOPKState s = Some j"
    "topk_Serialize (mg_topk m) = Inr j" "srp_DeltaSequences s = ownSequence m"
    using assms(1) by (rule snapshot_full)
  from rollbackSum_restores [OF assms(1,2)] assms(4) obtain g where
    g: "rollbackSum (sum_Serialize (mg_sum m)) n = (n\<lparr>mg_sum := g\<rparr>, None)" "sum_wf g"
      "gc_nodeID g = mg_nodeID m" "sum_val g = sum_val (mg_sum m)" "gc_version g = gc_version (mg_sum m)" by auto
  have t: "rollbackTopk j (n\<lparr>mg_sum := g\<rparr>) = (n\<lparr>mg_sum := g, mg_topk := mg_topk m\<rparr>, None)"
    using assms(3) by (subst rollbackTopk_restores [OF assms(1) _ s(4)]) simp_all
  have q: "seq_get (ownSequence m) (mg_nodeID n) = mg_deltaSeq m" using ownSequence_get [of m] assms(4) by simp
  let ?n = "n\<lparr>mg_sum := g, mg_topk := mg_topk m, mg_deltaSeq := advanceAtomic (mg_deltaSeq n) (mg_deltaSeq m)\<rparr>"
  have "RestoreCheckpoint n s = (?n, None)" using s g(1) t q by (simp add: RestoreCheckpoint_def)
  moreover have "mg_wf ?n" using assms(1,2,4) g by (simp add: mg_wf_def)
  moreover have "mg_val ?n = mg_val m" using g by (simp add: mg_val_def)
  ultimately show ?thesis using s(1) g(5) by (auto simp: advanceAtomic_max)
qed

theorem checkpoint_roundtrip_witness:
  "\<exists>s n'. snapshotLocked time_zero ex_manager [AggregateSUM, AggregateTOPK] = Inr s \<and>
     RestoreCheckpoint ex_manager s = (n', None) \<and> mg_val n' = mg_val ex_manager"
  using checkpoint_roundtrip [OF ex_manager_wf ex_manager_wf refl refl] by blast

text \<open>
  C34. The error of a rejected merge is lost: a \<open>TOPK\<close> delta whose candidate \<open>Merge\<close> refuses with
  \<open>ErrInvalidCandidate\<close> is reported by \<open>ApplyReceivedDelta\<close> as a success that did not advance, and a
  delta that names this node as its origin still moves the sequence counter.
\<close>

theorem rejected_merge_reported_as_success:
  assumes "mg_wf m" "DecodeTOPKDelta d = Inr c" "topk_validateCandidate c \<noteq> None"
  shows "snd (topk_Merge (mg_topk m) (TopkPeerState \<lparr>ts_Candidates = [c], ts_Version = sd_DeltaVersion d\<rparr>)) =
      Inl TopkErrInvalidCandidate \<and>
    snd (ApplyReceivedDelta jd m d) = Inr False \<and>
    mg_deltaSeq (fst (ApplyReceivedDelta jd m d)) =
      (if sd_OriginNodeID d = mg_nodeID m then max (mg_deltaSeq m) (sd_DeltaSequence d) else mg_deltaSeq m)"
proof -
  have "topk_validateCandidate c = Some TopkErrInvalidCandidate"
    using assms(3) by (auto simp: topk_validateCandidate_def split: if_splits)
  with received_rejected [OF assms, of jd] show ?thesis by (simp add: topk_Merge_def topk_stateFrom_def)
qed

theorem rejected_merge_reported_as_success_witness:
  "snd (ApplyReceivedDelta ex_jd ex_manager
     \<lparr>sd_AggregateType = AggregateTOPK, sd_DeltaVersion = 1, sd_OriginNodeID = [], sd_DeltaSequence = 1,
      sd_Delta = Some (JObj [])\<rparr>) = Inr False"
proof -
  let ?d = "\<lparr>sd_AggregateType = AggregateTOPK, sd_DeltaVersion = 1, sd_OriginNodeID = [], sd_DeltaSequence = 1,
      sd_Delta = Some (JObj [])\<rparr>"
  have d: "DecodeTOPKDelta ?d = Inr topk_zeroCandidate" "topk_validateCandidate topk_zeroCandidate \<noteq> None"
    by code_simp+
  show ?thesis using rejected_merge_reported_as_success [OF ex_manager_wf d] by blast
qed

end
