(* ===== verification/GoText.thy ===== *)
theory GoText
  imports GoStd
begin

text \<open>
  \<open>strings.Split\<close> on a one-byte separator and, over it, \<open>filepath.Clean\<close> and \<open>filepath.Join\<close>
  on Unix.
\<close>

fun Split :: "char \<Rightarrow> string \<Rightarrow> string list" where
  "Split sep [] = [[]]"
| "Split sep (c # cs) =
     (if c = sep then [] # Split sep cs
      else (case Split sep cs of [] \<Rightarrow> [[c]] | w # ws \<Rightarrow> (c # w) # ws))"

fun JoinText :: "char \<Rightarrow> string list \<Rightarrow> string" where
  "JoinText sep [] = []"
| "JoinText sep [w] = w"
| "JoinText sep (w # ws) = w @ sep # JoinText sep ws"

definition cleanStep :: "bool \<Rightarrow> string list \<Rightarrow> string \<Rightarrow> string list" where
  "cleanStep rooted out c =
     (if c = [] \<or> c = ''.'' then out
      else if c \<noteq> ''..'' then out @ [c]
      else if out \<noteq> [] \<and> last out \<noteq> ''..'' then butlast out
      else if rooted then out
      else out @ [c])"

definition path_Clean :: "string \<Rightarrow> string" where
  "path_Clean path =
     (let rooted = take 1 path = ''/'';
          out = (if rooted then ''/'' else []) @ JoinText CHR ''/'' (foldl (cleanStep rooted) [] (Split CHR ''/'' path))
      in if out = [] then ''.'' else out)"

definition path_Join :: "string list \<Rightarrow> string" where
  "path_Join elems =
     (case filter (\<lambda>e. e \<noteq> []) elems of
        [] \<Rightarrow> []
      | es \<Rightarrow> path_Clean (JoinText CHR ''/'' es))"

lemma Split_not_Nil [simp]: "Split sep s \<noteq> []"
  by (induction s) (auto split: list.splits)

lemma Split_append_sep: "Split sep (a @ sep # b) = Split sep a @ Split sep b"
  by (induction a) (auto split: list.splits)

lemma Split_free: "sep \<notin> set w \<Longrightarrow> Split sep w = [w]"
  by (induction w) auto

lemma Split_Join: "ws \<noteq> [] \<Longrightarrow> list_all (\<lambda>w. sep \<notin> set w) ws \<Longrightarrow> Split sep (JoinText sep ws) = ws"
  by (induction sep ws rule: JoinText.induct) (auto simp: Split_append_sep Split_free)

lemma JoinText_snoc: "ws \<noteq> [] \<Longrightarrow> JoinText sep (ws @ [w]) = JoinText sep ws @ sep # w"
  by (induction sep ws rule: JoinText.induct) auto

text \<open>A path that ends in a proper name keeps it.\<close>

lemma path_Join_name:
  assumes "CHR ''/'' \<notin> set name" "name \<noteq> []" "name \<noteq> ''.''" "name \<noteq> ''..''"
  shows "\<exists>p. path_Join [dir, name] = p @ name"
proof -
  have J: "path_Join [dir, name] = path_Clean (if dir = [] then name else dir @ CHR ''/'' # name)"
    using assms(2) by (simp add: path_Join_def)
  have "\<exists>out. foldl (cleanStep r) [] (Split CHR ''/'' (if dir = [] then name else dir @ CHR ''/'' # name)) = out @ [name]" for r
    using assms by (auto simp: Split_append_sep Split_free cleanStep_def)
  moreover have "\<exists>p. JoinText CHR ''/'' (out @ [name]) = p @ name" for out
    by (cases "out = []") (auto simp: JoinText_snoc)
  ultimately have "\<exists>p. JoinText CHR ''/''
      (foldl (cleanStep r) [] (Split CHR ''/'' (if dir = [] then name else dir @ CHR ''/'' # name))) = p @ name" for r
    by metis
  then obtain p where "JoinText CHR ''/'' (foldl (cleanStep (take 1 (if dir = [] then name else dir @ CHR ''/'' # name) = ''/''))
      [] (Split CHR ''/'' (if dir = [] then name else dir @ CHR ''/'' # name))) = p @ name" by blast
  then show ?thesis using assms(2) unfolding J path_Clean_def Let_def by (auto intro: exI [of _ "[]"])
qed

lemma trim_left_keeps:
  assumes "c \<in> set s" "c \<notin> \<Union> (set ` set pats)"
  shows "c \<in> set (trim_left pats s)"
  using assms
proof (induction pats s rule: trim_left.induct)
  case (1 pats s)
  show ?case
  proof (cases "find (\<lambda>p. is_prefix p s) pats")
    case None
    with 1 show ?thesis by (subst trim_left.simps) simp
  next
    case (Some p)
    then have "p \<in> set pats" "take (length p) s = p" by (auto simp: find_Some_iff is_prefix_def)
    then have "c \<in> set (drop (length p) s)"
      using "1.prems" by (metis UN_I Un_iff append_take_drop_id set_append)
    with 1 Some show ?thesis by (subst trim_left.simps) simp
  qed
qed

lemma TrimSpace_keeps: "CHR ''s'' \<in> set s \<Longrightarrow> TrimSpace s \<noteq> []"
  using trim_left_keeps [of "CHR ''s''" s space_runes]
    trim_left_keeps [of "CHR ''s''" "rev (trim_left space_runes s)" "map rev space_runes"]
  by (auto simp: TrimSpace_def space_runes_def)

text \<open>Trimming twice is trimming once.\<close>

lemma trim_left_stops: "find (\<lambda>p. is_prefix p (trim_left pats s)) pats = None"
proof (induction pats s rule: trim_left.induct)
  case (1 pats s)
  then show ?case by (cases "find (\<lambda>p. is_prefix p s) pats") (simp_all add: trim_left.simps [of pats s])
qed

lemma trim_left_suffix: "\<exists>a. s = a @ trim_left pats s"
proof (induction pats s rule: trim_left.induct)
  case (1 pats s)
  show ?case
  proof (cases "find (\<lambda>p. is_prefix p s) pats")
    case None
    then show ?thesis by (simp add: trim_left.simps [of pats s])
  next
    case (Some p)
    obtain a where "drop (length p) s = a @ trim_left pats (drop (length p) s)" using 1 Some by blast
    then have "s = (take (length p) s @ a) @ trim_left pats s"
      using Some by (simp add: trim_left.simps [of pats s])
    then show ?thesis by blast
  qed
qed

lemma trim_left_none: "find (\<lambda>p. is_prefix p s) pats = None \<Longrightarrow> trim_left pats s = s"
  by (simp add: trim_left.simps [of pats s])

lemma is_prefix_append: "is_prefix p x \<Longrightarrow> is_prefix p (x @ b)"
proof -
  assume p: "is_prefix p x"
  then have "length p \<le> length x" unfolding is_prefix_def by (metis length_take min.cobounded1)
  with p show ?thesis by (simp add: is_prefix_def)
qed

lemma TrimSpace_idem [simp]: "TrimSpace (TrimSpace s) = TrimSpace s"
proof -
  let ?y = "trim_left space_runes s" and ?R = "map rev space_runes"
  let ?x = "rev (trim_left ?R (rev ?y))"
  obtain a where "rev ?y = a @ trim_left ?R (rev ?y)" using trim_left_suffix by blast
  then have y: "?y = ?x @ rev a" by (metis rev_append rev_rev_ident)
  have "\<not> is_prefix p ?x" if "p \<in> set space_runes" for p
  proof
    assume "is_prefix p ?x"
    then have "is_prefix p ?y" by (subst y) (rule is_prefix_append)
    with trim_left_stops [of space_runes s] that show False by (simp add: find_None_iff)
  qed
  then have l: "trim_left space_runes ?x = ?x" by (intro trim_left_none) (simp add: find_None_iff)
  have "trim_left ?R (rev ?x) = rev ?x"
    using trim_left_stops [of ?R "rev ?y"] by (intro trim_left_none) simp
  with l show ?thesis by (simp add: TrimSpace_def)
qed

end
