(* ===== verification/Storage.thy ===== *)
theory Storage
  imports SnapshotStore Pipeline GoText
begin

text \<open>
  \<open>internal/storage\<close>: the store that journals mutations in the write-ahead log, saves checkpoints
  and recovers both.
\<close>

section \<open>State\<close>

definition recordDelta :: string where "recordDelta = ''state_delta''"

definition recordSnapshot :: string where "recordSnapshot = ''state_snapshot''"

record store_Config =
  sc_DataDir :: string
  sc_WALSyncMode :: string
  sc_WALBatchSize :: int

record RecoveredMutation =
  rm_Index :: u64
  rm_Delta :: "StateDelta option"
  rm_Snapshot :: "SnapshotResp option"

record Recovery =
  rv_Checkpoint :: "SnapshotResp option"
  rv_Mutations :: "RecoveredMutation list"
  rv_WALIndex :: u64

record Store =
  st_wal :: Log
  st_snapshots :: snap_dir
  st_closed :: bool

section \<open>Operations\<close>

definition walDir :: "string \<Rightarrow> string" where
  "walDir dataDir = path_Join [dataDir, ''wal'']"

definition snapshotDir :: "string \<Rightarrow> string" where
  "snapshotDir dataDir = path_Join [dataDir, ''snapshots'']"

definition store_Open :: "store_Config \<Rightarrow> open_io \<Rightarrow> string \<Rightarrow> bool \<Rightarrow> snap_dir \<Rightarrow> go_error + Store" where
  "store_Open config io file mkdir_ok dir =
     (case wal_Open \<lparr>wc_Dir = walDir (sc_DataDir config), wc_SyncMode = sc_WALSyncMode config,
                     wc_BatchSize = sc_WALBatchSize config\<rparr> io file of
        Inl e \<Rightarrow> Inl e
      | Inr log \<Rightarrow>
          (case NewStore mkdir_ok (snapshotDir (sc_DataDir config)) of
             Some e \<Rightarrow> Inl e
           | None \<Rightarrow> Inr \<lparr>st_wal = log, st_snapshots = dir, st_closed = False\<rparr>))"

definition store_append :: "append_io \<Rightarrow> Store \<Rightarrow> string \<Rightarrow> string \<Rightarrow> Store \<times> go_error option" where
  "store_append io s recordType raw =
     (if st_closed s then (s, Some WalErrClosed)
      else
        (let (l, r) = wal_Append io (st_wal s) recordType raw
         in (s\<lparr>st_wal := l\<rparr>, case r of Inl e \<Rightarrow> Some e | Inr _ \<Rightarrow> None)))"

definition AppendDelta :: "append_io \<Rightarrow> Store \<Rightarrow> StateDelta \<Rightarrow> Store \<times> go_error option" where
  "AppendDelta io s delta = store_append io s recordDelta (json_text (enc_StateDelta delta))"

definition AppendSnapshot :: "append_io \<Rightarrow> Store \<Rightarrow> SnapshotResp \<Rightarrow> Store \<times> go_error option" where
  "AppendSnapshot io s state =
     (case enc_SnapshotResp state of
        None \<Rightarrow> (s, Some JsonError)
      | Some j \<Rightarrow> store_append io s recordSnapshot (json_text j))"

record checkpoint_io =
  ci_sync :: bool
  ci_save :: save_io

definition SaveCheckpoint :: "checkpoint_io \<Rightarrow> Store \<Rightarrow> SnapshotResp \<Rightarrow> Store \<times> go_error option" where
  "SaveCheckpoint io s state =
     (case enc_SnapshotResp state of
        None \<Rightarrow> (s, Some JsonError)
      | Some j \<Rightarrow>
          if st_closed s then (s, Some WalErrClosed)
          else
            (case wal_Sync (ci_sync io) (st_wal s) of
               (l, Some e) \<Rightarrow> (s\<lparr>st_wal := l\<rparr>, Some e)
             | (l, None) \<Rightarrow>
                 (let (dir, r) = snap_Save (ci_save io) (st_snapshots s) (LastIndex l) (json_text j)
                  in (s\<lparr>st_wal := l, st_snapshots := dir\<rparr>, case r of Inl e \<Rightarrow> Some e | Inr _ \<Rightarrow> None))))"

definition recoverRecord :: "wal_Record \<Rightarrow> go_error + RecoveredMutation" where
  "recoverRecord r =
     (if wr_Type r = recordDelta then
        (case unmarshal dec_StateDelta zero_StateDelta (wr_Payload r) of
           None \<Rightarrow> Inl ErrInvalidRecoveryRecord
         | Some delta \<Rightarrow> Inr \<lparr>rm_Index = wr_Index r, rm_Delta = Some delta, rm_Snapshot = None\<rparr>)
      else if wr_Type r = recordSnapshot then
        (case unmarshal dec_SnapshotResp zero_SnapshotResp (wr_Payload r) of
           None \<Rightarrow> Inl ErrInvalidRecoveryRecord
         | Some state \<Rightarrow> Inr \<lparr>rm_Index = wr_Index r, rm_Delta = None, rm_Snapshot = Some state\<rparr>)
      else Inl ErrInvalidRecoveryRecord)"

fun recoverLoop :: "wal_Record list \<Rightarrow> Recovery \<Rightarrow> go_error + Recovery" where
  "recoverLoop [] recovery = Inr recovery"
| "recoverLoop (r # rs) recovery =
     (case recoverRecord r of
        Inl e \<Rightarrow> Inl e
      | Inr mutation \<Rightarrow>
          recoverLoop rs (recovery\<lparr>rv_Mutations := rv_Mutations recovery @ [mutation], rv_WALIndex := wr_Index r\<rparr>))"

definition recoverCheckpoint :: "Log \<Rightarrow> snap_File option \<Rightarrow> go_error + Recovery" where
  "recoverCheckpoint l found =
     (case found of
        None \<Rightarrow> Inr \<lparr>rv_Checkpoint = None, rv_Mutations = [], rv_WALIndex = 0\<rparr>
      | Some checkpoint \<Rightarrow>
          (case parse_json (sf_Payload checkpoint) of
             None \<Rightarrow> Inl JsonError
           | Some j \<Rightarrow>
               (case dec_SnapshotResp zero_SnapshotResp j of
                  None \<Rightarrow> Inl JsonError
                | Some state \<Rightarrow>
                    (case DecodeSnapshotResp j of
                       Inl e \<Rightarrow> Inl e
                     | Inr _ \<Rightarrow>
                         if md_WALIndex (sf_Metadata checkpoint) > LastIndex l then Inl ErrInvalidRecoveryRecord
                         else Inr \<lparr>rv_Checkpoint = Some state, rv_Mutations = [],
                                   rv_WALIndex = md_WALIndex (sf_Metadata checkpoint)\<rparr>))))"

record recover_io =
  ri_list :: bool
  ri_read :: bool
  ri_sync :: bool
  ri_wal :: bool

definition store_Recover :: "recover_io \<Rightarrow> Store \<Rightarrow> Store \<times> (go_error + Recovery)" where
  "store_Recover io s =
     (if st_closed s then (s, Inl WalErrClosed)
      else case LoadLatest (ri_list io) (ri_read io) (st_snapshots s) of
             Inl e \<Rightarrow> (s, Inl e)
           | Inr found \<Rightarrow>
               (case recoverCheckpoint (st_wal s) found of
                  Inl e \<Rightarrow> (s, Inl e)
                | Inr recovery \<Rightarrow>
                    (case RecordsAfter (ri_sync io) (ri_wal io) (st_wal s) (rv_WALIndex recovery) of
                       (l, Inl e) \<Rightarrow> (s\<lparr>st_wal := l\<rparr>, Inl e)
                     | (l, Inr records) \<Rightarrow> (s\<lparr>st_wal := l\<rparr>, recoverLoop records recovery))))"

definition store_Close :: "bool \<Rightarrow> bool \<Rightarrow> Store \<Rightarrow> Store \<times> go_error option" where
  "store_Close sync_ok close_ok s =
     (if st_closed s then (s, None)
      else
        (let (l, e) = wal_Close sync_ok close_ok (st_wal s)
         in (s\<lparr>st_closed := True, st_wal := l\<rparr>, e)))"

section \<open>What a record recovers to\<close>

definition rm_mut :: "RecoveredMutation \<Rightarrow> mutation option" where
  "rm_mut m = (case rm_Delta m of Some d \<Rightarrow> Some (MutDelta d) | None \<Rightarrow> map_option MutSnapshot (rm_Snapshot m))"

definition rec_mut :: "wal_Record \<Rightarrow> mutation option" where
  "rec_mut r = (case recoverRecord r of Inl _ \<Rightarrow> None | Inr m \<Rightarrow> rm_mut m)"

text \<open>Mutations with a JSON form that reads back.\<close>

definition delta_text :: "StateDelta \<Rightarrow> bool" where
  "delta_text d \<longleftrightarrow> delta_good d \<and> json_ok 1 (enc_StateDelta d)"

definition snap_text :: "SnapshotResp \<Rightarrow> bool" where
  "snap_text s \<longleftrightarrow> snap_good s \<and> seqs_wf (srp_DeltaSequences s) \<and> t_off (srp_CreatedAt s) mod 60 = 0 \<and>
     (case enc_SnapshotResp s of None \<Rightarrow> False | Some j \<Rightarrow> json_ok 1 j)"

text \<open>
  What the node can be sent without losing track of its journal.  Anything the manager refuses is
  fit.  Excluded are accepted candidates with the negative zero or a UTC year beyond 9999, snapshots
  with a valid \<open>SUM\<close> part and an invalid \<open>TOPK\<close> part, which are taken in half and not journaled, and
  accepted mutations without a JSON form that reads back; whatever was read from JSON has one.
\<close>

definition delta_fit :: "StateDelta \<Rightarrow> bool" where
  "delta_fit d \<longleftrightarrow> delta_tame d \<and> (delta_good d \<longrightarrow> delta_text d)"

definition snap_fit :: "SnapshotResp \<Rightarrow> bool" where
  "snap_fit s \<longleftrightarrow> snap_tame s \<and> \<not> half_valid s \<and> (snap_good s \<longrightarrow> snap_text s)"

definition snap_wire :: "SnapshotResp \<Rightarrow> SnapshotResp" where
  "snap_wire s = s\<lparr>srp_DeltaSequences := wire_seqs (srp_DeltaSequences s), srp_CreatedAt := time_Round0 (srp_CreatedAt s)\<rparr>"

lemma snap_wire_simps [simp]:
  "srp_SUMState (snap_wire s) = srp_SUMState s" "srp_TOPKState (snap_wire s) = srp_TOPKState s"
  "snap_good (snap_wire s) = snap_good s" "snap_val k (snap_wire s) = snap_val k s"
  by (simp_all add: snap_wire_def snap_good_def snap_val_def)

lemma delta_text_fit: "delta_text d \<Longrightarrow> delta_fit d"
  using DecodeSUM_of_TOPK [of d]
  by (auto simp: delta_fit_def delta_text_def delta_tame_def delta_good_def ok_def split: sum.splits)

lemma snap_text_fit: "snap_text s \<Longrightarrow> snap_fit s"
  by (auto simp: snap_fit_def snap_text_def snap_tame_def snap_good_def half_valid_def ok_def split: option.splits sum.splits)

lemma delta_good_payload: "delta_good d \<Longrightarrow> sd_Delta d \<noteq> None"
proof
  assume "sd_Delta d = None"
  then have "\<not> delta_good d"
    by (simp add: delta_good_def ok_def DecodeSUMDelta_def DecodeTOPKDelta_def unmarshal_raw_def)
  then show "delta_good d \<Longrightarrow> False" by simp
qed

lemma record_names [simp]:
  "recordDelta \<noteq> []" "recordSnapshot \<noteq> []" "recordSnapshot \<noteq> recordDelta" "utf8_valid recordDelta" "utf8_valid recordSnapshot"
proof -
  show "utf8_valid recordDelta" "utf8_valid recordSnapshot"
    by (rule ascii_valid, simp add: recordDelta_def recordSnapshot_def)+
qed (simp_all add: recordDelta_def recordSnapshot_def)

lemma rec_mut_delta:
  assumes "delta_text d"
  shows "rec_mut (newRecord l now recordDelta (json_text (enc_StateDelta d))) = Some (MutDelta d)"
proof -
  have "unmarshal dec_StateDelta zero_StateDelta (json_text (enc_StateDelta d)) = Some d"
    using assms dec_enc_StateDelta [OF delta_good_payload, of d] by (simp add: delta_text_def unmarshal_text)
  then show ?thesis by (simp add: rec_mut_def recoverRecord_def newRecord_def Let_def rm_mut_def)
qed

lemma rec_mut_snapshot:
  assumes "snap_text s" "enc_SnapshotResp s = Some j"
  shows "rec_mut (newRecord l now recordSnapshot (json_text j)) = Some (MutSnapshot (snap_wire s))"
proof -
  have "unmarshal dec_SnapshotResp zero_SnapshotResp (json_text j) = Some (snap_wire s)"
    using assms dec_enc_SnapshotResp [OF assms(2)] by (simp add: snap_text_def unmarshal_text snap_wire_def)
  then show ?thesis by (simp add: rec_mut_def recoverRecord_def newRecord_def Let_def rm_mut_def)
qed

section \<open>The recovered value\<close>

definition bottom :: "(string \<Rightarrow> u64) \<times> Candidate list" where
  "bottom = (\<lambda>_. 0, [])"

definition recovery_val :: "int \<Rightarrow> Recovery \<Rightarrow> (string \<Rightarrow> u64) \<times> Candidate list" where
  "recovery_val k rv =
     foldl (mg_join k) (case rv_Checkpoint rv of None \<Rightarrow> bottom | Some c \<Rightarrow> snap_val k c)
       (map (mut_val k) (List.map_filter rm_mut (rv_Mutations rv)))"

text \<open>The state of a checkpoint, and that it is one a node with this id and bound can restore.\<close>

definition ckpt_state :: "snap_File \<Rightarrow> SnapshotResp option" where
  "ckpt_state f =
     (case parse_json (sf_Payload f) of
        None \<Rightarrow> None
      | Some j \<Rightarrow> (case DecodeSnapshotResp j of Inl _ \<Rightarrow> None | Inr st \<Rightarrow> Some st))"

definition ids_valid :: "Candidate list \<Rightarrow> bool" where
  "ids_valid cs \<longleftrightarrow> list_all (\<lambda>c. utf8_valid (c_ItemID c)) cs"

definition ckpt_ok :: "string \<Rightarrow> int \<Rightarrow> SnapshotResp \<Rightarrow> bool" where
  "ckpt_ok n k st \<longleftrightarrow>
     (\<exists>g t j. sum_wf g \<and> gc_nodeID g = n \<and> srp_SUMState st = Some (sum_Serialize g) \<and>
        topk_wf t \<and> tk_kmax t = k \<and> list_all cand_good (tk_candidates t) \<and> ids_valid (tk_candidates t) \<and>
        topk_Serialize t = Inr j \<and> srp_TOPKState st = Some j)"

lemma ckpt_ok_good: "ckpt_ok n k st \<Longrightarrow> snap_good st"
proof -
  assume "ckpt_ok n k st"
  then obtain g t j where g: "sum_wf g" "gc_nodeID g = n" "srp_SUMState st = Some (sum_Serialize g)"
    "topk_wf t" "tk_kmax t = k" "list_all cand_good (tk_candidates t)" "topk_Serialize t = Inr j" "srp_TOPKState st = Some j"
    unfolding ckpt_ok_def by blast
  let ?m = "\<lparr>mg_nodeID = n, mg_sum = g, mg_topk = t, mg_outbound = [], mg_capacity = 1, mg_closed = False,
    mg_dropped = 0, mg_deltaSeq = 0, mg_journal = None\<rparr> :: unit Manager"
  have "mg_wf ?m" using g by (simp add: mg_wf_def sum_wf_def)
  from snapshot_full_val [OF this, of st j] g show ?thesis by simp
qed

text \<open>
  The store under an always-sync log: its records, how many of them a crash cannot take away, and
  checkpoints that only cover those.
\<close>

definition mut_fine :: "mutation \<Rightarrow> bool" where
  "mut_fine u \<longleftrightarrow> mut_good u \<and> (\<forall>k > 0. ids_valid (snd (mut_val k u)))"

definition rec_good :: "wal_Record \<Rightarrow> bool" where
  "rec_good r \<longleftrightarrow> (\<exists>u. rec_mut r = Some u \<and> mut_fine u)"

definition store_inv :: "string \<Rightarrow> int \<Rightarrow> Store \<Rightarrow> wal_Record list \<Rightarrow> nat \<Rightarrow> bool" where
  "store_inv n k s rs c \<longleftrightarrow> 0 < k \<and>
     log_inv (st_wal s) rs \<and> \<not> lg_closed (st_wal s) \<and> \<not> st_closed s \<and> lg_mode (st_wal s) = SyncAlways \<and>
     length rs < 2 ^ 64 \<and> c \<le> length rs \<and> lg_synced (st_wal s) = length (wal_lines (take c rs)) \<and>
     list_all rec_good rs \<and> dir_inv (st_snapshots s) \<and>
     (\<forall>i f. published (st_snapshots s) i = Some f \<longrightarrow>
        unat i \<le> c \<and> (\<exists>st. ckpt_state f = Some st \<and> ckpt_ok n k st))"

definition latest :: "snap_dir \<Rightarrow> (nat \<times> SnapshotResp) option" where
  "latest dir =
     (case LoadLatest True True dir of
        Inr (Some f) \<Rightarrow> Some (unat (md_WALIndex (sf_Metadata f)), the (ckpt_state f))
      | _ \<Rightarrow> None)"

definition rec_val :: "int \<Rightarrow> snap_dir \<Rightarrow> wal_Record list \<Rightarrow> (string \<Rightarrow> u64) \<times> Candidate list" where
  "rec_val k dir rs =
     (let (base, i) = (case latest dir of None \<Rightarrow> (bottom, 0) | Some (i, st) \<Rightarrow> (snap_val k st, i))
      in foldl (mg_join k) base (map (\<lambda>r. mut_val k (the (rec_mut r))) (drop i rs)))"

lemma store_invD:
  assumes "store_inv n k s rs c"
  shows "0 < k" "log_inv (st_wal s) rs" "\<not> lg_closed (st_wal s)" "\<not> st_closed s" "lg_mode (st_wal s) = SyncAlways"
    "length rs < 2 ^ 64" "c \<le> length rs" "lg_synced (st_wal s) = length (wal_lines (take c rs))"
    "list_all rec_good rs" "dir_inv (st_snapshots s)"
    "lg_file (st_wal s) = wal_lines rs" "chain 1 rs" "lg_lastIndex (st_wal s) = of_nat (length rs)"
  using assms unfolding store_inv_def log_inv_def by blast+

lemma store_inv_published:
  assumes "store_inv n k s rs c" "published (st_snapshots s) i = Some f"
  obtains st where "unat i \<le> c" "ckpt_state f = Some st" "ckpt_ok n k st" "snap_good st"
  using assms ckpt_ok_good unfolding store_inv_def by blast

lemma latest_cases:
  assumes "store_inv n k s rs c"
  obtains (none) "LoadLatest True True (st_snapshots s) = Inr None" "latest (st_snapshots s) = None"
  | (found) i f st where "published (st_snapshots s) i = Some f" "LoadLatest True True (st_snapshots s) = Inr (Some f)"
      "md_WALIndex (sf_Metadata f) = i" "latest (st_snapshots s) = Some (unat i, st)"
      "ckpt_state f = Some st" "ckpt_ok n k st" "snap_good st" "unat i \<le> c"
proof -
  have "dir_inv (st_snapshots s)" by (rule store_invD(10) [OF assms])
  from LoadLatest_spec [OF this] show ?thesis
  proof
    assume "(\<forall>i. published (st_snapshots s) i = None) \<and> LoadLatest True True (st_snapshots s) = Inr None"
    then show ?thesis by (intro none) (auto simp: latest_def)
  next
    assume "\<exists>i f. published (st_snapshots s) i = Some f \<and> file_ok i f \<and>
      (\<forall>k. published (st_snapshots s) k \<noteq> None \<longrightarrow> k \<le> i) \<and> LoadLatest True True (st_snapshots s) = Inr (Some f)"
    then obtain i f where f: "published (st_snapshots s) i = Some f" "file_ok i f"
      "LoadLatest True True (st_snapshots s) = Inr (Some f)" by blast
    obtain st where st: "unat i \<le> c" "ckpt_state f = Some st" "ckpt_ok n k st" "snap_good st"
      using assms f(1) by (rule store_inv_published)
    have "md_WALIndex (sf_Metadata f) = i" using f(2) by (simp add: file_ok_def snap_check_def)
    with f st show ?thesis by (intro found) (auto simp: latest_def)
  qed
qed

lemma recoverLoop_good:
  assumes "list_all rec_good rs"
  shows "\<exists>ms w. recoverLoop rs rv = Inr (rv\<lparr>rv_Mutations := rv_Mutations rv @ ms, rv_WALIndex := w\<rparr>) \<and>
    map rm_mut ms = map rec_mut rs"
  using assms
proof (induction rs arbitrary: rv)
  case Nil
  have "rv = rv\<lparr>rv_Mutations := rv_Mutations rv @ [], rv_WALIndex := rv_WALIndex rv\<rparr>" by simp
  then show ?case by (metis list.simps(8) recoverLoop.simps(1))
next
  case (Cons r rs)
  obtain m where m: "recoverRecord r = Inr m" "rec_mut r = rm_mut m"
    using Cons.prems by (auto simp: rec_good_def rec_mut_def split: sum.splits)
  let ?rv = "rv\<lparr>rv_Mutations := rv_Mutations rv @ [m], rv_WALIndex := wr_Index r\<rparr>"
  obtain ms w where ms: "recoverLoop rs ?rv = Inr (?rv\<lparr>rv_Mutations := rv_Mutations ?rv @ ms, rv_WALIndex := w\<rparr>)"
    "map rm_mut ms = map rec_mut rs"
    using Cons.IH [of ?rv] Cons.prems by auto
  then show ?case using m by (intro exI [of _ "m # ms"] exI [of _ w]) simp
qed

lemma map_filter_all:
  "map f ms = map g rs \<Longrightarrow> list_all (\<lambda>r. g r \<noteq> None) rs \<Longrightarrow> List.map_filter f ms = map (\<lambda>r. the (g r)) rs"
  by (induction rs arbitrary: ms) (auto simp: List.map_filter_simps Cons_eq_map_conv map_eq_Cons_conv)

definition recover_ok :: recover_io where
  "recover_ok = \<lparr>ri_list = True, ri_read = True, ri_sync = True, ri_wal = True\<rparr>"

lemma store_Recover_inv:
  assumes "store_inv n k s rs c"
  obtains rv where
    "store_Recover recover_ok s = (s\<lparr>st_wal := (st_wal s)\<lparr>lg_synced := length (lg_file (st_wal s))\<rparr>\<rparr>, Inr rv)"
    "rv_Checkpoint rv = map_option snd (latest (st_snapshots s))" "recovery_val k rv = rec_val k (st_snapshots s) rs"
    "\<forall>st. rv_Checkpoint rv = Some st \<longrightarrow> ckpt_ok n k st"
    "list_all (\<lambda>m. \<exists>u. rm_mut m = Some u \<and> mut_fine u) (rv_Mutations rv)"
proof -
  note inv = store_invD [OF assms]
  let ?dir = "st_snapshots s" and ?l = "st_wal s"
  let ?i = "case latest ?dir of None \<Rightarrow> 0 | Some (i, _) \<Rightarrow> i"
  let ?rv0 = "\<lparr>rv_Checkpoint = map_option snd (latest ?dir), rv_Mutations = [], rv_WALIndex = of_nat ?i\<rparr>"
  have i: "?i \<le> length rs" using assms by (cases rule: latest_cases) (use inv(7) in auto)
  have load: "\<exists>found. LoadLatest True True ?dir = Inr found \<and> recoverCheckpoint ?l found = Inr ?rv0"
    using assms
  proof (cases rule: latest_cases)
    case none
    then show ?thesis by (simp add: recoverCheckpoint_def)
  next
    case (found i f st)
    obtain j where j: "parse_json (sf_Payload f) = Some j" "DecodeSnapshotResp j = Inr st"
      using found(5) by (auto simp: ckpt_state_def split: option.splits sum.splits)
    then have "dec_SnapshotResp zero_SnapshotResp j = Some st"
      by (auto simp: DecodeSnapshotResp_def split: option.splits if_splits)
    moreover have "\<not> i > LastIndex ?l"
      using found(8) inv(6,7,13) unfolding LastIndex_def not_less word_le_nat_alt
      by (simp add: unsigned_of_nat take_bit_eq_mod)
    ultimately show ?thesis using found j by (simp add: recoverCheckpoint_def)
  qed
  have g: "list_all rec_good (drop ?i rs)" using inv(9) by (simp add: list_all_iff) (meson in_set_dropD)
  obtain ms w where ms: "recoverLoop (drop ?i rs) ?rv0 = Inr (?rv0\<lparr>rv_Mutations := ms, rv_WALIndex := w\<rparr>)"
    "map rm_mut ms = map rec_mut (drop ?i rs)"
    using recoverLoop_good [OF g, of ?rv0] by auto
  have f: "List.map_filter rm_mut ms = map (\<lambda>r. the (rec_mut r)) (drop ?i rs)"
    using map_filter_all [OF ms(2)] g by (auto simp: list_all_iff rec_good_def)
  have R: "RecordsAfter True True ?l (of_nat ?i) = (?l\<lparr>lg_synced := length (lg_file ?l)\<rparr>, Inr (drop ?i rs))"
    by (rule RecordsAfter_inv [OF inv(2,3,6) i])
  have rec: "store_Recover recover_ok s =
      (s\<lparr>st_wal := ?l\<lparr>lg_synced := length (lg_file ?l)\<rparr>\<rparr>, Inr (?rv0\<lparr>rv_Mutations := ms, rv_WALIndex := w\<rparr>))"
    using load inv(4) R ms(1) by (auto simp: store_Recover_def recover_ok_def)
  have val: "recovery_val k (?rv0\<lparr>rv_Mutations := ms, rv_WALIndex := w\<rparr>) = rec_val k ?dir rs"
    by (simp add: recovery_val_def rec_val_def f comp_def split: option.splits)
  have ck: "ckpt_ok n k st" if "latest ?dir = Some (i', st)" for i' st
    using assms that by (cases rule: latest_cases) auto
  have good: "list_all (\<lambda>m. \<exists>u. rm_mut m = Some u \<and> mut_fine u) ms"
  proof -
    have "list_all (\<lambda>x. \<exists>u. x = Some u \<and> mut_fine u) (map rm_mut ms)"
      unfolding ms(2) using g by (simp add: list_all_iff rec_good_def)
    then show ?thesis by (simp add: list_all_iff)
  qed
  show ?thesis using rec val good ck by (intro that) auto
qed

section \<open>Crashes\<close>

text \<open>
  A crash keeps at least the synced bytes of the log and what is published in the snapshot
  directory; the store is then opened again.
\<close>

definition crashed :: "store_Config \<Rightarrow> nat \<Rightarrow> Store \<Rightarrow> go_error + Store" where
  "crashed config b s = store_Open config all_ok (take b (lg_file (st_wal s))) True (st_snapshots s)"

lemma store_dirs: "walDir d \<noteq> []" "NewStore True (snapshotDir d) = None"
proof -
  obtain p q where "walDir d = p @ ''wal''" "snapshotDir d = q @ ''snapshots''"
    using path_Join_name [of "''wal''" d] path_Join_name [of "''snapshots''" d]
    by (auto simp: walDir_def snapshotDir_def)
  then show "walDir d \<noteq> []" "NewStore True (snapshotDir d) = None"
    using TrimSpace_keeps [of "snapshotDir d"] by (auto simp: NewStore_def)
qed

lemma store_Open_lines:
  assumes "chain 1 rs" "newline \<notin> set torn" "syncMode (sc_WALSyncMode config) = Some mode"
  obtains l where "store_Open config all_ok (wal_lines rs @ torn) True dir =
      Inr \<lparr>st_wal = l, st_snapshots = dir, st_closed = False\<rparr>"
    "log_inv l rs" "\<not> lg_closed l" "lg_mode l = mode" "lg_synced l = length (lg_file l)"
proof -
  obtain l where "wal_Open \<lparr>wc_Dir = walDir (sc_DataDir config), wc_SyncMode = sc_WALSyncMode config,
      wc_BatchSize = sc_WALBatchSize config\<rparr> all_ok (wal_lines rs @ torn) = Inr l" "log_inv l rs" "\<not> lg_closed l"
    "lg_mode l = mode" "lg_synced l = length (lg_file l)"
    by (rule wal_Open_lines [OF assms(1,2)]) (use assms(3) store_dirs in auto)
  with that store_dirs show ?thesis by (simp add: store_Open_def)
qed

lemma store_Open_inv:
  assumes "store_inv n k s rs c" "c \<le> q" "q \<le> length rs" "newline \<notin> set torn"
    and "syncMode (sc_WALSyncMode config) = Some SyncAlways"
  obtains s' where "store_Open config all_ok (wal_lines (take q rs) @ torn) True (st_snapshots s) = Inr s'"
    "store_inv n k s' (take q rs) q" "st_snapshots s' = st_snapshots s"
proof -
  note inv = store_invD [OF assms(1)]
  obtain l where l: "store_Open config all_ok (wal_lines (take q rs) @ torn) True (st_snapshots s) =
      Inr \<lparr>st_wal = l, st_snapshots = st_snapshots s, st_closed = False\<rparr>"
    "log_inv l (take q rs)" "\<not> lg_closed l" "lg_mode l = SyncAlways" "lg_synced l = length (lg_file l)"
    using chain_take [OF inv(12)] assms(4,5) by (rule store_Open_lines)
  have "list_all rec_good (take q rs)" using inv(9) by (auto simp: list_all_iff dest: in_set_takeD)
  moreover have "\<forall>i f. published (st_snapshots s) i = Some f \<longrightarrow>
      unat i \<le> q \<and> (\<exists>st. ckpt_state f = Some st \<and> ckpt_ok n k st)"
    using assms(1,2) store_inv_published [OF assms(1)] by (meson order_trans)
  ultimately have "store_inv n k \<lparr>st_wal = l, st_snapshots = st_snapshots s, st_closed = False\<rparr> (take q rs) q"
    using l inv assms(3) by (simp add: store_inv_def) (simp add: log_inv_def)
  with l(1) that show ?thesis by simp
qed

lemma crashed_inv:
  assumes "store_inv n k s rs c" "lg_synced (st_wal s) \<le> b" "syncMode (sc_WALSyncMode config) = Some SyncAlways"
  obtains q s' where "crashed config b s = Inr s'" "store_inv n k s' (take q rs) q" "st_snapshots s' = st_snapshots s"
    "c \<le> q" "q \<le> length rs"
proof -
  note inv = store_invD [OF assms(1)]
  obtain q torn where q: "take b (wal_lines rs) = wal_lines (take q rs) @ torn" "newline \<notin> set torn"
    "q \<le> length rs" "\<And>i. i \<le> length rs \<Longrightarrow> length (wal_lines (take i rs)) \<le> b \<Longrightarrow> i \<le> q"
    using take_lines [OF chain_all [OF inv(12)], of b] by blast
  have "c \<le> q" using q(4) [OF inv(7)] assms(2) inv(8) by simp
  from store_Open_inv [OF assms(1) this q(3,2) assms(3)] obtain s' where
    "store_Open config all_ok (wal_lines (take q rs) @ torn) True (st_snapshots s) = Inr s'"
    "store_inv n k s' (take q rs) q" "st_snapshots s' = st_snapshots s" .
  with \<open>c \<le> q\<close> q(1,3) inv(11) that show ?thesis by (simp add: crashed_def)
qed

text \<open>The value that survives the worst crash.\<close>

definition durable_val :: "store_Config \<Rightarrow> int \<Rightarrow> Store \<Rightarrow> (string \<Rightarrow> u64) \<times> Candidate list" where
  "durable_val config k s =
     (case crashed config (lg_synced (st_wal s)) s of
        Inl _ \<Rightarrow> bottom
      | Inr s' \<Rightarrow> (case snd (store_Recover recover_ok s') of Inl _ \<Rightarrow> bottom | Inr rv \<Rightarrow> recovery_val k rv))"

lemma durable_val_eq:
  assumes "store_inv n k s rs c" "syncMode (sc_WALSyncMode config) = Some SyncAlways"
  shows "durable_val config k s = rec_val k (st_snapshots s) (take c rs)"
proof -
  note inv = store_invD [OF assms(1)]
  have "wal_lines rs = wal_lines (take c rs) @ wal_lines (drop c rs)"
    unfolding concat_append [symmetric] map_append [symmetric] by simp
  then have "take (lg_synced (st_wal s)) (lg_file (st_wal s)) = wal_lines (take c rs) @ []"
    using inv(8,11) by (simp add: length_concat)
  moreover obtain s' where s': "store_Open config all_ok (wal_lines (take c rs) @ []) True (st_snapshots s) = Inr s'"
    "store_inv n k s' (take c rs) c" "st_snapshots s' = st_snapshots s"
    using store_Open_inv [OF assms(1) order_refl inv(7), of "[]" config] assms(2) by auto
  moreover obtain rv where "snd (store_Recover recover_ok s') = Inr rv"
    "recovery_val k rv = rec_val k (st_snapshots s') (take c rs)"
    using store_Recover_inv [OF s'(2)] by (metis snd_conv)
  ultimately show ?thesis by (simp add: durable_val_def crashed_def)
qed

section \<open>What the operations keep\<close>

abbreviation mval :: "int \<Rightarrow> wal_Record \<Rightarrow> (string \<Rightarrow> u64) \<times> Candidate list" where
  "mval k r \<equiv> mut_val k (the (rec_mut r))"

lemma bottom_carrier: "0 < k \<Longrightarrow> mg_carrier k bottom"
  by (simp add: mg_carrier_def bottom_def topk_canonical_def)

lemma mut_val_carrier: "mut_good u \<Longrightarrow> 0 < k \<Longrightarrow> mg_carrier k (mut_val k u)"
  by (cases u) (simp_all add: delta_val_carrier snap_val_carrier)

lemma rec_good_carrier: "list_all rec_good rs \<Longrightarrow> 0 < k \<Longrightarrow> list_all (mg_carrier k) (map (mval k) rs)"
  by (induction rs) (auto simp: rec_good_def mut_fine_def mut_val_carrier)

text \<open>The base and the index recovery starts from.\<close>

definition base_val :: "int \<Rightarrow> snap_dir \<Rightarrow> (string \<Rightarrow> u64) \<times> Candidate list" where
  "base_val k dir = (case latest dir of None \<Rightarrow> bottom | Some (_, st) \<Rightarrow> snap_val k st)"

definition base_index :: "snap_dir \<Rightarrow> nat" where
  "base_index dir = (case latest dir of None \<Rightarrow> 0 | Some (i, _) \<Rightarrow> i)"

lemma rec_val_joins:
  "rec_val k dir rs = mg_semilattice.joins k (base_val k dir) (map (mval k) (drop (base_index dir) rs))"
  by (simp add: rec_val_def base_val_def base_index_def mg_semilattice.joins_def split: option.splits)

lemma store_base:
  assumes "store_inv n k s rs c"
  shows "mg_carrier k (base_val k (st_snapshots s))" "base_index (st_snapshots s) \<le> c"
  using assms by (cases rule: latest_cases,
      insert store_invD(1) [OF assms], auto simp: base_val_def base_index_def bottom_carrier snap_val_carrier)+

lemma rec_val_carrier:
  assumes "store_inv n k s rs c"
  shows "mg_carrier k (rec_val k (st_snapshots s) (take q rs))"
proof -
  have "list_all rec_good (drop i (take q rs))" for i
    using store_invD(9) [OF assms] by (auto simp: list_all_iff dest: in_set_takeD in_set_dropD)
  then show ?thesis
    unfolding rec_val_joins
    by (intro mg_semilattice.joins_closed store_base(1) [OF assms] rec_good_carrier store_invD(1) [OF assms])
qed

lemma rec_val_mono:
  assumes "store_inv n k s rs c" "c \<le> p" "p \<le> q"
  shows "mg_semilattice.below k (rec_val k (st_snapshots s) (take p rs)) (rec_val k (st_snapshots s) (take q rs))"
proof -
  let ?i = "base_index (st_snapshots s)"
  obtain ts where ts: "take q rs = take p rs @ ts" "set ts \<subseteq> set rs"
    using assms(3) by (metis append_take_drop_id in_set_dropD in_set_takeD min.absorb1 subsetI take_take)
  have "?i \<le> length (take p rs)"
    using store_base(2) [OF assms(1)] store_invD(7) [OF assms(1)] assms(2) by simp
  then have d: "drop ?i (take q rs) = drop ?i (take p rs) @ ts" unfolding ts(1) by simp
  have "list_all rec_good ts" using ts(2) store_invD(9) [OF assms(1)] by (auto simp: list_all_iff)
  then have "mg_semilattice.below k (rec_val k (st_snapshots s) (take p rs))
    (mg_semilattice.joins k (rec_val k (st_snapshots s) (take p rs)) (map (mval k) ts))"
    by (intro mg_semilattice.below_joins rec_val_carrier [OF assms(1)] rec_good_carrier store_invD(1) [OF assms(1)])
  then show ?thesis unfolding rec_val_joins d by (simp add: mg_semilattice.joins_append)
qed

lemma rec_val_snoc:
  assumes "store_inv n k s rs c"
  shows "rec_val k (st_snapshots s) (rs @ [r]) = mg_join k (rec_val k (st_snapshots s) rs) (mval k r)"
proof -
  have "base_index (st_snapshots s) \<le> length rs"
    using store_base(2) [OF assms] store_invD(7) [OF assms] by simp
  then show ?thesis by (simp add: rec_val_joins mg_semilattice.joins_append)
qed

lemma store_inv_append:
  assumes "store_inv n k s rs c" "Suc (length rs) < 2 ^ 64" "rec_good r"
    and "log_inv l' (rs @ [r])" "\<not> lg_closed l'" "lg_mode l' = SyncAlways"
    and "c' = c \<and> lg_synced l' = lg_synced (st_wal s) \<or> c' = Suc (length rs) \<and> lg_synced l' = length (lg_file l')"
  shows "store_inv n k (s\<lparr>st_wal := l'\<rparr>) (rs @ [r]) c'"
proof -
  note inv = store_invD [OF assms(1)]
  have c: "c \<le> c'" "c' \<le> Suc (length rs)" using assms(7) inv(7) by auto
  have "lg_synced l' = length (wal_lines (take c' (rs @ [r])))"
    using assms(4,7) inv(7,8) by (auto simp: log_inv_def)
  moreover have "\<forall>i f. published (st_snapshots s) i = Some f \<longrightarrow>
      unat i \<le> c' \<and> (\<exists>st. ckpt_state f = Some st \<and> ckpt_ok n k st)"
    using c(1) store_inv_published [OF assms(1)] by (meson order_trans)
  ultimately show ?thesis using assms(2-6) inv c(2) by (simp add: store_inv_def)
qed

lemma store_append_cases:
  assumes "store_inv n k s rs c" "Suc (length rs) < 2 ^ 64"
    and "recordType \<noteq> []" "utf8_valid recordType" "json_ok 1 j" "clock_ok (ai_now io)" "ai_write io = None"
    and "r = newRecord (st_wal s) (ai_now io) recordType (json_text j)" "rec_good r"
    and "store_append io s recordType (json_text j) = (s', e)"
  obtains (appended) "e = None" "store_inv n k s' (rs @ [r]) (Suc (length rs))" "st_snapshots s' = st_snapshots s"
  | (unsynced) "e = Some IOError" "store_inv n k s' (rs @ [r]) c" "st_snapshots s' = st_snapshots s"
  | (refused) "e = Some IOError" "s' = s"
proof -
  note inv = store_invD [OF assms(1)]
  obtain l' res where A: "wal_Append io (st_wal s) recordType (json_text j) = (l', res)"
    by (cases "wal_Append io (st_wal s) recordType (json_text j)")
  then have s': "s' = s\<lparr>st_wal := l'\<rparr>" "e = (case res of Inl e \<Rightarrow> Some e | Inr _ \<Rightarrow> None)"
    using assms(10) inv(4) by (auto simp: store_append_def)
  from inv(2,3) assms(3-6) A assms(8) show ?thesis
    by (cases rule: wal_Append_cases)
      (use that s' assms(7) inv(5) store_inv_append [OF assms(1,2,9), of l'] in auto)
qed

text \<open>The store never forgets, and an acknowledged mutation survives the worst crash.\<close>

lemma store_append_durable:
  assumes "store_inv n k s rs c" "Suc (length rs) < 2 ^ 64"
    and "recordType \<noteq> []" "utf8_valid recordType" "json_ok 1 j" "clock_ok (ai_now io)" "ai_write io = None"
    and "r = newRecord (st_wal s) (ai_now io) recordType (json_text j)" "rec_good r"
    and "store_append io s recordType (json_text j) = (s', e)"
    and config: "syncMode (sc_WALSyncMode config) = Some SyncAlways"
  shows "\<exists>rs' c'. store_inv n k s' rs' c' \<and> length rs' \<le> Suc (length rs) \<and>
    mg_semilattice.below k (durable_val config k s) (durable_val config k s') \<and>
    (e = None \<longrightarrow> mg_semilattice.below k (mval k r) (durable_val config k s')) \<and>
    (e = None \<longrightarrow> c = length rs \<longrightarrow>
       c' = length rs' \<and> durable_val config k s' = mg_join k (durable_val config k s) (mval k r))"
  using assms(1-10)
proof (cases rule: store_append_cases)
  case appended
  let ?D = "st_snapshots s"
  have r: "mg_carrier k (mval k r)" using assms(9) store_invD(1) [OF assms(1)] by (auto simp: rec_good_def mut_fine_def mut_val_carrier)
  have c: "mg_carrier k (rec_val k ?D rs)" using rec_val_carrier [OF assms(1), of "length rs"] by simp
  have d': "durable_val config k s' = mg_join k (rec_val k ?D rs) (mval k r)"
    using durable_val_eq [OF appended(2) config] appended(3) rec_val_snoc [OF assms(1), of r] by simp
  have "mg_semilattice.below k (durable_val config k s) (rec_val k ?D rs)"
    using rec_val_mono [OF assms(1) order_refl store_invD(7) [OF assms(1)]] durable_val_eq [OF assms(1) config] by simp
  moreover have "mg_carrier k (durable_val config k s)"
    using durable_val_eq [OF assms(1) config] rec_val_carrier [OF assms(1)] by simp
  ultimately have "mg_semilattice.below k (durable_val config k s) (durable_val config k s')"
    unfolding d' using mg_semilattice.below_join [OF c r] c r
    by (meson mg_semilattice.below_trans mg_semilattice.join_closed)
  moreover have "mg_semilattice.below k (mval k r) (durable_val config k s')"
    unfolding d' by (rule mg_semilattice.below_join(2) [OF c r])
  moreover have "durable_val config k s = rec_val k ?D rs" if "c = length rs"
    using durable_val_eq [OF assms(1) config] that by simp
  ultimately show ?thesis using appended(1,2) d' by (intro exI [of _ "rs @ [r]"] exI [of _ "Suc (length rs)"]) auto
next
  case unsynced
  have "durable_val config k s' = durable_val config k s"
    using durable_val_eq [OF unsynced(2) config] durable_val_eq [OF assms(1) config] unsynced(3)
      store_invD(7) [OF assms(1)] by simp
  moreover have "mg_semilattice.below k (durable_val config k s) (durable_val config k s)"
    using durable_val_eq [OF assms(1) config] rec_val_carrier [OF assms(1)] by (simp add: mg_semilattice.below_refl)
  ultimately show ?thesis using unsynced by (intro exI [of _ "rs @ [r]"] exI [of _ c]) simp
next
  case refused
  have "mg_semilattice.below k (durable_val config k s) (durable_val config k s)"
    using durable_val_eq [OF assms(1) config] rec_val_carrier [OF assms(1)] by (simp add: mg_semilattice.below_refl)
  with refused assms(1) show ?thesis by (intro exI [of _ rs] exI [of _ c]) simp
qed

definition ckpt_text :: "SnapshotResp \<Rightarrow> bool" where
  "ckpt_text st \<longleftrightarrow> snap_text st \<and> \<not> time_IsZero (srp_CreatedAt st) \<and> t_off (srp_CreatedAt st) = 0 \<and>
     t_mono (srp_CreatedAt st) = None"

lemma ckpt_state_saved:
  assumes "ckpt_ok n k st" "ckpt_text st" "enc_SnapshotResp st = Some j" "sf_Payload f = json_text j"
  shows "ckpt_state f = Some (st\<lparr>srp_DeltaSequences := wire_seqs (srp_DeltaSequences st)\<rparr>)"
proof -
  have "DecodeSnapshotResp j = Inr (st\<lparr>srp_DeltaSequences := wire_seqs (srp_DeltaSequences st)\<rparr>)"
    using assms(1,2) by (intro DecodeSnapshotResp_enc [OF assms(3)]) (auto simp: ckpt_text_def snap_text_def ckpt_ok_def)
  moreover have "json_ok 1 j" using assms(2,3) by (simp add: ckpt_text_def snap_text_def)
  then have "parse_json (json_text j) = Some j" using parse_text json_ok_mono by blast
  ultimately show ?thesis using assms(4) by (simp add: ckpt_state_def)
qed

lemma store_inv_synced:
  assumes "store_inv n k s rs c" "lg_synced l = length (lg_file l)"
    and "l = (st_wal s)\<lparr>lg_pendingSync := p, lg_synced := b\<rparr>"
  shows "store_inv n k (s\<lparr>st_wal := l\<rparr>) rs (length rs)"
proof -
  note inv = store_invD [OF assms(1)]
  have "\<forall>i f. published (st_snapshots s) i = Some f \<longrightarrow>
      unat i \<le> length rs \<and> (\<exists>st. ckpt_state f = Some st \<and> ckpt_ok n k st)"
    using inv(7) store_inv_published [OF assms(1)] by (meson order_trans)
  then show ?thesis using inv assms(2,3) by (simp add: store_inv_def log_inv_def)
qed

lemma store_inv_dir:
  assumes "store_inv n k s rs (length rs)" "dir_inv dir"
    and "\<And>i f. published dir i = Some f \<Longrightarrow> published (st_snapshots s) i = Some f \<or>
      i = of_nat (length rs) \<and> (\<exists>st. ckpt_state f = Some st \<and> ckpt_ok n k st)"
  shows "store_inv n k (s\<lparr>st_snapshots := dir\<rparr>) rs (length rs)"
proof -
  note inv = store_invD [OF assms(1)]
  have "unat (of_nat (length rs) :: u64) = length rs" using inv(6) by (simp add: unsigned_of_nat take_bit_eq_mod)
  then have "\<forall>i f. published dir i = Some f \<longrightarrow> unat i \<le> length rs \<and> (\<exists>st. ckpt_state f = Some st \<and> ckpt_ok n k st)"
    using assms(3) store_inv_published [OF assms(1)] by (metis order_refl)
  then show ?thesis using inv assms(2) by (simp add: store_inv_def)
qed

lemma SaveCheckpoint_durable:
  assumes "store_inv n k s rs c" "ckpt_ok n k st" "ckpt_text st" "clock_ok (si_now (ci_save io))"
    and "SaveCheckpoint io s st = (s', e)" and config: "syncMode (sc_WALSyncMode config) = Some SyncAlways"
  shows "\<exists>c'. store_inv n k s' rs c' \<and> (c = length rs \<longrightarrow> c' = length rs) \<and>
    (if e = None then c' = length rs \<and> durable_val config k s' = snap_val k st
     else mg_semilattice.below k (durable_val config k s) (durable_val config k s') \<and>
       (c = length rs \<longrightarrow> durable_val config k s' = durable_val config k s))"
proof -
  note inv = store_invD [OF assms(1)]
  let ?D = "st_snapshots s" and ?x = "of_nat (length rs) :: u64"
  let ?l = "(st_wal s)\<lparr>lg_pendingSync := 0, lg_synced := length (lg_file (st_wal s))\<rparr>"
  let ?s = "s\<lparr>st_wal := ?l\<rparr>"
  have self: "mg_semilattice.below k (durable_val config k s) (durable_val config k s)"
    using durable_val_eq [OF assms(1) config] rec_val_carrier [OF assms(1)] by (simp add: mg_semilattice.below_refl)
  obtain j where j: "enc_SnapshotResp st = Some j" "json_ok 1 j"
    using assms(3) by (auto simp: ckpt_text_def snap_text_def split: option.splits)
  show ?thesis
  proof (cases "ci_sync io")
    case False
    then have "s' = s\<lparr>st_wal := st_wal s\<rparr>" "e = Some IOError"
      using assms(5) j(1) inv(3,4) by (auto simp: SaveCheckpoint_def wal_Sync_def syncLocked_def)
    then show ?thesis using assms(1) self by (intro exI [of _ c]) simp
  next
    case True
    have S: "store_inv n k ?s rs (length rs)" by (rule store_inv_synced [OF assms(1) _ refl]) simp
    have grow: "mg_semilattice.below k (durable_val config k s) (rec_val k ?D rs)"
      "c = length rs \<Longrightarrow> durable_val config k s = rec_val k ?D rs"
      using rec_val_mono [OF assms(1) order_refl inv(7)] durable_val_eq [OF assms(1) config] by simp_all
    obtain dir res where R: "snap_Save (ci_save io) ?D ?x (json_text j) = (dir, res)"
      by (cases "snap_Save (ci_save io) ?D ?x (json_text j)")
    have s': "s' = ?s\<lparr>st_snapshots := dir\<rparr>" "e = (case res of Inl e \<Rightarrow> Some e | Inr _ \<Rightarrow> None)"
      using assms(5) j(1) True inv(3,4,13) R by (auto simp: SaveCheckpoint_def wal_Sync_def syncLocked_def LastIndex_def)
    from inv(10) j(2) assms(4) R show ?thesis
    proof (cases rule: snap_Save_cases)
      case failed
      have I: "store_inv n k s' rs (length rs)" unfolding s'(1) using S failed(2) by (rule store_inv_dir) (simp add: failed(3))
      have "latest dir = latest ?D"
        using LoadLatest_published [OF failed(2) inv(10) failed(3)] by (simp add: latest_def)
      then have "durable_val config k s' = rec_val k ?D rs"
        using durable_val_eq [OF I config] s'(1) by (simp add: rec_val_def)
      with I grow s'(2) failed(1) show ?thesis by auto
    next
      case saved
      let ?f = "\<lparr>sf_Metadata = newMetadata (ci_save io) ?x (json_text j), sf_Payload = json_text j\<rparr>"
      let ?st = "st\<lparr>srp_DeltaSequences := wire_seqs (srp_DeltaSequences st)\<rparr>"
      have f: "ckpt_state ?f = Some ?st" by (rule ckpt_state_saved [OF assms(2,3) j(1)]) simp
      have ok: "ckpt_ok n k ?st" using assms(2) by (simp add: ckpt_ok_def)
      have I: "store_inv n k s' rs (length rs)"
        unfolding s'(1) using S saved(2) by (rule store_inv_dir) (use f ok saved(3) in \<open>auto split: if_splits\<close>)
      have "latest dir = Some (length rs, ?st)"
      proof -
        obtain i g where i: "published dir i = Some g" "LoadLatest True True dir = Inr (Some g)" "file_ok i g"
          "\<And>q. published dir q \<noteq> None \<Longrightarrow> q \<le> i"
          using LoadLatest_spec [OF saved(2)] saved(3) by (metis fun_upd_same option.distinct(1))
        have "?x \<le> i" using i(4) [of ?x] saved(3) by simp
        moreover have "unat i \<le> length rs" using store_inv_published [OF I, of i g] i(1) s'(1) by auto
        moreover have "unat ?x = length rs" using inv(6) by (simp add: unsigned_of_nat take_bit_eq_mod)
        ultimately have "i = ?x" by (simp add: word_le_nat_alt word_unat_eq_iff)
        then have "g = ?f" using i(1) saved(3) by simp
        with i(2) f \<open>unat ?x = length rs\<close> show ?thesis by (simp add: latest_def newMetadata_def Let_def)
      qed
      then have "durable_val config k s' = snap_val k st"
        using durable_val_eq [OF I config] s'(1) by (simp add: rec_val_def snap_val_def)
      with I s'(2) saved(1) show ?thesis by auto
    qed
  qed
qed

end
