(* ===== verification/Durability.thy ===== *)
theory Durability
  imports Storage
begin

text \<open>
  The manager over a journal: every operation that changes its value is one appended mutation, so
  a journal that keeps what it acknowledges keeps the manager's value.  The contract of such a
  journal is a locale; the store under an always-sync log interprets it.
\<close>

section \<open>Write-ahead discipline\<close>

fun append_mut :: "'j append_delta \<Rightarrow> 'j append_snapshot \<Rightarrow> 'j \<Rightarrow> mutation \<Rightarrow> 'j \<times> go_error option" where
  "append_mut jd js j (MutDelta d) = jd j d"
| "append_mut jd js j (MutSnapshot s) = js j s"

fun mut_text :: "mutation \<Rightarrow> bool" where
  "mut_text (MutDelta d) = delta_text d"
| "mut_text (MutSnapshot s) = snap_text s"

lemma mut_text_good: "mut_text u \<Longrightarrow> mut_good u"
  by (cases u) (simp_all add: delta_text_def snap_text_def)

text \<open>
  Either nothing happened to the value and the journal, or one mutation was appended, and the
  value took it in exactly when the journal acknowledged it.
\<close>

definition write_ahead :: "'j append_delta \<Rightarrow> 'j append_snapshot \<Rightarrow> 'j Manager \<Rightarrow> 'j Manager \<Rightarrow> bool" where
  "write_ahead jd js m m' \<longleftrightarrow> mg_wf m' \<and> same_frame m m' \<and>
     (mg_val m' = mg_val m \<and> mg_journal m' = mg_journal m \<or>
      (\<exists>u. mut_text u \<and>
         (case mg_journal m of
            None \<Rightarrow> mg_journal m' = None \<and> mg_val m' = mg_join (kmax m) (mg_val m) (mut_val (kmax m) u)
          | Some j \<Rightarrow> mg_journal m' = Some (fst (append_mut jd js j u)) \<and>
              mg_val m' = (if snd (append_mut jd js j u) = None
                           then mg_join (kmax m) (mg_val m) (mut_val (kmax m) u) else mg_val m))))"

lemma write_ahead_same:
  "mg_wf m' \<Longrightarrow> same_frame m m' \<Longrightarrow> mg_val m' = mg_val m \<Longrightarrow> mg_journal m' = mg_journal m \<Longrightarrow> write_ahead jd js m m'"
  by (simp add: write_ahead_def)

lemma write_ahead_delta:
  assumes "mg_wf m'" "same_frame m m'" "delta_text d"
    and "journaled jd m m' d \<and> mg_val m' = mg_join (kmax m) (mg_val m) (delta_val (kmax m) d) \<or>
      journal_failed jd m m' d \<and> mg_val m' = mg_val m"
  shows "write_ahead jd js m m'"
proof -
  have "case mg_journal m of
      None \<Rightarrow> mg_journal m' = None \<and> mg_val m' = mg_join (kmax m) (mg_val m) (mut_val (kmax m) (MutDelta d))
    | Some j \<Rightarrow> mg_journal m' = Some (fst (append_mut jd js j (MutDelta d))) \<and>
        mg_val m' = (if snd (append_mut jd js j (MutDelta d)) = None
                     then mg_join (kmax m) (mg_val m) (mut_val (kmax m) (MutDelta d)) else mg_val m)"
    using assms(4) by (auto simp: journaled_def journal_failed_def split: option.splits)
  moreover have "mut_text (MutDelta d)" using assms(3) by simp
  ultimately show ?thesis using assms(1,2) unfolding write_ahead_def by blast
qed

lemma received_write_ahead:
  assumes "mg_wf m" "delta_fit d" "ApplyReceivedDelta jd m d = (m', r)"
  shows "write_ahead jd js m m'"
proof (cases "delta_good d")
  case False
  with assms(2) received_not_good [OF assms(1) _ _ assms(3)] show ?thesis
    by (intro write_ahead_same) (simp_all add: delta_fit_def)
next
  case True
  note spec = ApplyReceivedDelta_spec [OF assms(1) True assms(3)]
  have t: "delta_text d" using assms(2) True by (simp add: delta_fit_def)
  consider e where "r = Inl e" | "r = Inr True" | "r = Inr False" by (cases r) auto
  then show ?thesis
  proof cases
    case 1
    with spec show ?thesis by (intro write_ahead_delta [OF _ _ t]) (auto simp: same_state_def)
  next
    case 2
    with spec show ?thesis by (intro write_ahead_delta [OF _ _ t]) auto
  next
    case 3
    with spec show ?thesis by (intro write_ahead_same) auto
  qed
qed

subsection \<open>Local updates\<close>

lemma sum_delta_text:
  assumes "sum_delta n d" "ValidNodeID n"
  shows "delta_text d"
proof -
  obtain v q x where d: "d = \<lparr>sd_AggregateType = AggregateSUM, sd_DeltaVersion = v, sd_OriginNodeID = n,
      sd_DeltaSequence = q, sd_Delta = Some (enc_SUMDelta \<lparr>sumd_NodeID = n, sumd_Value = x\<rparr>)\<rparr>"
    using assms(1) by (auto simp: sum_delta_def)
  have "utf8_valid n" using assms(2) by (intro ascii_valid ValidNodeID_ascii)
  moreover have "utf8_valid AggregateSUM" by (rule ascii_valid) (simp add: AggregateSUM_def)
  ultimately have "json_ok 1 (enc_StateDelta d)"
    by (simp add: d enc_StateDelta_def enc_SUMDelta_def enc_raw_def omitempty_def max_depth_def ascii_valid)
  moreover have "DecodeSUMDelta d = Inr \<lparr>sumd_NodeID = n, sumd_Value = x\<rparr>"
    using assms(2) by (simp add: d DecodeSUMDelta_def unmarshal_raw_def)
  ultimately show ?thesis by (simp add: delta_text_def delta_good_def)
qed

lemma localSUM_write_ahead:
  assumes "mg_wf m" "applyLocalSUM jd m v = (m', r)"
  shows "write_ahead jd js m m'"
proof -
  note spec = applyLocalSUM_spec [OF assms]
  have n: "ValidNodeID (mg_nodeID m)" using assms(1) by (simp add: mg_wf_def)
  show ?thesis
  proof (cases r)
    case (Inl e)
    with spec have s: "mg_wf m'" "same_frame m m'" "same_state m m'" by auto
    show ?thesis
    proof (cases "m' = m")
      case True
      with s show ?thesis by (intro write_ahead_same) auto
    next
      case False
      with Inl spec obtain d where "journal_failed jd m m' d" "sum_delta (mg_nodeID m) d" by auto
      with s show ?thesis
        by (intro write_ahead_delta [OF s(1,2) sum_delta_text [OF _ n]]) (auto simp: same_state_def)
    qed
  next
    case (Inr p)
    obtain d adv where p: "p = (d, adv)" by (cases p)
    let ?x = "sum_val (mg_sum m')" and ?y = "sum_val (mg_sum m)" and ?n = "mg_nodeID m"
    from spec Inr p have f: "mg_wf m'" "same_frame m m'" "unat (?y ?n) \<le> unat (?x ?n)" "\<And>n. n \<noteq> ?n \<Longrightarrow> ?x n = ?y n"
      "mg_topk m' = mg_topk m" "DecodeSUMDelta d = Inr \<lparr>sumd_NodeID = ?n, sumd_Value = ?x ?n\<rparr>"
      "journaled jd m m' d" "sum_delta ?n d" by auto
    have "?x = sum_join ?y (mget 0 [(?n, ?x ?n)])"
    proof
      fix n
      have "?y ?n \<le> ?x ?n" using f(3) by (simp add: word_le_nat_alt)
      then show "?x n = sum_join ?y (mget 0 [(?n, ?x ?n)]) n"
        using f(4) [of n] by (cases "n = ?n") (auto simp: sum_join_def max_def)
    qed
    then have "mg_val m' = mg_join (kmax m) (mg_val m) (delta_val (kmax m) d)"
      using f(5,6) topk_join_Nil [OF mg_wf_topk [OF assms(1)]] by (simp add: mg_val_def mg_join_def delta_val_def)
    with f show ?thesis by (intro write_ahead_delta [OF f(1,2) sum_delta_text [OF f(8) n]]) auto
  qed
qed

lemma decode_encode_candidate:
  assumes "topk_encodeCandidate c = Some j" "t_off (c_EventTS c) mod 60 = 0"
  shows "topk_decodeCandidate z j = Some (c\<lparr>c_EventTS := time_Round0 (c_EventTS c)\<rparr>)"
proof -
  obtain sc ts where j: "enc_float64 (c_Score c) = Some sc" "enc_time (c_EventTS c) = Some ts"
    "j = JObj [(''item_id'', JStr (c_ItemID c)), (''score'', sc), (''event_ts'', ts),
               (''origin_node_id'', JStr (c_OriginNodeID c))]"
    using assms(1) by (auto simp: topk_encodeCandidate_def split: option.splits)
  show ?thesis
    using dec_enc_float64 [OF j(1)] dec_enc_time [OF j(2) assms(2)] j(3)
    by (simp add: topk_decodeCandidate_def decode_struct_def find_field_def field_def)
qed

text \<open>A candidate with a JSON form that reads back.\<close>

definition cand_text :: "Candidate \<Rightarrow> bool" where
  "cand_text c \<longleftrightarrow> cand_good c \<and> utf8_valid (c_ItemID c) \<and> t_off (c_EventTS c) mod 60 = 0 \<and> topk_encodeCandidate c \<noteq> None"

lemma json_ok_candidate:
  assumes "topk_encodeCandidate c = Some j" "utf8_valid (c_ItemID c)" "ValidNodeID (c_OriginNodeID c)" "d < max_depth"
  shows "json_ok d j"
proof -
  obtain sc ts where j: "enc_float64 (c_Score c) = Some sc" "enc_time (c_EventTS c) = Some ts"
    "j = JObj [(''item_id'', JStr (c_ItemID c)), (''score'', sc), (''event_ts'', ts),
               (''origin_node_id'', JStr (c_OriginNodeID c))]"
    using assms(1) by (auto simp: topk_encodeCandidate_def split: option.splits)
  have "utf8_valid (c_OriginNodeID c)" using assms(3) by (intro ascii_valid ValidNodeID_ascii)
  with assms(2,4) json_ok_float64 [OF j(1)] json_ok_time [OF j(2)] show ?thesis
    by (simp add: j(3) ascii_valid)
qed

lemma cand_good_origin: "cand_good c \<Longrightarrow> ValidNodeID (c_OriginNodeID c)"
  by (auto simp: cand_good_def cand_ok_def topk_validateCandidate_def split: if_splits)

lemma topk_delta_text:
  assumes "cand_text c" "c_OriginNodeID c = n" "topk_encodeCandidate c = Some j"
    and d: "d = \<lparr>sd_AggregateType = AggregateTOPK, sd_DeltaVersion = v, sd_OriginNodeID = n, sd_DeltaSequence = q,
      sd_Delta = Some j\<rparr>"
  shows "delta_text d" "delta_val k d = (\<lambda>_. 0, topk_canonicalize [c] k)"
proof -
  let ?c = "c\<lparr>c_EventTS := time_Round0 (c_EventTS c)\<rparr>"
  have g: "cand_good c" "ValidNodeID n" using assms(1,2) cand_good_origin by (auto simp: cand_text_def)
  have D: "DecodeTOPKDelta d = Inr ?c"
    using assms(1,2) decode_encode_candidate [OF assms(3)]
    by (simp add: d DecodeTOPKDelta_def unmarshal_raw_def cand_text_def)
  have nm: "topk_normalizeCandidate ?c = topk_normalizeCandidate c"
    by (simp add: topk_normalizeCandidate_def time_Round0_def time_UTC_def)
  then have gc: "cand_good ?c" using g(1) cand_good_normalize by metis
  have "utf8_valid n" using g(2) by (intro ascii_valid ValidNodeID_ascii)
  moreover have "utf8_valid AggregateTOPK" by (rule ascii_valid) (simp add: AggregateTOPK_def)
  moreover have "json_ok 2 j"
    using assms(1) g(2) assms(2) by (intro json_ok_candidate [OF assms(3)]) (auto simp: cand_text_def max_depth_def)
  ultimately have "json_ok 1 (enc_StateDelta d)"
    by (simp add: d enc_StateDelta_def enc_raw_def omitempty_def max_depth_def ascii_valid numeral_2_eq_2)
  with D gc show "delta_text d" by (simp add: delta_text_def delta_good_def)
  have "topk_canonicalize [?c] k = topk_canonicalize [c] k"
    using nm by (simp add: topk_canonicalize_def)
  then show "delta_val k d = (\<lambda>_. 0, topk_canonicalize [c] k)"
    using D DecodeSUM_of_TOPK [OF D] by (simp add: delta_val_def)
qed

definition local_text :: "'j Manager \<Rightarrow> topk_value go_any \<Rightarrow> bool" where
  "local_text m v \<longleftrightarrow>
     (case v of
        AnyVal (TopkCandidate c) \<Rightarrow>
          (let c' = c\<lparr>c_OriginNodeID := mg_nodeID m\<rparr> in topk_validateCandidate c' \<noteq> None \<or> cand_text c')
      | _ \<Rightarrow> True)"

text \<open>The journaled end of a local update, with the rollback \<open>rollback\<close>.\<close>

lemma write_ahead_append:
  assumes "mg_wf m2" "same_frame m m2" "mg_journal m2 = mg_journal m" "delta_text d"
    and "mg_val m2 = mg_join (kmax m) (mg_val m) (delta_val (kmax m) d)"
    and rollback: "\<And>q. mg_wf (rollback (m2\<lparr>mg_journal := q\<rparr>)) \<and> same_frame m (rollback (m2\<lparr>mg_journal := q\<rparr>)) \<and>
      mg_val (rollback (m2\<lparr>mg_journal := q\<rparr>)) = mg_val m \<and> mg_journal (rollback (m2\<lparr>mg_journal := q\<rparr>)) = q"
    and m': "m' = (case appendDelta jd m2 d of (m3, None) \<Rightarrow> enqueue m3 d | (m3, Some err) \<Rightarrow> rollback m3)"
  shows "write_ahead jd js m m'"
proof -
  obtain q where q: "fst (appendDelta jd m2 d) = m2\<lparr>mg_journal := q\<rparr>" using appendDelta_cases [of jd m2 d] by blast
  show ?thesis
  proof (cases "snd (appendDelta jd m2 d)")
    case None
    then have e: "m' = enqueue (m2\<lparr>mg_journal := q\<rparr>) d" using m' q by (simp add: split_beta)
    have "journaled jd m2 (m2\<lparr>mg_journal := q\<rparr>) d" using appendDelta_cases [of jd m2 d] q None by auto
    then have "journaled jd m m' d"
      using journaled_cong(1) [of m2 m "m2\<lparr>mg_journal := q\<rparr>" m'] assms(3) by (simp add: e)
    moreover have "mg_val m' = mg_val m2" by (simp add: e mg_val_def)
    moreover have "mg_wf m'" unfolding e by (rule enqueue_wf) (use assms(1) in simp)
    moreover have "same_frame m m'" using assms(2) by (simp add: e same_frame_def)
    ultimately show ?thesis using assms(4,5) by (intro write_ahead_delta) auto
  next
    case (Some x)
    then have e: "m' = rollback (m2\<lparr>mg_journal := q\<rparr>)" using m' q by (simp add: split_beta)
    have "journal_failed jd m2 (m2\<lparr>mg_journal := q\<rparr>) d" using appendDelta_cases [of jd m2 d] q Some by auto
    then have "journal_failed jd m m' d"
      using journaled_cong(2) [of m2 m "m2\<lparr>mg_journal := q\<rparr>" m'] assms(3) rollback [of q] by (simp add: e)
    then show ?thesis using assms(4) rollback [of q] by (intro write_ahead_delta) (auto simp: e)
  qed
qed

lemma localTOPK_advances:
  assumes "mg_wf m" "cand_text c" "c_OriginNodeID c = mg_nodeID m" "topk_encodeCandidate c = Some j"
    and "topk_Serialize (mg_topk m) = Inr b" "s = fst (topk_Update (mg_topk m) (TopkCandidate c))"
    and "d = \<lparr>sd_AggregateType = AggregateTOPK, sd_DeltaVersion = v, sd_OriginNodeID = mg_nodeID m, sd_DeltaSequence = q,
      sd_Delta = Some j\<rparr>"
    and "m' = (case appendDelta jd (m\<lparr>mg_topk := s, mg_deltaSeq := x\<rparr>) d of
        (m3, None) \<Rightarrow> enqueue m3 d
      | (m3, Some err) \<Rightarrow> m3\<lparr>mg_topk := fst (topk_Deserialize (mg_topk m3) b), mg_deltaSeq := mg_deltaSeq m\<rparr>)"
  shows "write_ahead jd js m m'"
proof -
  let ?k = "kmax m" and ?L = "topk_join (kmax m) (tk_candidates (mg_topk m)) [c]"
  have t: "topk_wf (mg_topk m)" "list_all cand_good (tk_candidates (mg_topk m))" using assms(1) by (simp_all add: mg_wf_def)
  have g: "cand_good c" "cand_ok c" using assms(2) by (simp_all add: cand_text_def cand_good_ok)
  have can: "topk_canonical ?k (tk_candidates (mg_topk m))" using mg_wf_topk [OF assms(1)] .
  have U: "tk_candidates s = ?L" "tk_kmax s = ?k"
    using topk_Update_ok [OF t(1) _ g(2), of "TopkCandidate c"] by (simp_all add: topk_candidateFrom_def assms(6))
  have "list_all cand_good ?L" by (rule topk_join_good [OF can t(2)]) (simp add: g(1))
  moreover have "topk_canonical ?k ?L" using topk_join_canonical [OF can, of "[c]"] g(2) by simp
  ultimately have wf: "mg_wf (m\<lparr>mg_topk := s, mg_deltaSeq := x\<rparr>)"
    using assms(1) U by (simp add: mg_wf_def topk_wf_def)
  have d: "delta_text d" "delta_val ?k d = (\<lambda>_. 0, topk_canonicalize [c] ?k)"
    using topk_delta_text [OF assms(2,3,4,7)] by simp_all
  have "topk_Deserialize s b = (mg_topk m, None)"
    using topk_checkPayload_Serialize [OF t(1) assms(5)] canonicalize_canonical_id [OF can] U(2)
    by (simp add: topk_Deserialize_def)
  then show ?thesis
    using assms(1) U d g(2) topk_join_absorb [OF can, of "[c]"]
    by (intro write_ahead_append [OF wf _ _ d(1) _ _ assms(8)])
      (simp_all add: same_frame_def mg_val_def mg_join_def sum_join_def mg_wf_def)
qed

lemma localTOPK_write_ahead:
  assumes "mg_wf m" "local_text m v" "applyLocalTOPK jd m v = (m', r)"
  shows "write_ahead jd js m m'"
proof (cases "\<exists>c. v = AnyVal (TopkCandidate c)")
  case False
  then have "m' = m" using assms(3) by (auto simp: applyLocalTOPK_def split: go_any.splits topk_value.splits)
  with assms(1) show ?thesis by (intro write_ahead_same) auto
next
  case True
  then obtain c0 where v: "v = AnyVal (TopkCandidate c0)" by blast
  define c where "c = c0\<lparr>c_OriginNodeID := mg_nodeID m\<rparr>"
  obtain b where b: "topk_Serialize (mg_topk m) = Inr b" using assms(1) by (rule mg_wf_serializes)
  have t: "topk_wf (mg_topk m)" using assms(1) by (simp add: mg_wf_def)
  show ?thesis
  proof (cases "topk_validateCandidate c")
    case (Some e)
    then have "topk_Update (mg_topk m) (TopkCandidate c) = (mg_topk m, Inl e)"
      by (simp add: topk_Update_def topk_candidateFrom_def)
    then have "m' = m" using assms(3) b by (simp add: v applyLocalTOPK_def c_def Let_def)
    with assms(1) show ?thesis by (intro write_ahead_same) auto
  next
    case None
    with assms(2) have ct: "cand_text c" by (simp add: local_text_def v c_def Let_def)
    then obtain j where j: "topk_encodeCandidate c = Some j" by (auto simp: cand_text_def)
    let ?L = "topk_join (kmax m) (tk_candidates (mg_topk m)) [c]"
    define s where "s = fst (topk_Update (mg_topk m) (TopkCandidate c))"
    have U: "topk_Update (mg_topk m) (TopkCandidate c) = (s, Inr (tk_candidates (mg_topk m) \<noteq> ?L))"
      "tk_candidates s = ?L" "tk_kmax s = kmax m"
      using topk_Update_ok [OF t _ cand_good_ok, of "TopkCandidate c" c] ct
      by (simp_all add: topk_candidateFrom_def s_def cand_text_def)
    show ?thesis
    proof (cases "tk_candidates (mg_topk m) = ?L")
      case True
      then have "m' = m\<lparr>mg_topk := s\<rparr>" using assms(3) b U by (simp add: v applyLocalTOPK_def c_def Let_def)
      with True U assms(1) show ?thesis by (intro write_ahead_same) (auto simp: same_frame_def mg_val_def mg_wf_def topk_wf_def)
    next
      case False
      define d where "d = \<lparr>sd_AggregateType = AggregateTOPK, sd_DeltaVersion = tk_version s, sd_OriginNodeID = mg_nodeID m,
        sd_DeltaSequence = mg_deltaSeq m + 1, sd_Delta = Some j\<rparr>"
      let ?m2 = "m\<lparr>mg_topk := s, mg_deltaSeq := mg_deltaSeq m + 1\<rparr>"
      have "applyLocalTOPK jd m v =
        (case appendDelta jd ?m2 d of
           (m3, None) \<Rightarrow> (enqueue m3 d, Inr (d, True))
         | (m3, Some err) \<Rightarrow>
             (m3\<lparr>mg_topk := fst (topk_Deserialize (mg_topk m3) b), mg_deltaSeq := mg_deltaSeq m\<rparr>, Inl err))"
        unfolding d_def v applyLocalTOPK_def using b U False j
        by (simp add: Let_def c_def [symmetric] NewTOPKStateDelta_def topk_getState_def)
      then have "m' = (case appendDelta jd ?m2 d of
          (m3, None) \<Rightarrow> enqueue m3 d
        | (m3, Some err) \<Rightarrow> m3\<lparr>mg_topk := fst (topk_Deserialize (mg_topk m3) b), mg_deltaSeq := mg_deltaSeq m\<rparr>)"
        using assms(3) by (auto split: prod.splits option.splits)
      then show ?thesis by (intro localTOPK_advances [OF assms(1) ct _ j b s_def d_def]) (simp add: c_def)
    qed
  qed
qed

subsection \<open>Snapshots\<close>

lemma applySnapshot_unchanged:
  assumes "mg_wf m" "snap_good s" "applySnapshotLocked m s = (m', Inr False)"
  shows "mg_val m' = mg_val m"
proof -
  obtain m1 a where a: "applySnapshotSum m (srp_SUMState s) = (m1, Inr a)" "mg_wf m1"
    using applySnapshotSum_spec [OF assms(1,2)] by metis
  obtain m2 b where b: "applySnapshotTopk m1 (srp_TOPKState s) = (m2, Inr b)"
    using applySnapshotTopk_spec [OF a(2) assms(2)] by metis
  have f: "\<not> a" "\<not> b" "mg_val m' = mg_val m2" using assms(3) a(1) b by (auto simp: applySnapshotLocked_def)
  have "mg_val m1 = mg_val m"
  proof (cases "srp_SUMState s")
    case (Some j)
    with assms(2) obtain st where st: "sum_StateFromSerialized j = Inr st" by (auto simp: snap_good_def ok_def split: sum.splits)
    from sum_Merge_changed [OF sum_StateFromSerialized_ok [OF st], of "mg_sum m"] a(1) f(1) Some st show ?thesis
      by (auto simp: applySnapshotSum_def advanced_of_def mg_val_def split_beta)
  qed (use a(1) in \<open>simp add: applySnapshotSum_def\<close>)
  moreover have "mg_val m2 = mg_val m1"
  proof (cases "srp_TOPKState s")
    case (Some j)
    with assms(2) obtain st where st: "topk_StateFromSerialized j = Inr st" "list_all cand_good (ts_Candidates st)"
      by (auto simp: snap_good_def split: sum.splits)
    have "topk_peer_ok (TopkPeerState st)"
      using st(2) by (auto simp: topk_peer_ok_def topk_stateFrom_def list_all_iff cand_good_ok)
    moreover have "topk_wf (mg_topk m1)" using a(2) by (simp add: mg_wf_def)
    ultimately show ?thesis using topk_Merge_changed [of "mg_topk m1" "TopkPeerState st"] b f(2) Some st(1)
      by (auto simp: applySnapshotTopk_def advanced_of_def mg_val_def split_beta)
  qed (use b in \<open>simp add: applySnapshotTopk_def\<close>)
  ultimately show ?thesis using f(3) by simp
qed

lemma appendSnapshot_journal:
  "fst (appendSnapshot js m s) = m\<lparr>mg_journal := map_option (\<lambda>j. fst (js j s)) (mg_journal m)\<rparr>"
  "snd (appendSnapshot js m s) = None \<longleftrightarrow> (\<forall>j. mg_journal m = Some j \<longrightarrow> snd (js j s) = None)"
  by (cases "mg_journal m", auto simp: appendSnapshot_def split_beta Let_def split: option.splits)+

lemma ApplySnapshot_journal:
  assumes "mg_wf m" "snap_good s" "ApplySnapshot js m s = (m', r)"
  shows "mg_journal m' = mg_journal m \<and> mg_val m' = mg_val m \<or>
    mg_journal m' = map_option (\<lambda>j. fst (js j s)) (mg_journal m) \<and>
    (ok r \<longleftrightarrow> (\<forall>j. mg_journal m = Some j \<longrightarrow> snd (js j s) = None))"
proof -
  obtain b where b: "topk_Serialize (mg_topk m) = Inr b" using assms(1) by (rule mg_wf_serializes)
  obtain m1 a where m1: "applySnapshotLocked m s = (m1, Inr a)"
    using applySnapshotLocked_spec [OF assms(1,2)] by metis
  have j: "mg_journal m1 = mg_journal m" using applySnapshot_other(4) [of m s] m1 by simp
  show ?thesis
  proof (cases a)
    case False
    then have "m' = m1" using assms(3) b m1 by (auto simp: ApplySnapshot_def Let_def)
    with False j m1 applySnapshot_unchanged [OF assms(1,2)] show ?thesis by auto
  next
    case True
    have "mg_journal m' = mg_journal (fst (appendSnapshot js m1 s)) \<and> (ok r \<longleftrightarrow> snd (appendSnapshot js m1 s) = None)"
      using assms(3) b m1 True
      by (cases "snd (appendSnapshot js m1 s)")
        (auto simp: ApplySnapshot_def Let_def split_beta rollbackSum_def rollbackTopk_def split: option.splits)
    with appendSnapshot_journal [of js m1 s] j show ?thesis by simp
  qed
qed

lemma snap_text_write_ahead:
  assumes "mg_wf m" "snap_text s" "ApplySnapshot js m s = (m', r)"
  shows "write_ahead jd js m m'"
proof -
  have g: "snap_good s" using assms(2) by (simp add: snap_text_def)
  note spec = ApplySnapshot_spec [OF assms(1) g assms(3)] and jn = ApplySnapshot_journal [OF assms(1) g assms(3)]
  show ?thesis
  proof (cases "mg_journal m' = mg_journal m \<and> mg_val m' = mg_val m")
    case True
    with spec show ?thesis by (intro write_ahead_same) auto
  next
    case False
    with jn have J: "mg_journal m' = map_option (\<lambda>j. fst (js j s)) (mg_journal m)"
      "ok r \<longleftrightarrow> (\<forall>j. mg_journal m = Some j \<longrightarrow> snd (js j s) = None)" by auto
    have V: "mg_val m' = (if ok r then mg_join (kmax m) (mg_val m) (snap_val (kmax m) s) else mg_val m)"
      using spec by (auto simp: ok_def same_state_def split: sum.splits)
    have "case mg_journal m of
        None \<Rightarrow> mg_journal m' = None \<and> mg_val m' = mg_join (kmax m) (mg_val m) (mut_val (kmax m) (MutSnapshot s))
      | Some j \<Rightarrow> mg_journal m' = Some (fst (append_mut jd js j (MutSnapshot s))) \<and>
          mg_val m' = (if snd (append_mut jd js j (MutSnapshot s)) = None
                       then mg_join (kmax m) (mg_val m) (mut_val (kmax m) (MutSnapshot s)) else mg_val m)"
      using J V by (auto split: option.splits)
    moreover have "mut_text (MutSnapshot s)" using assms(2) by simp
    ultimately show ?thesis using spec unfolding write_ahead_def by blast
  qed
qed

lemma snapshot_write_ahead:
  assumes "mg_wf m" "snap_fit s" "ApplySnapshot js m s = (m', r)"
  shows "write_ahead jd js m m'"
proof (cases "snap_good s")
  case True
  then show ?thesis using snap_text_write_ahead [OF assms(1) _ assms(3)] assms(2) by (simp add: snap_fit_def)
next
  case False
  then have "m' = m" using snapshot_refused(1) [OF assms(1)] assms(2,3) by (metis fst_conv snap_fit_def)
  then show ?thesis using assms(1) by (simp add: write_ahead_same)
qed

lemma ops_write_ahead:
  assumes "mg_wf m"
  shows "local_text m (lu_Value u) \<Longrightarrow> ApplyLocalUpdate jd m u = (m', r) \<Longrightarrow> write_ahead jd js m m'"
    and "delta_fit d \<Longrightarrow> ApplyReceivedDelta jd m d = (m', r') \<Longrightarrow> write_ahead jd js m m'"
    and "snap_fit st \<Longrightarrow> ApplySnapshot js m st = (m', r') \<Longrightarrow> write_ahead jd js m m'"
  using assms localSUM_write_ahead localTOPK_write_ahead received_write_ahead snapshot_write_ahead
    write_ahead_same [OF assms same_frame_refl refl refl]
  by (auto simp: ApplyLocalUpdate_def split: if_splits)

text \<open>
  C16. When the manager runs ahead of its journal and when not.  A local update, a received delta and
  a received snapshot either leave its value and its journal alone, or append exactly one mutation and
  take in the value of that mutation when the journal acknowledged it and nothing when it did not; the
  manager stays well formed and keeps its id, its bound and its queue capacity.  The one snapshot this
  is not true of is proved here too: when its \<open>SUM\<close> part is valid and its \<open>TOPK\<close> part is not, the \<open>SUM\<close>
  part is merged, the call fails, and the journal hears nothing.  Excluded are accepted candidates
  with the negative zero as score or a UTC year beyond 9999, and accepted mutations without a JSON form.
\<close>

theorem manager_write_ahead:
  assumes "mg_wf m" "local_text m (lu_Value u)" "delta_fit d" "snap_fit st" "half_valid st'"
  shows "write_ahead jd js m (fst (ApplyLocalUpdate jd m u)) \<and> write_ahead jd js m (fst (ApplyReceivedDelta jd m d)) \<and>
    write_ahead jd js m (fst (ApplySnapshot js m st)) \<and>
    \<not> ok (snd (ApplySnapshot js m st')) \<and> mg_journal (fst (ApplySnapshot js m st')) = mg_journal m \<and>
    mg_val (fst (ApplySnapshot js m st')) = mg_join (kmax m) (mg_val m) (fst (snap_val (kmax m) st'), [])"
  using ops_write_ahead(1) [OF assms(1,2) surjective_pairing] ops_write_ahead(2) [OF assms(1,3) surjective_pairing]
    ops_write_ahead(3) [OF assms(1,4) surjective_pairing] half_valid_snapshot(3-5) [OF assms(1,5) surjective_pairing]
  by simp

definition ex_snapshot :: "json option \<Rightarrow> json option \<Rightarrow> SnapshotResp" where
  "ex_snapshot s t = \<lparr>srp_SnapshotVersion = 0, srp_SUMState = s, srp_TOPKState = t, srp_DeltaSequences = None,
    srp_CreatedAt = time_zero\<rparr>"

lemma ex_snapshot_text: "snap_text (ex_snapshot None None)"
proof -
  have z: "0 \<le> time_year time_zero" "time_year time_zero \<le> 9999" "\<bar>t_off time_zero\<bar> < 86400" "t_off time_zero mod 60 = 0"
    by code_simp+
  then obtain t where t: "enc_time time_zero = Some t" by (auto simp: enc_time_def marshal_time_def)
  show ?thesis
    using z json_ok_time [OF t] t
    by (simp add: ex_snapshot_def snap_text_def snap_good_def seqs_wf_def validSequences_def enc_SnapshotResp_def omitempty_def
        map_empty_def max_depth_def ascii_valid)
qed

lemma ex_half_valid: "half_valid (ex_snapshot (Some (sum_Serialize (mg_sum ex_manager))) (Some JNull))"
proof -
  have "ok (sum_StateFromSerialized (sum_Serialize (mg_sum ex_manager)))" "\<not> ok (topk_StateFromSerialized JNull)" by code_simp+
  then show ?thesis by (simp add: half_valid_def ex_snapshot_def)
qed

theorem manager_write_ahead_witness:
  "write_ahead ex_jd (\<lambda>j s. (j, None)) ex_manager
     (fst (ApplyLocalUpdate ex_jd ex_manager \<lparr>lu_AggregateType = AggregateSUM, lu_Value = AnyInt 3\<rparr>)) \<and>
   write_ahead ex_jd (\<lambda>j s. (j, None)) ex_manager (fst (ApplyReceivedDelta ex_jd ex_manager (ex_delta ''a'' 1))) \<and>
   \<not> ok (snd (ApplySnapshot (\<lambda>j s. (j, None)) ex_manager
     (ex_snapshot (Some (sum_Serialize (mg_sum ex_manager))) (Some JNull))))"
proof -
  let ?u = "\<lparr>lu_AggregateType = AggregateSUM, lu_Value = AnyInt 3\<rparr>"
  have l: "local_text ex_manager (lu_Value ?u)" by (simp add: local_text_def)
  have "sum_delta ''a'' (ex_delta ''a'' 1)" by (auto simp: sum_delta_def ex_delta_def)
  moreover have "ValidNodeID ''a''" by code_simp
  ultimately have "delta_text (ex_delta ''a'' 1)" by (rule sum_delta_text)
  then have d: "delta_fit (ex_delta ''a'' 1)" by (rule delta_text_fit)
  have s: "snap_fit (ex_snapshot None None)" by (rule snap_text_fit [OF ex_snapshot_text])
  from manager_write_ahead [OF ex_manager_wf l d s ex_half_valid, of ex_jd "\<lambda>j s. (j, None)"] show ?thesis by blast
qed

section \<open>Texts\<close>

text \<open>A document with valid strings decodes to values with valid strings.\<close>

lemma decode_members_json:
  assumes "decode_members fs ms s = Some s'" "P s" "list_all (\<lambda>(k, v). json_ok e v) ms"
    and "\<And>n d s j s'. (n, d) \<in> set fs \<Longrightarrow> json_ok e j \<Longrightarrow> P s \<Longrightarrow> d s j = Some s' \<Longrightarrow> P s'"
  shows "P s'"
  using assms
proof (induction fs ms s rule: decode_members.induct)
  case (2 fs k v ms s)
  show ?case
  proof (cases "find_field fs k")
    case None
    with 2 show ?thesis by simp
  next
    case (Some d)
    obtain n where n: "(n, d) \<in> set fs" using find_field_mem [OF Some] by (rule exE)
    from 2 Some obtain s1 where s1: "d s v = Some s1" "decode_members fs ms s1 = Some s'"
      by (auto split: option.splits)
    have "P s1" using "2.prems"(4) [OF n _ "2.prems"(2) s1(1)] "2.prems"(3) by simp
    with 2 Some s1 show ?thesis by simp
  qed
qed simp

lemma decode_struct_json:
  assumes "decode_struct fs s j = Some s'" "P s" "json_ok e j"
    and "\<And>n d s j s'. (n, d) \<in> set fs \<Longrightarrow> json_ok (Suc e) j \<Longrightarrow> P s \<Longrightarrow> d s j = Some s' \<Longrightarrow> P s'"
  shows "P s'"
proof (cases j)
  case (JObj ms)
  with assms(1,3) have m: "decode_members fs ms s = Some s'" "list_all (\<lambda>(k, v). json_ok (Suc e) v) ms"
    by (auto simp: decode_struct_def list_all_iff)
  show ?thesis using m(1) assms(2) m(2) assms(4) by (rule decode_members_json)
qed (use assms(1,2) in \<open>auto simp: decode_struct_def\<close>)

lemma decodeCandidate_utf8:
  assumes "topk_decodeCandidate z j = Some c" "json_ok e j" "utf8_valid (c_ItemID z)"
  shows "utf8_valid (c_ItemID c)"
  using assms(1) unfolding topk_decodeCandidate_def
  by (rule decode_struct_json [where P = "\<lambda>c. utf8_valid (c_ItemID c)", OF _ assms(3,2)])
    (auto simp: field_def dec_string_def split: json.splits)

lemma utf8_valid_Nil [simp]: "utf8_valid []"
  by (rule ascii_valid) simp

lemma dec_elems_utf8:
  assumes "dec_elems topk_zeroCandidate topk_decodeCandidate js = Some cs" "list_all (json_ok e) js"
  shows "list_all (\<lambda>c. utf8_valid (c_ItemID c)) cs"
  using assms
proof (induction js arbitrary: cs)
  case (Cons j js)
  then obtain c ds where c: "topk_decodeCandidate topk_zeroCandidate j = Some c" "cs = c # ds"
    "dec_elems topk_zeroCandidate topk_decodeCandidate js = Some ds" by (auto split: option.splits)
  with Cons decodeCandidate_utf8 [OF c(1), of e] show ?case by (simp add: topk_zeroCandidate_def)
qed simp

lemma topk_state_utf8:
  assumes "topk_StateFromSerialized j = Inr st" "json_ok e j"
  shows "list_all (\<lambda>c. utf8_valid (c_ItemID c)) (ts_Candidates st)"
proof -
  obtain p where p: "topk_decodePayload j = Some p" "ts_Candidates st = tp_StatePayload p"
    using assms(1) by (auto simp: topk_StateFromSerialized_def topk_checkPayload_def split: option.splits if_splits sum.splits)
  have "list_all (\<lambda>c. utf8_valid (c_ItemID c)) (tp_StatePayload p)"
    using p(1) unfolding topk_decodePayload_def
  proof (rule decode_struct_json [where P = "\<lambda>p. list_all (\<lambda>c. utf8_valid (c_ItemID c)) (tp_StatePayload p)", OF _ _ assms(2)])
    show "list_all (\<lambda>c. utf8_valid (c_ItemID c)) (tp_StatePayload topk_zeroPayload)" by (simp add: topk_zeroPayload_def)
  qed (auto simp: field_def dec_slice_def split: json.splits, erule (1) dec_elems_utf8)
  then show ?thesis using p(2) by simp
qed

text \<open>The candidates a mutation brings have valid item ids.\<close>

abbreviation mg_text :: "'j Manager \<Rightarrow> bool" where
  "mg_text m \<equiv> ids_valid (tk_candidates (mg_topk m))"

lemma canonicalize_ids:
  assumes "ids_valid cs" "\<forall>c \<in> set cs. cand_ok c" "0 < k"
  shows "ids_valid (topk_canonicalize cs k)"
proof -
  have "set (topk_canonicalize cs k) \<subseteq> topk_normalizeCandidate ` set cs"
    using canonicalize_topk [OF assms(2) order_less_imp_le [OF assms(3)]] by (simp add: is_topk_def)
  moreover have "c_ItemID (topk_normalizeCandidate c) = c_ItemID c" for c by (simp add: topk_normalizeCandidate_def)
  ultimately show ?thesis using assms(1) by (auto simp: ids_valid_def list_all_iff)
qed

lemma mut_val_ids:
  assumes "mut_text u" "0 < k"
  shows "ids_valid (snd (mut_val k u))"
proof (cases u)
  case (MutDelta d)
  show ?thesis
  proof (cases "DecodeSUMDelta d")
    case (Inl e)
    with MutDelta assms(1) obtain c where c: "DecodeTOPKDelta d = Inr c" "cand_good c" "json_ok 1 (enc_StateDelta d)"
      by (auto simp: delta_text_def delta_good_def ok_def split: sum.splits)
    obtain j where j: "sd_Delta d = Some j" "topk_decodeCandidate topk_zeroCandidate j = Some c"
      using c(1) by (auto simp: DecodeTOPKDelta_def unmarshal_raw_def split: if_splits option.splits)
    have "json_ok 2 j" using c(3) j(1) by (auto simp: enc_StateDelta_def enc_raw_def numeral_2_eq_2)
    from decodeCandidate_utf8 [OF j(2) this] have "ids_valid [c]" by (simp add: ids_valid_def topk_zeroCandidate_def)
    with canonicalize_ids [of "[c]" k] c assms(2) MutDelta Inl show ?thesis
      by (simp add: delta_val_def cand_good_ok)
  qed (use MutDelta in \<open>simp add: delta_val_def ids_valid_def\<close>)
next
  case (MutSnapshot s)
  show ?thesis
  proof (cases "srp_TOPKState s")
    case (Some j)
    from MutSnapshot assms(1) obtain x where x: "enc_SnapshotResp s = Some x" "json_ok 1 x" "snap_good s"
      by (auto simp: snap_text_def split: option.splits)
    obtain st where st: "topk_StateFromSerialized j = Inr st" "list_all cand_good (ts_Candidates st)"
      using x(3) Some by (auto simp: snap_good_def split: sum.splits)
    have "json_ok 2 j" using x(1,2) Some
      by (auto simp: enc_SnapshotResp_def enc_raw_def omitempty_def numeral_2_eq_2 split: option.splits)
    from topk_state_utf8 [OF st(1) this] canonicalize_ids [of "ts_Candidates st" k] st Some MutSnapshot assms(2)
    show ?thesis by (auto simp: snap_val_def ids_valid_def list_all_iff cand_good_ok)
  qed (use MutSnapshot in \<open>simp add: snap_val_def ids_valid_def\<close>)
qed

lemma join_text:
  assumes "mg_wf m" "mg_text m" "mut_fine u" "mg_val m' = mg_join (kmax m) (mg_val m) (mut_val (kmax m) u)"
  shows "mg_text m'"
proof -
  let ?b = "snd (mut_val (kmax m) u)"
  have k: "0 < kmax m" using mg_wf_topk [OF assms(1)] by (simp add: topk_canonical_def)
  have u: "mut_good u" "ids_valid ?b" using assms(3) k by (simp_all add: mut_fine_def)
  have "topk_canonical (kmax m) ?b" using mut_val_carrier [OF u(1) k] by (simp add: mg_carrier_def)
  then have "\<forall>x \<in> set ?b. cand_ok x" by (rule topk_canonicalD(1))
  then have "set (tk_candidates (mg_topk m')) \<subseteq> set (tk_candidates (mg_topk m)) \<union> topk_normalizeCandidate ` set ?b"
    using topk_join_topk [OF mg_wf_topk [OF assms(1)]] assms(4) by (simp add: is_topk_def mg_val_def mg_join_def)
  moreover have "c_ItemID (topk_normalizeCandidate c) = c_ItemID c" for c by (simp add: topk_normalizeCandidate_def)
  ultimately show ?thesis using assms(2) u(2) by (auto simp: ids_valid_def list_all_iff)
qed

lemma mut_text_fine: "mut_text u \<Longrightarrow> mut_fine u"
  using mut_text_good mut_val_ids by (auto simp: mut_fine_def)

lemma write_ahead_text:
  assumes "mg_wf m" "mg_text m" "write_ahead jd js m m'"
  shows "mg_text m'"
proof -
  have "mg_text m'" if "mg_val m' = mg_val m" using assms(2) that by (simp add: mg_val_def)
  with assms(3) join_text [OF assms(1,2) mut_text_fine] show ?thesis
    unfolding write_ahead_def by (auto split: option.splits if_splits)
qed

text \<open>What a well-formed manager checkpoints reads back.\<close>

lemma names_utf8 [simp]:
  "utf8_valid AggregateSUM" "utf8_valid AggregateTOPK" "utf8_valid ProtocolVersion"
  by (rule ascii_valid, simp add: AggregateSUM_def AggregateTOPK_def ProtocolVersion_def)+

lemma node_keys_utf8: "list_all (\<lambda>(n, _). ValidNodeID n) es \<Longrightarrow> list_all (\<lambda>(k, v). utf8_valid k) es"
  by (auto simp: list_all_iff intro!: ascii_valid ValidNodeID_ascii)

lemma sum_Serialize_json:
  assumes "sum_wf g"
  shows "json_ok 2 (sum_Serialize g)"
proof -
  have "list_all (\<lambda>(n, _). ValidNodeID n) (sum_cloneContrib (gc_contrib g))"
    using assms by (simp add: sum_wf_def valid_keys_cong [OF map_of_cloneContrib])
  then have "json_ok 3 (enc_map_uint64 (Some (sum_cloneContrib (gc_contrib g))))"
    by (intro json_ok_map_uint64) (auto simp: max_depth_def dest: node_keys_utf8)
  then show ?thesis
    by (simp add: sum_Serialize_def Let_def sum_getState_def sum_encodePayload_def max_depth_def ascii_valid eval_nat_numeral)
qed

lemma encodeCandidates_json:
  assumes "topk_encodeCandidates cs = Some js" "ids_valid cs" "\<forall>c \<in> set cs. cand_ok c" "d < max_depth"
  shows "list_all (json_ok d) js"
  using assms(1-3)
proof (induction cs arbitrary: js)
  case (Cons c cs)
  then obtain j ks where j: "topk_encodeCandidate c = Some j" "topk_encodeCandidates cs = Some ks" "js = j # ks"
    by (auto split: option.splits)
  have "ValidNodeID (c_OriginNodeID c)"
    using Cons.prems(3) by (auto simp: cand_ok_def topk_validateCandidate_def split: if_splits)
  with json_ok_candidate [OF j(1) _ _ assms(4)] Cons j show ?case by (simp add: ids_valid_def)
qed simp

lemma topk_Serialize_json:
  assumes "topk_wf t" "topk_Serialize t = Inr j" "ids_valid (tk_candidates t)"
  shows "json_ok 2 j"
proof -
  obtain js where js: "topk_encodeCandidates (tk_candidates t) = Some js"
    "j = JObj [(''aggregate_type'', JStr AggregateTOPK), (''state_version'', enc_uint64 (tk_version t)),
      (''protocol_version'', JStr ProtocolVersion), (''schema_version'', enc_int topk_schemaVersion), (''state_payload'', JArr js)]"
    using assms(2) by (auto simp: topk_Serialize_def topk_getState_def Let_def split: option.splits)
  have "list_all (json_ok 4) js"
    using topk_canonicalD(1) assms(1,3) by (intro encodeCandidates_json [OF js(1)]) (auto simp: topk_wf_def max_depth_def)
  then show ?thesis by (simp add: js(2) max_depth_def ascii_valid eval_nat_numeral)
qed

lemma ownSequence_wf: "ValidNodeID (mg_nodeID m) \<Longrightarrow> seqs_wf (ownSequence m)"
  by (auto simp: seqs_wf_def ownSequence_def validSequences_def mwf_def)

lemma checkpoint_text:
  assumes "mg_wf m" "mg_text m" "clock_ok now" "snapshotLocked now m [AggregateSUM, AggregateTOPK] = Inr st"
  shows "ckpt_ok (mg_nodeID m) (kmax m) st" "ckpt_text st" "snap_val (kmax m) st = mg_val m"
proof -
  have w: "sum_wf (mg_sum m)" "gc_nodeID (mg_sum m) = mg_nodeID m" "topk_wf (mg_topk m)"
    "list_all cand_good (tk_candidates (mg_topk m))" "ValidNodeID (mg_nodeID m)" using assms(1) by (simp_all add: mg_wf_def)
  obtain j where s: "srp_SUMState st = Some (sum_Serialize (mg_sum m))" "srp_TOPKState st = Some j"
    "topk_Serialize (mg_topk m) = Inr j" "srp_DeltaSequences st = ownSequence m" "srp_CreatedAt st = time_UTC now"
    using snapshot_full [OF assms(1), of now] assms(4) by (metis sum.inject(2))
  show "ckpt_ok (mg_nodeID m) (kmax m) st" unfolding ckpt_ok_def using w s assms(2) by blast
  note v = snapshot_full_val [OF assms(1) s(1-3)]
  then show "snap_val (kmax m) st = mg_val m" by simp
  have t: "enc_time (time_UTC now) = Some (JStr (FormatRFC3339Nano (time_UTC now)))"
    using assms(3) by (simp add: clock_ok_def enc_time_def marshal_time_def time_wf_def)
  have "json_ok 2 (enc_map_uint64 (ownSequence m))"
    using w(5) by (intro json_ok_map_uint64)
      (auto simp: ownSequence_def max_depth_def split: if_splits intro!: ascii_valid ValidNodeID_ascii)
  then have "\<exists>x. enc_SnapshotResp st = Some x \<and> json_ok 1 x"
    using sum_Serialize_json [OF w(1)] topk_Serialize_json [OF w(3) s(3) assms(2)] json_ok_time [OF t, of 2]
    by (auto simp: enc_SnapshotResp_def s t enc_raw_def omitempty_def max_depth_def ascii_valid numeral_2_eq_2)
  then show "ckpt_text st"
    using v ownSequence_wf [OF w(5)] assms(3)
    by (auto simp: ckpt_text_def snap_text_def s(4,5) clock_ok_def time_UTC_def time_IsZero_def)
qed

section \<open>The journal's contract\<close>

text \<open>
  \<open>jinv n k j\<close>: \<open>j\<close> is a journal of the node \<open>n\<close> with the \<open>TOPK\<close> bound \<open>k\<close> in good order;
  \<open>dval k j\<close> is the value that survives any crash; \<open>room\<close> says that it can take another record and
  \<open>settled\<close> that it holds nothing that was not acknowledged.
\<close>

locale durable_journal =
  fixes jd :: "'j append_delta" and js :: "'j append_snapshot"
    and jinv :: "string \<Rightarrow> int \<Rightarrow> 'j \<Rightarrow> bool" and dval :: "int \<Rightarrow> 'j \<Rightarrow> (string \<Rightarrow> u64) \<times> Candidate list"
    and room :: "'j \<Rightarrow> bool" and settled :: "'j \<Rightarrow> bool"
  assumes dval_carrier: "jinv n k j \<Longrightarrow> mg_carrier k (dval k j)"
    and append_inv: "jinv n k j \<Longrightarrow> room j \<Longrightarrow> mut_text u \<Longrightarrow> jinv n k (fst (append_mut jd js j u))"
    and append_keeps: "jinv n k j \<Longrightarrow> room j \<Longrightarrow> mut_text u \<Longrightarrow>
      mg_semilattice.below k (dval k j) (dval k (fst (append_mut jd js j u)))"
    and append_durable: "jinv n k j \<Longrightarrow> room j \<Longrightarrow> mut_text u \<Longrightarrow> snd (append_mut jd js j u) = None \<Longrightarrow>
      mg_semilattice.below k (mut_val k u) (dval k (fst (append_mut jd js j u)))"
    and append_exact: "jinv n k j \<Longrightarrow> room j \<Longrightarrow> mut_text u \<Longrightarrow> snd (append_mut jd js j u) = None \<Longrightarrow> settled j \<Longrightarrow>
      settled (fst (append_mut jd js j u)) \<and> dval k (fst (append_mut jd js j u)) = mg_join k (dval k j) (mut_val k u)"
begin

text \<open>The journal of the manager covers its value.\<close>

definition covered :: "'j Manager \<Rightarrow> 'j \<Rightarrow> bool" where
  "covered m j \<longleftrightarrow> mg_wf m \<and> mg_text m \<and> mg_journal m = Some j \<and> jinv (mg_nodeID m) (kmax m) j \<and>
     mg_semilattice.below (kmax m) (mg_val m) (dval (kmax m) j)"

lemma covered_carrier: "mg_wf m \<Longrightarrow> mg_carrier (kmax m) (mg_val m)"
  using mg_wf_topk [of m] by (simp add: mg_carrier_def mg_val_def)

lemma write_ahead_covered:
  assumes "covered m j" "room j" "write_ahead jd js m m'"
  shows "\<exists>j'. covered m' j' \<and> same_frame m m' \<and> mg_semilattice.below (kmax m) (mg_val m) (mg_val m')"
proof -
  let ?k = "kmax m"
  have m: "mg_wf m" "mg_text m" "mg_journal m = Some j" "jinv (mg_nodeID m) ?k j"
    "mg_semilattice.below ?k (mg_val m) (dval ?k j)" using assms(1) by (simp_all add: covered_def)
  have m': "mg_wf m'" "same_frame m m'" "mg_text m'"
    using assms(3) write_ahead_text [OF m(1,2) assms(3)] by (simp_all add: write_ahead_def)
  have fr: "kmax m' = ?k" "mg_nodeID m' = mg_nodeID m" using m'(2) by (simp_all add: same_frame_def)
  have c: "mg_carrier ?k (mg_val m)" "mg_carrier ?k (dval ?k j)" using covered_carrier [OF m(1)] dval_carrier [OF m(4)] .
  have self: "mg_semilattice.below ?k (mg_val m) (mg_val m)" using c(1) by (rule mg_semilattice.below_refl)
  from assms(3) m(3) consider (same) "mg_val m' = mg_val m" "mg_journal m' = Some j"
    | (appended) u where "mut_text u" "mg_journal m' = Some (fst (append_mut jd js j u))"
        "mg_val m' = (if snd (append_mut jd js j u) = None then mg_join ?k (mg_val m) (mut_val ?k u) else mg_val m)"
    by (auto simp: write_ahead_def)
  then show ?thesis
  proof cases
    case same
    with m m' fr self show ?thesis by (auto simp: covered_def)
  next
    case (appended u)
    let ?j = "fst (append_mut jd js j u)"
    note inv = append_inv [OF m(4) assms(2) appended(1)]
    have u: "mg_carrier ?k (mut_val ?k u)" "mg_carrier ?k (dval ?k ?j)"
      using mut_val_carrier [OF mut_text_good [OF appended(1)]] mg_wf_topk [OF m(1)] dval_carrier [OF inv]
      by (simp_all add: topk_canonical_def)
    have low: "mg_semilattice.below ?k (mg_val m) (dval ?k ?j)"
      using m(5) append_keeps [OF m(4) assms(2) appended(1)] c u(2) by (meson mg_semilattice.below_trans)
    have "mg_semilattice.below ?k (mg_val m') (dval ?k ?j)"
      using appended(3) low append_durable [OF m(4) assms(2) appended(1)] c(1) u
      by (auto intro: mg_semilattice.join_below)
    moreover have "mg_semilattice.below ?k (mg_val m) (mg_val m')"
      using appended(3) self mg_semilattice.below_join(1) [OF c(1) u(1)] by auto
    ultimately show ?thesis using inv m' fr appended(2) by (auto simp: covered_def)
  qed
qed

text \<open>While every append is acknowledged the journal holds exactly the manager's value.\<close>

lemma write_ahead_exact:
  assumes "covered m j" "room j" "write_ahead jd js m m'" "settled j" "dval (kmax m) j = mg_val m"
    and "\<forall>u. mut_text u \<longrightarrow> snd (append_mut jd js j u) = None"
  shows "\<exists>j'. mg_journal m' = Some j' \<and> settled j' \<and> dval (kmax m') j' = mg_val m' \<and>
    (j' = j \<or> (\<exists>u. j' = fst (append_mut jd js j u)))"
proof -
  have m: "mg_journal m = Some j" "jinv (mg_nodeID m) (kmax m) j" using assms(1) by (simp_all add: covered_def)
  have "kmax m' = kmax m" using assms(3) by (simp add: write_ahead_def same_frame_def)
  with assms(3,6) m(1) consider (same) "mg_val m' = mg_val m" "mg_journal m' = Some j" "kmax m' = kmax m"
    | (appended) u where "mut_text u" "mg_journal m' = Some (fst (append_mut jd js j u))" "kmax m' = kmax m"
        "mg_val m' = mg_join (kmax m) (mg_val m) (mut_val (kmax m) u)" "snd (append_mut jd js j u) = None"
    by (auto simp: write_ahead_def)
  then show ?thesis
  proof cases
    case same
    with assms(4,5) show ?thesis by simp
  next
    case (appended u)
    with append_exact [OF m(2) assms(2) appended(1,5) assms(4)] assms(5) show ?thesis by auto
  qed
qed

end

section \<open>The store as a journal\<close>

text \<open>The store with the answers the operating system gives to its coming appends.\<close>

record jstore =
  js_store :: Store
  js_env :: "nat \<Rightarrow> append_io"
  js_count :: nat

definition store_jd :: "jstore append_delta" where
  "store_jd j d =
     (let (s, e) = AppendDelta (js_env j (js_count j)) (js_store j) d
      in (j\<lparr>js_store := s, js_count := Suc (js_count j)\<rparr>, e))"

definition store_js :: "jstore append_snapshot" where
  "store_js j st =
     (let (s, e) = AppendSnapshot (js_env j (js_count j)) (js_store j) st
      in (j\<lparr>js_store := s, js_count := Suc (js_count j)\<rparr>, e))"

text \<open>No write stops half way through a record; seeks and syncs may fail.\<close>

definition env_ok :: "(nat \<Rightarrow> append_io) \<Rightarrow> bool" where
  "env_ok env \<longleftrightarrow> (\<forall>i. clock_ok (ai_now (env i)) \<and> ai_write (env i) = None)"

definition store_jinv :: "string \<Rightarrow> int \<Rightarrow> jstore \<Rightarrow> bool" where
  "store_jinv n k j \<longleftrightarrow> env_ok (js_env j) \<and> (\<exists>rs c. store_inv n k (js_store j) rs c)"

definition store_room :: "jstore \<Rightarrow> bool" where
  "store_room j \<longleftrightarrow> LastIndex (st_wal (js_store j)) \<noteq> max_uint64"

definition store_settled :: "jstore \<Rightarrow> bool" where
  "store_settled j \<longleftrightarrow> lg_synced (st_wal (js_store j)) = length (lg_file (st_wal (js_store j)))"

definition always_config :: store_Config where
  "always_config = \<lparr>sc_DataDir = ''data'', sc_WALSyncMode = ''always'', sc_WALBatchSize = 1\<rparr>"

lemma always_config_mode: "syncMode (sc_WALSyncMode always_config) = Some SyncAlways"
  by (simp add: always_config_def syncMode_def)

lemma durable_val_config:
  "store_inv n k s rs c \<Longrightarrow> syncMode (sc_WALSyncMode config) = Some SyncAlways \<Longrightarrow>
   durable_val config k s = durable_val always_config k s"
  by (simp add: durable_val_eq always_config_mode)

abbreviation store_dval :: "int \<Rightarrow> jstore \<Rightarrow> (string \<Rightarrow> u64) \<times> Candidate list" where
  "store_dval k j \<equiv> durable_val always_config k (js_store j)"

lemma store_settled_iff:
  assumes "store_inv n k s rs c"
  shows "lg_synced (st_wal s) = length (lg_file (st_wal s)) \<longleftrightarrow> c = length rs"
proof -
  note inv = store_invD [OF assms]
  have split: "wal_lines rs = wal_lines (take c rs) @ wal_lines (drop c rs)"
    unfolding concat_append [symmetric] map_append [symmetric] by simp
  have "length (wal_lines rs) = length (wal_lines (take c rs)) + length (wal_lines (drop c rs))"
    by (subst split) (rule length_append)
  moreover have "wal_lines (drop c rs) = [] \<longleftrightarrow> drop c rs = []"
    by (cases "drop c rs") (auto simp: wal_line_def)
  ultimately show ?thesis using inv(7,8,11) by auto
qed

lemma store_room_len:
  assumes "store_inv n k (js_store j) rs c" "store_room j"
  shows "Suc (length rs) < 2 ^ 64"
proof (rule ccontr)
  assume "\<not> Suc (length rs) < 2 ^ 64"
  with store_invD(6) [OF assms(1)] have "length rs = 2 ^ 64 - 1" by simp
  then have "LastIndex (st_wal (js_store j)) = max_uint64"
    using store_invD(13) [OF assms(1)] by (simp add: LastIndex_def)
  with assms(2) show False by (simp add: store_room_def)
qed

lemma store_append_mut:
  assumes "store_jinv n k j" "store_room j" "mut_text u" "append_mut store_jd store_js j u = (j', e)"
  shows "store_jinv n k j' \<and> mg_semilattice.below k (store_dval k j) (store_dval k j') \<and>
    (e = None \<longrightarrow> mg_semilattice.below k (mut_val k u) (store_dval k j')) \<and>
    (e = None \<longrightarrow> store_settled j \<longrightarrow> store_settled j' \<and> store_dval k j' = mg_join k (store_dval k j) (mut_val k u))"
proof -
  let ?io = "js_env j (js_count j)" and ?s = "js_store j"
  obtain rs c where I: "store_inv n k ?s rs c" and env: "env_ok (js_env j)" using assms(1) by (auto simp: store_jinv_def)
  obtain ty x where x: "ty \<noteq> []" "utf8_valid ty" "json_ok 1 x"
    "(j', e) = (j\<lparr>js_store := fst (store_append ?io ?s ty (json_text x)), js_count := Suc (js_count j)\<rparr>,
       snd (store_append ?io ?s ty (json_text x)))"
    "rec_mut (newRecord (st_wal ?s) (ai_now ?io) ty (json_text x)) = Some u \<or>
     (\<exists>st. u = MutSnapshot st \<and> rec_mut (newRecord (st_wal ?s) (ai_now ?io) ty (json_text x)) = Some (MutSnapshot (snap_wire st)))"
  proof (cases u)
    case (MutDelta d)
    with assms(3,4) show ?thesis
      by (intro that [of recordDelta "enc_StateDelta d"])
        (auto simp: store_jd_def AppendDelta_def rec_mut_delta delta_text_def split_beta Let_def)
  next
    case (MutSnapshot st)
    with assms(3) obtain x where "enc_SnapshotResp st = Some x" "json_ok 1 x" by (auto simp: snap_text_def split: option.splits)
    with MutSnapshot assms(3,4) show ?thesis
      by (intro that [of recordSnapshot x]) (auto simp: store_js_def AppendSnapshot_def rec_mut_snapshot split_beta Let_def)
  qed
  define r where "r = newRecord (st_wal ?s) (ai_now ?io) ty (json_text x)"
  have r: "rec_good r" "mval k r = mut_val k u"
    using x(5) mut_text_fine [OF assms(3)] by (auto simp: rec_good_def mut_fine_def r_def)
  have io: "clock_ok (ai_now ?io)" "ai_write ?io = None" using env by (simp_all add: env_ok_def)
  obtain s' where s': "store_append ?io ?s ty (json_text x) = (s', e)" "j' = j\<lparr>js_store := s', js_count := Suc (js_count j)\<rparr>"
    using x(4) by (cases "store_append ?io ?s ty (json_text x)") auto
  obtain rs' c' where D: "store_inv n k s' rs' c'"
    "mg_semilattice.below k (store_dval k j) (durable_val always_config k s')"
    "e = None \<longrightarrow> mg_semilattice.below k (mval k r) (durable_val always_config k s')"
    "e = None \<longrightarrow> c = length rs \<longrightarrow>
       c' = length rs' \<and> durable_val always_config k s' = mg_join k (store_dval k j) (mval k r)"
    using store_append_durable [OF I store_room_len [OF I assms(2)] x(1-3) io r_def r(1) s'(1) always_config_mode] by blast
  then show ?thesis
    using env s'(2) r(2) store_settled_iff [OF I] store_settled_iff [OF D(1)]
    by (auto simp: store_jinv_def store_settled_def)
qed

interpretation store_journal: durable_journal store_jd store_js store_jinv store_dval store_room store_settled
proof unfold_locales
  fix n k and j :: jstore
  assume j: "store_jinv n k j"
  then show "mg_carrier k (store_dval k j)"
    using rec_val_carrier by (auto simp: store_jinv_def durable_val_eq [OF _ always_config_mode])
  fix u
  assume u: "store_room j" "mut_text u"
  note laws = store_append_mut [OF j u surjective_pairing]
  show "store_jinv n k (fst (append_mut store_jd store_js j u))"
    "mg_semilattice.below k (store_dval k j) (store_dval k (fst (append_mut store_jd store_js j u)))"
    using laws by simp_all
  assume e: "snd (append_mut store_jd store_js j u) = None"
  show "mg_semilattice.below k (mut_val k u) (store_dval k (fst (append_mut store_jd store_js j u)))"
    using laws e by simp
  assume "store_settled j"
  with laws e show "store_settled (fst (append_mut store_jd store_js j u)) \<and>
      store_dval k (fst (append_mut store_jd store_js j u)) = mg_join k (store_dval k j) (mut_val k u)" by simp
qed

text \<open>Appends succeed when the operating system does its part.\<close>

lemma store_append_succeeds:
  assumes "store_jinv n k j" "mut_text u" "ai_seek (js_env j (js_count j))" "ai_sync (js_env j (js_count j))"
  shows "snd (append_mut store_jd store_js j u) = None"
proof -
  let ?io = "js_env j (js_count j)" and ?s = "js_store j"
  obtain rs c where I: "store_inv n k ?s rs c" and env: "env_ok (js_env j)" using assms(1) by (auto simp: store_jinv_def)
  have "snd (store_append ?io ?s ty (json_text x)) = None" if x: "ty \<noteq> []" "utf8_valid ty" "json_ok 1 x" for ty x
  proof -
    have "json_text x \<noteq> []" using text_head [OF x(3)] by (simp add: value_head_def)
    moreover have "wal_marshal (newRecord (st_wal ?s) (ai_now ?io) ty (json_text x)) \<noteq> None"
      using newRecord_ok(2) [OF x, of "ai_now ?io" "st_wal ?s"] env by (simp add: env_ok_def)
    ultimately show ?thesis
      using store_invD(3,4,5) [OF I] assms(3,4) env x(1)
      by (auto simp: store_append_def wal_Append_def syncLocked_def env_ok_def Let_def)
  qed
  then show ?thesis
    using assms(2)
    by (cases u) (auto simp: store_jd_def store_js_def AppendDelta_def AppendSnapshot_def delta_text_def snap_text_def
        split_beta Let_def split: option.splits)
qed

lemma append_mut_env: "js_env (fst (append_mut store_jd store_js j u)) = js_env j"
  by (cases u) (simp_all add: store_jd_def store_js_def split_beta Let_def)

end
