(* ===== verification/App.thy ===== *)
theory App
  imports Durability
begin

text \<open>
  \<open>internal/app\<close>: rebuilding the aggregation manager from the store, and what a node keeps through
  updates, gossip, checkpoints and crashes.
\<close>

section \<open>Errors\<close>

datatype ErrorClass = ErrorRecoverable | ErrorFatal

definition ClassifyError :: "go_error option \<Rightarrow> ErrorClass" where
  "ClassifyError err =
     (case err of
        None \<Rightarrow> ErrorRecoverable
      | Some e \<Rightarrow> if e = ErrServerClosed then ErrorRecoverable else ErrorFatal)"

section \<open>Recovery\<close>

fun replayLoop :: "'j append_delta \<Rightarrow> 'j Manager \<Rightarrow> RecoveredMutation list \<Rightarrow> 'j Manager \<times> go_error option" where
  "replayLoop jd m [] = (m, None)"
| "replayLoop jd m (x # xs) =
     (case rm_Delta x of
        Some delta \<Rightarrow>
          (case ReplayDelta jd m delta of
             (m1, Some e) \<Rightarrow> (m1, Some e)
           | (m1, None) \<Rightarrow> replayLoop jd m1 xs)
      | None \<Rightarrow>
          (case rm_Snapshot x of
             Some state \<Rightarrow>
               (case ReplaySnapshot m state of
                  (m1, Some e) \<Rightarrow> (m1, Some e)
                | (m1, None) \<Rightarrow> replayLoop jd m1 xs)
           | None \<Rightarrow> replayLoop jd m xs))"

definition recoverAggregation ::
  "'j append_delta \<Rightarrow> recover_io \<Rightarrow> 'j Manager \<Rightarrow> Store \<Rightarrow> 'j Manager \<times> Store \<times> go_error option" where
  "recoverAggregation jd io m s =
     (case store_Recover io s of
        (s', Inl e) \<Rightarrow> (m, s', Some e)
      | (s', Inr recovery) \<Rightarrow>
          (case (case rv_Checkpoint recovery of None \<Rightarrow> (m, None) | Some c \<Rightarrow> RestoreCheckpoint m c) of
             (m1, Some e) \<Rightarrow> (m1, s', Some e)
           | (m1, None) \<Rightarrow> (let (m2, e) = replayLoop jd m1 (rv_Mutations recovery) in (m2, s', e))))"

lemma RestoreCheckpoint_ok:
  fixes m :: "'j Manager"
  assumes "mg_wf m" "ckpt_ok (mg_nodeID m) (kmax m) st"
  obtains m' where "RestoreCheckpoint m st = (m', None)" "mg_wf m'" "same_frame m m'"
    "mg_val m' = snap_val (kmax m) st" "mg_text m'" "mg_journal m' = mg_journal m"
proof -
  obtain g t j where g: "sum_wf g" "gc_nodeID g = mg_nodeID m" "srp_SUMState st = Some (sum_Serialize g)"
    "topk_wf t" "tk_kmax t = kmax m" "list_all cand_good (tk_candidates t)" "ids_valid (tk_candidates t)"
    "topk_Serialize t = Inr j" "srp_TOPKState st = Some j"
    using assms(2) unfolding ckpt_ok_def by blast
  define s where "s = m\<lparr>mg_sum := g, mg_topk := t\<rparr>"
  have s: "mg_wf s" "mg_nodeID m = mg_nodeID s" "mg_sum s = g" "mg_topk s = t" "kmax s = kmax m"
    using assms(1) g by (simp_all add: s_def mg_wf_def)
  obtain h where h: "rollbackSum (sum_Serialize g) m = (m\<lparr>mg_sum := h\<rparr>, None)" "sum_wf h" "gc_nodeID h = mg_nodeID m"
    "sum_val h = sum_val g"
    using rollbackSum_restores [OF s(1) assms(1) s(2)] s by auto
  have t: "rollbackTopk j (m\<lparr>mg_sum := h\<rparr>) = (m\<lparr>mg_sum := h, mg_topk := t\<rparr>, None)"
    using s g(5,8) by (subst rollbackTopk_restores [OF s(1)]) simp_all
  let ?m = "m\<lparr>mg_sum := h, mg_topk := t,
    mg_deltaSeq := advanceAtomic (mg_deltaSeq m) (seq_get (srp_DeltaSequences st) (mg_nodeID m))\<rparr>"
  have "RestoreCheckpoint m st = (?m, None)" using g h(1) t by (simp add: RestoreCheckpoint_def)
  moreover have "mg_wf ?m" using assms(1) g h by (simp add: mg_wf_def)
  moreover have "snap_val (kmax m) st = mg_val s"
    using snapshot_full_val [OF s(1), of st j] s g by simp
  then have "mg_val ?m = snap_val (kmax m) st" using h(4) s by (simp add: mg_val_def)
  ultimately show ?thesis using g by (intro that [of ?m]) (simp_all add: same_frame_def)
qed

lemma Replay_ok:
  assumes "mg_wf m" "mut_fine u" "mg_text m" and m'_def: "m' = apply_mutation jd m u"
  shows "mg_wf m'" "same_frame m m'" "mg_val m' = mg_join (kmax m) (mg_val m) (mut_val (kmax m) u)" "mg_text m'"
    "mg_journal m' = mg_journal m"
proof -
  have u: "mut_good u" using assms(2) by (simp add: mut_fine_def)
  show w: "mg_wf m'" and f: "same_frame m m'" and v: "mg_val m' = mg_join (kmax m) (mg_val m) (mut_val (kmax m) u)"
    unfolding m'_def using assms(1) u ReplayDelta_spec [OF assms(1)] ReplaySnapshot_spec [OF assms(1)]
    by (cases u; simp)+
  show "mg_text m'" using assms(1,3,2) v by (rule join_text)
  show "mg_journal m' = mg_journal m"
  proof (cases u)
    case (MutDelta d)
    with u have "delta_good d" by simp
    from applyReceived_good [OF assms(1) this] MutDelta show ?thesis
      by (simp add: m'_def ReplayDelta_def finishReceived_def delta_merged_other split_beta Let_def)
  next
    case (MutSnapshot s)
    then show ?thesis by (simp add: m'_def ReplaySnapshot_def applySnapshot_other split_beta)
  qed
qed

lemma ReplaySnapshot_none: "mg_wf m \<Longrightarrow> snap_good s \<Longrightarrow> snd (ReplaySnapshot m s) = None"
  using applySnapshotLocked_spec [of m s] by (metis (no_types, lifting) ReplaySnapshot_def case_prod_conv old.sum.simps(6) snd_conv)

lemma replayLoop_step:
  assumes "mg_wf m" "rm_mut x = Some u" "mut_fine u"
  shows "replayLoop jd m (x # xs) = replayLoop jd (apply_mutation jd m u) xs"
proof (cases u)
  case (MutDelta d)
  then have "rm_Delta x = Some d" "delta_good d"
    using assms(2,3) by (auto simp: rm_mut_def mut_fine_def split: option.splits)
  with MutDelta ReplayDelta_spec(4) [OF assms(1), of d jd] show ?thesis by (simp add: case_prod_beta split: option.splits)
next
  case (MutSnapshot s)
  then have "rm_Delta x = None" "rm_Snapshot x = Some s" "snap_good s"
    using assms(2,3) by (auto simp: rm_mut_def mut_fine_def split: option.splits)
  with MutSnapshot ReplaySnapshot_none [OF assms(1), of s] show ?thesis by (simp add: case_prod_beta split: option.splits)
qed

lemma replayLoop_ok:
  assumes "mg_wf m" "mg_text m" "list_all (\<lambda>x. \<exists>u. rm_mut x = Some u \<and> mut_fine u) xs"
  shows "\<exists>m'. replayLoop jd m xs = (m', None) \<and> mg_wf m' \<and> same_frame m m' \<and> mg_text m' \<and> mg_journal m' = mg_journal m \<and>
    mg_val m' = foldl (mg_join (kmax m)) (mg_val m) (map (mut_val (kmax m)) (List.map_filter rm_mut xs))"
  using assms
proof (induction xs arbitrary: m)
  case Nil
  then show ?case by (simp add: List.map_filter_simps)
next
  case (Cons x xs)
  then obtain u where u: "rm_mut x = Some u" "mut_fine u" by auto
  define m1 where "m1 = apply_mutation jd m u"
  note r = Replay_ok [OF Cons.prems(1) u(2) Cons.prems(2) m1_def]
  have k: "kmax m1 = kmax m" using r(2) by (simp add: same_frame_def)
  obtain m' where m': "replayLoop jd m1 xs = (m', None)" "mg_wf m'" "same_frame m1 m'" "mg_text m'" "mg_journal m' = mg_journal m1"
    "mg_val m' = foldl (mg_join (kmax m)) (mg_val m1) (map (mut_val (kmax m)) (List.map_filter rm_mut xs))"
    using Cons.IH [OF r(1) r(4)] Cons.prems(3) k by auto
  moreover have "replayLoop jd m (x # xs) = replayLoop jd m1 xs"
    using replayLoop_step [OF Cons.prems(1) u] by (simp add: m1_def)
  ultimately show ?case using r same_frame_trans [OF r(2) m'(3)] u(1) by (simp add: List.map_filter_simps)
qed

text \<open>A fresh manager recovers the value the store holds.\<close>

lemma recoverAggregation_ok:
  assumes "store_inv (mg_nodeID m) (kmax m) s rs c" "mg_wf m" "mg_text m" "mg_val m = bottom"
  obtains m' where
    "recoverAggregation jd recover_ok m s = (m', s\<lparr>st_wal := (st_wal s)\<lparr>lg_synced := length (lg_file (st_wal s))\<rparr>\<rparr>, None)"
    "mg_wf m'" "same_frame m m'" "mg_text m'" "mg_journal m' = mg_journal m" "mg_val m' = rec_val (kmax m) (st_snapshots s) rs"
proof -
  obtain rv where rv: "store_Recover recover_ok s = (s\<lparr>st_wal := (st_wal s)\<lparr>lg_synced := length (lg_file (st_wal s))\<rparr>\<rparr>, Inr rv)"
    "rv_Checkpoint rv = map_option snd (latest (st_snapshots s))" "recovery_val (kmax m) rv = rec_val (kmax m) (st_snapshots s) rs"
    "\<forall>st. rv_Checkpoint rv = Some st \<longrightarrow> ckpt_ok (mg_nodeID m) (kmax m) st"
    "list_all (\<lambda>x. \<exists>u. rm_mut x = Some u \<and> mut_fine u) (rv_Mutations rv)"
    using assms(1) by (rule store_Recover_inv)
  obtain m1 where m1: "(case rv_Checkpoint rv of None \<Rightarrow> (m, None) | Some c \<Rightarrow> RestoreCheckpoint m c) = (m1, None)"
    "mg_wf m1" "same_frame m m1" "mg_text m1" "mg_journal m1 = mg_journal m"
    "mg_val m1 = (case rv_Checkpoint rv of None \<Rightarrow> bottom | Some c \<Rightarrow> snap_val (kmax m) c)"
  proof (cases "rv_Checkpoint rv")
    case None
    with assms that show ?thesis by simp
  next
    case (Some st)
    with RestoreCheckpoint_ok [OF assms(2), of st] rv(4) that show ?thesis by auto
  qed
  have k: "kmax m1 = kmax m" using m1(3) by (simp add: same_frame_def)
  obtain m' where m': "replayLoop jd m1 (rv_Mutations rv) = (m', None)" "mg_wf m'" "same_frame m1 m'" "mg_text m'"
    "mg_journal m' = mg_journal m1"
    "mg_val m' = foldl (mg_join (kmax m)) (mg_val m1) (map (mut_val (kmax m)) (List.map_filter rm_mut (rv_Mutations rv)))"
    using replayLoop_ok [OF m1(2,4) rv(5), of jd] k by auto
  show ?thesis
    using m' m1 rv(1,3) same_frame_trans [OF m1(3) m'(3)]
    by (intro that [of m']) (simp_all add: recoverAggregation_def recovery_val_def)
qed

section \<open>The node\<close>

text \<open>
  The part of \<open>New\<close> that builds the manager: a fresh pipeline, the store, the recovery, and only
  then the journal.  The last argument is what the operating system will answer to the appends.
\<close>

definition startManager ::
  "pipe_Config \<Rightarrow> store_Config \<Rightarrow> open_io \<Rightarrow> string \<Rightarrow> bool \<Rightarrow> snap_dir \<Rightarrow> recover_io \<Rightarrow> (nat \<Rightarrow> append_io) \<Rightarrow>
   go_error + jstore Manager" where
  "startManager pc sc oio file mkdir_ok dir rio env =
     (case pipe_New pc of
        Inl e \<Rightarrow> Inl e
      | Inr m \<Rightarrow>
          (case store_Open sc oio file mkdir_ok dir of
             Inl e \<Rightarrow> Inl e
           | Inr s \<Rightarrow>
               (case recoverAggregation store_jd rio m s of
                  (_, _, Some e) \<Rightarrow> Inl e
                | (m', s', None) \<Rightarrow> Inr (SetJournal m' (Some \<lparr>js_store = s', js_env = env, js_count = 0\<rparr>)))))"

text \<open>One round of \<open>runSnapshotLoop\<close>: the store is the manager's journal and its checkpointer.\<close>

definition js_save :: "checkpoint_io \<Rightarrow> jstore \<Rightarrow> SnapshotResp \<Rightarrow> jstore \<times> go_error option" where
  "js_save io j st = (let (s, e) = SaveCheckpoint io (js_store j) st in (j\<lparr>js_store := s\<rparr>, e))"

definition snapshotRound :: "checkpoint_io \<Rightarrow> gotime \<Rightarrow> jstore Manager \<Rightarrow> jstore Manager \<times> go_error option" where
  "snapshotRound io now m =
     (let (j, e) = Checkpoint (js_save io) now m (mg_journal m) in (m\<lparr>mg_journal := j\<rparr>, e))"

text \<open>The manager after a crash that left \<open>b\<close> bytes of the log, and after the next start.\<close>

definition restarted :: "pipe_Config \<Rightarrow> store_Config \<Rightarrow> nat \<Rightarrow> (nat \<Rightarrow> append_io) \<Rightarrow> Store \<Rightarrow> go_error + jstore Manager" where
  "restarted pc sc b env s =
     startManager pc sc all_ok (take b (lg_file (st_wal s))) True (st_snapshots s) recover_ok env"

definition node_store :: "jstore Manager \<Rightarrow> Store" where
  "node_store m = js_store (the (mg_journal m))"

definition node_room :: "jstore Manager \<Rightarrow> bool" where
  "node_room m \<longleftrightarrow> LastIndex (st_wal (node_store m)) \<noteq> max_uint64"

text \<open>
  What can happen to a node; \<open>E\<close> restricts what the operating system answers to appends.  Updates,
  deltas and snapshots the manager refuses are steps too.  The guards leave out what the code takes
  in without being able to journal it: accepted candidates with the negative zero or a UTC year
  beyond 9999 (\<open>local_text\<close>, \<open>delta_fit\<close>, \<open>snap_fit\<close>), snapshots with a valid \<open>SUM\<close> part and an invalid \<open>TOPK\<close>
  part (\<open>snap_fit\<close>), mutations without a JSON form, and a log of \<open>2 ^ 64\<close> records (\<open>node_room\<close>).
\<close>

inductive node_step ::
  "pipe_Config \<Rightarrow> store_Config \<Rightarrow> ((nat \<Rightarrow> append_io) \<Rightarrow> bool) \<Rightarrow> jstore Manager \<Rightarrow> jstore Manager \<Rightarrow> bool"
  for pc sc E where
  step_local: "node_room m \<Longrightarrow> local_text m (lu_Value u) \<Longrightarrow> ApplyLocalUpdate store_jd m u = (m', r) \<Longrightarrow>
    node_step pc sc E m m'"
| step_received: "node_room m \<Longrightarrow> delta_fit d \<Longrightarrow> ApplyReceivedDelta store_jd m d = (m', r) \<Longrightarrow>
    node_step pc sc E m m'"
| step_snapshot: "node_room m \<Longrightarrow> snap_fit st \<Longrightarrow> ApplySnapshot store_js m st = (m', r) \<Longrightarrow>
    node_step pc sc E m m'"
| step_outbound: "NextOutbound done m m' r \<Longrightarrow> node_step pc sc E m m'"
| step_checkpoint: "clock_ok now \<Longrightarrow> clock_ok (si_now (ci_save io)) \<Longrightarrow> snapshotRound io now m = (m', e) \<Longrightarrow>
    node_step pc sc E m m'"
| step_crash: "lg_synced (st_wal (node_store m)) \<le> b \<Longrightarrow> E env \<Longrightarrow> restarted pc sc b env (node_store m) = Inr m' \<Longrightarrow>
    node_step pc sc E m m'"

definition node_run where
  "node_run pc sc E m m' \<longleftrightarrow> (node_step pc sc E)\<^sup>*\<^sup>* m m'"

lemma pipe_New_fresh:
  "pipe_New pc = Inr m \<Longrightarrow> mg_wf m \<and> kmax m = pc_TopKMax pc \<and> mg_nodeID m = pc_NodeID pc \<and> mg_text m \<and> mg_val m = bottom"
  using pipe_New_wf [of pc m]
  by (auto simp: pipe_New_def sum_New_def topk_New_def ids_valid_def mg_val_def sum_val_def bottom_def mget_def fun_eq_iff
      split: if_splits)

text \<open>The invariant of a run: the durable value covers the manager's, and is it when nothing failed.\<close>

definition node_inv :: "pipe_Config \<Rightarrow> jstore Manager \<Rightarrow> bool" where
  "node_inv pc m \<longleftrightarrow> mg_nodeID m = pc_NodeID pc \<and> kmax m = pc_TopKMax pc \<and>
     (\<exists>j. store_journal.covered m j)"

definition node_settled :: "jstore Manager \<Rightarrow> bool" where
  "node_settled m \<longleftrightarrow> (\<exists>j. mg_journal m = Some j \<and> store_settled j \<and> store_dval (kmax m) j = mg_val m)"

definition node_exact :: "jstore Manager \<Rightarrow> bool" where
  "node_exact m \<longleftrightarrow>
     (\<exists>j. mg_journal m = Some j \<and> store_settled j \<and> store_dval (kmax m) j = mg_val m \<and>
        (\<forall>i. ai_seek (js_env j i) \<and> ai_sync (js_env j i)))"

lemma node_exact_settled: "node_exact m \<Longrightarrow> node_settled m"
  by (auto simp: node_exact_def node_settled_def)

lemma restarted_ok:
  assumes "store_inv (pc_NodeID pc) (pc_TopKMax pc) s rs c" "lg_synced (st_wal s) \<le> b" "env_ok env"
    and "pipe_New pc = Inr (m0 :: jstore Manager)" "syncMode (sc_WALSyncMode sc) = Some SyncAlways"
  obtains m' q where "restarted pc sc b env s = Inr m'" "node_inv pc m'" "c \<le> q" "q \<le> length rs"
    "mg_val m' = rec_val (pc_TopKMax pc) (st_snapshots s) (take q rs)"
    "\<exists>j. mg_journal m' = Some j \<and> js_env j = env \<and> store_settled j \<and> store_dval (kmax m') j = mg_val m'"
proof -
  let ?k = "pc_TopKMax pc" and ?n = "pc_NodeID pc"
  obtain q s1 where q: "crashed sc b s = Inr s1" "store_inv ?n ?k s1 (take q rs) q" "st_snapshots s1 = st_snapshots s"
    "c \<le> q" "q \<le> length rs"
    using assms(1,2,5) by (rule crashed_inv)
  have m0: "mg_wf m0" "kmax m0 = ?k" "mg_nodeID m0 = ?n" "mg_text m0" "mg_val m0 = bottom"
    using pipe_New_fresh [OF assms(4)] by simp_all
  define s2 where "s2 = s1\<lparr>st_wal := (st_wal s1)\<lparr>lg_synced := length (lg_file (st_wal s1))\<rparr>\<rparr>"
  have "store_inv (mg_nodeID m0) (kmax m0) s1 (take q rs) q" using q(2) m0 by simp
  from recoverAggregation_ok [OF this m0(1,4,5), of store_jd] obtain m1 where
    m1: "recoverAggregation store_jd recover_ok m0 s1 = (m1, s2, None)" "mg_wf m1" "same_frame m0 m1" "mg_text m1"
      "mg_val m1 = rec_val (kmax m0) (st_snapshots s1) (take q rs)" unfolding s2_def by metis
  let ?j = "\<lparr>js_store = s2, js_env = env, js_count = 0\<rparr>"
  let ?m = "SetJournal m1 (Some ?j)"
  have s2: "store_inv ?n ?k s2 (take q rs) (length (take q rs))"
    unfolding s2_def
    by (rule store_inv_synced [OF q(2), where p = "lg_pendingSync (st_wal s1)" and b = "length (lg_file (st_wal s1))"])
      simp_all
  have v: "store_dval ?k ?j = mg_val m1"
    using durable_val_eq [OF s2 always_config_mode] m1(5) m0(2) q(5) by (simp add: s2_def min_absorb2)
  have R: "restarted pc sc b env s = Inr ?m"
    using assms(4) q(1) m1(1) by (simp add: restarted_def startManager_def crashed_def)
  have fr: "mg_nodeID m1 = ?n" "kmax m1 = ?k" using m1(3) m0 by (simp_all add: same_frame_def)
  have car: "mg_carrier ?k (mg_val m1)" using mg_wf_topk [OF m1(2)] fr by (simp add: mg_carrier_def mg_val_def)
  have "store_journal.covered ?m ?j"
    using m1(2,4) fr s2 assms(3) v mg_semilattice.below_refl [OF car]
    by (auto simp: store_journal.covered_def SetJournal_def store_jinv_def)
  moreover have "store_settled ?j" using store_settled_iff [OF s2] by (simp add: store_settled_def)
  ultimately show ?thesis
    using R fr v m1(5) m0(2) q(3-5) by (intro that [of ?m q]) (auto simp: node_inv_def SetJournal_def)
qed

lemma snapshotRound_ok:
  assumes "store_journal.covered m j" "clock_ok now" "clock_ok (si_now (ci_save io))" "snapshotRound io now m = (m', e)"
  shows "\<exists>j'. m' = m\<lparr>mg_journal := Some j'\<rparr> \<and> store_journal.covered m' j' \<and> js_env j' = js_env j \<and>
    (e = None \<or> store_settled j \<and> store_dval (kmax m) j = mg_val m \<longrightarrow> store_settled j' \<and> store_dval (kmax m) j' = mg_val m)"
proof -
  let ?k = "kmax m"
  have m: "mg_wf m" "mg_text m" "mg_journal m = Some j" "store_jinv (mg_nodeID m) ?k j"
    "mg_semilattice.below ?k (mg_val m) (store_dval ?k j)" using assms(1) by (simp_all add: store_journal.covered_def)
  obtain st where st: "snapshotLocked now m [AggregateSUM, AggregateTOPK] = Inr st" using snapshot_full [OF m(1)] by metis
  note ck = checkpoint_text [OF m(1,2) assms(2) st]
  obtain rs c where I: "store_inv (mg_nodeID m) ?k (js_store j) rs c" and env: "env_ok (js_env j)"
    using m(4) by (auto simp: store_jinv_def)
  obtain s' x where S: "SaveCheckpoint io (js_store j) st = (s', x)" by (cases "SaveCheckpoint io (js_store j) st")
  let ?j = "j\<lparr>js_store := s'\<rparr>"
  have m': "m' = m\<lparr>mg_journal := Some ?j\<rparr>" and e: "e = None \<longleftrightarrow> x = None"
    using assms(4) m(3) st S
    by (auto simp: snapshotRound_def Checkpoint_def js_save_def Let_def split_beta split: option.splits)
  obtain c' where c': "store_inv (mg_nodeID m) ?k s' rs c'" "c = length rs \<longrightarrow> c' = length rs"
    "if x = None then c' = length rs \<and> durable_val always_config ?k s' = snap_val ?k st
     else mg_semilattice.below ?k (store_dval ?k j) (durable_val always_config ?k s') \<and>
       (c = length rs \<longrightarrow> durable_val always_config ?k s' = store_dval ?k j)"
    using SaveCheckpoint_durable [OF I ck(1,2) assms(3) S always_config_mode] by blast
  have inv: "store_jinv (mg_nodeID m) ?k ?j" using env c'(1) by (auto simp: store_jinv_def)
  have car: "mg_carrier ?k (mg_val m)" "mg_carrier ?k (store_dval ?k j)" "mg_carrier ?k (store_dval ?k ?j)"
    using store_journal.covered_carrier [OF m(1)] store_journal.dval_carrier [OF m(4)] store_journal.dval_carrier [OF inv] .
  have "mg_semilattice.below ?k (mg_val m) (store_dval ?k ?j)"
  proof (cases "x = None")
    case True
    then show ?thesis using c'(3) ck(3) mg_semilattice.below_refl [OF car(1)] by simp
  next
    case False
    then show ?thesis using c'(3) m(5) mg_semilattice.below_trans [OF car] by simp
  qed
  then have "store_journal.covered m' ?j"
    using m(1,2) inv by (simp add: m' store_journal.covered_def same_frame_def)
  moreover have "store_settled ?j \<and> store_dval ?k ?j = mg_val m" if "e = None \<or> store_settled j \<and> store_dval ?k j = mg_val m"
    using that e store_settled_iff [OF I] store_settled_iff [OF c'(1)] c'(2,3) ck(3)
    by (auto simp: store_settled_def split: if_splits)
  ultimately show ?thesis using m' by auto
qed

lemma NextOutbound_frame:
  "NextOutbound done m m' r \<Longrightarrow> mg_val m' = mg_val m \<and> mg_journal m' = mg_journal m \<and> same_frame m m' \<and> (mg_wf m \<longrightarrow> mg_wf m')"
  by (induction rule: NextOutbound.induct) (auto simp: mg_val_def same_frame_def mg_wf_def)

lemma node_inv_store:
  assumes "node_inv pc m"
  obtains j rs c where "store_journal.covered m j" "mg_journal m = Some j" "node_store m = js_store j"
    "store_inv (pc_NodeID pc) (pc_TopKMax pc) (node_store m) rs c" "env_ok (js_env j)"
    "mg_wf m" "kmax m = pc_TopKMax pc" "mg_nodeID m = pc_NodeID pc" "node_room m = store_room j"
proof -
  obtain j where j: "store_journal.covered m j" "mg_nodeID m = pc_NodeID pc" "kmax m = pc_TopKMax pc"
    using assms by (auto simp: node_inv_def)
  then have "mg_wf m" "mg_journal m = Some j" "store_jinv (pc_NodeID pc) (pc_TopKMax pc) j"
    by (simp_all add: store_journal.covered_def)
  with j that show ?thesis by (auto simp: store_jinv_def node_store_def node_room_def store_room_def)
qed

lemma node_inv_covered:
  assumes "node_inv pc m"
  obtains j where "store_journal.covered m j" "kmax m = pc_TopKMax pc" "mg_nodeID m = pc_NodeID pc" "mg_wf m"
    "store_room j = node_room m"
  using assms by (rule node_inv_store) (use that in blast)

lemma restarted_grows:
  assumes "node_inv pc m" "lg_synced (st_wal (node_store m)) \<le> b" "env_ok env"
    and "pipe_New pc = Inr (m0 :: jstore Manager)" "syncMode (sc_WALSyncMode sc) = Some SyncAlways"
  obtains m' where "restarted pc sc b env (node_store m) = Inr m'" "node_inv pc m'"
    "mg_semilattice.below (kmax m) (mg_val m) (mg_val m')"
    "node_settled m \<Longrightarrow> mg_val m' = mg_val m" "\<exists>j. mg_journal m' = Some j \<and> js_env j = env \<and> store_settled j \<and> store_dval (kmax m') j = mg_val m'"
proof -
  obtain j rs c where j: "store_journal.covered m j" "mg_journal m = Some j" "node_store m = js_store j"
    "store_inv (pc_NodeID pc) (pc_TopKMax pc) (node_store m) rs c" "env_ok (js_env j)"
    "mg_wf m" "kmax m = pc_TopKMax pc" "mg_nodeID m = pc_NodeID pc" "node_room m = store_room j"
    using assms(1) by (rule node_inv_store)
  let ?k = "pc_TopKMax pc" and ?D = "st_snapshots (node_store m)"
  obtain m' q where m': "restarted pc sc b env (node_store m) = Inr m'" "node_inv pc m'" "c \<le> q" "q \<le> length rs"
    "mg_val m' = rec_val ?k ?D (take q rs)"
    "\<exists>j. mg_journal m' = Some j \<and> js_env j = env \<and> store_settled j \<and> store_dval (kmax m') j = mg_val m'"
    using j(4) assms(2-5) by (rule restarted_ok)
  have d: "store_dval ?k j = rec_val ?k ?D (take c rs)" using durable_val_eq [OF j(4) always_config_mode] j(3) by simp
  have "mg_semilattice.below ?k (mg_val m) (rec_val ?k ?D (take c rs))"
    using j(1,7) d by (simp add: store_journal.covered_def)
  moreover have "mg_semilattice.below ?k (rec_val ?k ?D (take c rs)) (mg_val m')"
    unfolding m'(5) using j(4) order_refl m'(3) by (rule rec_val_mono)
  moreover have "mg_carrier ?k (mg_val m)" using store_journal.covered_carrier [OF j(6)] j(7) by simp
  ultimately have "mg_semilattice.below ?k (mg_val m) (mg_val m')"
    unfolding m'(5) using rec_val_carrier [OF j(4)] by (meson mg_semilattice.below_trans)
  moreover have "mg_val m' = mg_val m" if "node_settled m"
  proof -
    have e: "store_settled j" "store_dval ?k j = mg_val m" using that j(2,7) by (auto simp: node_settled_def)
    then have "c = length rs" using store_settled_iff [OF j(4)] j(3) by (simp add: store_settled_def)
    with m'(3,4,5) e(2) d show ?thesis by simp
  qed
  ultimately show ?thesis using m'(1,2,6) j(7) by (intro that [of m']) auto
qed

lemma node_write_ahead:
  assumes "node_inv pc m" "node_room m" "write_ahead store_jd store_js m m'"
  shows "node_inv pc m' \<and> mg_semilattice.below (kmax m) (mg_val m) (mg_val m')"
proof -
  obtain j where j: "store_journal.covered m j" "kmax m = pc_TopKMax pc" "mg_nodeID m = pc_NodeID pc" "mg_wf m"
    "store_room j = node_room m" using assms(1) by (rule node_inv_covered)
  have "store_room j" using j(5) assms(2) by simp
  from store_journal.write_ahead_covered [OF j(1) this assms(3)] j(2,3) show ?thesis
    by (auto simp: node_inv_def same_frame_def)
qed

lemma node_step_inv:
  assumes "node_step pc sc E m m'" "node_inv pc m" "\<And>env. E env \<Longrightarrow> env_ok env"
    and "pipe_New pc = Inr (m0 :: jstore Manager)" "syncMode (sc_WALSyncMode sc) = Some SyncAlways"
  shows "node_inv pc m' \<and> mg_semilattice.below (kmax m) (mg_val m) (mg_val m')"
proof -
  obtain j where j: "store_journal.covered m j" "kmax m = pc_TopKMax pc" "mg_nodeID m = pc_NodeID pc" "mg_wf m"
    "store_room j = node_room m" using assms(2) by (rule node_inv_covered)
  note self = mg_semilattice.below_refl [OF store_journal.covered_carrier [OF j(4)]]
  show ?thesis
    using assms(1)
  proof cases
    case (step_local u r)
    from node_write_ahead [OF assms(2) this(1) ops_write_ahead(1) [OF j(4) this(2,3)]] show ?thesis .
  next
    case (step_received d r)
    from node_write_ahead [OF assms(2) this(1) ops_write_ahead(2) [OF j(4) this(2,3)]] show ?thesis .
  next
    case (step_snapshot st r)
    from node_write_ahead [OF assms(2) this(1) ops_write_ahead(3) [OF j(4) this(2,3)]] show ?thesis .
  next
    case (step_outbound ctx r)
    note f = NextOutbound_frame [OF this]
    have "store_journal.covered m' j" using j f by (auto simp: store_journal.covered_def same_frame_def mg_val_def)
    with f j self show ?thesis by (auto simp: node_inv_def same_frame_def)
  next
    case (step_checkpoint now io e)
    from snapshotRound_ok [OF j(1) this] j self show ?thesis by (auto simp: node_inv_def)
  next
    case (step_crash b env)
    obtain m1 where "restarted pc sc b env (node_store m) = Inr m1" "node_inv pc m1"
      "mg_semilattice.below (kmax m) (mg_val m) (mg_val m1)"
      using assms(2) step_crash(1) assms(3) [OF step_crash(2)] assms(4,5) by (rule restarted_grows)
    with step_crash(3) show ?thesis by simp
  qed
qed

definition env_perfect :: "(nat \<Rightarrow> append_io) \<Rightarrow> bool" where
  "env_perfect env \<longleftrightarrow> env_ok env \<and> (\<forall>i. ai_seek (env i) \<and> ai_sync (env i))"

lemma node_write_ahead_exact:
  assumes "node_inv pc m" "node_room m" "write_ahead store_jd store_js m m'" "node_exact m"
  shows "node_exact m'"
proof -
  obtain j where j: "mg_journal m = Some j" "store_settled j" "store_dval (kmax m) j = mg_val m"
    "\<forall>i. ai_seek (js_env j i) \<and> ai_sync (js_env j i)" using assms(4) by (auto simp: node_exact_def)
  obtain j1 where j1: "store_journal.covered m j1" "kmax m = pc_TopKMax pc" "mg_nodeID m = pc_NodeID pc" "mg_wf m"
    "store_room j1 = node_room m" using assms(1) by (rule node_inv_covered)
  have c: "store_journal.covered m j" "store_room j" "store_jinv (mg_nodeID m) (kmax m) j"
    using j1 j(1) assms(2) by (auto simp: store_journal.covered_def)
  have "\<forall>u. mut_text u \<longrightarrow> snd (append_mut store_jd store_js j u) = None"
    using store_append_succeeds [OF c(3)] j(4) by blast
  from store_journal.write_ahead_exact [OF c(1,2) assms(3) j(2,3) this] obtain j' where
    "mg_journal m' = Some j'" "store_settled j'" "store_dval (kmax m') j' = mg_val m'"
    "j' = j \<or> (\<exists>u. j' = fst (append_mut store_jd store_js j u))" by blast
  moreover from this(4) have "js_env j' = js_env j" by (auto simp: append_mut_env)
  ultimately show ?thesis using j(4) by (simp add: node_exact_def)
qed

lemma node_step_exact:
  assumes "node_step pc sc env_perfect m m'" "node_inv pc m" "node_exact m"
    and "pipe_New pc = Inr (m0 :: jstore Manager)" "syncMode (sc_WALSyncMode sc) = Some SyncAlways"
  shows "node_exact m'"
proof -
  obtain j where j: "store_journal.covered m j" "kmax m = pc_TopKMax pc" "mg_nodeID m = pc_NodeID pc" "mg_wf m"
    "store_room j = node_room m" using assms(2) by (rule node_inv_covered)
  show ?thesis
    using assms(1)
  proof cases
    case (step_local u r)
    from node_write_ahead_exact [OF assms(2) this(1) ops_write_ahead(1) [OF j(4) this(2,3)] assms(3)] show ?thesis .
  next
    case (step_received d r)
    from node_write_ahead_exact [OF assms(2) this(1) ops_write_ahead(2) [OF j(4) this(2,3)] assms(3)] show ?thesis .
  next
    case (step_snapshot st r)
    from node_write_ahead_exact [OF assms(2) this(1) ops_write_ahead(3) [OF j(4) this(2,3)] assms(3)] show ?thesis .
  next
    case (step_outbound ctx r)
    from NextOutbound_frame [OF this] assms(3) show ?thesis by (auto simp: node_exact_def same_frame_def)
  next
    case (step_checkpoint now io e)
    from snapshotRound_ok [OF j(1) this] assms(3) j(1) show ?thesis
      by (auto simp: node_exact_def store_journal.covered_def)
  next
    case (step_crash b env)
    have "env_ok env" using step_crash(2) by (simp add: env_perfect_def)
    with assms(2) step_crash(1) obtain m1 where "restarted pc sc b env (node_store m) = Inr m1"
      "\<exists>j. mg_journal m1 = Some j \<and> js_env j = env \<and> store_settled j \<and> store_dval (kmax m1) j = mg_val m1"
      using assms(4,5) by (metis restarted_grows)
    with step_crash(2,3) show ?thesis by (auto simp: node_exact_def env_perfect_def)
  qed
qed

lemma node_run_inv:
  assumes "node_run pc sc E m m'" "node_inv pc m" "\<And>env. E env \<Longrightarrow> env_ok env"
    and "pipe_New pc = Inr (m0 :: jstore Manager)" "syncMode (sc_WALSyncMode sc) = Some SyncAlways"
  shows "node_inv pc m' \<and> mg_semilattice.below (kmax m) (mg_val m) (mg_val m') \<and>
    (E = env_perfect \<longrightarrow> node_exact m \<longrightarrow> node_exact m')"
  using assms(1) unfolding node_run_def
proof (induction rule: rtranclp_induct)
  case base
  have "mg_wf m" using assms(2) by (auto elim!: node_inv_covered)
  from mg_semilattice.below_refl [OF store_journal.covered_carrier [OF this]] assms(2) show ?case by simp
next
  case (step x y)
  note s = node_step_inv [OF step(2) _ assms(3-5)]
  have x: "node_inv pc x" "mg_semilattice.below (kmax m) (mg_val m) (mg_val x)" using step.IH by auto
  have k: "kmax x = kmax m" "kmax y = kmax m" using x(1) s [OF x(1)] assms(2) by (auto simp: node_inv_def)
  have w: "mg_wf m" "mg_wf x" "mg_wf y" using assms(2) x(1) s [OF x(1)] by (auto elim!: node_inv_covered)
  have "mg_semilattice.below (kmax m) (mg_val m) (mg_val y)"
    using x(2) s [OF x(1)] k store_journal.covered_carrier [OF w(1)] store_journal.covered_carrier [OF w(2)]
      store_journal.covered_carrier [OF w(3)] by (metis mg_semilattice.below_trans)
  moreover have "node_exact y" if "E = env_perfect" "node_exact m"
    using node_step_exact [OF _ x(1) _ assms(4,5)] step(2) step.IH that by auto
  ultimately show ?case using s [OF x(1)] by blast
qed

lemma first_start:
  assumes "pipe_New pc = Inr (m0 :: jstore Manager)" "syncMode (sc_WALSyncMode sc) = Some SyncAlways" "env_ok env"
  obtains m where "startManager pc sc all_ok [] True [] recover_ok env = Inr m" "node_inv pc m"
    "\<exists>j. mg_journal m = Some j \<and> js_env j = env \<and> store_settled j \<and> store_dval (kmax m) j = mg_val m"
proof -
  obtain l where l: "store_Open sc all_ok (wal_lines [] @ []) True [] = Inr \<lparr>st_wal = l, st_snapshots = [], st_closed = False\<rparr>"
    "log_inv l []" "\<not> lg_closed l" "lg_mode l = SyncAlways" "lg_synced l = length (lg_file l)"
    by (rule store_Open_lines [of "[]" "[]" sc SyncAlways "[]"]) (use assms(2) in auto)
  let ?s = "\<lparr>st_wal = l, st_snapshots = [], st_closed = False\<rparr>"
  have "0 < pc_TopKMax pc" using assms(1) by (auto simp: pipe_New_def split: if_splits)
  moreover have "lg_file l = []" using l(2) by (simp add: log_inv_def)
  ultimately have "store_inv (pc_NodeID pc) (pc_TopKMax pc) ?s [] 0"
    using l by (simp add: store_inv_def dir_inv_def mwf_def published_def)
  moreover have "lg_synced (st_wal ?s) \<le> 0" using l(5) \<open>lg_file l = []\<close> by simp
  ultimately obtain m q where "restarted pc sc 0 env ?s = Inr m" "node_inv pc m"
    "\<exists>j. mg_journal m = Some j \<and> js_env j = env \<and> store_settled j \<and> store_dval (kmax m) j = mg_val m"
    using assms(3,1,2) by (rule restarted_ok) blast
  then show ?thesis using that by (simp add: restarted_def)
qed

text \<open>
  C2. What a node holds survives: start a node on an empty disk with the always-sync mode, let any
  sequence of local updates, received deltas, snapshots, checkpoints, deliveries and crashes happen to
  it, with seeks and syncs failing at any time but no write failing, and crash it once more at any
  point, losing any unsynced bytes of the log.  The next start succeeds, and the recovered aggregates
  contain the value the node held, which contains the value it had at every earlier moment \<open>p\<close> of the
  run.  The run may contain anything the manager refuses.  It contains, by the guards of \<open>node_step\<close>,
  no accepted candidate with the negative zero as score or a UTC year beyond 9999, no mutation without
  a JSON form, no snapshot with a valid \<open>SUM\<close> part and an invalid \<open>TOPK\<close> part (the code merges that one
  without journaling it, and a crash does lose it), fewer than \<open>2 ^ 64\<close> records, and clocks whose time has
  an RFC 3339 form.
\<close>

theorem node_durability:
  assumes "startManager pc sc all_ok [] True [] recover_ok env = Inr m" "syncMode (sc_WALSyncMode sc) = Some SyncAlways"
    and "env_ok env" "node_run pc sc env_ok m p" "node_run pc sc env_ok p n" "lg_synced (st_wal (node_store n)) \<le> b" "env_ok env'"
  shows "\<exists>n'. restarted pc sc b env' (node_store n) = Inr n' \<and> mg_wf n' \<and>
    mg_join (kmax n) (mg_val n) (mg_val n') = mg_val n' \<and> mg_join (kmax n) (mg_val p) (mg_val n) = mg_val n"
proof -
  obtain m0 :: "jstore Manager" where m0: "pipe_New pc = Inr m0"
    using assms(1) by (auto simp: startManager_def split: sum.splits)
  have m: "node_inv pc m" using first_start [OF m0 assms(2,3)] assms(1) by auto
  have p: "node_inv pc p" using node_run_inv [OF assms(4) m _ m0 assms(2)] by blast
  have n: "node_inv pc n" "mg_semilattice.below (kmax p) (mg_val p) (mg_val n)"
    using node_run_inv [OF assms(5) p _ m0 assms(2)] by auto
  have k: "kmax p = kmax n" using p n(1) by (simp add: node_inv_def)
  obtain n' where n': "restarted pc sc b env' (node_store n) = Inr n'" "node_inv pc n'"
    "mg_semilattice.below (kmax n) (mg_val n) (mg_val n')"
    using n(1) assms(6,7) m0 assms(2) by (rule restarted_grows)
  have "mg_wf n'" using n'(2) by (auto elim!: node_inv_covered)
  with n' n(2) k show ?thesis by (auto simp: mg_semilattice.below_def)
qed

definition ex_pc :: pipe_Config where
  "ex_pc = \<lparr>pc_NodeID = ''a'', pc_TopKMax = 2, pc_OutboundQueueSize = 4\<rparr>"

lemma ex_node:
  obtains m n e where "startManager ex_pc always_config all_ok [] True [] recover_ok (\<lambda>_. ex_io) = Inr m"
    "snapshotRound \<lparr>ci_sync = True, ci_save = ex_save\<rparr> (ai_now ex_io) m = (n, e)" "node_step ex_pc always_config E m n"
    "env_perfect (\<lambda>_. ex_io)"
proof -
  have "ValidNodeID ''a''" by code_simp
  then obtain m0 :: "jstore Manager" where m0: "pipe_New ex_pc = Inr m0" by (auto simp: pipe_New_def ex_pc_def sum_New_def topk_New_def)
  have env: "env_perfect (\<lambda>_. ex_io)" using ex_io_clock by (simp add: env_perfect_def env_ok_def ex_io_def)
  then have "env_ok (\<lambda>_. ex_io)" by (simp add: env_perfect_def)
  from first_start [OF m0 always_config_mode this] obtain m where
    m: "startManager ex_pc always_config all_ok [] True [] recover_ok (\<lambda>_. ex_io) = Inr m" by blast
  obtain n e where n: "snapshotRound \<lparr>ci_sync = True, ci_save = ex_save\<rparr> (ai_now ex_io) m = (n, e)" by fastforce
  have "node_step ex_pc always_config E m n"
    by (rule step_checkpoint [OF _ _ n]) (simp_all add: ex_io_clock ex_save_def)
  with m n env that show ?thesis by blast
qed

theorem node_durability_witness:
  "\<exists>m n n'. startManager ex_pc always_config all_ok [] True [] recover_ok (\<lambda>_. ex_io) = Inr m \<and>
     node_step ex_pc always_config env_ok m n \<and>
     restarted ex_pc always_config (lg_synced (st_wal (node_store n))) (\<lambda>_. ex_io) (node_store n) = Inr n' \<and> mg_wf n'"
proof -
  obtain m n where m: "startManager ex_pc always_config all_ok [] True [] recover_ok (\<lambda>_. ex_io) = Inr m"
    "node_step ex_pc always_config env_ok m n" "env_perfect (\<lambda>_. ex_io)" using ex_node by metis
  have r: "node_run ex_pc always_config env_ok m m" "node_run ex_pc always_config env_ok m n"
    using m(2) by (simp_all add: node_run_def)
  have "env_ok (\<lambda>_. ex_io)" using m(3) by (simp add: env_perfect_def)
  with node_durability [OF m(1) always_config_mode _ r order_refl] m show ?thesis by blast
qed

text \<open>
  C17. And nothing is made up: when the appends do not fail, the node that starts after a crash
  holds exactly the aggregates it held before it, however often it was checkpointed and restarted.
  The runs are those of \<open>node_step\<close>, with its guards: no half-valid snapshot (which is merged without
  being journaled, so that a restart does not bring it back), no accepted candidate with the negative zero
  or a UTC year beyond 9999, no mutation without a JSON form, fewer than \<open>2 ^ 64\<close> records, and clocks
  whose time has an RFC 3339 form.
\<close>

theorem node_recovery_exact:
  assumes "startManager pc sc all_ok [] True [] recover_ok env = Inr m" "syncMode (sc_WALSyncMode sc) = Some SyncAlways"
    and "env_perfect env" "node_run pc sc env_perfect m n" "lg_synced (st_wal (node_store n)) \<le> b" "env_perfect env'"
  shows "\<exists>n'. restarted pc sc b env' (node_store n) = Inr n' \<and> mg_val n' = mg_val n"
proof -
  obtain m0 :: "jstore Manager" where m0: "pipe_New pc = Inr m0"
    using assms(1) by (auto simp: startManager_def split: sum.splits)
  have env: "env_ok env" "env_ok env'" using assms(3,6) by (simp_all add: env_perfect_def)
  obtain j where m: "node_inv pc m" "mg_journal m = Some j" "js_env j = env" "store_settled j" "store_dval (kmax m) j = mg_val m"
    using first_start [OF m0 assms(2) env(1)] assms(1) by auto
  then have e: "node_exact m" using assms(3) by (simp add: node_exact_def env_perfect_def)
  have n: "node_inv pc n" "node_exact n"
    using node_run_inv [OF assms(4) m(1) _ m0 assms(2)] e by (auto simp: env_perfect_def)
  show ?thesis by (rule restarted_grows [OF n(1) assms(5) env(2) m0 assms(2)]) (use node_exact_settled [OF n(2)] in blast)
qed

theorem node_recovery_exact_witness:
  "\<exists>m n n'. startManager ex_pc always_config all_ok [] True [] recover_ok (\<lambda>_. ex_io) = Inr m \<and>
     node_step ex_pc always_config env_perfect m n \<and>
     restarted ex_pc always_config (lg_synced (st_wal (node_store n))) (\<lambda>_. ex_io) (node_store n) = Inr n' \<and>
     mg_val n' = mg_val n"
proof -
  obtain m n where m: "startManager ex_pc always_config all_ok [] True [] recover_ok (\<lambda>_. ex_io) = Inr m"
    "node_step ex_pc always_config env_perfect m n" "env_perfect (\<lambda>_. ex_io)" using ex_node by metis
  have "node_run ex_pc always_config env_perfect m n" using m(2) by (simp add: node_run_def)
  from node_recovery_exact [OF m(1) always_config_mode m(3) this order_refl m(3)] m show ?thesis by blast
qed

end
