(* ===== verification/Transport.thy ===== *)
theory Transport
  imports JsonValid
begin

text \<open>
  \<open>internal/gossip/transport\<close>: the envelope and its validation, the JSON codec with its payload
  checksum, the UDP frame transport, the adapters between frames and envelopes, the retrying
  sender with its backoff, and the guard that drops duplicate and stale messages.

  Payloads and frames are bytes.  The network is a parameter: what a call of the \<open>net\<close> package
  returns is an argument of the operation that makes it, and a peer sender, a receiver and a sleep
  are functions on a state of their own.
\<close>

section \<open>Envelopes and their validation\<close>

record Envelope =
  ev_Type :: string
  ev_Seq :: u64
  ev_Timestamp :: string
  ev_From :: string
  ev_Checksum :: string
  ev_TraceID :: string
  ev_CorrelationID :: string
  ev_Version :: string
  ev_Payload :: string

definition zero_Envelope :: Envelope where
  "zero_Envelope = \<lparr>ev_Type = [], ev_Seq = 0, ev_Timestamp = [], ev_From = [], ev_Checksum = [],
     ev_TraceID = [], ev_CorrelationID = [], ev_Version = [], ev_Payload = []\<rparr>"

definition allowedTypes :: "string list" where
  "allowedTypes = [''Ping'', ''StateDigest'', ''StateDelta'', ''DeltaRangeReq'', ''DeltaRangeResp'', ''Ack'',
     ''SnapshotReq'', ''SnapshotResp'']"

definition validateEnvelope :: "Envelope \<Rightarrow> go_error option" where
  "validateEnvelope m =
     (if ev_Type m = [] then Some ErrEmptyType
      else if ev_Type m \<notin> set allowedTypes then Some ErrUnsupportedType
      else if ev_From m = [] then Some ErrEmptyFrom
      else if \<not> ValidNodeID (ev_From m) then Some ErrInvalidFrom
      else if ev_Timestamp m = [] then Some ErrInvalidTimestamp
      else if parse_rfc3339 True (ev_Timestamp m) = None then Some ErrInvalidTimestamp
      else if ev_Payload m = [] then Some ErrEmptyPayload
      else if ev_Checksum m = [] then Some ErrEmptyChecksum
      else if length (ev_Checksum m) \<noteq> 64 then Some ErrInvalidChecksum
      else if DecodeString (ev_Checksum m) = None then Some ErrInvalidChecksum
      else None)"

definition isValidationError :: "go_error \<Rightarrow> bool" where
  "isValidationError e \<longleftrightarrow> e \<in> {ErrEmptyType, ErrUnsupportedType, ErrEmptyFrom, ErrInvalidFrom,
     ErrInvalidTimestamp, ErrEmptyPayload, ErrEmptyChecksum, ErrInvalidChecksum, ErrChecksumMismatch}"

section \<open>The JSON codec\<close>

definition checksumForPayload :: "string \<Rightarrow> string" where
  "checksumForPayload payload = sha256_hex payload"

text \<open>The members of \<open>jsonEnvelope\<close>, in the order of its fields.\<close>

definition env_members :: "Envelope \<Rightarrow> (string \<times> json) list" where
  "env_members m =
     [(''type'', JStr (ev_Type m)), (''seq'', enc_uint64 (ev_Seq m)),
      (''timestamp'', JStr (ev_Timestamp m)), (''checksum'', JStr (ev_Checksum m)),
      (''from'', JStr (ev_From m))] @
     omitempty (ev_TraceID m = []) ''trace_id'' (JStr (ev_TraceID m)) @
     omitempty (ev_CorrelationID m = []) ''correlation_id'' (JStr (ev_CorrelationID m)) @
     omitempty (ev_Version m = []) ''version'' (JStr (ev_Version m))"

definition env_text :: "Envelope \<Rightarrow> string \<Rightarrow> string" where
  "env_text m payload =
     object_text (map (\<lambda>(k, v). (k, json_text v)) (env_members m) @ [(''payload'', payload)])"

definition env_fields :: "(string \<times> Envelope raw_decoder) list" where
  "env_fields =
     [(''type'', plain (field ev_Type ev_Type_update dec_string)),
      (''seq'', plain (field ev_Seq ev_Seq_update dec_uint64)),
      (''timestamp'', plain (field ev_Timestamp ev_Timestamp_update dec_string)),
      (''checksum'', plain (field ev_Checksum ev_Checksum_update dec_string)),
      (''from'', plain (field ev_From ev_From_update dec_string)),
      (''trace_id'', plain (field ev_TraceID ev_TraceID_update dec_string)),
      (''correlation_id'', plain (field ev_CorrelationID ev_CorrelationID_update dec_string)),
      (''version'', plain (field ev_Version ev_Version_update dec_string)),
      (''payload'', raw_field ev_Payload_update)]"

text \<open>What \<open>Encode\<close> fills in before it validates.\<close>

definition env_defaults :: "Envelope \<Rightarrow> Envelope" where
  "env_defaults m =
     (let m1 = (if ev_Version m = [] then m\<lparr>ev_Version := ''v1''\<rparr> else m)
      in if ev_Checksum m1 = [] then m1\<lparr>ev_Checksum := checksumForPayload (ev_Payload m1)\<rparr> else m1)"

definition codec_Encode :: "Envelope \<Rightarrow> go_error + string" where
  "codec_Encode message =
     (let m = env_defaults message
      in case validateEnvelope m of
           Some e \<Rightarrow> Inl e
         | None \<Rightarrow>
             (case compact (ev_Payload m) of
                None \<Rightarrow> Inl JsonError
              | Some payload \<Rightarrow> Inr (env_text m payload)))"

definition codec_Decode :: "string \<Rightarrow> go_error + Envelope" where
  "codec_Decode frame =
     (case unmarshal_struct env_fields zero_Envelope frame of
        None \<Rightarrow> Inl JsonError
      | Some wire \<Rightarrow>
          (let m = (if ev_Version wire = [] then wire\<lparr>ev_Version := ''v1''\<rparr> else wire)
           in case validateEnvelope m of
                Some e \<Rightarrow> Inl e
              | None \<Rightarrow>
                  if checksumForPayload (ev_Payload m) \<noteq> ev_Checksum m then Inl ErrChecksumMismatch
                  else Inr m))"

section \<open>Frames over UDP\<close>

definition DefaultMaxFrameSize :: int where "DefaultMaxFrameSize = 64 * 1024"

text \<open>
  What the connection answers to one \<open>SendFrame\<close>: whether the peer address resolves, the write
  deadline is accepted and the datagram is written.
\<close>

record udp_out =
  uo_resolves :: bool
  uo_deadline :: bool
  uo_writes :: bool

definition frameLimit :: "int \<Rightarrow> int" where
  "frameLimit maxFrameSize = (if maxFrameSize \<le> 0 then DefaultMaxFrameSize else maxFrameSize)"

definition SendFrame :: "int \<Rightarrow> udp_out \<Rightarrow> string \<Rightarrow> go_error option" where
  "SendFrame maxFrameSize net frame =
     (if int (length frame) > maxFrameSize then Some ErrFrameTooLarge
      else if \<not> uo_resolves net then Some IOError
      else if \<not> uo_deadline net then Some IOError
      else if \<not> uo_writes net then Some IOError
      else None)"

text \<open>
  One round of the loop of \<open>NextFrame\<close>: setting the read deadline fails, the read times out (with
  the context done or not), fails otherwise, or returns a peer and the first \<open>n\<close> bytes of a
  datagram.  The list is what the connection answers round after round; \<open>None\<close> is a call that is
  still waiting when it ends.
\<close>

datatype udp_in = DeadlineFails | ReadTimeout bool | ReadFails | ReadFrom string string

fun NextFrame :: "int \<Rightarrow> udp_in list \<Rightarrow> ((go_error + string \<times> string) \<times> udp_in list) option" where
  "NextFrame maxFrameSize [] = None"
| "NextFrame maxFrameSize (r # rs) =
     (case r of
        DeadlineFails \<Rightarrow> Some (Inl IOError, rs)
      | ReadTimeout ctx_done \<Rightarrow> if ctx_done then Some (Inl ContextDone, rs) else NextFrame maxFrameSize rs
      | ReadFails \<Rightarrow> Some (Inl IOError, rs)
      | ReadFrom peer buf \<Rightarrow>
          (let n = take (nat (maxFrameSize + 1)) buf
           in if int (length n) > maxFrameSize then Some (Inl ErrFrameTooLarge, rs)
              else Some (Inr (peer, n), rs)))"

section \<open>Adapters\<close>

text \<open>
  A \<open>FrameSender\<close> is a function on a state of its own, a \<open>FrameReceiver\<close> likewise; \<open>None\<close> stands
  for the nil interface.
\<close>

type_synonym 's sender = "'s \<Rightarrow> string \<Rightarrow> Envelope \<Rightarrow> 's \<times> go_error option"
type_synonym 's frame_sender = "'s \<Rightarrow> string \<Rightarrow> string \<Rightarrow> 's \<times> go_error option"

definition NewEncodingSender :: "'s frame_sender option \<Rightarrow> (Envelope \<Rightarrow> go_error + string) option \<Rightarrow> go_error + 's sender" where
  "NewEncodingSender frameSender codec =
     (case frameSender of
        None \<Rightarrow> Inl ErrNilFrameSender
      | Some sendFrame \<Rightarrow>
          (case codec of
             None \<Rightarrow> Inl ErrNilCodec
           | Some encode \<Rightarrow>
               Inr (\<lambda>s peer message.
                      case encode message of Inl e \<Rightarrow> (s, Some e) | Inr frame \<Rightarrow> sendFrame s peer frame)))"

type_synonym 's receiver = "'s \<Rightarrow> 's \<times> (go_error + Envelope)"
type_synonym 's frame_receiver = "'s \<Rightarrow> 's \<times> (go_error + string \<times> string)"

definition NewDecodingReceiver :: "'s frame_receiver option \<Rightarrow> (string \<Rightarrow> go_error + Envelope) option \<Rightarrow> go_error + 's receiver" where
  "NewDecodingReceiver frameReceiver codec =
     (case frameReceiver of
        None \<Rightarrow> Inl ErrNilFrameReceiver
      | Some nextFrame \<Rightarrow>
          (case codec of
             None \<Rightarrow> Inl ErrNilCodec
           | Some decode \<Rightarrow>
               Inr (\<lambda>s. case nextFrame s of
                          (s', Inl e) \<Rightarrow> (s', Inl e)
                        | (s', Inr (_, frame)) \<Rightarrow> (s', decode frame))))"

section \<open>Retries\<close>

text \<open>A \<open>time.Duration\<close> is a signed 64-bit number of nanoseconds; its arithmetic wraps around.\<close>

definition int64 :: "int \<Rightarrow> int" where
  "int64 n = (n + 2 ^ 63) mod 2 ^ 64 - 2 ^ 63"

record RetryConfig =
  rc_MaxAttempts :: int
  rc_BaseBackoff :: duration
  rc_MaxBackoff :: duration

definition DefaultRetryConfig :: RetryConfig where
  "DefaultRetryConfig = \<lparr>rc_MaxAttempts = 3, rc_BaseBackoff = 100 * 1000000, rc_MaxBackoff = 1 * 1000000000\<rparr>"

definition retryDefaults :: "RetryConfig \<Rightarrow> RetryConfig" where
  "retryDefaults c =
     \<lparr>rc_MaxAttempts = (if rc_MaxAttempts c \<le> 0 then rc_MaxAttempts DefaultRetryConfig else rc_MaxAttempts c),
      rc_BaseBackoff = (if rc_BaseBackoff c \<le> 0 then rc_BaseBackoff DefaultRetryConfig else rc_BaseBackoff c),
      rc_MaxBackoff = (if rc_MaxBackoff c \<le> 0 then rc_MaxBackoff DefaultRetryConfig else rc_MaxBackoff c)\<rparr>"

text \<open>The loop of \<open>backoffForAttempt\<close>, with the number of rounds left.\<close>

fun backoffLoop :: "nat \<Rightarrow> duration \<Rightarrow> duration \<Rightarrow> duration" where
  "backoffLoop 0 maxBackoff backoff = (if backoff > maxBackoff then maxBackoff else backoff)"
| "backoffLoop (Suc n) maxBackoff backoff =
     (let b = int64 (backoff * 2) in if b \<ge> maxBackoff then maxBackoff else backoffLoop n maxBackoff b)"

definition backoffForAttempt :: "int \<Rightarrow> RetryConfig \<Rightarrow> duration" where
  "backoffForAttempt attempt config =
     backoffLoop (nat (attempt - 1)) (rc_MaxBackoff config) (rc_BaseBackoff config)"

type_synonym 's sleeper = "'s \<Rightarrow> duration \<Rightarrow> 's \<times> go_error option"

function retryLoop ::
  "'s sender \<Rightarrow> 's sleeper \<Rightarrow> RetryConfig \<Rightarrow> int \<Rightarrow> go_error option \<Rightarrow> 's \<Rightarrow> string \<Rightarrow> Envelope \<Rightarrow> 's \<times> go_error option" where
  "retryLoop send sleep config attempt lastErr s peer message =
     (if attempt > rc_MaxAttempts config then (s, lastErr)
      else case send s peer message of
             (s1, None) \<Rightarrow> (s1, None)
           | (s1, Some e) \<Rightarrow>
               if attempt = rc_MaxAttempts config then (s1, Some e)
               else (case sleep s1 (backoffForAttempt attempt config) of
                       (s2, Some err) \<Rightarrow> (s2, Some err)
                     | (s2, None) \<Rightarrow> retryLoop send sleep config (attempt + 1) (Some e) s2 peer message))"
  by pat_completeness auto
termination
  by (relation "measure (\<lambda>(send, sleep, config, attempt, lastErr, s, peer, message).
        nat (rc_MaxAttempts config + 1 - attempt))") auto

declare retryLoop.simps [simp del]

definition NewRetryingSender :: "'s sender option \<Rightarrow> 's sleeper \<Rightarrow> RetryConfig \<Rightarrow> go_error + 's sender" where
  "NewRetryingSender sender sleep config =
     (case sender of
        None \<Rightarrow> Inl ErrNilSender
      | Some send \<Rightarrow> Inr (\<lambda>s peer message. retryLoop send sleep (retryDefaults config) 1 None s peer message))"

text \<open>\<open>sleepContext\<close>, given which of its two cases \<open>select\<close> takes.\<close>

definition sleepContext :: "bool \<Rightarrow> go_error option" where
  "sleepContext ctx_done = (if ctx_done then Some ContextDone else None)"

section \<open>The message guard\<close>

record MessageGuard =
  gd_ttl :: duration
  gd_seen :: "(string \<times> u64, gotime) gomap"
  gd_highSeq :: "(string, u64) gomap"

definition NewMessageGuard :: "duration \<Rightarrow> MessageGuard" where
  "NewMessageGuard ttl =
     \<lparr>gd_ttl = (if ttl \<le> 0 then 60 * 1000000000 else ttl), gd_seen = [], gd_highSeq = []\<rparr>"

definition guard_prune :: "MessageGuard \<Rightarrow> gotime \<Rightarrow> MessageGuard" where
  "guard_prune g now = g\<lparr>gd_seen := filter (\<lambda>(_, expiresAt). time_Before now expiresAt) (gd_seen g)\<rparr>"

definition guard_Accept :: "MessageGuard \<Rightarrow> gotime \<Rightarrow> Envelope \<Rightarrow> MessageGuard \<times> go_error option" where
  "guard_Accept g0 clock message =
     (let now = time_UTC clock;
          g = guard_prune g0 now;
          key = (ev_From message, ev_Seq message)
      in if (case map_of (gd_seen g) key of None \<Rightarrow> False | Some expiresAt \<Rightarrow> time_Before now expiresAt)
         then (g, Some ErrDuplicateMessage)
         else if (case map_of (gd_highSeq g) (ev_From message) of None \<Rightarrow> False | Some high \<Rightarrow> ev_Seq message \<le> high)
         then (g, Some ErrStaleSequence)
         else (g\<lparr>gd_seen := mput key (time_Add now (gd_ttl g)) (gd_seen g),
                 gd_highSeq := mput (ev_From message) (ev_Seq message) (gd_highSeq g)\<rparr>, None))"

definition NewGuardedReceiver :: "'r option \<Rightarrow> MessageGuard option \<Rightarrow> go_error + 'r \<times> MessageGuard" where
  "NewGuardedReceiver receiver guard =
     (case receiver of
        None \<Rightarrow> Inl ErrNilReceiver
      | Some r \<Rightarrow> Inr (r, case guard of None \<Rightarrow> NewMessageGuard (60 * 1000000000) | Some g \<Rightarrow> g))"

text \<open>
  The loop of \<open>GuardedReceiver.Next\<close> over what its receiver delivers, each message with the clock
  reading of its \<open>Accept\<close>; \<open>None\<close> is a call still waiting when the list ends.
\<close>

fun guarded_Next ::
  "MessageGuard \<Rightarrow> (gotime \<times> (go_error + Envelope)) list \<Rightarrow>
   (MessageGuard \<times> (go_error + Envelope) \<times> (gotime \<times> (go_error + Envelope)) list) option" where
  "guarded_Next g [] = None"
| "guarded_Next g ((now, r) # rs) =
     (case r of
        Inl e \<Rightarrow> Some (g, Inl e, rs)
      | Inr message \<Rightarrow>
          (case guard_Accept g now message of
             (g', Some e) \<Rightarrow>
               if e = ErrDuplicateMessage \<or> e = ErrStaleSequence then guarded_Next g' rs
               else Some (g', Inl e, rs)
           | (g', None) \<Rightarrow> Some (g', Inr message, rs)))"

section \<open>The guard accepts each sender's messages in strictly increasing order\<close>

definition guard_wf :: "MessageGuard \<Rightarrow> bool" where
  "guard_wf g \<longleftrightarrow> (\<forall>f s t. ((f, s), t) \<in> set (gd_seen g) \<longrightarrow>
     (\<exists>h. map_of (gd_highSeq g) f = Some h \<and> s \<le> h))"

lemma guard_wf_New [simp]: "guard_wf (NewMessageGuard ttl)"
  by (simp add: guard_wf_def NewMessageGuard_def)

definition high :: "MessageGuard \<Rightarrow> string \<Rightarrow> u64 option" where
  "high g f = map_of (gd_highSeq g) f"

definition fresh :: "MessageGuard \<Rightarrow> Envelope \<Rightarrow> bool" where
  "fresh g m \<longleftrightarrow> (case high g (ev_From m) of None \<Rightarrow> True | Some h \<Rightarrow> h < ev_Seq m)"

text \<open>The expiry table is redundant: the highest sequence of the sender decides.\<close>

lemma guard_Accept_spec:
  assumes "guard_wf g"
  shows "snd (guard_Accept g now m) = None \<longleftrightarrow> fresh g m"
    and "guard_wf (fst (guard_Accept g now m))"
    and "high (fst (guard_Accept g now m)) =
      (if fresh g m then (high g)(ev_From m \<mapsto> ev_Seq m) else high g)"
    and "snd (guard_Accept g now m) \<in> {None, Some ErrDuplicateMessage, Some ErrStaleSequence}"
proof -
  let ?g = "guard_prune g (time_UTC now)"
  have w: "guard_wf ?g" using assms by (auto simp: guard_wf_def guard_prune_def)
  have h: "gd_highSeq ?g = gd_highSeq g" by (simp add: guard_prune_def)
  have dup: "\<not> fresh g m" if "map_of (gd_seen ?g) (ev_From m, ev_Seq m) = Some t" for t
    using map_of_SomeD [OF that] w unfolding guard_wf_def h by (fastforce simp: fresh_def high_def)
  have wf': "guard_wf (?g\<lparr>gd_seen := mput (ev_From m, ev_Seq m) t (gd_seen ?g),
      gd_highSeq := mput (ev_From m) (ev_Seq m) (gd_highSeq ?g)\<rparr>)" if "fresh g m" for t
    unfolding guard_wf_def
  proof (intro allI impI)
    fix f s t'
    assume a: "((f, s), t') \<in> set (gd_seen (?g\<lparr>gd_seen := mput (ev_From m, ev_Seq m) t (gd_seen ?g),
      gd_highSeq := mput (ev_From m) (ev_Seq m) (gd_highSeq ?g)\<rparr>))"
    then have "((f, s), t') \<in> set (mput (ev_From m, ev_Seq m) t (gd_seen ?g))" by simp
    then have "(f, s) \<in> fst ` set (mput (ev_From m, ev_Seq m) t (gd_seen ?g))" by (rule rev_image_eqI) simp
    then consider "f = ev_From m" "s = ev_Seq m" | t0 where "((f, s), t0) \<in> set (gd_seen ?g)" by auto
    then show "\<exists>h. map_of (gd_highSeq (?g\<lparr>gd_seen := mput (ev_From m, ev_Seq m) t (gd_seen ?g),
      gd_highSeq := mput (ev_From m) (ev_Seq m) (gd_highSeq ?g)\<rparr>)) f = Some h \<and> s \<le> h"
    proof cases
      case 2
      then obtain h where h': "map_of (gd_highSeq g) f = Some h" "s \<le> h" using w h unfolding guard_wf_def by metis
      show ?thesis
      proof (cases "f = ev_From m")
        case True
        with h'(1) that have "h < ev_Seq m" by (simp add: fresh_def high_def)
        with True h'(2) show ?thesis by simp
      qed (use h' h in simp)
    qed simp
  qed
  have fr: "fresh g m \<longleftrightarrow> \<not> (case map_of (gd_highSeq ?g) (ev_From m) of None \<Rightarrow> False | Some hi \<Rightarrow> ev_Seq m \<le> hi)"
    by (auto simp: fresh_def high_def h not_le split: option.splits)
  show "snd (guard_Accept g now m) = None \<longleftrightarrow> fresh g m"
    "guard_wf (fst (guard_Accept g now m))"
    "high (fst (guard_Accept g now m)) =
      (if fresh g m then (high g)(ev_From m \<mapsto> ev_Seq m) else high g)"
    "snd (guard_Accept g now m) \<in> {None, Some ErrDuplicateMessage, Some ErrStaleSequence}"
    using dup w wf' fr unfolding guard_Accept_def Let_def
    by (auto simp: high_def h split: option.splits)
qed

fun guard_run :: "MessageGuard \<Rightarrow> (gotime \<times> Envelope) list \<Rightarrow> MessageGuard \<times> Envelope list" where
  "guard_run g [] = (g, [])"
| "guard_run g ((now, m) # ms) =
     (case guard_Accept g now m of
        (g', Some _) \<Rightarrow> guard_run g' ms
      | (g', None) \<Rightarrow> (let (g'', acc) = guard_run g' ms in (g'', m # acc)))"

abbreviation seqs_from :: "string \<Rightarrow> Envelope list \<Rightarrow> u64 list" where
  "seqs_from f ms \<equiv> map ev_Seq (filter (\<lambda>m. ev_From m = f) ms)"

lemma guard_run_inv:
  assumes "guard_run g ms = (g', acc)" "guard_wf g"
  shows "guard_wf g' \<and> sorted_wrt (<) (seqs_from f acc) \<and>
    (\<forall>s \<in> set (seqs_from f acc). \<forall>h. high g f = Some h \<longrightarrow> h < s) \<and>
    high g' f = (if seqs_from f acc = [] then high g f else Some (last (seqs_from f acc)))"
  using assms
proof (induction g ms arbitrary: acc rule: guard_run.induct)
  case (2 g now m ms)
  note spec = guard_Accept_spec [OF "2.prems"(2), of now m]
  obtain g1 r where a: "guard_Accept g now m = (g1, r)" by (cases "guard_Accept g now m")
  show ?case
  proof (cases r)
    case (Some e)
    with spec(1,3) a have "high g1 = high g" by simp
    with 2 a Some spec show ?thesis by simp
  next
    case None
    then obtain acc' where acc': "guard_run g1 ms = (g', acc')" "acc = m # acc'"
      using "2.prems"(1) a by (auto split: prod.splits)
    from None spec a have fr: "fresh g m" and h1: "high g1 = (high g)(ev_From m \<mapsto> ev_Seq m)" by simp_all
    from "2.IH"(1) [OF a [symmetric] None acc'(1)] spec(2) a have IH: "guard_wf g'" "sorted_wrt (<) (seqs_from f acc')"
      "\<And>s h. s \<in> set (seqs_from f acc') \<Longrightarrow> high g1 f = Some h \<Longrightarrow> h < s"
      "high g' f = (if seqs_from f acc' = [] then high g1 f else Some (last (seqs_from f acc')))"
      by (simp, simp, force, simp)
    show ?thesis
    proof (cases "ev_From m = f")
      case False
      with IH h1 acc'(2) show ?thesis by auto
    next
      case True
      then have lt: "ev_Seq m < s" if "s \<in> set (seqs_from f acc')" for s
        using IH(3) [OF that, of "ev_Seq m"] h1 by simp
      moreover have "h < ev_Seq m" if "high g f = Some h" for h
        using fr that True by (simp add: fresh_def)
      ultimately have "h < s" if "s \<in> set (seqs_from f acc)" "high g f = Some h" for s h
        using that acc'(2) True by (auto intro: less_trans)
      with True lt IH(1,2,4) h1 acc'(2) show ?thesis by (auto simp: list_all_iff)
    qed
  qed
qed simp

lemma sorted_last_iff:
  assumes "sorted_wrt (<) xs" "xs \<noteq> []"
  shows "last xs < (y :: u64) \<longleftrightarrow> (\<forall>x \<in> set xs. x < y)"
proof -
  have "x = last xs \<or> x < last xs" if "x \<in> set xs" for x
    using assms(1) that by (induction xs) auto
  moreover have "last xs \<in> set xs" using assms(2) by simp
  ultimately show ?thesis by (blast intro: less_trans)
qed

text \<open>
  C20. Whatever the clock says, the messages a guard lets through from one sender have strictly
  increasing sequence numbers, so none passes twice; and the next message is let through exactly
  when its number exceeds every number accepted from its sender so far, refused as duplicate or
  stale otherwise.  In particular a sender whose counter starts again at 1 is refused until it
  passes its old numbers.
\<close>

theorem guard_exact:
  assumes "guard_run (NewMessageGuard ttl) ms = (g, acc)"
  shows "sorted_wrt (<) (seqs_from f acc) \<and>
    (snd (guard_Accept g now m) = None \<longleftrightarrow> (\<forall>s \<in> set (seqs_from (ev_From m) acc). s < ev_Seq m)) \<and>
    snd (guard_Accept g now m) \<in> {None, Some ErrDuplicateMessage, Some ErrStaleSequence}"
proof -
  note inv = guard_run_inv [OF assms guard_wf_New]
  have h0: "high (NewMessageGuard ttl) x = None" for x by (simp add: high_def NewMessageGuard_def)
  have wf: "guard_wf g" using inv by blast
  have "fresh g m \<longleftrightarrow> (\<forall>s \<in> set (seqs_from (ev_From m) acc). s < ev_Seq m)"
    using inv [of "ev_From m"] h0 sorted_last_iff [of "seqs_from (ev_From m) acc" "ev_Seq m"]
    by (cases "seqs_from (ev_From m) acc = []") (auto simp: fresh_def filter_empty_conv)
  with guard_Accept_spec(1,4) [OF wf, of now m] inv [of f] show ?thesis by simp
qed

theorem guard_exact_witness:
  "snd (guard_Accept (fst (guard_run (NewMessageGuard 0) [(time_zero, zero_Envelope\<lparr>ev_Seq := 3\<rparr>)])) time_zero
     (zero_Envelope\<lparr>ev_Seq := 2\<rparr>)) \<noteq> None"
proof -
  let ?r = "guard_run (NewMessageGuard 0) [(time_zero, zero_Envelope\<lparr>ev_Seq := 3\<rparr>)]"
  have "seqs_from [] (snd ?r) = [3]" by code_simp
  then have "set (seqs_from (ev_From (zero_Envelope\<lparr>ev_Seq := 2\<rparr>)) (snd ?r)) = {3}"
    by (simp add: zero_Envelope_def)
  moreover have "\<not> (3 :: u64) < ev_Seq (zero_Envelope\<lparr>ev_Seq := 2\<rparr>)" by simp
  ultimately show ?thesis
    using guard_exact [of 0 "[(time_zero, zero_Envelope\<lparr>ev_Seq := 3\<rparr>)]" "fst ?r" "snd ?r" f time_zero
        "zero_Envelope\<lparr>ev_Seq := 2\<rparr>" for f] by force
qed

section \<open>Frames survive the wire\<close>

lemma validateEnvelope_ascii:
  assumes "validateEnvelope m = None"
  shows "utf8_valid (ev_Type m)" "utf8_valid (ev_From m)" "utf8_valid (ev_Timestamp m)" "utf8_valid (ev_Checksum m)"
proof -
  have c: "ev_Type m \<in> set allowedTypes" "ValidNodeID (ev_From m)" "parse_rfc3339 True (ev_Timestamp m) \<noteq> None"
    "DecodeString (ev_Checksum m) \<noteq> None"
    using assms by (auto simp: validateEnvelope_def split: if_splits)
  have "list_all utf8_valid allowedTypes" by code_simp
  with c(1) show "utf8_valid (ev_Type m)" by (simp add: list_all_iff)
  from c(2) show "utf8_valid (ev_From m)" by (intro ascii_valid ValidNodeID_ascii)
  from c(3) show "utf8_valid (ev_Timestamp m)" by (auto intro: ascii_valid parse_rfc3339_ascii)
  from c(4) show "utf8_valid (ev_Checksum m)" by (auto intro: ascii_valid DecodeString_ascii)
qed

lemma env_text_json: "env_text m (json_text j) = json_text (JObj (env_members m @ [(''payload'', j)]))"
  unfolding env_text_def object_text_json [symmetric] by simp

lemma env_fields_find:
  "find_field env_fields ''type'' = Some (plain (field ev_Type ev_Type_update dec_string))"
  "find_field env_fields ''seq'' = Some (plain (field ev_Seq ev_Seq_update dec_uint64))"
  "find_field env_fields ''timestamp'' = Some (plain (field ev_Timestamp ev_Timestamp_update dec_string))"
  "find_field env_fields ''checksum'' = Some (plain (field ev_Checksum ev_Checksum_update dec_string))"
  "find_field env_fields ''from'' = Some (plain (field ev_From ev_From_update dec_string))"
  "find_field env_fields ''trace_id'' = Some (plain (field ev_TraceID ev_TraceID_update dec_string))"
  "find_field env_fields ''correlation_id'' = Some (plain (field ev_CorrelationID ev_CorrelationID_update dec_string))"
  "find_field env_fields ''version'' = Some (plain (field ev_Version ev_Version_update dec_string))"
  "find_field env_fields ''payload'' = Some (raw_field ev_Payload_update)"
  by (simp_all add: find_field_def env_fields_def)

lemma decode_env_members:
  "decode_raw_members env_fields
     (map (\<lambda>(k, v). (k, v, json_text v)) (env_members m @ [(''payload'', j)])) zero_Envelope =
   Some (m\<lparr>ev_Payload := json_text j\<rparr>)"
  by (cases m) (auto simp: env_members_def omitempty_def env_fields_find plain_def raw_field_def field_def
      zero_Envelope_def)

lemma codec_Decode_Encode:
  assumes "codec_Encode m = Inr frame" "compact (ev_Payload m) = Some (json_text j)" "json_ok 1 j"
    and "utf8_valid (ev_TraceID m)" "utf8_valid (ev_CorrelationID m)" "utf8_valid (ev_Version m)"
  shows "codec_Decode frame =
    (if checksumForPayload (json_text j) = ev_Checksum (env_defaults m)
     then Inr ((env_defaults m)\<lparr>ev_Payload := json_text j\<rparr>) else Inl ErrChecksumMismatch)"
proof -
  let ?m = "env_defaults m" and ?p = "json_text j"
  let ?ms = "env_members (env_defaults m) @ [(''payload'', j)]"
  have v: "validateEnvelope ?m = None" and pm: "ev_Payload ?m = ev_Payload m"
    and ver: "ev_Version ?m \<noteq> []" "utf8_valid (ev_Version ?m)" "ev_TraceID ?m = ev_TraceID m"
      "ev_CorrelationID ?m = ev_CorrelationID m"
    using assms(1,6) by (auto simp: codec_Encode_def env_defaults_def Let_def split: option.splits if_splits)
  have frame: "frame = json_text (JObj ?ms)"
    using assms(1,2) v pm unfolding codec_Encode_def Let_def by (simp add: env_text_json)
  have ok: "json_ok 0 (JObj ?ms)"
    using assms(3-5) ver validateEnvelope_ascii [OF v]
    by (auto simp: env_members_def omitempty_def max_depth_def ascii_valid)
  have w: "unmarshal_struct env_fields zero_Envelope frame = Some (?m\<lparr>ev_Payload := ?p\<rparr>)"
    unfolding frame unmarshal_object_text [OF ok] by (rule decode_env_members)
  have "?p \<noteq> []" using text_head [OF assms(3)] by (simp add: value_head_def)
  then have "validateEnvelope (?m\<lparr>ev_Payload := ?p\<rparr>) = None"
    using v by (simp add: validateEnvelope_def split: if_splits)
  with w ver(1) show ?thesis by (simp add: codec_Decode_def Let_def)
qed

text \<open>
  An envelope as the program builds it reaches the other side with its checksum filled in.  The wire
  here is the codec at its two ends; the frame limit, which \<open>SendFrame\<close> and \<open>NextFrame\<close> check, is apart.
\<close>

definition on_wire :: "Envelope \<Rightarrow> Envelope \<Rightarrow> bool" where
  "on_wire e e' \<longleftrightarrow> (\<exists>frame. codec_Encode e = Inr frame \<and> codec_Decode frame = Inr e')"

lemma envelope_on_wire:
  assumes "ValidNodeID (ev_From e)" "ev_Type e \<in> set allowedTypes" "time_wf t" "ev_Timestamp e = FormatRFC3339Nano t"
    "ev_Payload e = json_text j" "json_ok 1 j" "ev_Checksum e = []" "ev_TraceID e = []" "ev_CorrelationID e = []"
    "ev_Version e \<noteq> []" "utf8_valid (ev_Version e)"
  shows "on_wire e (e\<lparr>ev_Checksum := checksumForPayload (json_text j)\<rparr>)"
proof -
  let ?c = "checksumForPayload (json_text j)"
  have d: "env_defaults e = e\<lparr>ev_Checksum := ?c\<rparr>" using assms by (simp add: env_defaults_def)
  have c: "?c \<noteq> []" "length ?c = 64" "DecodeString ?c \<noteq> None"
    using length_sha256_hex [of "json_text j"] by (auto simp: checksumForPayload_def sha256_hex_def)
  have t: "parse_rfc3339 True (ev_Timestamp e) \<noteq> None" using assms(3,4) parse_format_time by simp
  moreover have "parse_rfc3339 True [] = None" by code_simp
  ultimately have "ev_Timestamp e \<noteq> []" by auto
  moreover have "ev_Type e \<noteq> []" using assms(2) by (auto simp: allowedTypes_def)
  moreover have "ev_Payload e \<noteq> []" using text_head [OF assms(6)] assms(5) by (simp add: value_head_def)
  moreover have "ev_From e \<noteq> []" using assms(1) by auto
  ultimately have v: "validateEnvelope (env_defaults e) = None"
    unfolding d using assms(1,2) c t by (simp add: validateEnvelope_def)
  have "json_ok 0 j" using assms(6) by (rule json_ok_mono) simp
  then have j0: "compact (json_text j) = Some (json_text j)" by simp
  have f: "codec_Encode e = Inr (env_text (env_defaults e) (json_text j))"
    unfolding codec_Encode_def Let_def v using j0 assms(5) by (simp add: d)
  have p: "e\<lparr>ev_Checksum := ?c, ev_Payload := json_text j\<rparr> = e\<lparr>ev_Checksum := ?c\<rparr>" using assms(5) by simp
  have "codec_Decode (env_text (env_defaults e) (json_text j)) = Inr (e\<lparr>ev_Checksum := ?c\<rparr>)"
    using codec_Decode_Encode [OF f, of j] j0 assms(5-11) d p by simp
  with f show ?thesis by (simp add: on_wire_def)
qed

text \<open>
  C37. The codec is faithful to compact payloads: take an accepted envelope whose version and trace and
  correlation ids are valid UTF-8 and whose payload is a JSON document within the nesting limit, white
  space allowed, and let \<open>p\<close> be its compact form, as \<open>Marshal\<close> writes it.  When the checksum, given or filled
  in by \<open>Encode\<close>, is that of \<open>p\<close>, the frame decodes to the envelope with the version and checksum filled
  in and the payload \<open>p\<close>; so every payload that is compact already arrives as it was sent.  Otherwise
  the frame that \<open>Encode\<close> produced without error is refused with \<open>ErrChecksumMismatch\<close>.
\<close>

theorem codec_roundtrip:
  assumes "codec_Encode m = Inr frame" "compact (ev_Payload m) = Some p" "p = json_text j" "json_ok 1 j"
    and "utf8_valid (ev_TraceID m)" "utf8_valid (ev_CorrelationID m)" "utf8_valid (ev_Version m)"
  shows "(checksumForPayload p = ev_Checksum (env_defaults m) \<longrightarrow> codec_Decode frame = Inr ((env_defaults m)\<lparr>ev_Payload := p\<rparr>)) \<and>
    (checksumForPayload p \<noteq> ev_Checksum (env_defaults m) \<longrightarrow> codec_Decode frame = Inl ErrChecksumMismatch) \<and>
    (ev_Payload m = p \<and> ev_Checksum m = [] \<longrightarrow> codec_Decode frame = Inr (env_defaults m))"
proof -
  have d: "codec_Decode frame =
    (if checksumForPayload p = ev_Checksum (env_defaults m)
     then Inr ((env_defaults m)\<lparr>ev_Payload := p\<rparr>) else Inl ErrChecksumMismatch)"
    using codec_Decode_Encode [OF assms(1) _ assms(4-7)] assms(2,3) by simp
  moreover have "ev_Checksum (env_defaults m) = checksumForPayload p" "(env_defaults m)\<lparr>ev_Payload := p\<rparr> = env_defaults m"
    if "ev_Payload m = p" "ev_Checksum m = []" using that by (simp_all add: env_defaults_def)
  ultimately show ?thesis by simp
qed

definition ex_env :: Envelope where
  "ex_env = \<lparr>ev_Type = ''Ping'', ev_Seq = 1, ev_Timestamp = ''2026-01-01T00:00:00Z'', ev_From = ''a'',
     ev_Checksum = [], ev_TraceID = [], ev_CorrelationID = [], ev_Version = ''v1'', ev_Payload = ''{}''\<rparr>"

theorem codec_roundtrip_witness:
  "\<exists>frame. codec_Encode ex_env = Inr frame \<and>
     codec_Decode frame = Inr (ex_env\<lparr>ev_Checksum := checksumForPayload ''{}''\<rparr>)"
proof -
  let ?c = "checksumForPayload ''{}''"
  have d: "env_defaults ex_env = ex_env\<lparr>ev_Checksum := ?c\<rparr>"
    by (simp add: env_defaults_def ex_env_def)
  have c: "?c \<noteq> []" "length ?c = 64" "DecodeString ?c \<noteq> None"
    using length_sha256_hex [of "''{}''"] by (auto simp: checksumForPayload_def sha256_hex_def)
  have "ValidNodeID ''a''" "parse_rfc3339 True ''2026-01-01T00:00:00Z'' \<noteq> None" by code_simp+
  then have v: "validateEnvelope (env_defaults ex_env) = None"
    unfolding d using c by (simp add: validateEnvelope_def ex_env_def allowedTypes_def)
  have p: "compact (ev_Payload ex_env) = Some ''{}''" by code_simp
  then have e: "codec_Encode ex_env = Inr (env_text (env_defaults ex_env) ''{}'')"
    unfolding codec_Encode_def Let_def v by (simp add: d)
  have "codec_Decode (env_text (env_defaults ex_env) ''{}'') = Inr (env_defaults ex_env)"
    using codec_roundtrip [OF e p, of "JObj []"] by (simp add: ex_env_def max_depth_def)
  with e d show ?thesis by simp
qed

section \<open>Retries are bounded\<close>

lemma int64_id: "- (2 ^ 63) \<le> n \<Longrightarrow> n < 2 ^ 63 \<Longrightarrow> int64 n = n"
  by (simp add: int64_def)

lemma backoffLoop_min:
  assumes "0 < b" "b < 2 ^ 62" "mx \<le> 2 ^ 62"
  shows "backoffLoop n mx b = min mx (b * 2 ^ n)"
  using assms(1,2)
proof (induction n arbitrary: b)
  case 0
  then show ?case by (simp add: min_def)
next
  case (Suc n)
  have id: "int64 (b * 2) = b * 2" using Suc.prems by (intro int64_id) auto
  show ?case
  proof (cases "b * 2 < mx")
    case True
    with id Suc.IH [of "b * 2"] Suc.prems(1) assms(3) show ?thesis by (simp add: Let_def mult.assoc)
  next
    case False
    have "b * 2 * 1 \<le> b * 2 * 2 ^ n" using Suc.prems(1) by (intro mult_left_mono) simp_all
    with False id show ?thesis by (simp add: Let_def mult.assoc)
  qed
qed

text \<open>
  A sender whose \<open>i\<close>-th call answers \<open>outs i\<close>, and a sleep that records its durations; \<open>i\<close> counts
  the calls.
\<close>

definition scripted_send :: "(nat \<Rightarrow> go_error option) \<Rightarrow> (nat \<times> duration list) sender" where
  "scripted_send outs s peer message = ((Suc (fst s), snd s), outs (fst s))"

definition scripted_sleep :: "(nat \<times> duration list) sleeper" where
  "scripted_sleep s d = ((fst s, snd s @ [d]), None)"

lemma retry_step:
  "retryLoop (scripted_send outs) scripted_sleep c a e (j, ds) p m =
     (if a > rc_MaxAttempts c then ((j, ds), e)
      else case outs j of
             None \<Rightarrow> ((Suc j, ds), None)
           | Some err \<Rightarrow>
               if a = rc_MaxAttempts c then ((Suc j, ds), Some err)
               else retryLoop (scripted_send outs) scripted_sleep c (a + 1) (Some err)
                      (Suc j, ds @ [backoffForAttempt a c]) p m)"
  by (subst retryLoop.simps) (simp add: scripted_send_def scripted_sleep_def split: option.split)

lemma retryLoop_scripted:
  assumes "attempt = int j + 1" "attempt \<le> rc_MaxAttempts c"
    and "retryLoop (scripted_send outs) scripted_sleep c attempt e (j, ds) peer m = ((k, ds'), r)"
  shows "j < k \<and> int k \<le> rc_MaxAttempts c \<and> r = outs (k - 1) \<and>
    (\<forall>i. j \<le> i \<and> i < k - 1 \<longrightarrow> outs i \<noteq> None) \<and> (r \<noteq> None \<longrightarrow> int k = rc_MaxAttempts c) \<and>
    ds' = ds @ map (\<lambda>i. backoffForAttempt (int i + 1) c) [j..<k - 1]"
  using assms
proof (induction "nat (rc_MaxAttempts c - attempt)" arbitrary: attempt j ds e)
  case 0
  then have eq: "attempt = rc_MaxAttempts c" by simp
  with "0.prems" show ?case
    by (auto simp: retry_step [where j = j] split: option.splits)
next
  case (Suc n)
  then have lt: "attempt < rc_MaxAttempts c" by simp
  show ?case
  proof (cases "outs j")
    case None
    with Suc.prems lt show ?thesis
      by (auto simp: retry_step [where j = j])
  next
    case (Some err)
    let ?b = "backoffForAttempt attempt c"
    have step: "retryLoop (scripted_send outs) scripted_sleep c (attempt + 1) (Some err) (Suc j, ds @ [?b]) peer m =
        ((k, ds'), r)"
      using Suc.prems(3) lt Some by (simp add: retry_step [where j = j])
    from Suc.hyps(1) [OF _ _ _ step] Suc.hyps(2) Suc.prems(1) lt
    have IH: "Suc j < k \<and> int k \<le> rc_MaxAttempts c \<and> r = outs (k - 1) \<and>
      (\<forall>i. Suc j \<le> i \<and> i < k - 1 \<longrightarrow> outs i \<noteq> None) \<and> (r \<noteq> None \<longrightarrow> int k = rc_MaxAttempts c) \<and>
      ds' = (ds @ [?b]) @ map (\<lambda>i. backoffForAttempt (int i + 1) c) [Suc j..<k - 1]" by simp
    then have "j < k - 1" by linarith
    then have "[j..<k - 1] = j # [Suc j..<k - 1]" by (rule upt_conv_Cons)
    then have ds': "ds' = ds @ map (\<lambda>i. backoffForAttempt (int i + 1) c) [j..<k - 1]"
      using IH Suc.prems(1) by simp
    have "outs i \<noteq> None" if "j \<le> i" "i < k - 1" for i
      using that IH Some by (cases "i = j") auto
    with ds' IH show ?thesis by auto
  qed
qed

text \<open>
  C38. A retrying sender makes between one and \<open>MaxAttempts\<close> calls: it stops at the first success
  and reports it, otherwise it reports the error of the last attempt; between two attempts it
  waits the base backoff doubled each time and cut at the maximum, with no overflow for limits up
  to \<open>2 ^ 62\<close> nanoseconds.
\<close>

theorem retry_bounded:
  assumes "NewRetryingSender (Some (scripted_send outs)) scripted_sleep config = Inr send"
    and "send (0, []) peer m = ((k, ds), r)" "c = retryDefaults config"
    and "rc_BaseBackoff c < 2 ^ 62" "rc_MaxBackoff c \<le> 2 ^ 62"
  shows "0 < k \<and> int k \<le> rc_MaxAttempts c \<and> r = outs (k - 1) \<and>
    (\<forall>i < k - 1. outs i \<noteq> None) \<and> (r \<noteq> None \<longrightarrow> int k = rc_MaxAttempts c) \<and>
    ds = map (\<lambda>i. min (rc_MaxBackoff c) (rc_BaseBackoff c * 2 ^ i)) [0..<k - 1]"
proof -
  have pos: "1 \<le> rc_MaxAttempts c" "0 < rc_BaseBackoff c"
    using assms(3) by (auto simp: retryDefaults_def DefaultRetryConfig_def)
  have "retryLoop (scripted_send outs) scripted_sleep c 1 None (0, []) peer m = ((k, ds), r)"
    using assms(1-3) by (auto simp: NewRetryingSender_def)
  from retryLoop_scripted [OF _ pos(1) this]
  have "0 < k \<and> int k \<le> rc_MaxAttempts c \<and> r = outs (k - 1) \<and>
    (\<forall>i. 0 \<le> i \<and> i < k - 1 \<longrightarrow> outs i \<noteq> None) \<and> (r \<noteq> None \<longrightarrow> int k = rc_MaxAttempts c) \<and>
    ds = [] @ map (\<lambda>i. backoffForAttempt (int i + 1) c) [0..<k - 1]" by simp
  moreover have "backoffForAttempt (int i + 1) c = min (rc_MaxBackoff c) (rc_BaseBackoff c * 2 ^ i)" for i
    using backoffLoop_min [OF pos(2) assms(4,5)] by (simp add: backoffForAttempt_def)
  ultimately show ?thesis by simp
qed

theorem retry_bounded_witness:
  "\<exists>send k ds. NewRetryingSender (Some (scripted_send (\<lambda>i. if i < 2 then Some IOError else None))) scripted_sleep
      DefaultRetryConfig = Inr send \<and> send (0, []) ''b:1'' zero_Envelope = ((k, ds), None) \<and>
    ds = map (\<lambda>i. min 1000000000 (100000000 * 2 ^ i)) [0..<k - 1]"
proof -
  let ?o = "\<lambda>i. if i < (2 :: nat) then Some IOError else None"
  let ?c = "retryDefaults DefaultRetryConfig"
  let ?send = "\<lambda>s peer message. retryLoop (scripted_send ?o) scripted_sleep ?c 1 None s peer message"
  obtain k ds r where run: "?send (0, []) ''b:1'' zero_Envelope = ((k, ds), r)"
    by (metis prod.exhaust)
  have n: "NewRetryingSender (Some (scripted_send ?o)) scripted_sleep DefaultRetryConfig = Inr ?send"
    by (simp add: NewRetryingSender_def)
  have c: "rc_BaseBackoff ?c = 100000000" "rc_MaxBackoff ?c = 1000000000" "rc_MaxAttempts ?c = 3"
    by (simp_all add: retryDefaults_def DefaultRetryConfig_def)
  have "rc_BaseBackoff ?c < 2 ^ 62" "rc_MaxBackoff ?c \<le> 2 ^ 62" by (simp_all add: c)
  note b = retry_bounded [OF n run refl this, unfolded c]
  then have k: "0 < k" "r = ?o (k - 1)" "r \<noteq> None \<longrightarrow> int k = 3" by blast+
  have "r = None"
  proof (rule ccontr)
    assume "r \<noteq> None"
    with k(3) have "k = 3" by simp
    with k(2) \<open>r \<noteq> None\<close> show False by simp
  qed
  moreover from b have "ds = map (\<lambda>i. min 1000000000 (100000000 * 2 ^ i)) [0..<k - 1]" by blast
  ultimately show ?thesis using n run by blast
qed

end
