(* ===== verification/Config.thy ===== *)
theory Config
  imports Transport GoText
begin

text \<open>
  \<open>internal/config\<close>: defaults, the JSON file, the environment, validation and the seed list.  The
  environment is a function from names to values, the empty string for an unset one.
\<close>

record Config =
  cf_NodeID :: string
  cf_HTTPAddr :: string
  cf_BindAddr :: string
  cf_SeedNodes :: string
  cf_GossipInterval :: int
  cf_AntiEntropy :: int
  cf_Fanout :: int
  cf_TopKMax :: int
  cf_OutboundQueue :: int
  cf_DeltaHistory :: int
  cf_DataDir :: string
  cf_SnapshotInterval :: int
  cf_WALFsyncMode :: string
  cf_WALFsyncBatch :: int
  cf_LogLevel :: string
  cf_ShutdownTimeout :: int

definition zero_Config :: Config where
  "zero_Config =
     \<lparr>cf_NodeID = [], cf_HTTPAddr = [], cf_BindAddr = [], cf_SeedNodes = [], cf_GossipInterval = 0,
      cf_AntiEntropy = 0, cf_Fanout = 0, cf_TopKMax = 0, cf_OutboundQueue = 0, cf_DeltaHistory = 0, cf_DataDir = [],
      cf_SnapshotInterval = 0, cf_WALFsyncMode = [], cf_WALFsyncBatch = 0, cf_LogLevel = [], cf_ShutdownTimeout = 0\<rparr>"

definition defaultConfig :: Config where
  "defaultConfig =
     \<lparr>cf_NodeID = ''node-local'', cf_HTTPAddr = '':8080'', cf_BindAddr = '':7000'', cf_SeedNodes = [],
      cf_GossipInterval = 1000, cf_AntiEntropy = 15000, cf_Fanout = 2, cf_TopKMax = 10, cf_OutboundQueue = 128,
      cf_DeltaHistory = 1024, cf_DataDir = ''data'', cf_SnapshotInterval = 30, cf_WALFsyncMode = ''always'',
      cf_WALFsyncBatch = 32, cf_LogLevel = ''info'', cf_ShutdownTimeout = 10\<rparr>"

definition dec_Config :: "Config decoder" where
  "dec_Config = decode_struct
     [(''node_id'', field cf_NodeID cf_NodeID_update dec_string),
      (''http_addr'', field cf_HTTPAddr cf_HTTPAddr_update dec_string),
      (''bind_addr'', field cf_BindAddr cf_BindAddr_update dec_string),
      (''seed_nodes'', field cf_SeedNodes cf_SeedNodes_update dec_string),
      (''gossip_interval_ms'', field cf_GossipInterval cf_GossipInterval_update dec_int),
      (''anti_entropy_interval_ms'', field cf_AntiEntropy cf_AntiEntropy_update dec_int),
      (''fanout'', field cf_Fanout cf_Fanout_update dec_int),
      (''topk_max'', field cf_TopKMax cf_TopKMax_update dec_int),
      (''outbound_queue_size'', field cf_OutboundQueue cf_OutboundQueue_update dec_int),
      (''delta_history_size'', field cf_DeltaHistory cf_DeltaHistory_update dec_int),
      (''data_dir'', field cf_DataDir cf_DataDir_update dec_string),
      (''snapshot_interval_seconds'', field cf_SnapshotInterval cf_SnapshotInterval_update dec_int),
      (''wal_fsync_mode'', field cf_WALFsyncMode cf_WALFsyncMode_update dec_string),
      (''wal_fsync_batch_size'', field cf_WALFsyncBatch cf_WALFsyncBatch_update dec_int),
      (''log_level'', field cf_LogLevel cf_LogLevel_update dec_string),
      (''shutdown_timeout_seconds'', field cf_ShutdownTimeout cf_ShutdownTimeout_update dec_int)]"

text \<open>\<open>None\<close> is a file that cannot be read.\<close>

definition loadFromFile :: "string option \<Rightarrow> go_error + Config" where
  "loadFromFile file =
     (case file of
        None \<Rightarrow> Inl IOError
      | Some b \<Rightarrow> (case unmarshal dec_Config zero_Config b of None \<Rightarrow> Inl JsonError | Some cfg \<Rightarrow> Inr cfg))"

section \<open>Merging\<close>

definition override_text :: "string \<Rightarrow> string \<Rightarrow> string" where
  "override_text base v = (if TrimSpace v \<noteq> [] then v else base)"

definition override_pos :: "int \<Rightarrow> int \<Rightarrow> int" where
  "override_pos base v = (if v > 0 then v else base)"

definition cfg_merge :: "Config \<Rightarrow> Config \<Rightarrow> Config" where
  "cfg_merge base override =
     \<lparr>cf_NodeID = override_text (cf_NodeID base) (cf_NodeID override),
      cf_HTTPAddr = override_text (cf_HTTPAddr base) (cf_HTTPAddr override),
      cf_BindAddr = override_text (cf_BindAddr base) (cf_BindAddr override),
      cf_SeedNodes = override_text (cf_SeedNodes base) (cf_SeedNodes override),
      cf_GossipInterval = override_pos (cf_GossipInterval base) (cf_GossipInterval override),
      cf_AntiEntropy = override_pos (cf_AntiEntropy base) (cf_AntiEntropy override),
      cf_Fanout = override_pos (cf_Fanout base) (cf_Fanout override),
      cf_TopKMax = override_pos (cf_TopKMax base) (cf_TopKMax override),
      cf_OutboundQueue = override_pos (cf_OutboundQueue base) (cf_OutboundQueue override),
      cf_DeltaHistory = override_pos (cf_DeltaHistory base) (cf_DeltaHistory override),
      cf_DataDir = override_text (cf_DataDir base) (cf_DataDir override),
      cf_SnapshotInterval = override_pos (cf_SnapshotInterval base) (cf_SnapshotInterval override),
      cf_WALFsyncMode = override_text (cf_WALFsyncMode base) (cf_WALFsyncMode override),
      cf_WALFsyncBatch = override_pos (cf_WALFsyncBatch base) (cf_WALFsyncBatch override),
      cf_LogLevel = override_text (cf_LogLevel base) (cf_LogLevel override),
      cf_ShutdownTimeout = override_pos (cf_ShutdownTimeout base) (cf_ShutdownTimeout override)\<rparr>"

definition getenv_text :: "(string \<Rightarrow> string) \<Rightarrow> string \<Rightarrow> string \<Rightarrow> string" where
  "getenv_text env name cur = (let v = TrimSpace (env name) in if v \<noteq> [] then v else cur)"

definition getenv_int :: "(string \<Rightarrow> string) \<Rightarrow> string \<Rightarrow> int \<Rightarrow> int" where
  "getenv_int env name cur =
     (let v = TrimSpace (env name) in if v \<noteq> [] then (case Atoi v of None \<Rightarrow> cur | Some parsed \<Rightarrow> parsed) else cur)"

definition applyEnvOverrides :: "(string \<Rightarrow> string) \<Rightarrow> Config \<Rightarrow> Config" where
  "applyEnvOverrides env cfg =
     \<lparr>cf_NodeID = getenv_text env ''NODE_ID'' (cf_NodeID cfg),
      cf_HTTPAddr = getenv_text env ''HTTP_ADDR'' (cf_HTTPAddr cfg),
      cf_BindAddr = getenv_text env ''BIND_ADDR'' (cf_BindAddr cfg),
      cf_SeedNodes = getenv_text env ''SEED_NODES'' (cf_SeedNodes cfg),
      cf_GossipInterval = getenv_int env ''GOSSIP_INTERVAL_MS'' (cf_GossipInterval cfg),
      cf_AntiEntropy = getenv_int env ''ANTI_ENTROPY_INTERVAL_MS'' (cf_AntiEntropy cfg),
      cf_Fanout = getenv_int env ''FANOUT'' (cf_Fanout cfg),
      cf_TopKMax = getenv_int env ''TOPK_MAX'' (cf_TopKMax cfg),
      cf_OutboundQueue = getenv_int env ''OUTBOUND_QUEUE_SIZE'' (cf_OutboundQueue cfg),
      cf_DeltaHistory = getenv_int env ''DELTA_HISTORY_SIZE'' (cf_DeltaHistory cfg),
      cf_DataDir = getenv_text env ''DATA_DIR'' (cf_DataDir cfg),
      cf_SnapshotInterval = getenv_int env ''SNAPSHOT_INTERVAL_SECONDS'' (cf_SnapshotInterval cfg),
      cf_WALFsyncMode = getenv_text env ''WAL_FSYNC_MODE'' (cf_WALFsyncMode cfg),
      cf_WALFsyncBatch = getenv_int env ''WAL_FSYNC_BATCH_SIZE'' (cf_WALFsyncBatch cfg),
      cf_LogLevel = getenv_text env ''LOG_LEVEL'' (cf_LogLevel cfg),
      cf_ShutdownTimeout = getenv_int env ''SHUTDOWN_TIMEOUT_SECONDS'' (cf_ShutdownTimeout cfg)\<rparr>"

section \<open>Seeds\<close>

definition splitSeeds :: "string \<Rightarrow> string list" where
  "splitSeeds raw =
     (if TrimSpace raw = [] then [] else filter (\<lambda>s. s \<noteq> []) (map TrimSpace (Split CHR '','' raw)))"

fun seedLoop :: "string list \<Rightarrow> string list \<Rightarrow> string list" where
  "seedLoop [] out = out"
| "seedLoop (entry # raw) out =
     (let seed = TrimSpace entry in seedLoop raw (if seed \<in> set out then out else out @ [seed]))"

text \<open>The keys of \<open>seen\<close> are the elements of \<open>out\<close>.\<close>

definition SeedNodeList :: "Config \<Rightarrow> string list" where
  "SeedNodeList c = sort (seedLoop (splitSeeds (cf_SeedNodes c)) [])"

fun validateSeeds :: "string list \<Rightarrow> string list \<Rightarrow> go_error option" where
  "validateSeeds [] seen = None"
| "validateSeeds (seed # seeds) seen =
     (if SplitHostPort seed = None then Some (ErrText ''seed_nodes contains invalid host:port'')
      else if seed \<in> set seen then Some (ErrText ''seed_nodes contains duplicate entry'')
      else validateSeeds seeds (seed # seen))"

section \<open>Validation\<close>

definition cfg_Validate :: "Config \<Rightarrow> go_error option" where
  "cfg_Validate c =
     (if TrimSpace (cf_NodeID c) = [] then Some (ErrText ''node_id must not be empty'')
      else if TrimSpace (cf_HTTPAddr c) = [] then Some (ErrText ''http_addr must not be empty'')
      else if TrimSpace (cf_BindAddr c) = [] then Some (ErrText ''bind_addr must not be empty'')
      else if TrimSpace (cf_LogLevel c) = [] then Some (ErrText ''log_level must not be empty'')
      else if cf_GossipInterval c \<le> 0 then Some (ErrText ''gossip_interval_ms must be greater than zero'')
      else if cf_AntiEntropy c \<le> 0 then Some (ErrText ''anti_entropy_interval_ms must be greater than zero'')
      else if cf_Fanout c \<le> 0 then Some (ErrText ''fanout must be greater than zero'')
      else if cf_TopKMax c \<le> 0 then Some (ErrText ''topk_max must be greater than zero'')
      else if cf_OutboundQueue c \<le> 0 then Some (ErrText ''outbound_queue_size must be greater than zero'')
      else if cf_DeltaHistory c \<le> 0 then Some (ErrText ''delta_history_size must be greater than zero'')
      else if TrimSpace (cf_DataDir c) = [] then Some (ErrText ''data_dir must not be empty'')
      else if cf_SnapshotInterval c \<le> 0 then Some (ErrText ''snapshot_interval_seconds must be greater than zero'')
      else if cf_WALFsyncMode c \<noteq> ''always'' \<and> cf_WALFsyncMode c \<noteq> ''batch'' \<and> cf_WALFsyncMode c \<noteq> ''none''
        then Some (ErrText ''wal_fsync_mode must be always, batch, or none'')
      else if cf_WALFsyncBatch c \<le> 0 then Some (ErrText ''wal_fsync_batch_size must be greater than zero'')
      else if cf_ShutdownTimeout c \<le> 0 then Some (ErrText ''shutdown_timeout_seconds must be greater than zero'')
      else if SplitHostPort (TrimSpace (cf_BindAddr c)) = None then Some (ErrText ''bind_addr must be host:port'')
      else validateSeeds (splitSeeds (cf_SeedNodes c)) [])"

definition LoadFromPathOrEnv :: "(string \<Rightarrow> string option) \<Rightarrow> (string \<Rightarrow> string) \<Rightarrow> string \<Rightarrow> go_error + Config" where
  "LoadFromPathOrEnv files env path =
     (case (if TrimSpace path \<noteq> [] then
              (case loadFromFile (files path) of Inl e \<Rightarrow> Inl e | Inr fileCfg \<Rightarrow> Inr (cfg_merge defaultConfig fileCfg))
            else Inr defaultConfig) of
        Inl e \<Rightarrow> Inl e
      | Inr cfg0 \<Rightarrow>
          (let cfg = applyEnvOverrides env cfg0
           in case cfg_Validate cfg of Some e \<Rightarrow> Inl e | None \<Rightarrow> Inr cfg))"

text \<open>Durations are \<open>int64\<close> nanoseconds; the products wrap.\<close>

definition ShutdownDuration :: "Config \<Rightarrow> duration" where
  "ShutdownDuration c = int64 (cf_ShutdownTimeout c * 1000000000)"

definition GossipIntervalDuration :: "Config \<Rightarrow> duration" where
  "GossipIntervalDuration c = int64 (cf_GossipInterval c * 1000000)"

definition AntiEntropyIntervalDuration :: "Config \<Rightarrow> duration" where
  "AntiEntropyIntervalDuration c = int64 (cf_AntiEntropy c * 1000000)"

definition SnapshotIntervalDuration :: "Config \<Rightarrow> duration" where
  "SnapshotIntervalDuration c = int64 (cf_SnapshotInterval c * 1000000000)"

section \<open>What a loaded configuration guarantees\<close>

lemma validateSeeds_ok:
  "validateSeeds seeds seen = None \<longleftrightarrow>
     list_all (\<lambda>s. SplitHostPort s \<noteq> None) seeds \<and> distinct seeds \<and> set seeds \<inter> set seen = {}"
  by (induction seeds seen rule: validateSeeds.induct) auto

lemma seedLoop_spec:
  "distinct out \<Longrightarrow> distinct (seedLoop raw out) \<and> set (seedLoop raw out) = set out \<union> TrimSpace ` set raw"
  by (induction raw out rule: seedLoop.induct) (auto simp: Let_def)

lemma splitSeeds_trimmed: "s \<in> set (splitSeeds raw) \<Longrightarrow> TrimSpace s = s \<and> s \<noteq> []"
  by (auto simp: splitSeeds_def TrimSpace_idem split: if_splits)

lemma SeedNodeList_eq: "SeedNodeList c = sorted_list_of_set (set (splitSeeds (cf_SeedNodes c)))"
proof -
  let ?o = "seedLoop (splitSeeds (cf_SeedNodes c)) []"
  have "TrimSpace ` set (splitSeeds (cf_SeedNodes c)) = set (splitSeeds (cf_SeedNodes c))"
    using splitSeeds_trimmed by force
  then have "set ?o = set (splitSeeds (cf_SeedNodes c))" "distinct ?o"
    using seedLoop_spec [of "[]" "splitSeeds (cf_SeedNodes c)"] by simp_all
  then show ?thesis
    by (metis SeedNodeList_def distinct_remdups_id sorted_list_of_set_sort_remdups)
qed

text \<open>
  C35. A configuration that loads, whatever the file and the environment hold, has positive limits and
  intervals, one of the three sync modes the log knows, a bind address and seeds of the form
  host:port without duplicates, and its seed list is the sorted list of the seeds written down.
\<close>

theorem config_load_valid:
  assumes "LoadFromPathOrEnv files env path = Inr c"
  shows "cfg_Validate c = None \<and> cf_GossipInterval c > 0 \<and> cf_AntiEntropy c > 0 \<and> cf_Fanout c > 0 \<and> cf_TopKMax c > 0 \<and>
    cf_OutboundQueue c > 0 \<and> cf_DeltaHistory c > 0 \<and> cf_SnapshotInterval c > 0 \<and> cf_WALFsyncBatch c > 0 \<and>
    cf_ShutdownTimeout c > 0 \<and> cf_WALFsyncMode c \<in> {''always'', ''batch'', ''none''} \<and>
    SplitHostPort (TrimSpace (cf_BindAddr c)) \<noteq> None \<and>
    SeedNodeList c = sorted_list_of_set (set (splitSeeds (cf_SeedNodes c))) \<and>
    (\<forall>s \<in> set (SeedNodeList c). s \<noteq> [] \<and> SplitHostPort s \<noteq> None)"
proof -
  have v: "cfg_Validate c = None"
    using assms by (auto simp: LoadFromPathOrEnv_def Let_def split: sum.splits option.splits if_splits)
  then have "validateSeeds (splitSeeds (cf_SeedNodes c)) [] = None"
    by (simp add: cfg_Validate_def split: if_splits)
  then have "\<forall>s \<in> set (SeedNodeList c). s \<noteq> [] \<and> SplitHostPort s \<noteq> None"
    using splitSeeds_trimmed by (auto simp: SeedNodeList_eq validateSeeds_ok list_all_iff)
  with v show ?thesis
    by (simp add: SeedNodeList_eq cfg_Validate_def split: if_splits)
qed

lemma default_loads: "LoadFromPathOrEnv files (\<lambda>_. []) [] = Inr defaultConfig"
proof -
  have "TrimSpace [] = []" "cfg_Validate defaultConfig = None" by code_simp+
  moreover have "applyEnvOverrides (\<lambda>_. []) defaultConfig = defaultConfig"
    using calculation(1) by (simp add: applyEnvOverrides_def getenv_text_def getenv_int_def)
  ultimately show ?thesis by (simp add: LoadFromPathOrEnv_def)
qed

theorem config_load_valid_witness:
  "LoadFromPathOrEnv (\<lambda>_. None) (\<lambda>_. []) [] = Inr defaultConfig \<and> SplitHostPort (TrimSpace (cf_BindAddr defaultConfig)) \<noteq> None"
  using default_loads [of "\<lambda>_. None"] config_load_valid [OF default_loads [of "\<lambda>_. None"]] by blast

text \<open>
  A positive interval can still be a non-positive duration: the product wraps, and \<open>time.NewTicker\<close>
  panics on it.
\<close>

lemma interval_overflow:
  "cfg_Validate (defaultConfig\<lparr>cf_GossipInterval := 9223372036855\<rparr>) = None \<and>
   GossipIntervalDuration (defaultConfig\<lparr>cf_GossipInterval := 9223372036855\<rparr>) < 0"
proof
  show "cfg_Validate (defaultConfig\<lparr>cf_GossipInterval := 9223372036855\<rparr>) = None" by code_simp
  show "GossipIntervalDuration (defaultConfig\<lparr>cf_GossipInterval := 9223372036855\<rparr>) < 0"
    by (simp add: GossipIntervalDuration_def defaultConfig_def int64_def)
qed

end
