(* ===== verification/Membership.thy ===== *)
theory Membership
  imports Common GoTime Crdt "HOL-Library.Product_Lexorder" "HOL-Library.Option_ord"
begin

text \<open>
  \<open>internal/membership/table.go\<close>: the table of known members and the merge of gossiped entries.
  \<open>time.Now().UTC()\<close> is the argument \<open>now\<close> of the operations that read the clock.  What two
  nodes know of a third, an incarnation and a status, is ordered lexicographically; \<open>Merge\<close>
  computes the maximum, which makes the table a replica of the contract in \<open>Crdt\<close>.
\<close>

section \<open>Status\<close>

text \<open>\<open>Status\<close> is a string type; a decoded entry may carry any text.\<close>

datatype Status = StatusAlive | StatusSuspect | StatusDead | StatusOther string

definition status_text :: "Status \<Rightarrow> string" where
  "status_text s = (case s of StatusAlive \<Rightarrow> ''alive'' | StatusSuspect \<Rightarrow> ''suspect''
                    | StatusDead \<Rightarrow> ''dead'' | StatusOther t \<Rightarrow> t)"

definition status_of_text :: "string \<Rightarrow> Status" where
  "status_of_text t =
     (if t = ''alive'' then StatusAlive else if t = ''suspect'' then StatusSuspect
      else if t = ''dead'' then StatusDead else StatusOther t)"

definition statusRank :: "Status \<Rightarrow> int" where
  "statusRank s = (case s of StatusAlive \<Rightarrow> 1 | StatusSuspect \<Rightarrow> 2 | StatusDead \<Rightarrow> 3 | StatusOther _ \<Rightarrow> 0)"

definition status_known :: "Status \<Rightarrow> bool" where
  "status_known s \<longleftrightarrow> s = StatusAlive \<or> s = StatusSuspect \<or> s = StatusDead"

instantiation Status :: linorder
begin

definition less_eq_Status :: "Status \<Rightarrow> Status \<Rightarrow> bool" where
  "less_eq_Status a b \<longleftrightarrow> (statusRank a, status_text a) \<le> (statusRank b, status_text b)"

definition less_Status :: "Status \<Rightarrow> Status \<Rightarrow> bool" where
  "less_Status a b \<longleftrightarrow> (statusRank a, status_text a) < (statusRank b, status_text b)"

instance
proof
  fix a b c :: Status
  show "(a < b) = (a \<le> b \<and> \<not> b \<le> a)"
    by (simp only: less_Status_def less_eq_Status_def less_le_not_le)
  show "a \<le> a" by (simp add: less_eq_Status_def)
  show "a \<le> b \<Longrightarrow> b \<le> c \<Longrightarrow> a \<le> c" unfolding less_eq_Status_def by (rule order_trans)
  show "a \<le> b \<Longrightarrow> b \<le> a \<Longrightarrow> a = b"
  proof -
    assume "a \<le> b" "b \<le> a"
    then have "statusRank a = statusRank b" "status_text a = status_text b"
      unfolding less_eq_Status_def by (auto dest: antisym)
    then show "a = b" by (cases a; cases b) (auto simp: statusRank_def status_text_def)
  qed
  show "a \<le> b \<or> b \<le> a" unfolding less_eq_Status_def by (rule linear)
qed

end

lemma statusRank_less:
  "status_known a \<Longrightarrow> status_known b \<Longrightarrow> statusRank a < statusRank b \<longleftrightarrow> a < b"
  by (auto simp: status_known_def less_Status_def statusRank_def status_text_def)

lemma statusRank_le:
  "status_known a \<Longrightarrow> status_known b \<Longrightarrow> statusRank a \<le> statusRank b \<longleftrightarrow> a \<le> b"
  using statusRank_less [of b a] by (simp add: not_less [symmetric])

lemma max_suspect: "status_known s \<Longrightarrow> max StatusSuspect s = (if s = StatusAlive then StatusSuspect else s)"
  by (auto simp: status_known_def max_def less_eq_Status_def statusRank_def)

section \<open>Table\<close>

record Entry =
  e_NodeID :: string
  e_Endpoint :: string
  e_Status :: Status
  e_Incarnation :: u64

record Member =
  m_NodeID :: string
  m_Endpoint :: string
  m_Status :: Status
  m_Incarnation :: u64
  m_LastSeen :: gotime
  m_Missed :: int

record Table =
  tb_selfNodeID :: string
  tb_members :: "(string, Member) gomap"
  tb_byTarget :: "(string, string) gomap"

definition zero_Member :: Member where
  "zero_Member = \<lparr>m_NodeID = [], m_Endpoint = [], m_Status = StatusOther [], m_Incarnation = 0,
                  m_LastSeen = time_zero, m_Missed = 0\<rparr>"

definition initialIncarnation :: "int \<Rightarrow> u64" where
  "initialIncarnation unixNano = (if unixNano \<le> 0 then 1 else of_int unixNano)"

definition newTable :: "gotime \<Rightarrow> string \<Rightarrow> string \<Rightarrow> u64 \<Rightarrow> Table" where
  "newTable now selfNodeID endpoint inc =
     (let incarnation = (if inc = 0 then 1 else inc);
          selfEndpoint = TrimSpace endpoint
      in \<lparr>tb_selfNodeID = selfNodeID,
          tb_members = [(selfNodeID,
            \<lparr>m_NodeID = selfNodeID, m_Endpoint = selfEndpoint, m_Status = StatusAlive,
             m_Incarnation = incarnation, m_LastSeen = now, m_Missed = 0\<rparr>)],
          tb_byTarget = (if selfEndpoint \<noteq> [] then [(selfEndpoint, selfNodeID)] else [])\<rparr>)"

definition NewTable :: "gotime \<Rightarrow> int \<Rightarrow> string \<Rightarrow> string \<Rightarrow> Table" where
  "NewTable now unixNano selfNodeID endpoint =
     newTable now selfNodeID endpoint (initialIncarnation unixNano)"

definition validMembershipEndpoint :: "string \<Rightarrow> bool" where
  "validMembershipEndpoint endpoint =
     (case SplitHostPort endpoint of
        None \<Rightarrow> False
      | Some (host, port) \<Rightarrow>
          if TrimSpace host = [] then False
          else (case Atoi port of None \<Rightarrow> False | Some n \<Rightarrow> n > 0 \<and> n \<le> 65535))"

definition validEntry :: "Entry \<Rightarrow> bool" where
  "validEntry e \<longleftrightarrow> ValidNodeID (e_NodeID e) \<and> validMembershipEndpoint (e_Endpoint e) \<and>
     e_Incarnation e \<noteq> 0 \<and>
     (e_Status e = StatusAlive \<or> e_Status e = StatusSuspect \<or> e_Status e = StatusDead)"

definition clearTargetsForNodeLocked :: "Table \<Rightarrow> string \<Rightarrow> Table" where
  "clearTargetsForNodeLocked t nodeID =
     t\<lparr>tb_byTarget := filter (\<lambda>(_, n). n \<noteq> nodeID) (tb_byTarget t)\<rparr>"

definition incrementIncarnation :: "u64 \<Rightarrow> u64" where
  "incrementIncarnation v = (if v = max_uint64 then v else v + 1)"

definition ObserveAlive :: "Table \<Rightarrow> gotime \<Rightarrow> string \<Rightarrow> string \<Rightarrow> u64 \<Rightarrow> Table \<times> bool" where
  "ObserveAlive t now nodeID0 endpoint0 inc =
     (let nodeID = TrimSpace nodeID0; endpoint = TrimSpace endpoint0
      in if \<not> ValidNodeID nodeID \<or> nodeID = tb_selfNodeID t \<or> \<not> validMembershipEndpoint endpoint \<or> inc = 0
         then (t, False)
         else
           (let known = mhas (tb_members t) nodeID;
                current = mget zero_Member (tb_members t) nodeID
            in if known \<and> inc < m_Incarnation current then (t, False)
               else
                 (let t1 = (if known \<and> (inc > m_Incarnation current \<or>
                               (endpoint \<noteq> [] \<and> m_Endpoint current \<noteq> endpoint))
                            then clearTargetsForNodeLocked t nodeID else t);
                      changed = (\<not> known \<or> m_Status current \<noteq> StatusAlive \<or> m_Incarnation current \<noteq> inc \<or>
                                 (endpoint \<noteq> [] \<and> m_Endpoint current \<noteq> endpoint));
                      m = current\<lparr>m_NodeID := nodeID,
                            m_Endpoint := (if endpoint \<noteq> [] then endpoint else m_Endpoint current),
                            m_Status := StatusAlive, m_Incarnation := inc, m_LastSeen := now, m_Missed := 0\<rparr>
                  in (t1\<lparr>tb_members := mput nodeID m (tb_members t1),
                         tb_byTarget := (if endpoint \<noteq> [] then mput endpoint nodeID (tb_byTarget t1)
                                         else tb_byTarget t1)\<rparr>,
                      changed))))"

definition mergeSelf :: "Table \<Rightarrow> gotime \<Rightarrow> Entry \<Rightarrow> Table \<times> bool" where
  "mergeSelf t now entry =
     (let self = mget zero_Member (tb_members t) (tb_selfNodeID t)
      in if e_Status entry \<noteq> StatusAlive \<and> e_Incarnation entry \<ge> m_Incarnation self
         then (t\<lparr>tb_members := mput (tb_selfNodeID t)
                   (self\<lparr>m_Incarnation := incrementIncarnation (e_Incarnation entry),
                         m_Status := StatusAlive, m_LastSeen := now, m_Missed := 0\<rparr>) (tb_members t)\<rparr>, True)
         else (t, False))"

definition mergeOther :: "Table \<Rightarrow> gotime \<Rightarrow> Entry \<Rightarrow> Table \<times> bool" where
  "mergeOther t now entry =
     (let n = e_NodeID entry;
          known = mhas (tb_members t) n;
          current = mget zero_Member (tb_members t) n;
          accept = (\<not> known \<or> e_Incarnation entry > m_Incarnation current \<or>
                    (e_Incarnation entry = m_Incarnation current \<and>
                     statusRank (e_Status entry) > statusRank (m_Status current)))
      in if \<not> accept then
           (if known \<and> m_Endpoint current = [] \<and> e_Endpoint entry \<noteq> [] \<and>
               e_Incarnation entry = m_Incarnation current
            then (t\<lparr>tb_members := mput n (current\<lparr>m_Endpoint := e_Endpoint entry\<rparr>) (tb_members t),
                    tb_byTarget := mput (e_Endpoint entry) n (tb_byTarget t)\<rparr>, True)
            else (t, False))
         else
           (let m = \<lparr>m_NodeID = n, m_Endpoint = e_Endpoint entry, m_Status = e_Status entry,
                      m_Incarnation = e_Incarnation entry, m_LastSeen = now, m_Missed = 0\<rparr>;
                t1 = (if known \<and> e_Incarnation entry > m_Incarnation current
                      then clearTargetsForNodeLocked t n else t)
            in (t1\<lparr>tb_members := mput n m (tb_members t1),
                   tb_byTarget := (if e_Endpoint entry \<noteq> [] then mput (e_Endpoint entry) n (tb_byTarget t1)
                                   else tb_byTarget t1)\<rparr>, True)))"

definition mergeEntry :: "Table \<Rightarrow> gotime \<Rightarrow> Entry \<Rightarrow> Table \<times> bool" where
  "mergeEntry t now entry0 =
     (let entry = entry0\<lparr>e_NodeID := TrimSpace (e_NodeID entry0), e_Endpoint := TrimSpace (e_Endpoint entry0)\<rparr>
      in if \<not> validEntry entry then (t, False)
         else if e_NodeID entry = tb_selfNodeID t then mergeSelf t now entry
         else mergeOther t now entry)"

fun mergeLoop :: "Table \<Rightarrow> gotime \<Rightarrow> Entry list \<Rightarrow> bool \<Rightarrow> Table \<times> bool" where
  "mergeLoop t now [] changed = (t, changed)"
| "mergeLoop t now (e # es) changed =
     (let (t', c) = mergeEntry t now e in mergeLoop t' now es (changed \<or> c))"

definition table_Merge :: "Table \<Rightarrow> gotime \<Rightarrow> Entry list \<Rightarrow> Table \<times> bool" where
  "table_Merge t now entries = mergeLoop t now entries False"

definition AssociateTarget :: "Table \<Rightarrow> string \<Rightarrow> string \<Rightarrow> Table" where
  "AssociateTarget t nodeID0 target0 =
     (let nodeID = TrimSpace nodeID0; target = TrimSpace target0
      in if nodeID = [] \<or> target = [] then t
         else if mhas (tb_members t) nodeID then t\<lparr>tb_byTarget := mput target nodeID (tb_byTarget t)\<rparr>
         else t)"

definition missedMember :: "Member \<Rightarrow> int \<Rightarrow> int \<Rightarrow> Member" where
  "missedMember m0 suspectAfter deadAfter =
     (let m = m0\<lparr>m_Missed := m_Missed m0 + 1\<rparr>
      in if m_Missed m \<ge> deadAfter then m\<lparr>m_Status := StatusDead\<rparr>
         else if m_Missed m \<ge> suspectAfter then m\<lparr>m_Status := StatusSuspect\<rparr>
         else m)"

definition MarkMissedByEndpoint :: "Table \<Rightarrow> string \<Rightarrow> int \<Rightarrow> int \<Rightarrow> Table" where
  "MarkMissedByEndpoint t endpoint suspectAfter deadAfter =
     (case map_of (tb_byTarget t) endpoint of
        None \<Rightarrow> t
      | Some nodeID \<Rightarrow>
          if nodeID = tb_selfNodeID t then t
          else t\<lparr>tb_members := mput nodeID
                   (missedMember (mget zero_Member (tb_members t) nodeID) suspectAfter deadAfter)
                   (tb_members t)\<rparr>)"

definition timeoutMember :: "gotime \<Rightarrow> duration \<Rightarrow> duration \<Rightarrow> Member \<Rightarrow> Member" where
  "timeoutMember now suspectAfter deadAfter m =
     (let since = time_Sub now (m_LastSeen m)
      in if since \<ge> deadAfter then m\<lparr>m_Status := StatusDead\<rparr>
         else if since \<ge> suspectAfter \<and> m_Status m = StatusAlive then m\<lparr>m_Status := StatusSuspect\<rparr>
         else m)"

definition ApplyTimeouts :: "Table \<Rightarrow> gotime \<Rightarrow> duration \<Rightarrow> duration \<Rightarrow> Table" where
  "ApplyTimeouts t now suspectAfter deadAfter =
     t\<lparr>tb_members := map (\<lambda>(n, m). (n, if n = tb_selfNodeID t then m
                                        else timeoutMember now suspectAfter deadAfter m)) (tb_members t)\<rparr>"

definition table_Snapshot :: "Table \<Rightarrow> Member list" where
  "table_Snapshot t = sort_key m_NodeID (map snd (tb_members t))"

definition entryOf :: "Member \<Rightarrow> Entry" where
  "entryOf m = \<lparr>e_NodeID = m_NodeID m, e_Endpoint = m_Endpoint m, e_Status = m_Status m,
                e_Incarnation = m_Incarnation m\<rparr>"

definition Entries :: "Table \<Rightarrow> Entry list" where
  "Entries t = map entryOf (filter (\<lambda>m. m_Endpoint m \<noteq> []) (table_Snapshot t))"

definition SelfEntry :: "Table \<Rightarrow> Entry" where
  "SelfEntry t = entryOf (mget zero_Member (tb_members t) (tb_selfNodeID t))"

definition AlivePeerEndpoints :: "Table \<Rightarrow> (string, string) gomap" where
  "AlivePeerEndpoints t =
     map (\<lambda>(n, m). (n, m_Endpoint m))
       (filter (\<lambda>(n, m). \<not> (n = tb_selfNodeID t \<or> m_Status m \<noteq> StatusAlive \<or> m_Endpoint m = []))
          (tb_members t))"

section \<open>Invariant\<close>

text \<open>What a table knows of a node.\<close>

definition view :: "Table \<Rightarrow> string \<Rightarrow> (u64 \<times> Status) option" where
  "view t n = map_option (\<lambda>m. (m_Incarnation m, m_Status m)) (map_of (tb_members t) n)"

definition member_ok :: "string \<Rightarrow> string \<Rightarrow> Member \<Rightarrow> bool" where
  "member_ok self n m \<longleftrightarrow> m_NodeID m = n \<and> m_Incarnation m \<noteq> 0 \<and>
     (if n = self then m_Status m = StatusAlive
      else status_known (m_Status m) \<and> ValidNodeID n \<and> validMembershipEndpoint (m_Endpoint m))"

definition table_wf :: "Table \<Rightarrow> bool" where
  "table_wf t \<longleftrightarrow> mwf (tb_members t) \<and> mwf (tb_byTarget t) \<and>
     list_all (\<lambda>(n, m). member_ok (tb_selfNodeID t) n m) (tb_members t) \<and>
     list_all (\<lambda>(_, n). mhas (tb_members t) n) (tb_byTarget t) \<and>
     mhas (tb_members t) (tb_selfNodeID t)"

lemma member_okD: "member_ok self n m \<Longrightarrow> status_known (m_Status m)"
  by (auto simp: member_ok_def status_known_def split: if_splits)

lemma table_wf_member:
  "table_wf t \<Longrightarrow> map_of (tb_members t) n = Some m \<Longrightarrow> member_ok (tb_selfNodeID t) n m"
  by (auto simp: table_wf_def list_all_iff dest: map_of_SomeD)

lemma endpoint_nonempty: "validMembershipEndpoint e \<Longrightarrow> e \<noteq> []"
  by (auto simp: validMembershipEndpoint_def SplitHostPort_def last_index_of_def)

lemma table_wf_put:
  assumes "table_wf t" "member_ok (tb_selfNodeID t) n m" "mwf bt"
    "\<And>x k. (x, k) \<in> set bt \<Longrightarrow> k = n \<or> mhas (tb_members t) k"
  shows "table_wf (t\<lparr>tb_members := mput n m (tb_members t), tb_byTarget := bt\<rparr>)"
  using assms by (auto simp: table_wf_def list_all_iff set_mput)

lemma table_wf_clear [wf_intros]: "table_wf t \<Longrightarrow> table_wf (clearTargetsForNodeLocked t n)"
  by (auto simp: table_wf_def clearTargetsForNodeLocked_def list_all_iff)

lemma clear_members [simp]:
  "tb_members (clearTargetsForNodeLocked t n) = tb_members t"
  "tb_selfNodeID (clearTargetsForNodeLocked t n) = tb_selfNodeID t"
  by (simp_all add: clearTargetsForNodeLocked_def)

lemma table_targets: "table_wf t \<Longrightarrow> (x, k) \<in> set (tb_byTarget t) \<Longrightarrow> mhas (tb_members t) k"
  by (auto simp: table_wf_def list_all_iff)

lemma table_wf_put_target:
  assumes "table_wf t" "member_ok (tb_selfNodeID t) n m"
  shows "table_wf (t\<lparr>tb_members := mput n m (tb_members t), tb_byTarget := mput x n (tb_byTarget t)\<rparr>)"
  using assms table_targets [OF assms(1)]
  by (intro table_wf_put) (auto simp: table_wf_def set_mput)

lemma table_wf_put_same:
  assumes "table_wf t" "member_ok (tb_selfNodeID t) n m"
  shows "table_wf (t\<lparr>tb_members := mput n m (tb_members t)\<rparr>)"
  using table_wf_put [OF assms, of "tb_byTarget t"] table_targets [OF assms(1)] assms(1)
  by (auto simp: table_wf_def)

lemma self_member:
  assumes "table_wf t"
  obtains m where "map_of (tb_members t) (tb_selfNodeID t) = Some m"
    "mget zero_Member (tb_members t) (tb_selfNodeID t) = m" "m_Status m = StatusAlive"
    "m_NodeID m = tb_selfNodeID t" "m_Incarnation m \<noteq> 0"
proof -
  obtain m where m: "map_of (tb_members t) (tb_selfNodeID t) = Some m"
    using assms by (auto simp: table_wf_def mhas_def split: option.splits)
  with that [of m] table_wf_member [OF assms m] show ?thesis
    by (simp add: member_ok_def mget_def)
qed

section \<open>Merge\<close>

lemma mergeSelf_spec:
  assumes "table_wf t"
  shows "table_wf (fst (mergeSelf t now e))" "tb_selfNodeID (fst (mergeSelf t now e)) = tb_selfNodeID t"
    "n \<noteq> tb_selfNodeID t \<Longrightarrow> view (fst (mergeSelf t now e)) n = view t n"
proof -
  obtain m where m: "mget zero_Member (tb_members t) (tb_selfNodeID t) = m" "m_NodeID m = tb_selfNodeID t"
    "m_Incarnation m \<noteq> 0"
    using assms by (rule self_member)
  have "incrementIncarnation (e_Incarnation e) \<noteq> 0" if "m_Incarnation m \<le> e_Incarnation e"
    by (simp add: incrementIncarnation_def flip: eq_neg_iff_add_eq_0)
  then show "table_wf (fst (mergeSelf t now e))"
    using assms m by (auto simp: mergeSelf_def Let_def member_ok_def intro!: table_wf_put_same)
  show "tb_selfNodeID (fst (mergeSelf t now e)) = tb_selfNodeID t"
    by (simp add: mergeSelf_def Let_def)
  show "n \<noteq> tb_selfNodeID t \<Longrightarrow> view (fst (mergeSelf t now e)) n = view t n"
    by (simp add: mergeSelf_def Let_def view_def)
qed

lemma mergeOther_spec:
  assumes "table_wf t" "validEntry e" "e_NodeID e \<noteq> tb_selfNodeID t"
  shows "table_wf (fst (mergeOther t now e))" "tb_selfNodeID (fst (mergeOther t now e)) = tb_selfNodeID t"
    "view (fst (mergeOther t now e)) n =
       (if n = e_NodeID e then max (view t n) (Some (e_Incarnation e, e_Status e)) else view t n)"
proof -
  let ?n = "e_NodeID e" and ?c = "mget zero_Member (tb_members t) (e_NodeID e)"
  have e: "ValidNodeID ?n" "validMembershipEndpoint (e_Endpoint e)" "e_Incarnation e \<noteq> 0"
    "status_known (e_Status e)" "e_Endpoint e \<noteq> []"
    using assms(2) endpoint_nonempty by (auto simp: validEntry_def status_known_def)
  have ok: "member_ok (tb_selfNodeID t) ?n
      \<lparr>m_NodeID = ?n, m_Endpoint = e_Endpoint e, m_Status = e_Status e,
       m_Incarnation = e_Incarnation e, m_LastSeen = now, m_Missed = 0\<rparr>"
    using e assms(3) by (simp add: member_ok_def)
  have cur: "member_ok (tb_selfNodeID t) ?n ?c" "map_of (tb_members t) ?n = Some ?c" if "mhas (tb_members t) ?n"
    using that table_wf_member [OF assms(1), of ?n] by (auto simp: mhas_def mget_def split: option.splits)
  then have ne: "m_Endpoint ?c \<noteq> []" if "mhas (tb_members t) ?n"
    using that assms(3) endpoint_nonempty by (auto simp: member_ok_def split: if_splits)
  have known: "status_known (m_Status ?c)" if "mhas (tb_members t) ?n"
    using cur(1) [OF that] by (rule member_okD)
  show "table_wf (fst (mergeOther t now e))"
    using assms(1) ok e(5) ne table_wf_put_target [OF assms(1) ok] table_wf_put_target [OF table_wf_clear [OF assms(1)]]
    by (simp add: mergeOther_def Let_def)
  show "tb_selfNodeID (fst (mergeOther t now e)) = tb_selfNodeID t"
    by (simp add: mergeOther_def Let_def)
  show "view (fst (mergeOther t now e)) n =
       (if n = ?n then max (view t n) (Some (e_Incarnation e, e_Status e)) else view t n)"
  proof (cases "mhas (tb_members t) ?n")
    case True
    with cur(2) known e(4) ne show ?thesis
      by (auto simp: mergeOther_def Let_def view_def max_def statusRank_less statusRank_le not_less)
  next
    case False
    then have "map_of (tb_members t) ?n = None" by (simp add: mhas_def split: option.splits)
    with False show ?thesis by (auto simp: mergeOther_def Let_def view_def max_def)
  qed
qed

text \<open>The entry as \<open>Merge\<close> reads it, and what it says about a node.\<close>

definition trimEntry :: "Entry \<Rightarrow> Entry" where
  "trimEntry e = e\<lparr>e_NodeID := TrimSpace (e_NodeID e), e_Endpoint := TrimSpace (e_Endpoint e)\<rparr>"

definition entry_view :: "string \<Rightarrow> Entry \<Rightarrow> string \<Rightarrow> (u64 \<times> Status) option" where
  "entry_view self e n =
     (if validEntry (trimEntry e) \<and> e_NodeID (trimEntry e) = n \<and> n \<noteq> self
      then Some (e_Incarnation e, e_Status e) else None)"

definition peer_view :: "string \<Rightarrow> Table \<Rightarrow> string \<Rightarrow> (u64 \<times> Status) option" where
  "peer_view self t n = (if n = self then None else view t n)"

definition view_join :: "(string \<Rightarrow> (u64 \<times> Status) option) \<Rightarrow> (string \<Rightarrow> (u64 \<times> Status) option) \<Rightarrow>
    string \<Rightarrow> (u64 \<times> Status) option" where
  "view_join f g = (\<lambda>n. max (f n) (g n))"

lemma mergeEntry_eq:
  "mergeEntry t now e =
     (if \<not> validEntry (trimEntry e) then (t, False)
      else if e_NodeID (trimEntry e) = tb_selfNodeID t then mergeSelf t now (trimEntry e)
      else mergeOther t now (trimEntry e))"
  by (simp add: mergeEntry_def trimEntry_def Let_def)

lemma trimEntry_simps [simp]:
  "e_Status (trimEntry e) = e_Status e" "e_Incarnation (trimEntry e) = e_Incarnation e"
  by (simp_all add: trimEntry_def)

lemma mergeEntry_spec:
  assumes "table_wf t"
  shows "table_wf (fst (mergeEntry t now e))" "tb_selfNodeID (fst (mergeEntry t now e)) = tb_selfNodeID t"
    "peer_view (tb_selfNodeID t) (fst (mergeEntry t now e)) =
       view_join (peer_view (tb_selfNodeID t) t) (entry_view (tb_selfNodeID t) e)"
  using assms mergeSelf_spec [OF assms, where e = "trimEntry e" and now = now]
    mergeOther_spec [OF assms, where e = "trimEntry e" and now = now]
  by (auto simp: mergeEntry_eq peer_view_def view_join_def entry_view_def fun_eq_iff max_def
      dest: less_eq_option_None_is_None)

interpretation view_semilattice: semilattice_on view_join "\<lambda>_. True"
  by unfold_locales (auto simp: view_join_def fun_eq_iff ac_simps)

interpretation table_replica:
  replica view_join "\<lambda>_. True" "peer_view self" "\<lambda>t. table_wf t \<and> tb_selfNodeID t = self"
    "\<lambda>(now, e). entry_view self e" "\<lambda>_. True" "\<lambda>t (now, e). fst (mergeEntry t now e)" for self
  by unfold_locales (auto simp: mergeEntry_spec split: prod.splits)

lemma mergeLoop_foldl:
  "fst (mergeLoop t now es c) = foldl (\<lambda>t (now, e). fst (mergeEntry t now e)) t (map (Pair now) es)"
  by (induction es arbitrary: t c) (auto split: prod.splits)

lemma table_Merge_wf:
  assumes "table_wf t"
  shows "table_wf (fst (table_Merge t now es)) \<and> tb_selfNodeID (fst (table_Merge t now es)) = tb_selfNodeID t"
  unfolding table_Merge_def mergeLoop_foldl
  by (rule table_replica.inv_deliver) (use assms in \<open>auto simp: list_all_iff\<close>)

lemma table_Merge_view:
  assumes "table_wf t"
  shows "peer_view (tb_selfNodeID t) (fst (table_Merge t now es)) =
    view_semilattice.joins (peer_view (tb_selfNodeID t) t) (map (entry_view (tb_selfNodeID t)) es)"
  unfolding table_Merge_def mergeLoop_foldl
  using table_replica.val_deliver [of t "tb_selfNodeID t" "map (Pair now) es"] assms
  by (simp add: comp_def list_all_iff)

lemma joins_Max:
  "view_semilattice.joins f gs n = Max (insert (f n) ((\<lambda>g. g n) ` set gs))"
proof (induction gs arbitrary: f)
  case (Cons g gs)
  have "Max (insert (max (f n) (g n)) ((\<lambda>g. g n) ` set gs)) = Max (insert (f n) ((\<lambda>g. g n) ` set (g # gs)))"
    by (cases "set gs = {}") (auto simp: max.assoc)
  moreover have "view_join f g n = max (f n) (g n)" by (simp add: view_join_def)
  ultimately show ?case by (simp only: view_semilattice.joins_Cons Cons.IH)
qed simp

lemma mergeLoop_changed:
  "snd (mergeLoop t now es c) \<longleftrightarrow> c \<or> snd (mergeLoop t now es False)"
proof (induction es arbitrary: t c)
  case (Cons e es)
  obtain t' b where "mergeEntry t now e = (t', b)" by (cases "mergeEntry t now e")
  then show ?case using Cons [of t' "c \<or> b"] Cons [of t' b] by auto
qed simp

section \<open>Other operations\<close>

lemma newTable_wf: "table_wf (newTable now self ep inc)"
  by (auto simp: newTable_def Let_def table_wf_def mwf_def member_ok_def mhas_def)

lemma ObserveAlive_wf:
  assumes "table_wf t"
  shows "table_wf (fst (ObserveAlive t now n ep inc))" "tb_selfNodeID (fst (ObserveAlive t now n ep inc)) = tb_selfNodeID t"
proof -
  let ?n = "TrimSpace n" and ?ep = "TrimSpace ep"
  let ?m = "(mget zero_Member (tb_members t) ?n)\<lparr>m_NodeID := ?n, m_Endpoint := ?ep, m_Status := StatusAlive,
      m_Incarnation := inc, m_LastSeen := now, m_Missed := 0\<rparr>"
  have "table_wf (fst (ObserveAlive t now n ep inc))"
    if "ValidNodeID ?n" "?n \<noteq> tb_selfNodeID t" "validMembershipEndpoint ?ep" "inc \<noteq> 0"
  proof -
    have ok: "member_ok (tb_selfNodeID t) ?n ?m" using that by (simp add: member_ok_def status_known_def)
    show ?thesis
      using assms that endpoint_nonempty [OF that(3)] table_wf_put_target [OF assms ok]
        table_wf_put_target [OF table_wf_clear [OF assms, of ?n], where n = ?n and m = ?m] ok
      by (auto simp: ObserveAlive_def Let_def)
  qed
  then show "table_wf (fst (ObserveAlive t now n ep inc))"
    using assms by (auto simp: ObserveAlive_def Let_def)
  show "tb_selfNodeID (fst (ObserveAlive t now n ep inc)) = tb_selfNodeID t"
    by (simp add: ObserveAlive_def Let_def)
qed

lemma AssociateTarget_wf: "table_wf t \<Longrightarrow> table_wf (AssociateTarget t n x)"
  by (auto simp: AssociateTarget_def Let_def table_wf_def list_all_iff set_mput)

lemma missedMember_ok:
  "member_ok self n m \<Longrightarrow> n \<noteq> self \<Longrightarrow> member_ok self n (missedMember m a b)"
  by (auto simp: missedMember_def Let_def member_ok_def status_known_def)

lemma MarkMissed_wf: "table_wf t \<Longrightarrow> table_wf (MarkMissedByEndpoint t ep a b)"
proof -
  assume t: "table_wf t"
  have "table_wf (t\<lparr>tb_members := mput n (missedMember (mget zero_Member (tb_members t) n) a b) (tb_members t)\<rparr>)"
    if "map_of (tb_byTarget t) ep = Some n" "n \<noteq> tb_selfNodeID t" for n
  proof -
    have "mhas (tb_members t) n" using table_targets [OF t] that(1) by (auto dest: map_of_SomeD)
    then obtain m where "map_of (tb_members t) n = Some m" by (auto simp: mhas_def split: option.splits)
    with table_wf_member [OF t this] that(2) show ?thesis
      by (intro table_wf_put_same [OF t]) (simp add: mget_def missedMember_ok)
  qed
  with t show ?thesis by (simp add: MarkMissedByEndpoint_def split: option.split)
qed

lemma map_of_ApplyTimeouts:
  "map_of (tb_members (ApplyTimeouts t now a b)) n =
     map_option (\<lambda>m. if n = tb_selfNodeID t then m else timeoutMember now a b m) (map_of (tb_members t) n)"
proof -
  have "map_of (map (\<lambda>(n, m). (n, g n m)) ms) n = map_option (g n) (map_of ms n)" for ms and g :: "string \<Rightarrow> Member \<Rightarrow> Member"
    by (induction ms) auto
  then show ?thesis by (simp add: ApplyTimeouts_def)
qed

lemma ApplyTimeouts_wf: "table_wf t \<Longrightarrow> table_wf (ApplyTimeouts t now a b)"
proof -
  assume t: "table_wf t"
  have "map fst (tb_members (ApplyTimeouts t now a b)) = map fst (tb_members t)"
    by (auto simp: ApplyTimeouts_def)
  moreover have "member_ok self n (timeoutMember now a b m)" if "member_ok self n m" "n \<noteq> self" for self n m
    using that by (auto simp: timeoutMember_def Let_def member_ok_def status_known_def)
  moreover from calculation(1) have "mhas (tb_members (ApplyTimeouts t now a b)) n = mhas (tb_members t) n" for n
    unfolding mhas_iff by (metis list.set_map)
  moreover have "mwf (tb_members (ApplyTimeouts t now a b))"
    using t calculation(1) by (simp add: table_wf_def mwf_def)
  ultimately show ?thesis
    using t unfolding table_wf_def by (auto simp: ApplyTimeouts_def list_all_iff)
qed

section \<open>Reachable tables\<close>

inductive table_reach :: "string \<Rightarrow> Table \<Rightarrow> bool" where
  table_new: "table_reach self (newTable now self endpoint inc)"
| table_observe: "table_reach self t \<Longrightarrow> table_reach self (fst (ObserveAlive t now n endpoint inc))"
| table_merge: "table_reach self t \<Longrightarrow> table_reach self (fst (table_Merge t now es))"
| table_associate: "table_reach self t \<Longrightarrow> table_reach self (AssociateTarget t n target)"
| table_missed: "table_reach self t \<Longrightarrow> table_reach self (MarkMissedByEndpoint t target a b)"
| table_timeouts: "table_reach self t \<Longrightarrow> table_reach self (ApplyTimeouts t now a b)"

lemma table_reach_wf: "table_reach self t \<Longrightarrow> table_wf t \<and> tb_selfNodeID t = self"
proof (induction rule: table_reach.induct)
  case (table_associate self t n target)
  then show ?case by (simp add: AssociateTarget_wf) (simp add: AssociateTarget_def Let_def)
next
  case (table_missed self t target a b)
  then show ?case
    by (simp add: MarkMissed_wf) (simp add: MarkMissedByEndpoint_def split: option.split)
next
  case (table_timeouts self t now a b)
  then show ?case by (simp add: ApplyTimeouts_wf) (simp add: ApplyTimeouts_def)
next
  case (table_new self now endpoint inc)
  show ?case by (simp add: newTable_wf) (simp add: newTable_def Let_def)
qed (auto simp: ObserveAlive_wf table_Merge_wf)

section \<open>Properties\<close>

text \<open>
  On every reachable table, whatever was observed, gossiped, missed or timed out, the node
  itself is listed as alive with a positive incarnation, every listed status is one of the three
  known ones, every probe target belongs to a listed member, and the peers offered for gossip are
  other members with a valid endpoint.
\<close>

lemma table_invariant:
  assumes "table_reach self t"
  shows "e_NodeID (SelfEntry t) = self \<and> e_Status (SelfEntry t) = StatusAlive \<and>
    e_Incarnation (SelfEntry t) \<noteq> 0 \<and>
    list_all (\<lambda>m. status_known (m_Status m)) (table_Snapshot t) \<and>
    list_all (\<lambda>(_, n). mhas (tb_members t) n) (tb_byTarget t) \<and>
    list_all (\<lambda>(n, ep). n \<noteq> self \<and> ValidNodeID n \<and> validMembershipEndpoint ep) (AlivePeerEndpoints t)"
proof -
  have t: "table_wf t" "tb_selfNodeID t = self" using table_reach_wf [OF assms] by auto
  from t(1) obtain m where m: "mget zero_Member (tb_members t) (tb_selfNodeID t) = m"
    "m_Status m = StatusAlive" "m_NodeID m = tb_selfNodeID t" "m_Incarnation m \<noteq> 0"
    by (rule self_member)
  have "list_all (\<lambda>m. status_known (m_Status m)) (table_Snapshot t)"
    using t(1) member_okD by (fastforce simp: table_wf_def table_Snapshot_def list_all_iff)
  moreover have "list_all (\<lambda>(n, ep). n \<noteq> self \<and> ValidNodeID n \<and> validMembershipEndpoint ep) (AlivePeerEndpoints t)"
    using t by (auto simp: table_wf_def AlivePeerEndpoints_def list_all_iff member_ok_def)
  moreover have "list_all (\<lambda>(_, n). mhas (tb_members t) n) (tb_byTarget t)"
    using t(1) by (simp add: table_wf_def)
  ultimately show ?thesis using m t(2) by (simp add: SelfEntry_def entryOf_def)
qed

lemma table_invariant_witness:
  "e_Status (SelfEntry (newTable time_zero ''a'' ''h:1'' 4)) = StatusAlive"
  using table_invariant [OF table_new [of "''a''" time_zero "''h:1''" 4]] by blast

text \<open>
  C23. \<open>Merge\<close> computes, for every other node, the largest of what the table knew and what the
  valid entries say, in the order incarnation first and then alive, suspect, dead; so tables that
  merged the same entries in any order and grouping agree, and merging again changes nothing.
\<close>

theorem table_Merge_max:
  assumes "table_wf t" "n \<noteq> tb_selfNodeID t"
  shows "view (fst (table_Merge t now es)) n =
      Max (insert (view t n) (set (map (\<lambda>e. entry_view (tb_selfNodeID t) e n) es))) \<and>
    table_wf (fst (table_Merge t now es)) \<and>
    view (fst (table_Merge (fst (table_Merge t now es)) now' es)) n = view (fst (table_Merge t now es)) n"
proof -
  let ?S = "insert (view t n) (set (map (\<lambda>e. entry_view (tb_selfNodeID t) e n) es))"
  have step: "view (fst (table_Merge u w es)) n =
      Max (insert (view u n) (set (map (\<lambda>e. entry_view (tb_selfNodeID t) e n) es)))"
    if "table_wf u" "tb_selfNodeID u = tb_selfNodeID t" for u w
    using fun_cong [OF table_Merge_view [OF that(1), of w es], of n] assms(2) that(2)
    by (simp add: peer_view_def joins_Max image_image comp_def)
  have t': "table_wf (fst (table_Merge t now es))"
    "tb_selfNodeID (fst (table_Merge t now es)) = tb_selfNodeID t"
    using table_Merge_wf [OF assms(1)] by auto
  have one: "view (fst (table_Merge t now es)) n = Max ?S" using step assms(1) by simp
  have "insert (Max ?S) (set (map (\<lambda>e. entry_view (tb_selfNodeID t) e n) es)) \<subseteq> ?S"
    using Max_in [of ?S] by auto
  then have "Max (insert (Max ?S) (set (map (\<lambda>e. entry_view (tb_selfNodeID t) e n) es))) = Max ?S"
    by (intro Max_eqI) (auto intro: Max_ge)
  then show ?thesis using step [OF t'] one t'(1) by simp
qed

definition ex_table :: Table where
  "ex_table = newTable time_zero ''a'' ''h:1'' 4"

definition ex_entry :: "string \<Rightarrow> Status \<Rightarrow> u64 \<Rightarrow> Entry" where
  "ex_entry n st i = \<lparr>e_NodeID = n, e_Endpoint = ''h:2'', e_Status = st, e_Incarnation = i\<rparr>"

lemma ex_table_wf: "table_wf ex_table"
  by (simp add: ex_table_def newTable_wf)

theorem table_Merge_max_witness:
  "view (fst (table_Merge ex_table time_zero [ex_entry ''b'' StatusDead 2, ex_entry ''b'' StatusAlive 3])) ''b'' =
     Some (3, StatusAlive)"
proof -
  have "''b'' \<noteq> tb_selfNodeID ex_table" by code_simp
  from conjunct1 [OF table_Merge_max [OF ex_table_wf this]] show ?thesis
    by (rule trans) code_simp
qed

text \<open>
  C5. Refutation: when another node holds an accusation (suspect or dead) against this one and
  this one merges it, this one still lists itself as alive and its own entry now carries a larger
  incarnation than the accusation, so the accuser lists it as alive again after merging that
  entry.  The one accusation that cannot be refuted carries the largest incarnation, which
  \<open>incrementIncarnation\<close> does not exceed.
\<close>

theorem refutation:
  fixes now now' :: gotime
  assumes "table_wf t" "table_wf u" "tb_selfNodeID u \<noteq> tb_selfNodeID t"
    and "validEntry e" "trimEntry e = e" "e_NodeID e = tb_selfNodeID t" "e_Status e \<noteq> StatusAlive"
    and "view u (tb_selfNodeID t) = Some (e_Incarnation e, e_Status e)"
    and "validMembershipEndpoint (e_Endpoint (SelfEntry t))"
      "TrimSpace (e_Endpoint (SelfEntry t)) = e_Endpoint (SelfEntry t)"
    and "e_Incarnation e \<noteq> max_uint64"
  defines "t' \<equiv> fst (table_Merge t now [e])"
  shows "e_Status (SelfEntry t') = StatusAlive \<and> e_Incarnation e < e_Incarnation (SelfEntry t') \<and>
    view (fst (table_Merge u now' [SelfEntry t'])) (tb_selfNodeID t) =
      Some (e_Incarnation (SelfEntry t'), StatusAlive)"
proof -
  obtain m where m: "mget zero_Member (tb_members t) (tb_selfNodeID t) = m" "m_Status m = StatusAlive"
    "m_NodeID m = tb_selfNodeID t" "m_Incarnation m \<noteq> 0"
    using assms(1) by (rule self_member)
  have t': "t' = fst (mergeSelf t now e)"
    using assms(4,5,6) by (simp add: t'_def table_Merge_def mergeEntry_eq split_beta)
  have S: "SelfEntry t' = (SelfEntry t)\<lparr>e_Incarnation :=
      (if m_Incarnation m \<le> e_Incarnation e then e_Incarnation e + 1 else m_Incarnation m)\<rparr>"
    using m assms(7,11)
    by (auto simp: t' SelfEntry_def mergeSelf_def Let_def entryOf_def incrementIncarnation_def)
  have lt: "e_Incarnation e < e_Incarnation (SelfEntry t')"
    using word_le_add1 [OF assms(11)] by (auto simp: S not_le)
  have id: "e_NodeID (SelfEntry t') = tb_selfNodeID t" "e_Status (SelfEntry t') = StatusAlive"
    using m by (simp_all add: S) (simp_all add: SelfEntry_def entryOf_def)
  have tr: "trimEntry (SelfEntry t') = SelfEntry t'"
    using assms(4,6,10) id(1) by (simp add: trimEntry_def validEntry_def S)
  have "validEntry (SelfEntry t')"
    using assms(4,6,9) id lt by (auto simp: validEntry_def S split: if_splits)
  then have v: "entry_view (tb_selfNodeID u) (SelfEntry t') (tb_selfNodeID t) =
      Some (e_Incarnation (SelfEntry t'), StatusAlive)"
    using tr id assms(3) by (simp add: entry_view_def)
  have "view (fst (table_Merge u now' [SelfEntry t'])) (tb_selfNodeID t) =
      max (view u (tb_selfNodeID t)) (Some (e_Incarnation (SelfEntry t'), StatusAlive))"
    using fun_cong [OF table_Merge_view [OF assms(2), of now' "[SelfEntry t']"], of "tb_selfNodeID t"]
      assms(3) v by (simp add: view_join_def) (simp add: peer_view_def)
  also have "\<dots> = Some (e_Incarnation (SelfEntry t'), StatusAlive)"
    using assms(8) lt by (simp add: max_def)
  finally show ?thesis using lt id by simp
qed

theorem refutation_witness:
  "view (fst (table_Merge (fst (table_Merge (newTable time_zero ''b'' ''h:2'' 1) time_zero
        [\<lparr>e_NodeID = ''a'', e_Endpoint = ''h:1'', e_Status = StatusDead, e_Incarnation = 9\<rparr>])) time_zero
      [SelfEntry (fst (table_Merge ex_table time_zero
        [\<lparr>e_NodeID = ''a'', e_Endpoint = ''h:1'', e_Status = StatusDead, e_Incarnation = 9\<rparr>]))])) ''a'' =
   Some (e_Incarnation (SelfEntry (fst (table_Merge ex_table time_zero
        [\<lparr>e_NodeID = ''a'', e_Endpoint = ''h:1'', e_Status = StatusDead, e_Incarnation = 9\<rparr>]))), StatusAlive)"
proof -
  let ?e = "\<lparr>e_NodeID = ''a'', e_Endpoint = ''h:1'', e_Status = StatusDead, e_Incarnation = 9\<rparr>"
  let ?u = "fst (table_Merge (newTable time_zero ''b'' ''h:2'' 1) time_zero [?e])"
  have u: "table_wf ?u" using table_Merge_wf [OF newTable_wf] by blast
  have s: "tb_selfNodeID ex_table = ''a''" by code_simp
  have h: "tb_selfNodeID ?u \<noteq> tb_selfNodeID ex_table" "validEntry ?e" "trimEntry ?e = ?e"
    "e_NodeID ?e = tb_selfNodeID ex_table" "e_Status ?e \<noteq> StatusAlive"
    "view ?u (tb_selfNodeID ex_table) = Some (e_Incarnation ?e, e_Status ?e)"
    "validMembershipEndpoint (e_Endpoint (SelfEntry ex_table))"
    "TrimSpace (e_Endpoint (SelfEntry ex_table)) = e_Endpoint (SelfEntry ex_table)"
    "e_Incarnation ?e \<noteq> max_uint64"
    by code_simp+
  show ?thesis
    using refutation [OF ex_table_wf u h, where now = time_zero and now' = time_zero] unfolding s by blast
qed

text \<open>
  C24. \<open>ApplyTimeouts\<close> never touches the node itself nor any incarnation; for every other member
  it makes the status dead once the silence reaches \<open>deadAfter\<close>, at least suspect once it reaches
  \<open>suspectAfter\<close>, and otherwise leaves it alone, so it never revives anyone.
\<close>

theorem ApplyTimeouts_exact:
  assumes "table_wf t" "map_of (tb_members t) n = Some m"
  shows "view (ApplyTimeouts t now suspectAfter deadAfter) n =
    Some (m_Incarnation m,
      if n = tb_selfNodeID t then StatusAlive
      else if deadAfter \<le> time_Sub now (m_LastSeen m) then StatusDead
      else if suspectAfter \<le> time_Sub now (m_LastSeen m) then max StatusSuspect (m_Status m)
      else m_Status m)"
proof -
  have "status_known (m_Status m)" "n = tb_selfNodeID t \<Longrightarrow> m_Status m = StatusAlive"
    using table_wf_member [OF assms] by (auto simp: member_ok_def status_known_def split: if_splits)
  then show ?thesis
    using assms(2)
    by (auto simp: view_def map_of_ApplyTimeouts timeoutMember_def Let_def max_suspect)
qed

theorem ApplyTimeouts_exact_witness:
  "view (ApplyTimeouts ex_table time_zero 1 2) ''a'' = Some (4, StatusAlive)"
proof -
  obtain m where m: "map_of (tb_members ex_table) ''a'' = Some m" "m_Incarnation m = 4"
    "tb_selfNodeID ex_table = ''a''"
    by (auto simp: ex_table_def newTable_def Let_def)
  show ?thesis using ApplyTimeouts_exact [OF ex_table_wf m(1)] m by simp
qed

text \<open>
  A missed probe can revive a dead member to suspect at the same incarnation: a member that
  gossip declared dead has a missed counter of zero, and \<open>MarkMissedByEndpoint\<close> sets it to
  suspect when the counter passes \<open>suspectAfter\<close>, against the rule stated for \<open>Merge\<close> that
  failure states only move forward.
\<close>

lemma missed_probe_regresses:
  "\<exists>t endpoint n i. table_wf t \<and> view t n = Some (i, StatusDead) \<and>
     view (MarkMissedByEndpoint t endpoint 1 3) n = Some (i, StatusSuspect)"
proof -
  let ?t = "fst (table_Merge ex_table time_zero [ex_entry ''b'' StatusDead 2])"
  have "table_wf ?t" using table_Merge_wf [OF ex_table_wf] by blast
  moreover have "view ?t ''b'' = Some (2, StatusDead)"
    "view (MarkMissedByEndpoint ?t ''h:2'' 1 3) ''b'' = Some (2, StatusSuspect)"
    by code_simp+
  ultimately show ?thesis by blast
qed

end
