(* ===== verification/Endpoints.thy ===== *)
theory Endpoints
  imports GoText
begin

text \<open>
  Comparison of host:port endpoints, as \<open>internal/gossip/delta\<close> and \<open>internal/membership\<close> do it.
\<close>

definition normalizeLocalHost :: "string \<Rightarrow> string" where
  "normalizeLocalHost host =
     (if TrimSpace host \<in> {'''', ''localhost'', ''127.0.0.1'', ''0.0.0.0'', ''::1'', ''[::1]''} then ''localhost''
      else host)"

definition sameEndpoint :: "string \<Rightarrow> string \<Rightarrow> bool" where
  "sameEndpoint left right =
     (case SplitHostPort left of
        None \<Rightarrow> False
      | Some (leftHost, leftPort) \<Rightarrow>
          (case SplitHostPort right of
             None \<Rightarrow> False
           | Some (rightHost, rightPort) \<Rightarrow>
               leftPort = rightPort \<and> normalizeLocalHost leftHost = normalizeLocalHost rightHost))"

definition isSelfPeer :: "string \<Rightarrow> string \<Rightarrow> string \<Rightarrow> bool" where
  "isSelfPeer peer nodeID selfEndpoint \<longleftrightarrow>
     (case SplitHostPort peer of None \<Rightarrow> False | Some (host, _) \<Rightarrow> TrimSpace host = nodeID) \<or>
     sameEndpoint peer selfEndpoint"

lemma sameEndpoint_commute: "sameEndpoint a b = sameEndpoint b a"
  by (auto simp: sameEndpoint_def split: option.splits)

lemma sameEndpoint_self: "sameEndpoint a a \<longleftrightarrow> SplitHostPort a \<noteq> None"
  by (auto simp: sameEndpoint_def split: option.splits)

end
