(* ===== verification/Bootstrap.thy ===== *)
theory Bootstrap
  imports Membership Transport Endpoints
begin

text \<open>
  \<open>internal/membership/bootstrap.go\<close>: joining seeds, the listener that answers pings, and the
  gossip round of the membership protocol.

  A bootstrapper is passed explicitly.  The clocks and the shuffles a call makes, the outcome of its
  socket calls and the frames it reads are arguments; what it sends or hands to the envelope handler
  is part of its result.  Errors are only logged by the callers, so a wrapped error is its cause and
  an error made in place is its constant text.
\<close>

section \<open>State and payloads\<close>

definition joinAttempts :: nat where "joinAttempts = 4"
definition suspectAfterMiss :: int where "suspectAfterMiss = 3"
definition deadAfterMiss :: int where "deadAfterMiss = 6"
definition suspectAfterTicks :: int where "suspectAfterTicks = 3"
definition deadAfterTicks :: int where "deadAfterTicks = 6"
definition maxDisseminatedMembership :: nat where "maxDisseminatedMembership = 64"
definition membershipProtocolVersion :: string where "membershipProtocolVersion = ''v2''"

record Bootstrapper =
  bt_nodeID :: string
  bt_bindAddr :: string
  bt_seeds :: "string list"
  bt_fanout :: int
  bt_gossipInterval :: duration
  bt_table :: Table
  bt_seq :: u64
  bt_hasHandler :: bool

record pingPayload =
  pp_NodeID :: string
  pp_Endpoint :: string
  pp_Incarnation :: u64
  pp_Membership :: "Entry list"

record ackPayload =
  ap_AckedSeq :: u64
  ap_Status :: string
  ap_Reason :: string
  ap_Endpoint :: string
  ap_Incarnation :: u64
  ap_Membership :: "Entry list"

record boot_env =
  be_mergeNow :: gotime
  be_observeNow :: gotime
  be_stamp :: gotime
  be_shuffle :: "Entry list \<Rightarrow> Entry list"

definition enc_Entry :: "Entry \<Rightarrow> json" where
  "enc_Entry e = JObj
     [(''node_id'', JStr (e_NodeID e)), (''endpoint'', JStr (e_Endpoint e)),
      (''status'', JStr (status_text (e_Status e))), (''incarnation'', enc_uint64 (e_Incarnation e))]"

definition zero_Entry :: Entry where
  "zero_Entry = \<lparr>e_NodeID = [], e_Endpoint = [], e_Status = StatusOther [], e_Incarnation = 0\<rparr>"

definition dec_Status :: "Status decoder" where
  "dec_Status old j = (case j of JNull \<Rightarrow> Some old | JStr s \<Rightarrow> Some (status_of_text s) | _ \<Rightarrow> None)"

definition dec_Entry :: "Entry decoder" where
  "dec_Entry = decode_struct
     [(''node_id'', field e_NodeID e_NodeID_update dec_string),
      (''endpoint'', field e_Endpoint e_Endpoint_update dec_string),
      (''status'', field e_Status e_Status_update dec_Status),
      (''incarnation'', field e_Incarnation e_Incarnation_update dec_uint64)]"

definition enc_pingPayload :: "pingPayload \<Rightarrow> json" where
  "enc_pingPayload p = JObj
     ([(''node_id'', JStr (pp_NodeID p)), (''endpoint'', JStr (pp_Endpoint p)),
       (''incarnation'', enc_uint64 (pp_Incarnation p))] @
      omitempty (pp_Membership p = []) ''membership'' (JArr (map enc_Entry (pp_Membership p))))"

definition zero_pingPayload :: pingPayload where
  "zero_pingPayload = \<lparr>pp_NodeID = [], pp_Endpoint = [], pp_Incarnation = 0, pp_Membership = []\<rparr>"

definition dec_pingPayload :: "pingPayload decoder" where
  "dec_pingPayload = decode_struct
     [(''node_id'', field pp_NodeID pp_NodeID_update dec_string),
      (''endpoint'', field pp_Endpoint pp_Endpoint_update dec_string),
      (''incarnation'', field pp_Incarnation pp_Incarnation_update dec_uint64),
      (''membership'', field pp_Membership pp_Membership_update (dec_slice zero_Entry dec_Entry))]"

definition enc_ackPayload :: "ackPayload \<Rightarrow> json" where
  "enc_ackPayload p = JObj
     ([(''acked_seq'', enc_uint64 (ap_AckedSeq p)), (''status'', JStr (ap_Status p))] @
      omitempty (ap_Reason p = []) ''reason'' (JStr (ap_Reason p)) @
      [(''endpoint'', JStr (ap_Endpoint p)), (''incarnation'', enc_uint64 (ap_Incarnation p))] @
      omitempty (ap_Membership p = []) ''membership'' (JArr (map enc_Entry (ap_Membership p))))"

definition zero_ackPayload :: ackPayload where
  "zero_ackPayload =
     \<lparr>ap_AckedSeq = 0, ap_Status = [], ap_Reason = [], ap_Endpoint = [], ap_Incarnation = 0, ap_Membership = []\<rparr>"

definition dec_ackPayload :: "ackPayload decoder" where
  "dec_ackPayload = decode_struct
     [(''acked_seq'', field ap_AckedSeq ap_AckedSeq_update dec_uint64),
      (''status'', field ap_Status ap_Status_update dec_string),
      (''reason'', field ap_Reason ap_Reason_update dec_string),
      (''endpoint'', field ap_Endpoint ap_Endpoint_update dec_string),
      (''incarnation'', field ap_Incarnation ap_Incarnation_update dec_uint64),
      (''membership'', field ap_Membership ap_Membership_update (dec_slice zero_Entry dec_Entry))]"

section \<open>Endpoints\<close>

text \<open>Unlike its namesake of the gossip runtime, this one trims every host.\<close>

definition mb_normalizeLocalHost :: "string \<Rightarrow> string" where
  "mb_normalizeLocalHost h =
     (let host = TrimSpace h
      in if host \<in> {'''', ''localhost'', ''127.0.0.1'', ''0.0.0.0'', ''::1'', ''[::1]''} then ''localhost'' else host)"

definition mb_sameEndpoint :: "string \<Rightarrow> string \<Rightarrow> bool" where
  "mb_sameEndpoint left right =
     (case SplitHostPort left of
        None \<Rightarrow> False
      | Some (leftHost, leftPort) \<Rightarrow>
          (case SplitHostPort right of
             None \<Rightarrow> False
           | Some (rightHost, rightPort) \<Rightarrow>
               leftPort = rightPort \<and> mb_normalizeLocalHost leftHost = mb_normalizeLocalHost rightHost))"

definition isSelfSeed :: "Bootstrapper \<Rightarrow> string \<Rightarrow> bool" where
  "isSelfSeed b seed =
     (case SplitHostPort seed of
        None \<Rightarrow> False
      | Some (host, _) \<Rightarrow> TrimSpace host = bt_nodeID b \<or> mb_sameEndpoint seed (bt_bindAddr b))"

definition advertisedEndpoint :: "string \<Rightarrow> string \<Rightarrow> string list \<Rightarrow> string" where
  "advertisedEndpoint nodeID bindAddr seeds =
     (case find (\<lambda>seed. case SplitHostPort (TrimSpace seed) of None \<Rightarrow> False | Some (host, _) \<Rightarrow> TrimSpace host = nodeID) seeds of
        Some seed \<Rightarrow> TrimSpace seed
      | None \<Rightarrow>
          (case SplitHostPort (TrimSpace bindAddr) of
             None \<Rightarrow> TrimSpace bindAddr
           | Some (host, port) \<Rightarrow>
               if TrimSpace host \<in> {'''', ''0.0.0.0'', ''::'', ''[::]''} then JoinHostPort nodeID port
               else TrimSpace bindAddr))"

definition NewBootstrapper ::
  "gotime \<Rightarrow> int \<Rightarrow> string \<Rightarrow> string \<Rightarrow> string list \<Rightarrow> duration \<Rightarrow> int \<Rightarrow> Bootstrapper" where
  "NewBootstrapper now unixNano nodeID bindAddr seeds gossipInterval fanout =
     \<lparr>bt_nodeID = nodeID, bt_bindAddr = bindAddr, bt_seeds = seeds, bt_fanout = fanout,
      bt_gossipInterval = gossipInterval,
      bt_table = NewTable now unixNano nodeID (advertisedEndpoint nodeID bindAddr seeds),
      bt_seq = 0, bt_hasHandler = False\<rparr>"

definition SetEnvelopeHandler :: "Bootstrapper \<Rightarrow> bool \<Rightarrow> Bootstrapper" where
  "SetEnvelopeHandler b handler = b\<lparr>bt_hasHandler := handler\<rparr>"

section \<open>Messages\<close>

definition disseminatedMembership :: "boot_env \<Rightarrow> Bootstrapper \<Rightarrow> Entry list" where
  "disseminatedMembership env b =
     (let entries = Entries (bt_table b)
      in if length entries \<le> maxDisseminatedMembership then entries
         else
           (let self = SelfEntry (bt_table b);
                others = filter (\<lambda>entry. e_NodeID entry \<noteq> e_NodeID self) entries
            in self # take (maxDisseminatedMembership - 1) (be_shuffle env others)))"

definition newPingPayload :: "boot_env \<Rightarrow> Bootstrapper \<Rightarrow> pingPayload" where
  "newPingPayload env b =
     (let self = SelfEntry (bt_table b)
      in \<lparr>pp_NodeID = e_NodeID self, pp_Endpoint = e_Endpoint self, pp_Incarnation = e_Incarnation self,
          pp_Membership = disseminatedMembership env b\<rparr>)"

definition newAckPayload :: "boot_env \<Rightarrow> Bootstrapper \<Rightarrow> u64 \<Rightarrow> ackPayload" where
  "newAckPayload env b ackedSeq =
     (let self = SelfEntry (bt_table b)
      in \<lparr>ap_AckedSeq = ackedSeq, ap_Status = ''accepted'', ap_Reason = [], ap_Endpoint = e_Endpoint self,
          ap_Incarnation = e_Incarnation self, ap_Membership = disseminatedMembership env b\<rparr>)"

text \<open>The payloads always marshal.\<close>

definition mb_newEnvelope :: "boot_env \<Rightarrow> Bootstrapper \<Rightarrow> string \<Rightarrow> json \<Rightarrow> Bootstrapper \<times> Envelope" where
  "mb_newEnvelope env b messageType payload =
     (b\<lparr>bt_seq := bt_seq b + 1\<rparr>,
      \<lparr>ev_Type = messageType, ev_Seq = bt_seq b + 1, ev_Timestamp = FormatRFC3339Nano (time_UTC (be_stamp env)),
       ev_From = bt_nodeID b, ev_Checksum = [], ev_TraceID = [], ev_CorrelationID = [],
       ev_Version = membershipProtocolVersion, ev_Payload = json_text payload\<rparr>)"

definition decodePing :: "Envelope \<Rightarrow> go_error + pingPayload" where
  "decodePing message =
     (if ev_Version message \<noteq> membershipProtocolVersion then Inl (ErrText ''unsupported membership protocol version'')
      else
        (case unmarshal dec_pingPayload zero_pingPayload (ev_Payload message) of
           None \<Rightarrow> Inl JsonError
         | Some payload \<Rightarrow>
             if TrimSpace (pp_NodeID payload) = [] then Inl (ErrText ''empty ping node_id'')
             else if pp_NodeID payload \<noteq> ev_From message then Inl (ErrText ''ping node_id does not match envelope from'')
             else if \<not> validMembershipEndpoint (TrimSpace (pp_Endpoint payload)) then Inl (ErrText ''invalid ping endpoint'')
             else if pp_Incarnation payload = 0 then Inl (ErrText ''zero ping incarnation'')
             else Inr payload))"

definition decodeAcceptedAck :: "Envelope \<Rightarrow> u64 \<Rightarrow> go_error + ackPayload" where
  "decodeAcceptedAck message expectedSeq =
     (if ev_Version message \<noteq> membershipProtocolVersion then Inl (ErrText ''unsupported membership protocol version'')
      else
        (case unmarshal dec_ackPayload zero_ackPayload (ev_Payload message) of
           None \<Rightarrow> Inl JsonError
         | Some payload \<Rightarrow>
             if ap_AckedSeq payload \<noteq> expectedSeq then Inl (ErrText ''unexpected ACK sequence'')
             else if ap_Status payload \<noteq> ''accepted'' then
               (if ap_Reason payload \<noteq> [] then Inl (ErrText (''ACK rejected: '' @ ap_Reason payload))
                else Inl (ErrText ''ACK rejected''))
             else if TrimSpace (ev_From message) = [] then Inl (ErrText ''empty peer node_id in ACK'')
             else if \<not> validMembershipEndpoint (TrimSpace (ap_Endpoint payload)) then Inl (ErrText ''invalid peer endpoint in ACK'')
             else if ap_Incarnation payload = 0 then Inl (ErrText ''zero peer incarnation in ACK'')
             else Inr payload))"

section \<open>The listener\<close>

datatype listener_out = AckTo string string | Dispatched Envelope

definition dispatchEnvelope :: "Bootstrapper \<Rightarrow> Envelope \<Rightarrow> listener_out list" where
  "dispatchEnvelope b message = (if \<not> bt_hasHandler b then [] else [Dispatched message])"

text \<open>
  One turn of the listener's loop on what \<open>NextFrame\<close> answered; the last component says that the
  loop ends.  A failing send of the acknowledgement is only logged.
\<close>

definition listenerTurn ::
  "boot_env \<Rightarrow> bool \<Rightarrow> Bootstrapper \<Rightarrow> go_error + string \<times> string \<Rightarrow> Bootstrapper \<times> listener_out list \<times> bool" where
  "listenerTurn env cancelled b res =
     (case res of
        Inl _ \<Rightarrow> (b, [], cancelled)
      | Inr (remotePeer, frame) \<Rightarrow>
          (case codec_Decode frame of
             Inl _ \<Rightarrow> (b, [], False)
           | Inr message \<Rightarrow>
               if ev_Type message \<noteq> ''Ping'' then (b, dispatchEnvelope b message, False)
               else if ev_From message = bt_nodeID b then (b, [], False)
               else
                 (case decodePing message of
                    Inl _ \<Rightarrow> (b, [], False)
                  | Inr ping \<Rightarrow>
                      (let t1 = fst (table_Merge (bt_table b) (be_mergeNow env) (pp_Membership ping));
                           t2 = fst (ObserveAlive t1 (be_observeNow env) (ev_From message) (pp_Endpoint ping) (pp_Incarnation ping));
                           b1 = b\<lparr>bt_table := t2\<rparr>;
                           (b2, ack) = mb_newEnvelope env b1 ''Ack'' (enc_ackPayload (newAckPayload env b1 (ev_Seq message)))
                       in case codec_Encode ack of
                            Inl _ \<Rightarrow> (b2, [], False)
                          | Inr ackFrame \<Rightarrow> (b2, [AckTo remotePeer ackFrame], False)))))"

section \<open>Joining\<close>

text \<open>
  The socket of one join: whether it opens, how \<open>SendFrame\<close> ends, and what \<open>NextFrame\<close> answers in
  turn; after the listed answers the deadline of two seconds has passed.
\<close>

record join_io =
  jo_open :: bool
  jo_send :: "go_error option"
  jo_frames :: "(go_error + string \<times> string) list"

definition acceptAck :: "boot_env \<Rightarrow> Bootstrapper \<Rightarrow> string \<Rightarrow> Envelope \<Rightarrow> ackPayload \<Rightarrow> Bootstrapper" where
  "acceptAck env b seed ack payload =
     (let t1 = fst (table_Merge (bt_table b) (be_mergeNow env) (ap_Membership payload));
          t2 = fst (ObserveAlive t1 (be_observeNow env) (ev_From ack) (ap_Endpoint payload) (ap_Incarnation payload))
      in b\<lparr>bt_table := AssociateTarget t2 (ev_From ack) seed\<rparr>)"

fun ackLoop ::
  "boot_env \<Rightarrow> Bootstrapper \<Rightarrow> string \<Rightarrow> u64 \<Rightarrow> (go_error + string \<times> string) list \<Rightarrow> Bootstrapper \<times> (go_error + string)" where
  "ackLoop env b seed pingSeq [] = (b, Inl ContextDone)"
| "ackLoop env b seed pingSeq (Inl e # fs) = (b, Inl e)"
| "ackLoop env b seed pingSeq (Inr (peer, ackFrame) # fs) =
     (case codec_Decode ackFrame of
        Inl e \<Rightarrow> (b, Inl e)
      | Inr ack \<Rightarrow>
          if ev_Type ack \<noteq> ''Ack'' then ackLoop env b seed pingSeq fs
          else if ev_From ack = bt_nodeID b then (b, Inl (ErrText ''duplicate node_id in membership ACK''))
          else
            (case decodeAcceptedAck ack pingSeq of
               Inl e \<Rightarrow> (b, Inl e)
             | Inr payload \<Rightarrow> (acceptAck env b seed ack payload, Inr (ev_From ack))))"

definition newPing :: "boot_env \<Rightarrow> Bootstrapper \<Rightarrow> Bootstrapper \<times> Envelope" where
  "newPing env b = mb_newEnvelope env b ''Ping'' (enc_pingPayload (newPingPayload env b))"

definition joinSeed :: "boot_env \<Rightarrow> join_io \<Rightarrow> Bootstrapper \<Rightarrow> string \<Rightarrow> Bootstrapper \<times> (go_error + string)" where
  "joinSeed env io b seed =
     (if \<not> jo_open io then (b, Inl IOError)
      else
        (let (b1, ping) = newPing env b
         in case codec_Encode ping of
              Inl e \<Rightarrow> (b1, Inl e)
            | Inr frame \<Rightarrow>
                (case jo_send io of
                   Some e \<Rightarrow> (b1, Inl e)
                 | None \<Rightarrow> ackLoop env b1 seed (ev_Seq ping) (jo_frames io))))"

text \<open>
  Attempt by attempt, what the join met and whether the context was cancelled during the back-off
  after it.  The back-off before the next attempt is \<open>attempt\<close> seconds.
\<close>

type_synonym attempts = "nat \<Rightarrow> boot_env \<times> join_io \<times> bool"

function attemptLoop :: "attempts \<Rightarrow> nat \<Rightarrow> Bootstrapper \<Rightarrow> string \<Rightarrow> go_error \<Rightarrow> Bootstrapper \<times> (go_error + string)" where
  "attemptLoop io attempt b seed lastErr =
     (if attempt > joinAttempts then (b, Inl lastErr)
      else
        (let (env, jio, cancelled) = io attempt
         in case joinSeed env jio b seed of
              (b1, Inr peerNodeID) \<Rightarrow> (b1, Inr peerNodeID)
            | (b1, Inl err) \<Rightarrow>
                if attempt = joinAttempts then (b1, Inl err)
                else if cancelled then (b1, Inl ContextDone)
                else attemptLoop io (attempt + 1) b1 seed err))"
  by pat_completeness auto
termination
  by (relation "measure (\<lambda>(io, attempt, b, seed, e). joinAttempts + 1 - attempt)") auto

declare attemptLoop.simps [simp del]

definition joinSeedWithRetry :: "attempts \<Rightarrow> Bootstrapper \<Rightarrow> string \<Rightarrow> Bootstrapper \<times> (go_error + string)" where
  "joinSeedWithRetry io b seed = attemptLoop io 1 b seed ContextDone"

text \<open>Seed by seed, whether the context is cancelled before it and the attempts made on it.\<close>

fun joinSeedsLoop :: "(nat \<Rightarrow> bool \<times> attempts) \<Rightarrow> nat \<Rightarrow> Bootstrapper \<Rightarrow> string list \<Rightarrow> Bootstrapper" where
  "joinSeedsLoop io i b [] = b"
| "joinSeedsLoop io i b (seed # seeds) =
     (if fst (io i) then b
      else if isSelfSeed b seed then joinSeedsLoop io (i + 1) b seeds
      else joinSeedsLoop io (i + 1) (fst (joinSeedWithRetry (snd (io i)) b seed)) seeds)"

text \<open>
  One step, with the network's answers as its arguments; the code waits for them between the
  operations on the table, each of which keeps the invariant by itself.
\<close>

definition JoinSeeds :: "(nat \<Rightarrow> bool \<times> attempts) \<Rightarrow> Bootstrapper \<Rightarrow> Bootstrapper" where
  "JoinSeeds io b = (if bt_seeds b = [] then b else joinSeedsLoop io 0 b (bt_seeds b))"

section \<open>The gossip round\<close>

fun seedCandidates :: "Bootstrapper \<Rightarrow> string list \<Rightarrow> string list" where
  "seedCandidates b [] = []"
| "seedCandidates b (seed # seeds) =
     (if isSelfSeed b seed \<or> TrimSpace seed = [] then seedCandidates b seeds else TrimSpace seed # seedCandidates b seeds)"

fun memberCandidates :: "Bootstrapper \<Rightarrow> string list \<Rightarrow> string list \<Rightarrow> string list" where
  "memberCandidates b [] cands = cands"
| "memberCandidates b (endpoint # es) cands =
     memberCandidates b es (if isSelfSeed b endpoint \<or> endpoint \<in> set cands then cands else cands @ [endpoint])"

text \<open>The map of alive peers is read in list order, which stands for Go's iteration order.\<close>

definition mb_samplePeers :: "(string list \<Rightarrow> string list) \<Rightarrow> Bootstrapper \<Rightarrow> string list" where
  "mb_samplePeers shuffle b =
     (let cands = memberCandidates b (map snd (AlivePeerEndpoints (bt_table b))) (seedCandidates b (bt_seeds b))
      in if int (length cands) \<le> bt_fanout b then cands else take (nat (bt_fanout b)) (shuffle cands))"

text \<open>Peer by peer; the flag says that the context was cancelled before that peer, which ends the round.\<close>

fun pingLoop :: "(nat \<Rightarrow> bool \<times> boot_env \<times> join_io) \<Rightarrow> nat \<Rightarrow> Bootstrapper \<Rightarrow> string list \<Rightarrow> Bootstrapper \<times> bool" where
  "pingLoop io i b [] = (b, False)"
| "pingLoop io i b (peer # peers) =
     (let (cancelled, env, jio) = io i
      in if cancelled then (b, True)
         else
           (case joinSeed env jio b peer of
              (b1, Inr _) \<Rightarrow> pingLoop io (i + 1) b1 peers
            | (b1, Inl _) \<Rightarrow>
                pingLoop io (i + 1)
                  (b1\<lparr>bt_table := MarkMissedByEndpoint (bt_table b1) peer suspectAfterMiss deadAfterMiss\<rparr>) peers))"

definition gossipOnce ::
  "(string list \<Rightarrow> string list) \<Rightarrow> (nat \<Rightarrow> bool \<times> boot_env \<times> join_io) \<Rightarrow> gotime \<Rightarrow> Bootstrapper \<Rightarrow> Bootstrapper" where
  "gossipOnce shuffle io now b =
     (case pingLoop io 0 b (mb_samplePeers shuffle b) of
        (b1, True) \<Rightarrow> b1
      | (b1, False) \<Rightarrow>
          b1\<lparr>bt_table := ApplyTimeouts (bt_table b1) (time_UTC now) (int64 (suspectAfterTicks * bt_gossipInterval b1))
               (int64 (deadAfterTicks * bt_gossipInterval b1))\<rparr>)"

text \<open>One turn of \<open>StartGossipLoop\<close>; \<open>stop\<close> says that the \<open>select\<close> took the case of the cancelled context.\<close>

definition gossipTurn ::
  "bool \<Rightarrow> (string list \<Rightarrow> string list) \<Rightarrow> (nat \<Rightarrow> bool \<times> boot_env \<times> join_io) \<Rightarrow> gotime \<Rightarrow> Bootstrapper \<Rightarrow> Bootstrapper \<times> bool" where
  "gossipTurn stop shuffle io now b = (if stop then (b, True) else (gossipOnce shuffle io now b, False))"

definition MembersSnapshot :: "Bootstrapper \<Rightarrow> Member list" where
  "MembersSnapshot b = table_Snapshot (bt_table b)"

definition bt_AlivePeerEndpoints :: "Bootstrapper \<Rightarrow> (string, string) gomap" where
  "bt_AlivePeerEndpoints b = AlivePeerEndpoints (bt_table b)"

section \<open>What the table operations keep of the node itself\<close>

abbreviation own_inc :: "Table \<Rightarrow> u64" where
  "own_inc t \<equiv> e_Incarnation (SelfEntry t)"

definition table_next :: "Table \<Rightarrow> Table \<Rightarrow> bool" where
  "table_next t t' \<longleftrightarrow> table_wf t' \<and> tb_selfNodeID t' = tb_selfNodeID t \<and>
     e_Endpoint (SelfEntry t') = e_Endpoint (SelfEntry t) \<and> own_inc t \<le> own_inc t'"

lemma table_next_refl: "table_wf t \<Longrightarrow> table_next t t"
  by (simp add: table_next_def)

lemma table_next_trans: "table_next a b \<Longrightarrow> table_next b c \<Longrightarrow> table_next a c"
  by (auto simp: table_next_def intro: order_trans)

lemma table_next_same:
  "table_wf t' \<Longrightarrow> tb_selfNodeID t' = tb_selfNodeID t \<Longrightarrow>
   map_of (tb_members t') (tb_selfNodeID t) = map_of (tb_members t) (tb_selfNodeID t) \<Longrightarrow> table_next t t'"
  by (simp add: table_next_def SelfEntry_def mget_def)

lemma incrementIncarnation_ge: "v \<le> incrementIncarnation v"
  by (simp add: incrementIncarnation_def word_le_nat_alt unat_Suc_no_wrap)

lemma mergeEntry_next:
  assumes "table_wf t"
  shows "table_next t (fst (mergeEntry t now e))"
proof (cases "validEntry (trimEntry e)")
  case False
  with assms show ?thesis by (simp add: mergeEntry_eq table_next_refl)
next
  case True
  note w = mergeEntry_spec(1,2) [OF assms, of now e]
  show ?thesis
  proof (cases "e_NodeID (trimEntry e) = tb_selfNodeID t")
    case False
    then have "map_of (tb_members (fst (mergeEntry t now e))) (tb_selfNodeID t) = map_of (tb_members t) (tb_selfNodeID t)"
      using True by (auto simp: mergeEntry_eq mergeOther_def Let_def)
    with w show ?thesis by (intro table_next_same)
  next
    case self: True
    have "e_Endpoint (SelfEntry (fst (mergeSelf t now f))) = e_Endpoint (SelfEntry t) \<and> own_inc t \<le> own_inc (fst (mergeSelf t now f))" for f
      using incrementIncarnation_ge [of "e_Incarnation f"]
      by (auto simp: mergeSelf_def Let_def SelfEntry_def entryOf_def intro: order_trans)
    with w True self show ?thesis by (simp add: table_next_def mergeEntry_eq)
  qed
qed

lemma mergeLoop_next: "table_wf t \<Longrightarrow> table_next t (fst (mergeLoop t now es c))"
proof (induction es arbitrary: t c)
  case (Cons e es)
  obtain t1 b where t1: "mergeEntry t now e = (t1, b)" by fastforce
  with mergeEntry_next [OF Cons.prems, of now e] have n: "table_next t t1" by simp
  then have "table_wf t1" by (simp add: table_next_def)
  from table_next_trans [OF n Cons.IH [OF this]] t1 show ?case by simp
qed (simp add: table_next_refl)

lemma ops_next:
  assumes "table_wf t"
  shows "table_next t (fst (table_Merge t now es))" "table_next t (fst (ObserveAlive t now n ep inc))"
    "table_next t (AssociateTarget t n x)" "table_next t (MarkMissedByEndpoint t x a b)" "table_next t (ApplyTimeouts t now d f)"
proof -
  show "table_next t (fst (table_Merge t now es))" unfolding table_Merge_def using assms by (rule mergeLoop_next)
  show "table_next t (fst (ObserveAlive t now n ep inc))"
    using ObserveAlive_wf [OF assms] by (intro table_next_same) (auto simp: ObserveAlive_def Let_def)
  show "table_next t (AssociateTarget t n x)"
    using AssociateTarget_wf [OF assms] by (intro table_next_same) (auto simp: AssociateTarget_def Let_def)
  show "table_next t (MarkMissedByEndpoint t x a b)"
    using MarkMissed_wf [OF assms] by (intro table_next_same) (auto simp: MarkMissedByEndpoint_def split: option.split)
  show "table_next t (ApplyTimeouts t now d f)"
    using ApplyTimeouts_wf [OF assms]
    by (intro table_next_same) (simp, simp add: ApplyTimeouts_def, simp add: map_of_ApplyTimeouts option.map_ident)
qed

section \<open>Invariant of the bootstrapper\<close>

definition boot_wf :: "Bootstrapper \<Rightarrow> bool" where
  "boot_wf b \<longleftrightarrow> table_wf (bt_table b) \<and> tb_selfNodeID (bt_table b) = bt_nodeID b"

definition boot_next :: "Bootstrapper \<Rightarrow> Bootstrapper \<Rightarrow> bool" where
  "boot_next b b' \<longleftrightarrow> table_next (bt_table b) (bt_table b') \<and> bt_nodeID b' = bt_nodeID b \<and> bt_bindAddr b' = bt_bindAddr b \<and>
     bt_seeds b' = bt_seeds b \<and> bt_fanout b' = bt_fanout b \<and> bt_gossipInterval b' = bt_gossipInterval b"

lemma boot_next_refl: "boot_wf b \<Longrightarrow> boot_next b b"
  by (simp add: boot_next_def boot_wf_def table_next_refl)

lemma boot_next_trans: "boot_next a b \<Longrightarrow> boot_next b c \<Longrightarrow> boot_next a c"
  by (auto simp: boot_next_def intro: table_next_trans)

lemma boot_next_wf: "boot_wf b \<Longrightarrow> boot_next b b' \<Longrightarrow> boot_wf b'"
  by (simp add: boot_next_def boot_wf_def table_next_def)

lemma boot_next_table:
  "boot_wf b \<Longrightarrow> table_next (bt_table b) t \<Longrightarrow> boot_next b (b\<lparr>bt_table := t\<rparr>)"
  by (simp add: boot_next_def)

lemma boot_next_seq [simp]: "boot_next b (b'\<lparr>bt_seq := s\<rparr>) = boot_next b b'"
  by (simp add: boot_next_def)

lemma merge_observe_next:
  assumes "table_wf t"
  shows "table_next t (fst (ObserveAlive (fst (table_Merge t now es)) now' n ep inc))"
proof -
  have "table_next t (fst (table_Merge t now es))" using ops_next(1) [OF assms] .
  moreover from this have "table_wf (fst (table_Merge t now es))" by (simp add: table_next_def)
  from ops_next(2) [OF this] have "table_next (fst (table_Merge t now es)) (fst (ObserveAlive (fst (table_Merge t now es)) now' n ep inc))" .
  ultimately show ?thesis by (rule table_next_trans)
qed

lemma listenerTurn_next:
  assumes "boot_wf b"
  shows "boot_next b (fst (listenerTurn env c b res))"
proof -
  have t: "boot_next b (b\<lparr>bt_table := fst (ObserveAlive (fst (table_Merge (bt_table b) now es)) now' n ep inc)\<rparr>)" for now es now' n ep inc
    using assms merge_observe_next by (intro boot_next_table) (auto simp: boot_wf_def)
  show ?thesis
    using boot_next_refl [OF assms] t
    by (auto simp: listenerTurn_def mb_newEnvelope_def Let_def split: sum.splits prod.splits)
qed

lemma acceptAck_next:
  assumes "boot_wf b"
  shows "boot_next b (acceptAck env b seed ack p)"
proof -
  let ?t = "fst (ObserveAlive (fst (table_Merge (bt_table b) (be_mergeNow env) (ap_Membership p))) (be_observeNow env) (ev_From ack)
    (ap_Endpoint p) (ap_Incarnation p))"
  have n: "table_next (bt_table b) ?t" using assms by (intro merge_observe_next) (simp add: boot_wf_def)
  then have "table_wf ?t" by (simp add: table_next_def)
  from table_next_trans [OF n ops_next(3) [OF this]] assms show ?thesis
    unfolding acceptAck_def Let_def by (intro boot_next_table)
qed

lemma ackLoop_next: "boot_wf b \<Longrightarrow> boot_next b (fst (ackLoop env b seed s fs))"
proof (induction env b seed s fs rule: ackLoop.induct)
  case (3 env b seed s peer f fs)
  then show ?case using boot_next_refl acceptAck_next by (auto split: sum.splits)
qed (simp_all add: boot_next_refl)

lemma joinSeed_next:
  assumes "boot_wf b"
  shows "boot_next b (fst (joinSeed env io b seed))"
proof -
  let ?b = "b\<lparr>bt_seq := bt_seq b + 1\<rparr>"
  have n: "boot_next b ?b" using boot_next_refl [OF assms] by simp
  note k = boot_next_trans [OF n ackLoop_next [OF boot_next_wf [OF assms n]]]
  show ?thesis
    using boot_next_refl [OF assms] n k
    by (auto simp: joinSeed_def newPing_def mb_newEnvelope_def Let_def split: sum.splits option.splits)
qed

lemma attemptLoop_next: "boot_wf b \<Longrightarrow> boot_next b (fst (attemptLoop io k b seed e))"
proof (induction io k b seed e rule: attemptLoop.induct)
  case (1 io k b seed e)
  obtain env jio c where io: "io k = (env, jio, c)" by (cases "io k")
  obtain b1 r where b1: "joinSeed env jio b seed = (b1, r)" by fastforce
  have n: "boot_next b b1" using joinSeed_next [OF 1(2), of env jio seed] b1 by simp
  note w = boot_next_wf [OF 1(2) n]
  show ?case
  proof (cases "k > joinAttempts \<or> k = joinAttempts \<or> c \<or> (\<exists>p. r = Inr p)")
    case True
    then show ?thesis
      using n boot_next_refl [OF 1(2)] io b1 by (subst attemptLoop.simps) (auto split: sum.splits)
  next
    case False
    then obtain err where r: "r = Inl err" by (cases r) auto
    have "boot_next b1 (fst (attemptLoop io (k + 1) b1 seed err))"
      using 1(1) [OF _ io [symmetric] refl refl b1 [symmetric] r] False w by auto
    with boot_next_trans [OF n this] False io b1 r show ?thesis by (subst attemptLoop.simps) simp
  qed
qed

lemma joinSeedsLoop_next: "boot_wf b \<Longrightarrow> boot_next b (fst (joinSeedWithRetry io b seed))"
  unfolding joinSeedWithRetry_def by (rule attemptLoop_next)

lemma JoinSeeds_next: "boot_wf b \<Longrightarrow> boot_next b (JoinSeeds io b)"
proof -
  have "boot_wf b \<Longrightarrow> boot_next b (joinSeedsLoop io i b ss)" for i ss
  proof (induction io i b ss rule: joinSeedsLoop.induct)
    case (2 io i b seed seeds)
    then show ?case
      using boot_next_refl joinSeedsLoop_next [of b] boot_next_wf boot_next_trans by (auto simp: Let_def) blast
  qed (simp add: boot_next_refl)
  then show "boot_wf b \<Longrightarrow> boot_next b (JoinSeeds io b)" by (simp add: JoinSeeds_def boot_next_refl)
qed

lemma pingLoop_next: "boot_wf b \<Longrightarrow> boot_next b (fst (pingLoop io i b ps))"
proof (induction ps arbitrary: i b)
  case (Cons p ps)
  obtain c env jio where io: "io i = (c, env, jio)" by (cases "io i")
  obtain b1 r where b1: "joinSeed env jio b p = (b1, r)" by fastforce
  have n: "boot_next b b1" using joinSeed_next [OF Cons.prems, of env jio p] b1 by simp
  note w = boot_next_wf [OF Cons.prems n]
  let ?b2 = "b1\<lparr>bt_table := MarkMissedByEndpoint (bt_table b1) p suspectAfterMiss deadAfterMiss\<rparr>"
  have m: "boot_next b1 ?b2" using w ops_next(4) by (intro boot_next_table) (auto simp: boot_wf_def)
  have ok: "boot_next b (fst (pingLoop io (i + 1) b1 ps))" using boot_next_trans [OF n Cons.IH [OF w]] .
  have missed: "boot_next b (fst (pingLoop io (i + 1) ?b2 ps))"
    using boot_next_trans [OF boot_next_trans [OF n m] Cons.IH [OF boot_next_wf [OF w m]]] .
  show ?case
    using boot_next_refl [OF Cons.prems] ok missed io b1 by (cases r) auto
qed (simp add: boot_next_refl)

lemma gossipOnce_next:
  assumes "boot_wf b"
  shows "boot_next b (gossipOnce sh io now b)"
proof -
  obtain b1 c where b1: "pingLoop io 0 b (mb_samplePeers sh b) = (b1, c)" by fastforce
  have n: "boot_next b b1" using pingLoop_next [OF assms, of io 0 "mb_samplePeers sh b"] b1 by simp
  have "boot_next b1 (b1\<lparr>bt_table := ApplyTimeouts (bt_table b1) t x y\<rparr>)" for t x y
    using boot_next_wf [OF assms n] ops_next(5) by (intro boot_next_table) (auto simp: boot_wf_def)
  with boot_next_trans [OF n] n b1 show ?thesis by (cases c) (auto simp: gossipOnce_def)
qed

text \<open>
  The steps of a bootstrapper: a turn of the listener, the joining of the seeds, a turn of the
  gossip loop, the installation of the handler.
\<close>

inductive boot_step :: "Bootstrapper \<Rightarrow> Bootstrapper \<Rightarrow> bool" where
  step_listen: "listenerTurn env c b res = (b', out, stop) \<Longrightarrow> boot_step b b'"
| step_join: "boot_step b (JoinSeeds io b)"
| step_gossip: "gossipTurn stop sh gio now b = (b', stop') \<Longrightarrow> boot_step b b'"
| step_handler: "boot_step b (SetEnvelopeHandler b h)"

lemma boot_step_next: "boot_step b b' \<Longrightarrow> boot_wf b \<Longrightarrow> boot_next b b'"
proof (induction rule: boot_step.induct)
  case (step_listen env c b res b' out stop)
  then show ?case using listenerTurn_next [of b env c res] by simp
next
  case (step_gossip stop sh gio now b b' stop')
  then show ?case using gossipOnce_next [of b] boot_next_refl [of b] by (auto simp: gossipTurn_def split: if_splits)
next
  case (step_handler b h)
  then show ?case using boot_next_refl [of b] by (simp add: SetEnvelopeHandler_def boot_next_def)
qed (rule JoinSeeds_next)

lemma boot_run_next: "boot_step\<^sup>*\<^sup>* b b' \<Longrightarrow> boot_wf b \<Longrightarrow> boot_next b b'"
  by (induction rule: rtranclp_induct) (auto intro: boot_next_refl boot_next_trans boot_step_next boot_next_wf)

lemma NewBootstrapper_wf: "boot_wf (NewBootstrapper now ns n addr seeds iv fo)"
  using newTable_wf by (auto simp: boot_wf_def NewBootstrapper_def NewTable_def) (simp add: newTable_def Let_def)

text \<open>
  C40. Whatever a bootstrapper receives, misses or times out, it lists itself as alive with the
  endpoint it advertises and an incarnation no smaller than the one it started with, offers for
  gossip only other nodes with valid ids and endpoints, pings at most its fanout in a round and puts
  at most 64 entries into a message.
\<close>

theorem bootstrap_invariant:
  assumes "boot_step\<^sup>*\<^sup>* (NewBootstrapper now ns n addr seeds iv fo) b" "0 \<le> fo"
  shows "e_NodeID (SelfEntry (bt_table b)) = n \<and> e_Status (SelfEntry (bt_table b)) = StatusAlive \<and>
    e_Endpoint (SelfEntry (bt_table b)) = TrimSpace (advertisedEndpoint n addr seeds) \<and>
    initialIncarnation ns \<le> e_Incarnation (SelfEntry (bt_table b)) \<and>
    list_all (\<lambda>(m, ep). m \<noteq> n \<and> ValidNodeID m \<and> validMembershipEndpoint ep) (bt_AlivePeerEndpoints b) \<and>
    int (length (mb_samplePeers sh b)) \<le> fo \<and> length (disseminatedMembership env b) \<le> 64"
proof -
  let ?b0 = "NewBootstrapper now ns n addr seeds iv fo"
  note nx = boot_run_next [OF assms(1) NewBootstrapper_wf]
  then have t: "table_wf (bt_table b)" "tb_selfNodeID (bt_table b) = n"
    using boot_next_wf [OF NewBootstrapper_wf nx] by (simp_all add: boot_wf_def boot_next_def NewBootstrapper_def)
  obtain m where m: "mget zero_Member (tb_members (bt_table b)) (tb_selfNodeID (bt_table b)) = m"
    "m_Status m = StatusAlive" "m_NodeID m = tb_selfNodeID (bt_table b)" using t(1) by (rule self_member)
  have s0: "SelfEntry (bt_table ?b0) = \<lparr>e_NodeID = n, e_Endpoint = TrimSpace (advertisedEndpoint n addr seeds), e_Status = StatusAlive,
      e_Incarnation = (if initialIncarnation ns = 0 then 1 else initialIncarnation ns)\<rparr>"
    by (simp add: NewBootstrapper_def NewTable_def newTable_def Let_def SelfEntry_def entryOf_def)
  have "e_Endpoint (SelfEntry (bt_table b)) = TrimSpace (advertisedEndpoint n addr seeds) \<and>
      initialIncarnation ns \<le> e_Incarnation (SelfEntry (bt_table b))"
    using nx s0 by (auto simp: boot_next_def table_next_def split: if_splits)
  moreover have "list_all (\<lambda>(m, ep). m \<noteq> n \<and> ValidNodeID m \<and> validMembershipEndpoint ep) (bt_AlivePeerEndpoints b)"
    using t by (auto simp: bt_AlivePeerEndpoints_def table_wf_def AlivePeerEndpoints_def list_all_iff member_ok_def)
  moreover have "bt_fanout b = fo" using nx by (simp add: boot_next_def NewBootstrapper_def)
  then have "int (length (mb_samplePeers sh b)) \<le> fo" using assms(2) by (auto simp: mb_samplePeers_def Let_def)
  moreover have "length (disseminatedMembership env b) \<le> 64"
    by (auto simp: disseminatedMembership_def Let_def maxDisseminatedMembership_def)
  ultimately show ?thesis using m t(2) by (simp add: SelfEntry_def entryOf_def)
qed

theorem bootstrap_invariant_witness:
  "e_Endpoint (SelfEntry (bt_table (SetEnvelopeHandler (NewBootstrapper time_zero 5 ''a'' ''0.0.0.0:7'' [''b:1''] 1 2) True))) = ''a:7''"
proof -
  let ?b = "NewBootstrapper time_zero 5 ''a'' ''0.0.0.0:7'' [''b:1''] 1 2"
  have "boot_step\<^sup>*\<^sup>* ?b (SetEnvelopeHandler ?b True)" by (rule r_into_rtranclp) (rule step_handler)
  from bootstrap_invariant [OF this, of id undefined] have
    "e_Endpoint (SelfEntry (bt_table (SetEnvelopeHandler ?b True))) = TrimSpace (advertisedEndpoint ''a'' ''0.0.0.0:7'' [''b:1''])" by simp
  moreover have "TrimSpace (advertisedEndpoint ''a'' ''0.0.0.0:7'' [''b:1'']) = ''a:7''" by code_simp
  ultimately show ?thesis by simp
qed

section \<open>Payloads survive the wire\<close>

lemma status_roundtrip: "status_known s \<Longrightarrow> status_of_text (status_text s) = s"
  by (auto simp: status_known_def status_of_text_def status_text_def)

lemma dec_enc_Entry: "status_known (e_Status e) \<Longrightarrow> dec_Entry z (enc_Entry e) = Some e"
  using status_roundtrip
  by (simp add: dec_Entry_def enc_Entry_def codec_simps dec_Status_def)

definition entries_text :: "Entry list \<Rightarrow> bool" where
  "entries_text es \<longleftrightarrow> list_all (\<lambda>e. status_known (e_Status e) \<and> utf8_valid (e_NodeID e) \<and> utf8_valid (e_Endpoint e)) es"

lemma dec_entries: "entries_text es \<Longrightarrow> dec_slice zero_Entry dec_Entry old (JArr (map enc_Entry es)) = Some es"
  by (intro dec_slice_map dec_enc_Entry) (auto simp: entries_text_def list_all_iff)

lemma json_ok_entries: "entries_text es \<Longrightarrow> Suc d < max_depth \<Longrightarrow> json_ok d (JArr (map enc_Entry es))"
  by (auto simp: entries_text_def list_all_iff enc_Entry_def status_known_def status_text_def ascii_valid)

lemma ping_roundtrip: "entries_text (pp_Membership p) \<Longrightarrow> dec_pingPayload zero_pingPayload (enc_pingPayload p) = Some p"
  using dec_entries by (cases p) (simp add: dec_pingPayload_def enc_pingPayload_def zero_pingPayload_def omitempty_def codec_simps)

lemma ack_roundtrip: "entries_text (ap_Membership p) \<Longrightarrow> dec_ackPayload zero_ackPayload (enc_ackPayload p) = Some p"
  using dec_entries by (cases p) (auto simp: dec_ackPayload_def enc_ackPayload_def zero_ackPayload_def omitempty_def codec_simps)

lemma json_ok_ping:
  "entries_text (pp_Membership p) \<Longrightarrow> utf8_valid (pp_NodeID p) \<Longrightarrow> utf8_valid (pp_Endpoint p) \<Longrightarrow> json_ok 1 (enc_pingPayload p)"
  using json_ok_entries [of "pp_Membership p" 2]
  by (auto simp: enc_pingPayload_def omitempty_def max_depth_def ascii_valid numeral_2_eq_2)

lemma json_ok_ack:
  "entries_text (ap_Membership p) \<Longrightarrow> utf8_valid (ap_Status p) \<Longrightarrow> ap_Reason p = [] \<Longrightarrow> utf8_valid (ap_Endpoint p) \<Longrightarrow>
   json_ok 1 (enc_ackPayload p)"
  using json_ok_entries [of "ap_Membership p" 2]
  by (auto simp: enc_ackPayload_def omitempty_def max_depth_def ascii_valid numeral_2_eq_2)

section \<open>The handshake\<close>

definition table_text :: "Table \<Rightarrow> bool" where
  "table_text t \<longleftrightarrow> list_all (\<lambda>(_, m). utf8_valid (m_Endpoint m) \<and> TrimSpace (m_Endpoint m) = m_Endpoint m) (tb_members t)"

text \<open>A node that can be joined: its id and its endpoint are valid and the endpoints it knows, all trimmed, can be written as JSON.\<close>

definition boot_ok :: "Bootstrapper \<Rightarrow> bool" where
  "boot_ok b \<longleftrightarrow> boot_wf b \<and> ValidNodeID (bt_nodeID b) \<and>
     validMembershipEndpoint (TrimSpace (e_Endpoint (SelfEntry (bt_table b)))) \<and> table_text (bt_table b)"

definition entry_shuffle :: "boot_env \<Rightarrow> bool" where
  "entry_shuffle env \<longleftrightarrow> (\<forall>xs. set (be_shuffle env xs) \<subseteq> set xs)"

text \<open>No incarnation of a node above \<open>i\<close> is known.\<close>

definition heard_at_most :: "Table \<Rightarrow> string \<Rightarrow> u64 \<Rightarrow> bool" where
  "heard_at_most t n i \<longleftrightarrow> (case view t n of None \<Rightarrow> True | Some (j, _) \<Rightarrow> j \<le> i)"

lemma self_entry:
  assumes "table_wf t"
  shows "e_NodeID (SelfEntry t) = tb_selfNodeID t" "e_Status (SelfEntry t) = StatusAlive" "own_inc t \<noteq> 0"
    "\<exists>m. (tb_selfNodeID t, m) \<in> set (tb_members t) \<and> SelfEntry t = entryOf m"
proof -
  obtain m where m: "map_of (tb_members t) (tb_selfNodeID t) = Some m"
    "mget zero_Member (tb_members t) (tb_selfNodeID t) = m" "m_Status m = StatusAlive"
    "m_NodeID m = tb_selfNodeID t" "m_Incarnation m \<noteq> 0" using assms by (rule self_member)
  then show "e_NodeID (SelfEntry t) = tb_selfNodeID t" "e_Status (SelfEntry t) = StatusAlive" "own_inc t \<noteq> 0"
    "\<exists>m. (tb_selfNodeID t, m) \<in> set (tb_members t) \<and> SelfEntry t = entryOf m"
    by (auto simp: SelfEntry_def entryOf_def dest: map_of_SomeD)
qed

lemma Entries_mem:
  assumes "table_wf t" "e \<in> set (Entries t)"
  shows "\<exists>m. (e_NodeID e, m) \<in> set (tb_members t) \<and> e = entryOf m"
proof -
  obtain n m where m: "(n, m) \<in> set (tb_members t)" "e = entryOf m" using assms(2) by (auto simp: Entries_def table_Snapshot_def)
  moreover have "m_NodeID m = n" using assms(1) m(1) by (auto simp: table_wf_def list_all_iff member_ok_def)
  ultimately show ?thesis by (auto simp: entryOf_def)
qed

lemma Entries_self:
  assumes "table_wf t" "e \<in> set (Entries t)" "e_NodeID e = tb_selfNodeID t"
  shows "e = SelfEntry t"
proof -
  obtain m where m: "(tb_selfNodeID t, m) \<in> set (tb_members t)" "e = entryOf m" using Entries_mem [OF assms(1,2)] assms(3) by auto
  obtain k where k: "(tb_selfNodeID t, k) \<in> set (tb_members t)" "SelfEntry t = entryOf k" using self_entry(4) [OF assms(1)] by auto
  have "m = k" using m(1) k(1) assms(1) by (auto simp: table_wf_def mwf_def dest: eq_key_imp_eq_value)
  with m(2) k(2) show ?thesis by simp
qed

lemma disseminated_mem:
  assumes "entry_shuffle env" "e \<in> set (disseminatedMembership env b)"
  shows "e \<in> set (Entries (bt_table b)) \<or> e = SelfEntry (bt_table b)"
proof -
  have "set (take k (be_shuffle env (filter P xs))) \<subseteq> set xs" for k P xs
    using assms(1) set_take_subset [of k "be_shuffle env (filter P xs)"] filter_is_subset [of P xs]
    unfolding entry_shuffle_def by (meson order_trans)
  with assms(2) show ?thesis by (auto simp: disseminatedMembership_def Let_def split: if_splits)
qed

lemma member_text:
  assumes "boot_ok b" "(n, m) \<in> set (tb_members (bt_table b))"
  shows "status_known (m_Status m)" "ValidNodeID n" "m_NodeID m = n" "utf8_valid (m_Endpoint m)"
    "TrimSpace (m_Endpoint m) = m_Endpoint m"
  using assms
  by (auto simp: boot_ok_def boot_wf_def table_wf_def table_text_def list_all_iff member_ok_def status_known_def split: if_splits)

definition entries_trimmed :: "Entry list \<Rightarrow> bool" where
  "entries_trimmed es \<longleftrightarrow> list_all (\<lambda>e. TrimSpace (e_Endpoint e) = e_Endpoint e) es"

lemma disseminated_text:
  assumes "boot_ok b" "entry_shuffle env"
  shows "entries_text (disseminatedMembership env b)" "entries_trimmed (disseminatedMembership env b)"
proof -
  have "status_known (e_Status e) \<and> utf8_valid (e_NodeID e) \<and> utf8_valid (e_Endpoint e) \<and> TrimSpace (e_Endpoint e) = e_Endpoint e"
    if mem: "e \<in> set (disseminatedMembership env b)" for e
  proof -
    have w: "table_wf (bt_table b)" using assms(1) by (simp add: boot_ok_def boot_wf_def)
    obtain n m where "(n, m) \<in> set (tb_members (bt_table b))" "e = entryOf m"
      using disseminated_mem [OF assms(2) mem] Entries_mem [OF w] self_entry(4) [OF w] by blast
    with member_text [OF assms(1) this(1)] show ?thesis by (auto simp: entryOf_def intro: ascii_valid ValidNodeID_ascii)
  qed
  then show "entries_text (disseminatedMembership env b)" "entries_trimmed (disseminatedMembership env b)"
    by (simp_all add: entries_text_def entries_trimmed_def list_all_iff)
qed

text \<open>What a node says of itself in the membership it sends.\<close>

lemma disseminated_self:
  assumes "boot_ok b" "entry_shuffle env" "e \<in> set (disseminatedMembership env b)" "e_NodeID (trimEntry e) = bt_nodeID b"
  shows "e_Incarnation e = own_inc (bt_table b)"
proof -
  have w: "table_wf (bt_table b)" "tb_selfNodeID (bt_table b) = bt_nodeID b" using assms(1) by (simp_all add: boot_ok_def boot_wf_def)
  from disseminated_mem [OF assms(2,3)] show ?thesis
  proof
    assume e: "e \<in> set (Entries (bt_table b))"
    from Entries_mem [OF w(1) e] member_text(2) [OF assms(1)] have "ValidNodeID (e_NodeID e)" by blast
    then have "e_NodeID e = tb_selfNodeID (bt_table b)" using assms(4) w(2) by (simp add: trimEntry_def TrimSpace_ValidNodeID)
    from Entries_self [OF w(1) e this] show ?thesis by simp
  qed simp
qed

lemma mergeEntry_heard:
  assumes "table_wf t" "n \<noteq> tb_selfNodeID t" "heard_at_most t n i" "e_NodeID (trimEntry e) = n \<Longrightarrow> e_Incarnation e \<le> i"
  shows "heard_at_most (fst (mergeEntry t now e)) n i"
proof -
  have "peer_view (tb_selfNodeID t) (fst (mergeEntry t now e)) n = max (view t n) (entry_view (tb_selfNodeID t) e n)"
    unfolding mergeEntry_spec(3) [OF assms(1), of now e] using assms(2) by (simp add: view_join_def peer_view_def)
  then have "view (fst (mergeEntry t now e)) n = max (view t n) (entry_view (tb_selfNodeID t) e n)"
    using assms(2) by (simp add: peer_view_def)
  moreover have "case entry_view (tb_selfNodeID t) e n of None \<Rightarrow> True | Some (j, _) \<Rightarrow> j \<le> i"
    using assms(4) by (simp add: entry_view_def)
  ultimately show ?thesis using assms(3) by (auto simp: heard_at_most_def max_def)
qed

lemma Merge_heard:
  assumes "table_wf t" "n \<noteq> tb_selfNodeID t" "heard_at_most t n i"
    "\<And>e. e \<in> set es \<Longrightarrow> e_NodeID (trimEntry e) = n \<Longrightarrow> e_Incarnation e \<le> i"
  shows "heard_at_most (fst (table_Merge t now es)) n i"
proof -
  have "heard_at_most (fst (mergeLoop t now es c)) n i" for c
    using assms
  proof (induction es arbitrary: t c)
    case (Cons e es)
    obtain t1 b where t1: "mergeEntry t now e = (t1, b)" by fastforce
    have "table_wf t1" "tb_selfNodeID t1 = tb_selfNodeID t" "heard_at_most t1 n i"
      using mergeEntry_spec(1,2) [OF Cons.prems(1), of now e] mergeEntry_heard [OF Cons.prems(1-3), of e now] Cons.prems(4) t1 by auto
    with Cons.IH [of t1] Cons.prems(2,4) t1 show ?case by simp
  qed simp
  then show ?thesis by (simp add: table_Merge_def)
qed

lemma ObserveAlive_alive:
  assumes "table_wf t" "ValidNodeID n" "n \<noteq> tb_selfNodeID t" "validMembershipEndpoint (TrimSpace ep)" "inc \<noteq> 0" "heard_at_most t n inc"
  obtains m where "map_of (tb_members (fst (ObserveAlive t now n ep inc))) n = Some m" "m_Status m = StatusAlive"
    "m_Incarnation m = inc" "m_Endpoint m = TrimSpace ep"
proof -
  have "\<not> (mhas (tb_members t) n \<and> inc < m_Incarnation (mget zero_Member (tb_members t) n))"
    using assms(6) by (auto simp: heard_at_most_def view_def mhas_def mget_def split: option.splits)
  moreover have "TrimSpace n = n" using assms(2) by (rule TrimSpace_ValidNodeID)
  ultimately have "map_of (tb_members (fst (ObserveAlive t now n ep inc))) n =
      Some ((mget zero_Member (tb_members t) n)\<lparr>m_NodeID := n, m_Endpoint := TrimSpace ep, m_Status := StatusAlive,
        m_Incarnation := inc, m_LastSeen := now, m_Missed := 0\<rparr>)"
    unfolding ObserveAlive_def Let_def using assms(2-5) endpoint_nonempty [OF assms(4)] by auto
  then show ?thesis by (rule that) simp_all
qed

definition lists_alive :: "Table \<Rightarrow> string \<Rightarrow> u64 \<Rightarrow> string \<Rightarrow> bool" where
  "lists_alive t n inc ep \<longleftrightarrow>
     view t n = Some (inc, StatusAlive) \<and> map_of (AlivePeerEndpoints t) n = Some ep"

lemma AlivePeerEndpoints_get:
  assumes "table_wf t" "map_of (tb_members t) n = Some m" "n \<noteq> tb_selfNodeID t" "m_Status m = StatusAlive" "m_Endpoint m \<noteq> []"
  shows "map_of (AlivePeerEndpoints t) n = Some (m_Endpoint m)"
proof -
  have d: "distinct (map fst (tb_members t))" using assms(1) by (simp add: table_wf_def mwf_def)
  then have "distinct (map fst (AlivePeerEndpoints t))"
    by (auto simp: AlivePeerEndpoints_def comp_def split_beta distinct_map inj_on_def)
  moreover have "(n, m_Endpoint m) \<in> set (AlivePeerEndpoints t)"
    using map_of_SomeD [OF assms(2)] assms(3-5) by (force simp: AlivePeerEndpoints_def)
  ultimately show ?thesis by simp
qed

lemma merge_observe_alive:
  assumes "table_wf t" "ValidNodeID n" "n \<noteq> tb_selfNodeID t" "validMembershipEndpoint (TrimSpace ep)" "inc \<noteq> 0" "heard_at_most t n inc"
    "\<And>e. e \<in> set es \<Longrightarrow> e_NodeID (trimEntry e) = n \<Longrightarrow> e_Incarnation e \<le> inc"
  shows "lists_alive (fst (ObserveAlive (fst (table_Merge t now es)) now' n ep inc)) n inc (TrimSpace ep)"
proof -
  let ?t = "fst (table_Merge t now es)"
  have w: "table_wf ?t" "tb_selfNodeID ?t = tb_selfNodeID t" using table_Merge_wf [OF assms(1)] by auto
  obtain m where m: "map_of (tb_members (fst (ObserveAlive ?t now' n ep inc))) n = Some m" "m_Status m = StatusAlive"
    "m_Incarnation m = inc" "m_Endpoint m = TrimSpace ep"
    using w(1) assms(2) _ assms(4,5) Merge_heard [OF assms(1,3,6,7)] by (rule ObserveAlive_alive) (use assms(3) w(2) in auto)
  have "table_wf (fst (ObserveAlive ?t now' n ep inc))" "tb_selfNodeID (fst (ObserveAlive ?t now' n ep inc)) = tb_selfNodeID t"
    using ObserveAlive_wf [OF w(1)] w(2) by auto
  with AlivePeerEndpoints_get [OF this(1) m(1)] m assms(3) endpoint_nonempty [OF assms(4)] show ?thesis
    by (simp add: lists_alive_def view_def)
qed

lemma table_text_put:
  "table_text t \<Longrightarrow> tb_members t' = mput n m (tb_members t) \<Longrightarrow> utf8_valid (m_Endpoint m) \<Longrightarrow> TrimSpace (m_Endpoint m) = m_Endpoint m \<Longrightarrow>
   mwf (tb_members t) \<Longrightarrow> table_text t'"
  by (auto simp: table_text_def list_all_iff set_mput)

lemma table_text_get:
  "table_text t \<Longrightarrow> utf8_valid (m_Endpoint (mget zero_Member (tb_members t) n)) \<and>
   TrimSpace (m_Endpoint (mget zero_Member (tb_members t) n)) = m_Endpoint (mget zero_Member (tb_members t) n)"
proof -
  assume t: "table_text t"
  have "utf8_valid []" "TrimSpace [] = []" by code_simp+
  with t show ?thesis
    by (auto simp: table_text_def list_all_iff mget_def zero_Member_def split: option.splits dest!: map_of_SomeD)
qed

lemma mergeEntry_text:
  assumes "table_wf t" "table_text t" "utf8_valid (e_Endpoint e)" "TrimSpace (e_Endpoint e) = e_Endpoint e"
  shows "table_text (fst (mergeEntry t now e))"
proof -
  have w: "mwf (tb_members t)" using assms(1) by (simp add: table_wf_def)
  have ep: "e_Endpoint (trimEntry e) = e_Endpoint e" using assms(4) by (simp add: trimEntry_def)
  have "table_text (fst (mergeSelf t now f))" for f
    using assms(2) table_text_get [OF assms(2), of "tb_selfNodeID t"] table_text_put [OF assms(2) _ _ _ w]
    by (simp add: mergeSelf_def Let_def)
  moreover have "table_text (fst (mergeOther t now (trimEntry e)))"
    using assms(2-4) ep table_text_put [OF assms(2) _ _ _ w] by (simp add: mergeOther_def Let_def)
  ultimately show ?thesis using assms(2) by (simp add: mergeEntry_eq)
qed

lemma Merge_text:
  assumes "table_wf t" "table_text t" "entries_text es" "entries_trimmed es"
  shows "table_text (fst (table_Merge t now es))"
proof -
  have "table_text (fst (mergeLoop t now es c))" for c
    using assms
  proof (induction es arbitrary: t c)
    case (Cons e es)
    obtain t1 b where t1: "mergeEntry t now e = (t1, b)" by fastforce
    have "table_wf t1" "table_text t1"
      using mergeEntry_spec(1) [OF Cons.prems(1), of now e] mergeEntry_text [OF Cons.prems(1,2), of e now] Cons.prems(3,4) t1
      by (auto simp: entries_text_def entries_trimmed_def)
    with Cons.IH [of t1] Cons.prems(3,4) t1 show ?case by (simp add: entries_text_def entries_trimmed_def)
  qed simp
  then show ?thesis by (simp add: table_Merge_def)
qed

lemma ObserveAlive_text:
  assumes "table_wf t" "table_text t" "utf8_valid ep" "TrimSpace ep = ep"
  shows "table_text (fst (ObserveAlive t now n ep inc))"
proof -
  have w: "mwf (tb_members t)" using assms(1) by (simp add: table_wf_def)
  show ?thesis
    using assms(2-4) table_text_get [OF assms(2), of "TrimSpace n"] table_text_put [OF assms(2) _ _ _ w]
    by (simp add: ObserveAlive_def Let_def)
qed

definition stamp_ok :: "boot_env \<Rightarrow> bool" where
  "stamp_ok env \<longleftrightarrow> time_wf (time_UTC (be_stamp env))"

lemma mb_newEnvelope_wire:
  assumes "ValidNodeID (bt_nodeID b)" "ty \<in> set allowedTypes" "stamp_ok env" "json_ok 1 j"
  obtains frame where "codec_Encode (snd (mb_newEnvelope env b ty j)) = Inr frame"
    "codec_Decode frame = Inr ((snd (mb_newEnvelope env b ty j))\<lparr>ev_Checksum := checksumForPayload (json_text j)\<rparr>)"
proof -
  have "on_wire (snd (mb_newEnvelope env b ty j)) ((snd (mb_newEnvelope env b ty j))\<lparr>ev_Checksum := checksumForPayload (json_text j)\<rparr>)"
    by (rule envelope_on_wire [where t = "time_UTC (be_stamp env)"])
      (use assms in \<open>simp_all add: mb_newEnvelope_def stamp_ok_def membershipProtocolVersion_def ascii_valid\<close>)
  with that show ?thesis by (auto simp: on_wire_def)
qed

lemma boot_ok_self:
  assumes "boot_ok b"
  shows "e_NodeID (SelfEntry (bt_table b)) = bt_nodeID b" "own_inc (bt_table b) \<noteq> 0"
    "utf8_valid (e_Endpoint (SelfEntry (bt_table b)))" "TrimSpace (e_Endpoint (SelfEntry (bt_table b))) = e_Endpoint (SelfEntry (bt_table b))"
    "validMembershipEndpoint (e_Endpoint (SelfEntry (bt_table b)))" "ValidNodeID (bt_nodeID b)" "utf8_valid (bt_nodeID b)"
proof -
  have w: "table_wf (bt_table b)" "tb_selfNodeID (bt_table b) = bt_nodeID b" using assms by (simp_all add: boot_ok_def boot_wf_def)
  obtain m where m: "(tb_selfNodeID (bt_table b), m) \<in> set (tb_members (bt_table b))" "SelfEntry (bt_table b) = entryOf m"
    using self_entry(4) [OF w(1)] by blast
  note t = member_text [OF assms m(1)]
  show "e_NodeID (SelfEntry (bt_table b)) = bt_nodeID b" "own_inc (bt_table b) \<noteq> 0" using self_entry [OF w(1)] w(2) by simp_all
  show u: "utf8_valid (e_Endpoint (SelfEntry (bt_table b)))" "TrimSpace (e_Endpoint (SelfEntry (bt_table b))) = e_Endpoint (SelfEntry (bt_table b))"
    using t(4,5) m(2) by (simp_all add: entryOf_def)
  show "validMembershipEndpoint (e_Endpoint (SelfEntry (bt_table b)))" "ValidNodeID (bt_nodeID b)" using assms u(2) by (simp_all add: boot_ok_def)
  then show "utf8_valid (bt_nodeID b)" by (intro ascii_valid ValidNodeID_ascii)
qed

lemma allowed: "''Ping'' \<in> set allowedTypes" "''Ack'' \<in> set allowedTypes"
  by (simp_all add: allowedTypes_def)

lemma ping_accepted:
  assumes "boot_ok a" "entry_shuffle env" "stamp_ok env"
  obtains frame msg where "codec_Encode (snd (newPing env a)) = Inr frame" "codec_Decode frame = Inr msg" "ev_Type msg = ''Ping''"
    "ev_From msg = bt_nodeID a" "ev_Seq msg = bt_seq a + 1" "decodePing msg = Inr (newPingPayload env a)"
proof -
  let ?p = "newPingPayload env a" and ?e = "snd (newPing env a)"
  note s = boot_ok_self [OF assms(1)]
  have p: "pp_NodeID ?p = bt_nodeID a" "pp_Endpoint ?p = e_Endpoint (SelfEntry (bt_table a))" "pp_Incarnation ?p = own_inc (bt_table a)"
    "pp_Membership ?p = disseminatedMembership env a" using s(1) by (simp_all add: newPingPayload_def Let_def)
  have j: "json_ok 1 (enc_pingPayload ?p)" using disseminated_text(1) [OF assms(1,2)] s p by (intro json_ok_ping) simp_all
  obtain frame where f: "codec_Encode ?e = Inr frame"
    "codec_Decode frame = Inr (?e\<lparr>ev_Checksum := checksumForPayload (json_text (enc_pingPayload ?p))\<rparr>)"
    using s(6) allowed(1) assms(3) j unfolding newPing_def by (rule mb_newEnvelope_wire)
  have u: "unmarshal dec_pingPayload zero_pingPayload (json_text (enc_pingPayload ?p)) = Some ?p"
    unfolding unmarshal_text [OF j] using disseminated_text(1) [OF assms(1,2)] p(4) by (intro ping_roundtrip) simp
  have "TrimSpace (bt_nodeID a) = bt_nodeID a" "bt_nodeID a \<noteq> []" using s(6) by (auto simp: TrimSpace_ValidNodeID)
  with u s p have "decodePing (?e\<lparr>ev_Checksum := checksumForPayload (json_text (enc_pingPayload ?p))\<rparr>) = Inr ?p"
    by (simp add: decodePing_def newPing_def mb_newEnvelope_def)
  with f show ?thesis by (intro that) (simp_all add: newPing_def mb_newEnvelope_def)
qed

lemma ack_accepted:
  assumes "boot_ok b" "entry_shuffle env" "stamp_ok env"
  obtains frame msg where "codec_Encode (snd (mb_newEnvelope env b ''Ack'' (enc_ackPayload (newAckPayload env b s)))) = Inr frame"
    "codec_Decode frame = Inr msg" "ev_Type msg = ''Ack''" "ev_From msg = bt_nodeID b" "decodeAcceptedAck msg s = Inr (newAckPayload env b s)"
proof -
  let ?p = "newAckPayload env b s"
  let ?e = "snd (mb_newEnvelope env b ''Ack'' (enc_ackPayload ?p))"
  note d = boot_ok_self [OF assms(1)]
  have p: "ap_AckedSeq ?p = s" "ap_Status ?p = ''accepted''" "ap_Reason ?p = []" "ap_Endpoint ?p = e_Endpoint (SelfEntry (bt_table b))"
    "ap_Incarnation ?p = own_inc (bt_table b)" "ap_Membership ?p = disseminatedMembership env b" by (simp_all add: newAckPayload_def Let_def)
  have j: "json_ok 1 (enc_ackPayload ?p)" using disseminated_text(1) [OF assms(1,2)] d p by (intro json_ok_ack) (simp_all add: ascii_valid)
  obtain frame where f: "codec_Encode ?e = Inr frame"
    "codec_Decode frame = Inr (?e\<lparr>ev_Checksum := checksumForPayload (json_text (enc_ackPayload ?p))\<rparr>)"
    using d(6) allowed(2) assms(3) j by (rule mb_newEnvelope_wire)
  have u: "unmarshal dec_ackPayload zero_ackPayload (json_text (enc_ackPayload ?p)) = Some ?p"
    unfolding unmarshal_text [OF j] using disseminated_text(1) [OF assms(1,2)] p(6) by (intro ack_roundtrip) simp
  have "TrimSpace (bt_nodeID b) = bt_nodeID b" "bt_nodeID b \<noteq> []" using d(6) by (auto simp: TrimSpace_ValidNodeID)
  with u d p have "decodeAcceptedAck (?e\<lparr>ev_Checksum := checksumForPayload (json_text (enc_ackPayload ?p))\<rparr>) s = Inr ?p"
    by (simp add: decodeAcceptedAck_def mb_newEnvelope_def)
  with f show ?thesis by (intro that) (simp_all add: mb_newEnvelope_def)
qed

text \<open>
  C10. Joining works: when a node pings another one and neither has heard of a later life of its
  counterpart, the ping is accepted, the acknowledgement is accepted, and afterwards each lists the
  other as alive with its current incarnation and offers its endpoint for gossip; the pinged node
  may have raised its incarnation to refute what the pinging node believed of it.
\<close>

theorem join_handshake:
  assumes "boot_ok a" "boot_ok b" "bt_nodeID a \<noteq> bt_nodeID b"
    and "entry_shuffle envA" "entry_shuffle envB" "stamp_ok envA" "stamp_ok envB"
    and "heard_at_most (bt_table b) (bt_nodeID a) (own_inc (bt_table a))"
    and "heard_at_most (bt_table a) (bt_nodeID b) (own_inc (bt_table b))"
  shows "\<exists>frame b' ackFrame a'. codec_Encode (snd (newPing envA a)) = Inr frame \<and>
    listenerTurn envB cancelled b (Inr (remote, frame)) = (b', [AckTo remote ackFrame], False) \<and>
    joinSeed envA \<lparr>jo_open = True, jo_send = None, jo_frames = Inr (peer, ackFrame) # fs\<rparr> a seed = (a', Inr (bt_nodeID b)) \<and>
    lists_alive (bt_table b') (bt_nodeID a) (own_inc (bt_table a)) (e_Endpoint (SelfEntry (bt_table a))) \<and>
    lists_alive (bt_table a') (bt_nodeID b) (own_inc (bt_table b')) (e_Endpoint (SelfEntry (bt_table b))) \<and>
    own_inc (bt_table b) \<le> own_inc (bt_table b')"
proof -
  note sa = boot_ok_self [OF assms(1)] and sb = boot_ok_self [OF assms(2)]
  have wa: "table_wf (bt_table a)" "tb_selfNodeID (bt_table a) = bt_nodeID a"
    and wb: "table_wf (bt_table b)" "tb_selfNodeID (bt_table b) = bt_nodeID b"
    using assms(1,2) by (simp_all add: boot_ok_def boot_wf_def)
  let ?p = "newPingPayload envA a"
  have p: "pp_Endpoint ?p = e_Endpoint (SelfEntry (bt_table a))" "pp_Incarnation ?p = own_inc (bt_table a)"
    "pp_Membership ?p = disseminatedMembership envA a" by (simp_all add: newPingPayload_def Let_def)
  obtain frame msg where f: "codec_Encode (snd (newPing envA a)) = Inr frame" "codec_Decode frame = Inr msg" "ev_Type msg = ''Ping''"
    "ev_From msg = bt_nodeID a" "ev_Seq msg = bt_seq a + 1" "decodePing msg = Inr ?p"
    using assms(1,4,6) by (rule ping_accepted)
  let ?t1 = "fst (table_Merge (bt_table b) (be_mergeNow envB) (pp_Membership ?p))"
  let ?t2 = "fst (ObserveAlive ?t1 (be_observeNow envB) (bt_nodeID a) (pp_Endpoint ?p) (pp_Incarnation ?p))"
  let ?b1 = "b\<lparr>bt_table := ?t2\<rparr>" and ?s = "bt_seq a + 1"
  have t2: "table_next (bt_table b) ?t2" by (rule merge_observe_next [OF wb(1)])
  have lb: "lists_alive ?t2 (bt_nodeID a) (own_inc (bt_table a)) (e_Endpoint (SelfEntry (bt_table a)))"
    using merge_observe_alive [OF wb(1) sa(6), of "pp_Endpoint ?p" "pp_Incarnation ?p" "pp_Membership ?p"]
      disseminated_self [OF assms(1,4)] assms(3,8) sa p wb(2) by simp
  have w1: "table_wf ?t1" using table_Merge_wf [OF wb(1)] by blast
  have "table_text ?t1"
    using disseminated_text [OF assms(1,4)] assms(2) p(3) by (intro Merge_text [OF wb(1)]) (simp_all add: boot_ok_def)
  then have "table_text ?t2" using sa(3,4) p(1) by (intro ObserveAlive_text [OF w1]) simp_all
  then have b1: "boot_ok ?b1" using assms(2) t2 by (simp add: boot_ok_def boot_wf_def table_next_def)
  obtain ackFrame ack where k: "codec_Encode (snd (mb_newEnvelope envB ?b1 ''Ack'' (enc_ackPayload (newAckPayload envB ?b1 ?s)))) = Inr ackFrame"
    "codec_Decode ackFrame = Inr ack" "ev_Type ack = ''Ack''" "ev_From ack = bt_nodeID ?b1"
    "decodeAcceptedAck ack ?s = Inr (newAckPayload envB ?b1 ?s)"
    using b1 assms(5,7) by (rule ack_accepted)
  let ?b' = "fst (mb_newEnvelope envB ?b1 ''Ack'' (enc_ackPayload (newAckPayload envB ?b1 ?s)))"
  have tb: "bt_table ?b' = ?t2" by (simp add: mb_newEnvelope_def)
  have listen: "listenerTurn envB cancelled b (Inr (remote, frame)) = (?b', [AckTo remote ackFrame], False)"
    using f(2-6) k(1) assms(3) by (simp add: listenerTurn_def Let_def split_beta)
  let ?q = "newAckPayload envB ?b1 ?s" and ?a1 = "a\<lparr>bt_seq := ?s\<rparr>"
  have q: "ap_Endpoint ?q = e_Endpoint (SelfEntry ?t2)" "ap_Incarnation ?q = own_inc ?t2" "ap_Membership ?q = disseminatedMembership envB ?b1"
    by (simp_all add: newAckPayload_def Let_def)
  have ep: "e_Endpoint (SelfEntry ?t2) = e_Endpoint (SelfEntry (bt_table b))" "own_inc (bt_table b) \<le> own_inc ?t2"
    using t2 by (simp_all add: table_next_def)
  have join: "joinSeed envA \<lparr>jo_open = True, jo_send = None, jo_frames = Inr (peer, ackFrame) # fs\<rparr> a seed =
      (acceptAck envA ?a1 seed ack ?q, Inr (bt_nodeID b))"
    using f(1) k(2-5) assms(3) by (simp add: joinSeed_def newPing_def mb_newEnvelope_def)
  have "heard_at_most (bt_table a) (bt_nodeID b) (own_inc ?t2)"
    using assms(9) ep(2) by (auto simp: heard_at_most_def split: option.splits intro: order_trans)
  then have la: "lists_alive (fst (ObserveAlive (fst (table_Merge (bt_table a) (be_mergeNow envA) (ap_Membership ?q))) (be_observeNow envA)
      (bt_nodeID b) (ap_Endpoint ?q) (ap_Incarnation ?q))) (bt_nodeID b) (own_inc ?t2) (e_Endpoint (SelfEntry (bt_table b)))"
    using merge_observe_alive [OF wa(1) sb(6), of "ap_Endpoint ?q" "ap_Incarnation ?q" "ap_Membership ?q"]
      disseminated_self [OF b1 assms(5)] assms(3) sb ep boot_ok_self(2) [OF b1] q wa(2) by simp
  have "lists_alive (bt_table (acceptAck envA ?a1 seed ack ?q)) (bt_nodeID b) (own_inc (bt_table ?b')) (e_Endpoint (SelfEntry (bt_table b)))"
    unfolding tb using la k(4) by (simp add: acceptAck_def Let_def lists_alive_def view_def AssociateTarget_def AlivePeerEndpoints_def)
  moreover have "lists_alive (bt_table ?b') (bt_nodeID a) (own_inc (bt_table a)) (e_Endpoint (SelfEntry (bt_table a)))"
    unfolding tb by (rule lb)
  moreover have "own_inc (bt_table b) \<le> own_inc (bt_table ?b')" unfolding tb by (rule ep(2))
  ultimately show ?thesis using f(1) listen join by blast
qed

definition ex_boot :: "string \<Rightarrow> string \<Rightarrow> Bootstrapper" where
  "ex_boot n addr = NewBootstrapper time_zero 5 n addr [] 1 2"

definition ex_benv :: boot_env where
  "ex_benv = \<lparr>be_mergeNow = time_zero, be_observeNow = time_zero, be_stamp = time_zero, be_shuffle = (\<lambda>xs. xs)\<rparr>"

theorem join_handshake_witness:
  "\<exists>t u r. lists_alive t ''a'' 5 ''h:1'' \<and> lists_alive u ''b'' r ''h:2'' \<and> 5 \<le> r"
proof -
  let ?a = "ex_boot ''a'' ''h:1''" and ?b = "ex_boot ''b'' ''h:2''"
  have w: "boot_wf ?a" "boot_wf ?b" by (simp_all add: ex_boot_def NewBootstrapper_wf)
  have "ValidNodeID (bt_nodeID ?a)" "ValidNodeID (bt_nodeID ?b)" "table_text (bt_table ?a)" "table_text (bt_table ?b)"
    "validMembershipEndpoint (TrimSpace (e_Endpoint (SelfEntry (bt_table ?a))))"
    "validMembershipEndpoint (TrimSpace (e_Endpoint (SelfEntry (bt_table ?b))))" by code_simp+
  with w have ok: "boot_ok ?a" "boot_ok ?b" by (simp_all add: boot_ok_def)
  have h: "heard_at_most (bt_table ?b) (bt_nodeID ?a) (own_inc (bt_table ?a))" "heard_at_most (bt_table ?a) (bt_nodeID ?b) (own_inc (bt_table ?b))"
    by code_simp+
  have e: "entry_shuffle ex_benv" by (simp add: entry_shuffle_def ex_benv_def)
  have s: "stamp_ok ex_benv" by code_simp
  have n: "bt_nodeID ?a \<noteq> bt_nodeID ?b" by code_simp
  have v: "bt_nodeID ?a = ''a''" "bt_nodeID ?b = ''b''" "own_inc (bt_table ?a) = 5" "own_inc (bt_table ?b) = 5"
    "e_Endpoint (SelfEntry (bt_table ?a)) = ''h:1''" "e_Endpoint (SelfEntry (bt_table ?b)) = ''h:2''" by code_simp+
  show ?thesis
    using join_handshake [OF ok n e e s s h, where cancelled = False and remote = "[]" and peer = "[]" and fs = "[]" and seed = "[]"]
    unfolding v by blast
qed

end
