(* ===== verification/Runtime.thy ===== *)
theory Runtime
  imports Durability Transport Endpoints
begin

text \<open>
  \<open>internal/gossip/delta\<close>: the runtime that gossips deltas and repairs gaps by anti-entropy.

  A handler maps the state of the runtime and a message to the next state and the envelopes it
  hands to the sender, each with its peer; a send that fails is only logged.  \<open>None\<close> is a handler
  that does not return.  What a handler reads from outside (clocks, the shuffle of
  \<open>math/rand\<close>, the peers the membership layer knows, how many sends it makes before its context
  is cancelled) is its first argument.
\<close>

section \<open>State\<close>

record 'j Runtime =
  rt_nodeID :: string
  rt_selfEndpoint :: string
  rt_peers :: "string list"
  rt_fanout :: int
  rt_sendTimeout :: duration
  rt_antiEntropyInterval :: duration
  rt_manager :: "'j Manager"
  rt_history :: DeltaHistory
  rt_guard :: MessageGuard
  rt_seq :: u64

record runtime_Config =
  rc_NodeID :: string
  rc_SelfEndpoint :: string
  rc_Peers :: "string list"
  rc_Fanout :: int
  rc_SendTimeout :: duration
  rc_AntiEntropyInterval :: duration
  rc_DeltaHistorySize :: int

record runtime_env =
  re_guardNow :: gotime
  re_stamp :: gotime
  re_snapNow :: gotime
  re_shuffle :: "string list \<Rightarrow> string list"
  re_provider :: "(string, string) gomap option"
  re_budget :: nat

type_synonym sends = "(string \<times> Envelope) list"

fun normalizedLoop :: "string list \<Rightarrow> string list \<Rightarrow> string list" where
  "normalizedLoop [] out = out"
| "normalizedLoop (p # ps) out =
     (let peer = TrimSpace p in normalizedLoop ps (if peer = [] \<or> peer \<in> set out then out else out @ [peer]))"

text \<open>The keys of \<open>seen\<close> are the elements of \<open>out\<close>.\<close>

definition normalizedPeers :: "string list \<Rightarrow> string list" where
  "normalizedPeers peers = normalizedLoop peers []"

text \<open>\<open>None\<close> for the manager or the sender is a nil argument.\<close>

definition NewRuntime :: "runtime_Config \<Rightarrow> 'j Manager option \<Rightarrow> bool \<Rightarrow> (go_error + 'j Runtime) option" where
  "NewRuntime config manager sender =
     (case manager of
        None \<Rightarrow> Some (Inl ErrNilManager)
      | Some m \<Rightarrow>
          if \<not> sender then Some (Inl DeltaErrNilSender)
          else
            (case NewDeltaHistory (if rc_DeltaHistorySize config \<le> 0 then 1024 else rc_DeltaHistorySize config) of
               Inl e \<Rightarrow> Some (Inl e)
             | Inr h \<Rightarrow>
                 (case (case Digest m of Inl _ \<Rightarrow> Some h | Inr d \<Rightarrow> AdvanceWatermarks h (digest_seqs d)) of
                    None \<Rightarrow> None
                  | Some history \<Rightarrow>
                      Some (Inr
                        \<lparr>rt_nodeID = rc_NodeID config, rt_selfEndpoint = rc_SelfEndpoint config,
                         rt_peers = normalizedPeers (rc_Peers config),
                         rt_fanout = (if rc_Fanout config \<le> 0 then int (length (rc_Peers config)) else rc_Fanout config),
                         rt_sendTimeout = (if rc_SendTimeout config \<le> 0 then 2 * 1000000000 else rc_SendTimeout config),
                         rt_antiEntropyInterval = (if rc_AntiEntropyInterval config \<le> 0 then 15 * 1000000000
                           else rc_AntiEntropyInterval config),
                         rt_manager = m, rt_history = history, rt_guard = NewMessageGuard (60 * 1000000000),
                         rt_seq = 0\<rparr>))))"

section \<open>Sending\<close>

definition peerEndpointForNode :: "(string, string) gomap option \<Rightarrow> 'j Runtime \<Rightarrow> string \<Rightarrow> string option" where
  "peerEndpointForNode provider r nodeID =
     (let endpoint = (case provider of None \<Rightarrow> [] | Some m \<Rightarrow> TrimSpace (mget [] m nodeID))
      in if endpoint \<noteq> [] then Some endpoint
         else find (\<lambda>peer. case SplitHostPort peer of None \<Rightarrow> False | Some (host, _) \<Rightarrow> TrimSpace host = nodeID) (rt_peers r))"

fun providerLoop :: "'j Runtime \<Rightarrow> string list \<Rightarrow> string list \<Rightarrow> string list" where
  "providerLoop r [] cands = cands"
| "providerLoop r (p # ps) cands =
     (let peer = TrimSpace p
      in providerLoop r ps
           (if peer = [] \<or> isSelfPeer peer (rt_nodeID r) (rt_selfEndpoint r) \<or> peer \<in> set cands then cands
            else cands @ [peer]))"

text \<open>The provider's map is read in the order of the list, which stands for Go's iteration order.\<close>

definition samplePeers :: "runtime_env \<Rightarrow> 'j Runtime \<Rightarrow> string list" where
  "samplePeers env r =
     (let own = filter (\<lambda>peer. \<not> isSelfPeer peer (rt_nodeID r) (rt_selfEndpoint r)) (rt_peers r);
          cands = (case re_provider env of None \<Rightarrow> own | Some m \<Rightarrow> providerLoop r (map snd m) own)
      in if int (length cands) \<le> rt_fanout r then cands
         else take (nat (rt_fanout r)) (re_shuffle env cands))"

definition broadcastEnvelope :: "runtime_env \<Rightarrow> 'j Runtime \<Rightarrow> Envelope \<Rightarrow> sends" where
  "broadcastEnvelope env r message = map (\<lambda>peer. (peer, message)) (take (re_budget env) (samplePeers env r))"

definition sendEnvelopeToNode :: "runtime_env \<Rightarrow> 'j Runtime \<Rightarrow> string \<Rightarrow> Envelope \<Rightarrow> sends" where
  "sendEnvelopeToNode env r nodeID message =
     (case peerEndpointForNode (re_provider env) r nodeID of None \<Rightarrow> [] | Some peer \<Rightarrow> [(peer, message)])"

definition freshEnvelope :: "runtime_env \<Rightarrow> 'j Runtime \<Rightarrow> string \<Rightarrow> json \<Rightarrow> Envelope" where
  "freshEnvelope env r messageType j =
     \<lparr>ev_Type = messageType, ev_Seq = rt_seq r + 1, ev_Timestamp = FormatRFC3339Nano (time_UTC (re_stamp env)),
      ev_From = rt_nodeID r, ev_Checksum = [], ev_TraceID = [], ev_CorrelationID = [], ev_Version = ''v1'',
      ev_Payload = json_text j\<rparr>"

definition newEnvelope :: "runtime_env \<Rightarrow> 'j Runtime \<Rightarrow> string \<Rightarrow> json option \<Rightarrow> 'j Runtime \<times> (go_error + Envelope)" where
  "newEnvelope env r messageType payload =
     (case payload of
        None \<Rightarrow> (r, Inl JsonError)
      | Some j \<Rightarrow> (r\<lparr>rt_seq := rt_seq r + 1\<rparr>, Inr (freshEnvelope env r messageType j)))"

text \<open>\<open>None\<close> is the nil map; the source is read in list order.\<close>

fun mergeWatermarksLoop :: "(string, u64) gomap \<Rightarrow> (string, u64) gomap \<Rightarrow> (string, u64) gomap" where
  "mergeWatermarksLoop dst [] = dst"
| "mergeWatermarksLoop dst ((nodeID, s) # src) =
     mergeWatermarksLoop (if s > mget 0 dst nodeID then mput nodeID s dst else dst) src"

definition mergeWatermarks :: "(string, u64) gomap option \<Rightarrow> (string, u64) gomap \<Rightarrow> (string, u64) gomap option" where
  "mergeWatermarks destination source =
     (case destination of
        None \<Rightarrow> if source = [] then None else Some (mergeWatermarksLoop [] source)
      | Some dst \<Rightarrow> Some (mergeWatermarksLoop dst source))"

definition localDigest :: "'j Runtime \<Rightarrow> go_error + StateDigest" where
  "localDigest r =
     (case Digest (rt_manager r) of
        Inl e \<Rightarrow> Inl e
      | Inr d \<Rightarrow> Inr (d\<lparr>dg_DeltaSequences := mergeWatermarks (dg_DeltaSequences d) (Watermarks (rt_history r))\<rparr>))"

definition newDigestEnvelope :: "runtime_env \<Rightarrow> 'j Runtime \<Rightarrow> 'j Runtime \<times> (go_error + Envelope)" where
  "newDigestEnvelope env r =
     (case localDigest r of
        Inl e \<Rightarrow> (r, Inl e)
      | Inr digest \<Rightarrow> newEnvelope env r ''StateDigest'' (Some (enc_StateDigest digest)))"

definition broadcastDigest :: "runtime_env \<Rightarrow> 'j Runtime \<Rightarrow> 'j Runtime \<times> sends" where
  "broadcastDigest env r =
     (case newDigestEnvelope env r of
        (r', Inl _) \<Rightarrow> (r', [])
      | (r', Inr message) \<Rightarrow> (r', broadcastEnvelope env r' message))"

definition sendNew :: "runtime_env \<Rightarrow> 'j Runtime \<Rightarrow> string \<Rightarrow> string \<Rightarrow> json option \<Rightarrow> 'j Runtime \<times> sends" where
  "sendNew env r nodeID messageType payload =
     (case newEnvelope env r messageType payload of
        (r', Inl _) \<Rightarrow> (r', [])
      | (r', Inr envelope) \<Rightarrow> (r', sendEnvelopeToNode env r' nodeID envelope))"

definition sendSnapshot :: "runtime_env \<Rightarrow> 'j Runtime \<Rightarrow> string \<Rightarrow> string list \<Rightarrow> 'j Runtime \<times> sends" where
  "sendSnapshot env r nodeID want =
     (case pipe_Snapshot (re_snapNow env) (rt_manager r) want of
        Inl _ \<Rightarrow> (r, [])
      | Inr resp \<Rightarrow>
          sendNew env r nodeID ''SnapshotResp'' (enc_SnapshotResp
            (resp\<lparr>srp_DeltaSequences := mergeWatermarks (srp_DeltaSequences resp) (Watermarks (rt_history r))\<rparr>)))"

definition sendSnapshotFallback :: "runtime_env \<Rightarrow> 'j Runtime \<Rightarrow> string \<Rightarrow> StateDigest \<Rightarrow> 'j Runtime \<times> sends" where
  "sendSnapshotFallback env r nodeID known =
     (case Digest (rt_manager r) of
        Inl _ \<Rightarrow> (r, [])
      | Inr loc \<Rightarrow>
          (let want = AggregatesNeedingSnapshot known loc
           in sendSnapshot env r nodeID (if want = [] then [AggregateSUM, AggregateTOPK] else want)))"

section \<open>Handlers\<close>

definition rt_recordDelta :: "'j Runtime \<Rightarrow> StateDelta \<Rightarrow> 'j Runtime option" where
  "rt_recordDelta r delta =
     (if sd_OriginNodeID delta = [] \<or> sd_DeltaSequence delta = 0 then Some r
      else map_option (\<lambda>(h, _). r\<lparr>rt_history := h\<rparr>) (Record (rt_history r) delta))"

definition handleStateDelta :: "'j append_delta \<Rightarrow> runtime_env \<Rightarrow> 'j Runtime \<Rightarrow> Envelope \<Rightarrow> ('j Runtime \<times> sends) option" where
  "handleStateDelta jd env r message =
     (let (g, e) = guard_Accept (rt_guard r) (re_guardNow env) message;
          r1 = r\<lparr>rt_guard := g\<rparr>
      in if e \<noteq> None then Some (r1, [])
         else
           (case unmarshal dec_StateDelta zero_StateDelta (ev_Payload message) of
              None \<Rightarrow> Some (r1, [])
            | Some stateDelta \<Rightarrow>
                (case ApplyReceivedDelta jd (rt_manager r1) stateDelta of
                   (m, Inl _) \<Rightarrow> Some (r1\<lparr>rt_manager := m\<rparr>, [])
                 | (m, Inr advanced) \<Rightarrow>
                     (case rt_recordDelta (r1\<lparr>rt_manager := m\<rparr>) stateDelta of
                        None \<Rightarrow> None
                      | Some r2 \<Rightarrow> Some (r2, if advanced then broadcastEnvelope env r2 message else [])))))"

definition decodePayload :: "(json \<Rightarrow> go_error + 'a) \<Rightarrow> string \<Rightarrow> 'a option" where
  "decodePayload dec raw =
     (case parse_json raw of
        None \<Rightarrow> None
      | Some j \<Rightarrow> (case dec j of Inl _ \<Rightarrow> None | Inr x \<Rightarrow> Some x))"

definition handleStateDigest :: "runtime_env \<Rightarrow> 'j Runtime \<Rightarrow> Envelope \<Rightarrow> 'j Runtime \<times> sends" where
  "handleStateDigest env r message =
     (case decodePayload DecodeStateDigest (ev_Payload message) of
        None \<Rightarrow> (r, [])
      | Some peerDigest \<Rightarrow>
          (case localDigest r of
             Inl _ \<Rightarrow> (r, [])
           | Inr loc \<Rightarrow>
               (let ranges = MissingDeltaRanges loc peerDigest
                in if ranges \<noteq> [] then
                     (case NewDeltaRangeReq ranges loc of
                        Inl _ \<Rightarrow> (r, [])
                      | Inr req \<Rightarrow> sendNew env r (ev_From message) ''DeltaRangeReq'' (Some (enc_DeltaRangeReq req)))
                   else
                     (let want = AggregatesNeedingSnapshot loc peerDigest
                      in if want = [] then (r, [])
                         else
                           (case NewSnapshotReq want loc of
                              Inl _ \<Rightarrow> (r, [])
                            | Inr req \<Rightarrow> sendNew env r (ev_From message) ''SnapshotReq'' (Some (enc_SnapshotReq req)))))))"

fun rangesLoop :: "DeltaHistory \<Rightarrow> DeltaRange list \<Rightarrow> StateDelta list \<Rightarrow> StateDelta list option" where
  "rangesLoop h [] deltas = Some deltas"
| "rangesLoop h (x # xs) deltas =
     (case Range h x of None \<Rightarrow> None | Some items \<Rightarrow> rangesLoop h xs (deltas @ items))"

definition handleDeltaRangeReq :: "runtime_env \<Rightarrow> 'j Runtime \<Rightarrow> Envelope \<Rightarrow> 'j Runtime \<times> sends" where
  "handleDeltaRangeReq env r message =
     (case decodePayload DecodeDeltaRangeReq (ev_Payload message) of
        None \<Rightarrow> (r, [])
      | Some req \<Rightarrow>
          (case rangesLoop (rt_history r) (drq_Ranges req) [] of
             None \<Rightarrow> sendSnapshotFallback env r (ev_From message) (drq_KnownVersions req)
           | Some deltas \<Rightarrow>
               (case NewDeltaRangeResp deltas of
                  Inl _ \<Rightarrow> (r, [])
                | Inr resp \<Rightarrow> sendNew env r (ev_From message) ''DeltaRangeResp'' (Some (enc_DeltaRangeResp resp)))))"

text \<open>The loop stops at the first delta the manager refuses; \<open>False\<close> is that early return.\<close>

fun applyDeltas :: "'j append_delta \<Rightarrow> 'j Runtime \<Rightarrow> StateDelta list \<Rightarrow> ('j Runtime \<times> bool) option" where
  "applyDeltas jd r [] = Some (r, True)"
| "applyDeltas jd r (d # ds) =
     (case ApplyReceivedDelta jd (rt_manager r) d of
        (m, Inl _) \<Rightarrow> Some (r\<lparr>rt_manager := m\<rparr>, False)
      | (m, Inr _) \<Rightarrow>
          (case rt_recordDelta (r\<lparr>rt_manager := m\<rparr>) d of None \<Rightarrow> None | Some r1 \<Rightarrow> applyDeltas jd r1 ds))"

definition handleDeltaRangeResp :: "'j append_delta \<Rightarrow> runtime_env \<Rightarrow> 'j Runtime \<Rightarrow> Envelope \<Rightarrow> ('j Runtime \<times> sends) option" where
  "handleDeltaRangeResp jd env r message =
     (case decodePayload DecodeDeltaRangeResp (ev_Payload message) of
        None \<Rightarrow> Some (r, [])
      | Some resp \<Rightarrow>
          (case applyDeltas jd r (drp_Deltas resp) of
             None \<Rightarrow> None
           | Some (r1, False) \<Rightarrow> Some (r1, [])
           | Some (r1, True) \<Rightarrow> Some (broadcastDigest env r1)))"

definition handleSnapshotReq :: "runtime_env \<Rightarrow> 'j Runtime \<Rightarrow> Envelope \<Rightarrow> 'j Runtime \<times> sends" where
  "handleSnapshotReq env r message =
     (case decodePayload DecodeSnapshotReq (ev_Payload message) of
        None \<Rightarrow> (r, [])
      | Some req \<Rightarrow> sendSnapshot env r (ev_From message) (srq_WantAggregateTypes req))"

definition handleSnapshotResp :: "'j append_snapshot \<Rightarrow> runtime_env \<Rightarrow> 'j Runtime \<Rightarrow> Envelope \<Rightarrow> ('j Runtime \<times> sends) option" where
  "handleSnapshotResp js env r message =
     (case decodePayload DecodeSnapshotResp (ev_Payload message) of
        None \<Rightarrow> Some (r, [])
      | Some resp \<Rightarrow>
          (case ApplySnapshot js (rt_manager r) resp of
             (m, Inl _) \<Rightarrow> Some (r\<lparr>rt_manager := m\<rparr>, [])
           | (m, Inr advanced) \<Rightarrow>
               (case AdvanceWatermarks (rt_history r) (case srp_DeltaSequences resp of None \<Rightarrow> [] | Some es \<Rightarrow> es) of
                  None \<Rightarrow> None
                | Some h \<Rightarrow>
                    (let r1 = r\<lparr>rt_manager := m, rt_history := h\<rparr>
                     in Some (if advanced then broadcastDigest env r1 else (r1, []))))))"

definition HandleEnvelope ::
  "'j append_delta \<Rightarrow> 'j append_snapshot \<Rightarrow> runtime_env \<Rightarrow> 'j Runtime \<Rightarrow> Envelope \<Rightarrow> ('j Runtime \<times> sends) option" where
  "HandleEnvelope jd js env r message =
     (if ev_Type message = ''StateDelta'' then handleStateDelta jd env r message
      else if ev_Type message = ''StateDigest'' then Some (handleStateDigest env r message)
      else if ev_Type message = ''DeltaRangeReq'' then Some (handleDeltaRangeReq env r message)
      else if ev_Type message = ''DeltaRangeResp'' then handleDeltaRangeResp jd env r message
      else if ev_Type message = ''SnapshotReq'' then Some (handleSnapshotReq env r message)
      else if ev_Type message = ''SnapshotResp'' then handleSnapshotResp js env r message
      else Some (r, []))"

text \<open>
  One round of \<open>runOutbound\<close> on what \<open>NextOutbound\<close> answered, with the manager it left; the last
  component says that the loop ends.
\<close>

definition newStateDeltaEnvelope :: "runtime_env \<Rightarrow> 'j Runtime \<Rightarrow> StateDelta \<Rightarrow> 'j Runtime \<times> (go_error + Envelope)" where
  "newStateDeltaEnvelope env r stateDelta = newEnvelope env r ''StateDelta'' (Some (enc_StateDelta stateDelta))"

definition outboundRound ::
  "runtime_env \<Rightarrow> bool \<Rightarrow> 'j Runtime \<Rightarrow> 'j Manager \<times> (go_error + StateDelta) \<Rightarrow> ('j Runtime \<times> sends \<times> bool) option" where
  "outboundRound env cancelled r next =
     (let r1 = r\<lparr>rt_manager := fst next\<rparr>
      in case snd next of
           Inl e \<Rightarrow> Some (r1, [], cancelled \<or> e = ErrOutboundQueueClosed)
         | Inr stateDelta \<Rightarrow>
             (case newStateDeltaEnvelope env r1 stateDelta of
                (r2, Inl _) \<Rightarrow> Some (r2, [], False)
              | (r2, Inr message) \<Rightarrow>
                  (case rt_recordDelta r2 stateDelta of
                     None \<Rightarrow> None
                   | Some r3 \<Rightarrow> Some (r3, broadcastEnvelope env r3 message, False))))"

text \<open>
  One turn of the loop of \<open>runAntiEntropy\<close>; \<open>stop\<close> says that the \<open>select\<close> took the case of the
  cancelled context, which ends the loop, and not the one of the ticker.  Before the loop there is
  one \<open>broadcastDigest\<close>.
\<close>

definition antiEntropyTick :: "runtime_env \<Rightarrow> bool \<Rightarrow> 'j Runtime \<Rightarrow> 'j Runtime \<times> sends \<times> bool" where
  "antiEntropyTick env stop r =
     (if stop then (r, [], True) else (let (r', out) = broadcastDigest env r in (r', out, False)))"

section \<open>Invariant\<close>

definition rt_wf :: "'j Runtime \<Rightarrow> bool" where
  "rt_wf r \<longleftrightarrow> mg_wf (rt_manager r) \<and> hist_wf (rt_history r) \<and> guard_wf (rt_guard r) \<and> 0 \<le> rt_fanout r \<and>
     distinct (rt_peers r)"

text \<open>
  A message without a candidate that is accepted although the aggregate cannot carry it: the score
  is the negative zero, or the UTC year is beyond 9999.  Malformed messages and rejected candidates
  are allowed.
\<close>

definition message_tame :: "Envelope \<Rightarrow> bool" where
  "message_tame e \<longleftrightarrow>
     (ev_Type e = ''StateDelta'' \<longrightarrow>
        (case unmarshal dec_StateDelta zero_StateDelta (ev_Payload e) of None \<Rightarrow> True | Some d \<Rightarrow> delta_tame d)) \<and>
     (ev_Type e = ''DeltaRangeResp'' \<longrightarrow>
        (case decodePayload DecodeDeltaRangeResp (ev_Payload e) of None \<Rightarrow> True | Some x \<Rightarrow> list_all delta_tame (drp_Deltas x))) \<and>
     (ev_Type e = ''SnapshotResp'' \<longrightarrow>
        (case decodePayload DecodeSnapshotResp (ev_Payload e) of None \<Rightarrow> True | Some s \<Rightarrow> snap_tame s))"

text \<open>What a manager may turn into: same id and bounds, and a value that only grows.\<close>

definition mg_grows :: "'j Manager \<Rightarrow> 'j Manager \<Rightarrow> bool" where
  "mg_grows m m' \<longleftrightarrow> mg_wf m' \<and> same_frame m m' \<and> mg_semilattice.below (kmax m) (mg_val m) (mg_val m')"

lemma mg_wf_carrier: "mg_wf m \<Longrightarrow> mg_carrier (kmax m) (mg_val m)"
  using mg_wf_topk [of m] by (simp add: mg_carrier_def mg_val_def)

lemma mg_wf_kmax: "mg_wf m \<Longrightarrow> 0 < kmax m"
  using topk_canonicalD(3) [OF mg_wf_topk] by blast

lemma mg_grows_refl: "mg_wf m \<Longrightarrow> mg_grows m m"
  by (simp add: mg_grows_def mg_semilattice.below_refl mg_wf_carrier)

lemma mg_grows_same: "mg_wf m \<Longrightarrow> mg_wf m' \<Longrightarrow> same_frame m m' \<Longrightarrow> mg_val m' = mg_val m \<Longrightarrow> mg_grows m m'"
  by (simp add: mg_grows_def mg_semilattice.below_refl mg_wf_carrier)

lemma mg_grows_join:
  "mg_wf m \<Longrightarrow> mg_wf m' \<Longrightarrow> same_frame m m' \<Longrightarrow> mg_carrier (kmax m) v \<Longrightarrow>
   mg_val m' = mg_join (kmax m) (mg_val m) v \<Longrightarrow> mg_grows m m'"
  by (simp add: mg_grows_def mg_semilattice.below_join mg_wf_carrier)

lemma mg_grows_trans:
  assumes "mg_wf a" "mg_grows a b" "mg_grows b c"
  shows "mg_grows a c"
proof -
  have k: "kmax b = kmax a" "kmax c = kmax a" using assms(2,3) by (auto simp: mg_grows_def same_frame_def)
  have "mg_carrier (kmax a) (mg_val a)" "mg_carrier (kmax a) (mg_val b)" "mg_carrier (kmax a) (mg_val c)"
    using assms k mg_wf_carrier [of a] mg_wf_carrier [of b] mg_wf_carrier [of c] by (auto simp: mg_grows_def)
  then show ?thesis
    using assms k by (auto simp: mg_grows_def intro: same_frame_trans mg_semilattice.below_trans)
qed

lemma received_grows:
  assumes "mg_wf m" "delta_tame d" "ApplyReceivedDelta jd m d = (m', x)"
  shows "mg_grows m m'"
proof (cases "delta_good d")
  case True
  note s = ApplyReceivedDelta_spec [OF assms(1) True assms(3)] and v = delta_val_carrier [OF True mg_wf_kmax [OF assms(1)]]
  show ?thesis
    using s mg_grows_join [OF assms(1) _ _ v] mg_grows_same [OF assms(1)] by (cases x) (auto simp: same_state_def)
next
  case False
  show ?thesis using received_not_good(1-3) [OF assms(1,2) False assms(3)] by (rule mg_grows_same [OF assms(1)])
qed

lemma snapshot_grows:
  assumes "mg_wf m" "snap_tame s" "ApplySnapshot js m s = (m', x)"
  shows "mg_grows m m'"
proof -
  consider "snap_good s" | "half_valid s" | "\<not> snap_good s" "\<not> half_valid s" by blast
  then show ?thesis
  proof cases
    case 1
    note p = ApplySnapshot_spec [OF assms(1) 1 assms(3)] and v = snap_val_carrier [OF 1 mg_wf_kmax [OF assms(1)]]
    show ?thesis
      using p mg_grows_join [OF assms(1) _ _ v] mg_grows_same [OF assms(1)] by (cases x) (auto simp: same_state_def)
  next
    case 2
    note h = half_valid_snapshot [OF assms(1) 2 assms(3)]
    have "mg_carrier (kmax m) (fst (snap_val (kmax m) s), [])"
      using mg_wf_kmax [OF assms(1)] by (simp add: mg_carrier_def topk_canonical_def)
    from mg_grows_join [OF assms(1) h(1,2) this h(5)] show ?thesis .
  next
    case 3
    then have "m' = m" using snapshot_refused(1) [OF assms(1,2)] assms(3) by (metis fst_conv)
    with assms(1) show ?thesis by (simp add: mg_grows_refl)
  qed
qed

section \<open>Who is sent to\<close>

lemma normalizedLoop_spec:
  "distinct out \<Longrightarrow> [] \<notin> set out \<Longrightarrow> distinct (normalizedLoop ps out) \<and> [] \<notin> set (normalizedLoop ps out) \<and>
     set (normalizedLoop ps out) = set out \<union> (TrimSpace ` set ps - {[]})"
  by (induction ps out rule: normalizedLoop.induct) (auto simp: Let_def)

lemma providerLoop_spec:
  "distinct cs \<Longrightarrow> list_all (\<lambda>p. \<not> isSelfPeer p (rt_nodeID r) (rt_selfEndpoint r)) cs \<Longrightarrow>
   distinct (providerLoop r ps cs) \<and> list_all (\<lambda>p. \<not> isSelfPeer p (rt_nodeID r) (rt_selfEndpoint r)) (providerLoop r ps cs)"
  by (induction r ps cs rule: providerLoop.induct) (auto simp: Let_def)

definition shuffles :: "runtime_env \<Rightarrow> bool" where
  "shuffles env \<longleftrightarrow> (\<forall>xs. mset (re_shuffle env xs) = mset xs)"

text \<open>A broadcast reaches distinct peers, at most as many as the fanout, and never the node itself.\<close>

definition fans_out :: "'j Runtime \<Rightarrow> sends \<Rightarrow> bool" where
  "fans_out r out \<longleftrightarrow> distinct (map fst out) \<and> int (length out) \<le> rt_fanout r \<and>
     list_all (\<lambda>(p, _). \<not> isSelfPeer p (rt_nodeID r) (rt_selfEndpoint r)) out"

lemma samplePeers_spec:
  assumes "rt_wf r" "shuffles env"
  shows "distinct (samplePeers env r)" "int (length (samplePeers env r)) \<le> rt_fanout r"
    "list_all (\<lambda>p. \<not> isSelfPeer p (rt_nodeID r) (rt_selfEndpoint r)) (samplePeers env r)"
proof -
  let ?self = "\<lambda>p. isSelfPeer p (rt_nodeID r) (rt_selfEndpoint r)"
  let ?own = "filter (\<lambda>p. \<not> ?self p) (rt_peers r)"
  define cs where "cs = (case re_provider env of None \<Rightarrow> ?own | Some m \<Rightarrow> providerLoop r (map snd m) ?own)"
  have own: "distinct ?own" "list_all (\<lambda>p. \<not> ?self p) ?own" using assms(1) by (auto simp: rt_wf_def list_all_iff)
  have cs: "distinct cs" "list_all (\<lambda>p. \<not> ?self p) cs"
    using own providerLoop_spec [OF own] by (auto simp: cs_def split: option.splits)
  have m: "mset (re_shuffle env cs) = mset cs" using assms(2) by (simp add: shuffles_def)
  have sh: "distinct (re_shuffle env cs)" "set (re_shuffle env cs) = set cs" "length (re_shuffle env cs) = length cs"
    using cs(1) m by (metis distinct_count_atmost_1 set_mset_mset, metis m set_mset_mset, metis m size_mset)
  have s: "samplePeers env r = (if int (length cs) \<le> rt_fanout r then cs else take (nat (rt_fanout r)) (re_shuffle env cs))"
    by (simp add: samplePeers_def cs_def Let_def)
  have t: "list_all (\<lambda>p. \<not> ?self p) (take n (re_shuffle env cs))" for n
    using cs(2) sh(2) by (auto simp: list_all_iff dest: in_set_takeD)
  show "distinct (samplePeers env r)" "int (length (samplePeers env r)) \<le> rt_fanout r"
    "list_all (\<lambda>p. \<not> ?self p) (samplePeers env r)"
    using cs sh assms(1) t by (auto simp: s rt_wf_def)
qed

lemma broadcastEnvelope_spec:
  assumes "rt_wf r" "shuffles env"
  shows "fans_out r (broadcastEnvelope env r e)" "list_all (\<lambda>(_, x). x = e) (broadcastEnvelope env r e)"
proof -
  let ?t = "take (re_budget env) (samplePeers env r)"
  have "map fst (broadcastEnvelope env r e) = ?t" by (simp add: broadcastEnvelope_def comp_def)
  moreover have "list_all (\<lambda>p. \<not> isSelfPeer p (rt_nodeID r) (rt_selfEndpoint r)) ?t"
    using samplePeers_spec(3) [OF assms] by (auto simp: list_all_iff dest: in_set_takeD)
  ultimately show "fans_out r (broadcastEnvelope env r e)"
    using samplePeers_spec(1,2) [OF assms] by (auto simp: fans_out_def broadcastEnvelope_def list_all_iff)
  show "list_all (\<lambda>(_, x). x = e) (broadcastEnvelope env r e)" by (simp add: broadcastEnvelope_def list_all_iff)
qed

lemma NewRuntime_wf:
  assumes "mg_wf m" "NewRuntime c (Some m) True = Some (Inr r)"
  shows "rt_wf r \<and> rt_manager r = m"
proof -
  obtain h where h: "NewDeltaHistory (if rc_DeltaHistorySize c \<le> 0 then 1024 else rc_DeltaHistorySize c) = Inr h"
    using assms(2) by (auto simp: NewRuntime_def split: sum.splits)
  then have w: "hist_wf h" using hist_reach_wf hist_reach.reach_new by blast
  obtain h' where r: "(case Digest m of Inl _ \<Rightarrow> Some h | Inr d \<Rightarrow> AdvanceWatermarks h (digest_seqs d)) = Some h'"
    "rt_history r = h'" "rt_manager r = m" "rt_guard r = NewMessageGuard (60 * 1000000000)" "0 \<le> rt_fanout r"
    "rt_peers r = normalizedPeers (rc_Peers c)"
    using assms(2) h by (auto simp: NewRuntime_def split: option.splits)
  have "hist_wf h'"
    using r(1) w AdvanceWatermarks_returns [OF w] by (auto split: sum.splits) (metis option.inject)
  with assms(1) r normalizedLoop_spec [of "[]" "rc_Peers c"] show ?thesis by (simp add: rt_wf_def normalizedPeers_def)
qed

section \<open>Handlers keep the invariant\<close>

text \<open>
  What a step may do to the runtime: the manager's value and the watermarks only grow, and the
  sequence number of envelopes moves by at most one.
\<close>

definition rt_next :: "'j Runtime \<Rightarrow> 'j Runtime \<Rightarrow> bool" where
  "rt_next r r' \<longleftrightarrow> rt_wf r' \<and> mg_grows (rt_manager r) (rt_manager r') \<and>
     (\<forall>n. watermark (rt_history r) n \<le> watermark (rt_history r') n) \<and>
     rt_nodeID r' = rt_nodeID r \<and> rt_selfEndpoint r' = rt_selfEndpoint r \<and> rt_peers r' = rt_peers r \<and>
     rt_fanout r' = rt_fanout r"

definition seq_by_one :: "'j Runtime \<Rightarrow> 'j Runtime \<Rightarrow> Envelope \<Rightarrow> bool" where
  "seq_by_one r r' e \<longleftrightarrow> ev_From e = rt_nodeID r \<and> ev_Seq e = rt_seq r + 1 \<and> rt_seq r' = rt_seq r + 1"

text \<open>
  What a step may send: one envelope, by a broadcast or as an answer to the endpoint the node knows
  for the sender of the received one; it is the received one or a new one of this node with the next
  sequence number.  A broadcast never reaches the node itself; an answer goes wherever the sender's
  id leads, which is the node's own entry when a message claims to come from the node itself.
\<close>

definition answers :: "runtime_env \<Rightarrow> 'j Runtime \<Rightarrow> Envelope option \<Rightarrow> sends \<Rightarrow> bool" where
  "answers env r received out \<longleftrightarrow>
     (\<exists>e p x. received = Some e \<and> out = [(p, x)] \<and> peerEndpointForNode (re_provider env) r (ev_From e) = Some p)"

definition sends_ok :: "runtime_env \<Rightarrow> 'j Runtime \<Rightarrow> 'j Runtime \<Rightarrow> Envelope option \<Rightarrow> sends \<Rightarrow> bool" where
  "sends_ok env r r' received out \<longleftrightarrow> (out = [] \<or> fans_out r out \<or> answers env r received out) \<and>
     (rt_seq r' = rt_seq r \<or> rt_seq r' = rt_seq r + 1) \<and>
     list_all (\<lambda>(_, e). Some e = received \<or> seq_by_one r r' e) out"

lemma rt_next_refl: "rt_wf r \<Longrightarrow> rt_next r r"
  by (auto simp: rt_next_def rt_wf_def intro: mg_grows_refl)

lemma rt_next_trans: "rt_wf r \<Longrightarrow> rt_next r r1 \<Longrightarrow> rt_next r1 r2 \<Longrightarrow> rt_next r r2"
  by (auto simp: rt_next_def rt_wf_def intro: mg_grows_trans order_trans)

lemma rt_next_seq [simp]: "rt_next r (r'\<lparr>rt_seq := s\<rparr>) = rt_next r r'"
  by (simp add: rt_next_def rt_wf_def)

lemma rt_wf_seq [simp]: "rt_wf (r\<lparr>rt_seq := s\<rparr>) = rt_wf r"
  by (simp add: rt_wf_def)

lemma sends_ok_Nil [simp]: "sends_ok env r r' x [] \<longleftrightarrow> rt_seq r' = rt_seq r \<or> rt_seq r' = rt_seq r + 1"
  by (simp add: sends_ok_def)

lemma freshEnvelope_simps [simp]:
  "ev_From (freshEnvelope env r ty j) = rt_nodeID r" "ev_Seq (freshEnvelope env r ty j) = rt_seq r + 1"
  "ev_Type (freshEnvelope env r ty j) = ty" "ev_Payload (freshEnvelope env r ty j) = json_text j"
  by (simp_all add: freshEnvelope_def)

lemma sends_ok_fresh:
  assumes "out = [] \<or> fans_out r out \<or> answers env r x out" "list_all (\<lambda>(_, e). e = freshEnvelope env r ty j) out" "rt_seq r' = rt_seq r + 1"
  shows "sends_ok env r r' x out"
  using assms by (auto simp: sends_ok_def seq_by_one_def list_all_iff)

lemma sendNew_None: "sendNew env r n ty None = (r, [])"
  by (simp add: sendNew_def newEnvelope_def)

lemma sendNew_Some:
  "sendNew env r n ty (Some j) =
     (r\<lparr>rt_seq := rt_seq r + 1\<rparr>, sendEnvelopeToNode env (r\<lparr>rt_seq := rt_seq r + 1\<rparr>) n (freshEnvelope env r ty j))"
  by (simp add: sendNew_def newEnvelope_def)

lemma peerEndpointForNode_cong: "rt_peers r' = rt_peers r \<Longrightarrow> peerEndpointForNode p r' n = peerEndpointForNode p r n"
  by (simp add: peerEndpointForNode_def Let_def)

lemma peerEndpointForNode_seq [simp]: "peerEndpointForNode p (r\<lparr>rt_seq := s\<rparr>) n = peerEndpointForNode p r n"
  by (rule peerEndpointForNode_cong) simp

lemma sendNew_ok:
  assumes "rt_wf r"
  shows "rt_next r (fst (sendNew env r (ev_From e) ty p)) \<and>
    sends_ok env r (fst (sendNew env r (ev_From e) ty p)) (Some e) (snd (sendNew env r (ev_From e) ty p))"
proof (cases p)
  case None
  with assms show ?thesis by (simp add: sendNew_None rt_next_refl)
next
  case (Some j)
  let ?out = "sendEnvelopeToNode env (r\<lparr>rt_seq := rt_seq r + 1\<rparr>) (ev_From e) (freshEnvelope env r ty j)"
  have "?out = [] \<or> fans_out r ?out \<or> answers env r (Some e) ?out" "list_all (\<lambda>(_, e). e = freshEnvelope env r ty j) ?out"
    by (simp_all add: sendEnvelopeToNode_def answers_def split: option.splits)
  with assms show ?thesis
    unfolding Some sendNew_Some by (intro conjI sends_ok_fresh [of _ _ env _ ty j]) (simp_all add: rt_next_refl)
qed

lemma fans_out_seq [simp]: "fans_out (r\<lparr>rt_seq := s\<rparr>) out = fans_out r out"
  by (simp add: fans_out_def)

lemma broadcastDigest_ok:
  assumes "rt_wf r" "shuffles env"
  shows "rt_next r (fst (broadcastDigest env r)) \<and> sends_ok env r (fst (broadcastDigest env r)) x (snd (broadcastDigest env r))"
proof (cases "localDigest r")
  case (Inl e)
  with assms(1) show ?thesis by (simp add: broadcastDigest_def newDigestEnvelope_def rt_next_refl)
next
  case (Inr d)
  let ?r = "r\<lparr>rt_seq := rt_seq r + 1\<rparr>" and ?e = "freshEnvelope env r ''StateDigest'' (enc_StateDigest d)"
  have b: "broadcastDigest env r = (?r, broadcastEnvelope env ?r ?e)"
    by (simp add: broadcastDigest_def newDigestEnvelope_def newEnvelope_def Inr)
  have w: "rt_wf ?r" using assms(1) by simp
  show ?thesis
    unfolding b fst_conv snd_conv using broadcastEnvelope_spec [OF w assms(2), of ?e] assms(1)
    by (intro conjI sends_ok_fresh [of _ _ env _ "''StateDigest''" "enc_StateDigest d"]) (simp_all add: rt_next_refl)
qed

lemma rt_recordDelta_ok:
  assumes "rt_wf r"
  obtains r' where "rt_recordDelta r d = Some r'" "rt_next r r'" "rt_seq r' = rt_seq r" "rt_manager r' = rt_manager r"
proof (cases "sd_OriginNodeID d = [] \<or> sd_DeltaSequence d = 0")
  case True
  with assms that show ?thesis by (simp add: rt_recordDelta_def rt_next_refl)
next
  case False
  from assms have h: "hist_wf (rt_history r)" by (simp add: rt_wf_def)
  obtain h' e where h': "Record (rt_history r) d = Some (h', e)" "hist_wf h'" "\<And>o_id. watermark (rt_history r) o_id \<le> watermark h' o_id"
    by (rule Record_returns [OF h, of d]) blast
  have "rt_next r (r\<lparr>rt_history := h'\<rparr>)"
    using assms h' by (simp add: rt_next_def rt_wf_def mg_grows_refl)
  with False h'(1) that show ?thesis by (simp add: rt_recordDelta_def)
qed

lemma rt_next_manager:
  "rt_wf r \<Longrightarrow> mg_grows (rt_manager r) m \<Longrightarrow> rt_next r (r\<lparr>rt_manager := m\<rparr>)"
  by (simp add: rt_next_def rt_wf_def mg_grows_def)

lemma fans_out_next: "rt_next r r' \<Longrightarrow> fans_out r' out = fans_out r out"
  by (simp add: rt_next_def fans_out_def)

lemma answers_next: "rt_next r r' \<Longrightarrow> answers env r' x out = answers env r x out"
  using peerEndpointForNode_cong [of r' r] by (simp add: rt_next_def answers_def)

lemma sends_ok_next:
  assumes "rt_next r r1" "rt_seq r1 = rt_seq r" "sends_ok env r1 r' x out"
  shows "sends_ok env r r' x out"
proof -
  have n: "rt_nodeID r1 = rt_nodeID r" using assms(1) by (simp add: rt_next_def)
  show ?thesis using assms(3) unfolding sends_ok_def seq_by_one_def fans_out_next [OF assms(1)] answers_next [OF assms(1)] assms(2) n .
qed

text \<open>A handler that returns a state and sends that are in order.\<close>

definition handled :: "runtime_env \<Rightarrow> 'j Runtime \<Rightarrow> Envelope option \<Rightarrow> ('j Runtime \<times> sends) option \<Rightarrow> bool" where
  "handled env r x res \<longleftrightarrow> (\<exists>r' out. res = Some (r', out) \<and> rt_next r r' \<and> sends_ok env r r' x out)"

lemma handledI: "rt_next r (fst p) \<Longrightarrow> sends_ok env r (fst p) x (snd p) \<Longrightarrow> handled env r x (Some p)"
  by (cases p) (simp add: handled_def)

lemma handled_skip: "rt_wf r \<Longrightarrow> handled env r x (Some (r, []))"
  by (simp add: handled_def rt_next_refl)

lemma handled_after:
  assumes "rt_wf r" "rt_next r r1" "rt_seq r1 = rt_seq r" "handled env r1 x res"
  shows "handled env r x res"
proof -
  obtain r' out where r': "res = Some (r', out)" "rt_next r1 r'" "sends_ok env r1 r' x out"
    using assms(4) by (auto simp: handled_def)
  show ?thesis
    unfolding handled_def r'(1)
    using rt_next_trans [OF assms(1,2) r'(2)] sends_ok_next [OF assms(2,3) r'(3)] by simp
qed

lemma rt_next_wf: "rt_next r r' \<Longrightarrow> rt_wf r'"
  by (simp add: rt_next_def)

lemma handled_quiet: "rt_wf r \<Longrightarrow> rt_next r r1 \<Longrightarrow> rt_seq r1 = rt_seq r \<Longrightarrow> handled env r x (Some (r1, []))"
  by (simp add: handled_def)

lemma handled_new: "rt_wf r \<Longrightarrow> handled env r (Some e) (Some (sendNew env r (ev_From e) ty p))"
  using sendNew_ok [of r] by (intro handledI) auto

lemma handled_digest: "rt_wf r \<Longrightarrow> shuffles env \<Longrightarrow> handled env r x (Some (broadcastDigest env r))"
  using broadcastDigest_ok [of r] by (intro handledI) auto

lemma handled_snapshot: "rt_wf r \<Longrightarrow> handled env r (Some e) (Some (sendSnapshot env r (ev_From e) want))"
  by (cases "pipe_Snapshot (re_snapNow env) (rt_manager r) want")
    (simp_all add: sendSnapshot_def handled_skip handled_new)

lemma handled_fallback: "rt_wf r \<Longrightarrow> handled env r (Some e) (Some (sendSnapshotFallback env r (ev_From e) known))"
  by (cases "Digest (rt_manager r)") (simp_all add: sendSnapshotFallback_def Let_def handled_skip handled_snapshot)

lemma handleStateDelta_handled:
  assumes "rt_wf r" "shuffles env" "message_tame e" "ev_Type e = ''StateDelta''"
  shows "handled env r (Some e) (handleStateDelta jd env r e)"
proof -
  obtain g err where g: "guard_Accept (rt_guard r) (re_guardNow env) e = (g, err)" by fastforce
  let ?r1 = "r\<lparr>rt_guard := g\<rparr>"
  have "guard_wf g" using guard_Accept_spec(2) [of "rt_guard r" "re_guardNow env" e] assms(1) g by (simp add: rt_wf_def)
  then have n1: "rt_next r ?r1" using assms(1) by (simp add: rt_next_def rt_wf_def mg_grows_refl)
  note w1 = rt_next_wf [OF n1]
  note quiet = handled_quiet [OF assms(1) n1, simplified]
  show ?thesis
  proof (cases "err = None \<and> unmarshal dec_StateDelta zero_StateDelta (ev_Payload e) \<noteq> None")
    case False
    then show ?thesis using quiet by (auto simp: handleStateDelta_def g Let_def)
  next
    case True
    then obtain d where d: "unmarshal dec_StateDelta zero_StateDelta (ev_Payload e) = Some d" "err = None" by auto
    obtain m a where m: "ApplyReceivedDelta jd (rt_manager r) d = (m, a)" by fastforce
    have "delta_tame d" using assms(3,4) d by (simp add: message_tame_def)
    then have "mg_grows (rt_manager r) m" using received_grows [OF _ _ m] assms(1) by (simp add: rt_wf_def)
    then have n2: "rt_next ?r1 (?r1\<lparr>rt_manager := m\<rparr>)" using rt_next_manager [OF w1] by simp
    note n3 = rt_next_trans [OF assms(1) n1 n2] and w2 = rt_next_wf [OF n2]
    show ?thesis
    proof (cases a)
      case (Inl x)
      then show ?thesis using handled_quiet [OF assms(1) n3] d m by (simp add: handleStateDelta_def g)
    next
      case (Inr adv)
      obtain r2 where r2: "rt_recordDelta (?r1\<lparr>rt_manager := m\<rparr>) d = Some r2" "rt_next (?r1\<lparr>rt_manager := m\<rparr>) r2"
        "rt_seq r2 = rt_seq (?r1\<lparr>rt_manager := m\<rparr>)" by (rule rt_recordDelta_ok [OF w2])
      note n4 = rt_next_trans [OF assms(1) n3 r2(2)]
      have s: "rt_seq r2 = rt_seq r" using r2(3) by simp
      have eq: "handleStateDelta jd env r e = Some (r2, if adv then broadcastEnvelope env r2 e else [])"
        using d m Inr r2(1) by (simp add: handleStateDelta_def g)
      have "sends_ok env r2 r2 (Some e) (broadcastEnvelope env r2 e)"
        using broadcastEnvelope_spec [OF rt_next_wf [OF r2(2)] assms(2), of e] by (auto simp: sends_ok_def list_all_iff)
      from sends_ok_next [OF n4 s this] n4 s show ?thesis by (auto simp: eq handled_def)
    qed
  qed
qed

lemma handleStateDigest_handled: "rt_wf r \<Longrightarrow> handled env r (Some e) (Some (handleStateDigest env r e))"
  by (auto simp: handleStateDigest_def Let_def handled_skip handled_new split: option.splits sum.splits)

lemma handleDeltaRangeReq_handled: "rt_wf r \<Longrightarrow> handled env r (Some e) (Some (handleDeltaRangeReq env r e))"
  by (auto simp: handleDeltaRangeReq_def handled_skip handled_new handled_fallback split: option.splits sum.splits)

lemma handleSnapshotReq_handled: "rt_wf r \<Longrightarrow> handled env r (Some e) (Some (handleSnapshotReq env r e))"
  by (auto simp: handleSnapshotReq_def handled_skip handled_snapshot split: option.splits)

lemma applyDeltas_ok:
  "rt_wf r \<Longrightarrow> list_all delta_tame ds \<Longrightarrow>
   \<exists>r' b. applyDeltas jd r ds = Some (r', b) \<and> rt_next r r' \<and> rt_seq r' = rt_seq r"
proof (induction ds arbitrary: r)
  case Nil
  then show ?case by (auto intro: rt_next_refl)
next
  case (Cons d ds)
  obtain m a where m: "ApplyReceivedDelta jd (rt_manager r) d = (m, a)" by fastforce
  have "mg_grows (rt_manager r) m" using received_grows [OF _ _ m] Cons.prems by (simp add: rt_wf_def)
  then have n: "rt_next r (r\<lparr>rt_manager := m\<rparr>)" by (rule rt_next_manager [OF Cons.prems(1)])
  show ?case
  proof (cases a)
    case (Inl x)
    with m have "applyDeltas jd r (d # ds) = Some (r\<lparr>rt_manager := m\<rparr>, False)" by simp
    moreover have "rt_seq (r\<lparr>rt_manager := m\<rparr>) = rt_seq r" by simp
    ultimately show ?thesis using n by blast
  next
    case (Inr adv)
    obtain r1 where r1: "rt_recordDelta (r\<lparr>rt_manager := m\<rparr>) d = Some r1" "rt_next (r\<lparr>rt_manager := m\<rparr>) r1"
      "rt_seq r1 = rt_seq (r\<lparr>rt_manager := m\<rparr>)" by (rule rt_recordDelta_ok [OF rt_next_wf [OF n]])
    have t: "list_all delta_tame ds" using Cons.prems(2) by simp
    obtain r' b where r': "applyDeltas jd r1 ds = Some (r', b)" "rt_next r1 r'" "rt_seq r' = rt_seq r1"
      using Cons.IH [OF rt_next_wf [OF r1(2)] t] by blast
    have "rt_next r r'" using rt_next_trans [OF Cons.prems(1) rt_next_trans [OF Cons.prems(1) n r1(2)] r'(2)] .
    moreover have "rt_seq r' = rt_seq r" using r'(3) r1(3) by simp
    ultimately show ?thesis using m Inr r1(1) r'(1) by simp
  qed
qed

lemma handleDeltaRangeResp_handled:
  assumes "rt_wf r" "shuffles env" "message_tame e" "ev_Type e = ''DeltaRangeResp''"
  shows "handled env r x (handleDeltaRangeResp jd env r e)"
proof (cases "decodePayload DecodeDeltaRangeResp (ev_Payload e)")
  case None
  with assms(1) show ?thesis by (simp add: handleDeltaRangeResp_def handled_skip)
next
  case (Some resp)
  then have "list_all delta_tame (drp_Deltas resp)" using assms(3,4) by (simp add: message_tame_def)
  from applyDeltas_ok [OF assms(1) this] obtain r1 b where
    r1: "applyDeltas jd r (drp_Deltas resp) = Some (r1, b)" "rt_next r r1" "rt_seq r1 = rt_seq r" by blast
  show ?thesis
    using Some r1(1) handled_quiet [OF assms(1) r1(2,3)] 
      handled_after [OF assms(1) r1(2,3) handled_digest [OF rt_next_wf [OF r1(2)] assms(2)]]
    by (cases b) (simp_all add: handleDeltaRangeResp_def)
qed

lemma handleSnapshotResp_handled:
  assumes "rt_wf r" "shuffles env" "message_tame e" "ev_Type e = ''SnapshotResp''"
  shows "handled env r x (handleSnapshotResp js env r e)"
proof (cases "decodePayload DecodeSnapshotResp (ev_Payload e)")
  case None
  with assms(1) show ?thesis by (simp add: handleSnapshotResp_def handled_skip)
next
  case (Some resp)
  obtain m a where m: "ApplySnapshot js (rt_manager r) resp = (m, a)" by fastforce
  have "snap_tame resp" using assms(3,4) Some by (simp add: message_tame_def)
  then have "mg_grows (rt_manager r) m" using snapshot_grows [OF _ _ m] assms(1) by (simp add: rt_wf_def)
  then have n: "rt_next r (r\<lparr>rt_manager := m\<rparr>)" by (rule rt_next_manager [OF assms(1)])
  show ?thesis
  proof (cases a)
    case (Inl y)
    then show ?thesis using Some m handled_quiet [OF assms(1) n] by (simp add: handleSnapshotResp_def)
  next
    case (Inr adv)
    have "hist_wf (rt_history r)" using assms(1) by (simp add: rt_wf_def)
    from AdvanceWatermarks_returns [OF this, of "case srp_DeltaSequences resp of None \<Rightarrow> [] | Some es \<Rightarrow> es"] obtain h where
      h: "AdvanceWatermarks (rt_history r) (case srp_DeltaSequences resp of None \<Rightarrow> [] | Some es \<Rightarrow> es) = Some h" "hist_wf h"
        "\<forall>n. watermark (rt_history r) n \<le> watermark h n" by blast
    let ?r = "r\<lparr>rt_manager := m, rt_history := h\<rparr>"
    have n1: "rt_next r ?r" using n h(2,3) by (simp add: rt_next_def rt_wf_def)
    show ?thesis
      using Some m Inr h(1) handled_quiet [OF assms(1) n1]
        handled_after [OF assms(1) n1 _ handled_digest [OF rt_next_wf [OF n1] assms(2)]]
      by (cases adv) (simp_all add: handleSnapshotResp_def Let_def)
  qed
qed

lemma HandleEnvelope_handled:
  assumes "rt_wf r" "shuffles env" "message_tame e"
  shows "handled env r (Some e) (HandleEnvelope jd js env r e)"
  using handled_skip [OF assms(1)] handleStateDelta_handled [OF assms] handleStateDigest_handled [OF assms(1)]
    handleDeltaRangeReq_handled [OF assms(1)] handleDeltaRangeResp_handled [OF assms] handleSnapshotReq_handled [OF assms(1)]
    handleSnapshotResp_handled [OF assms]
  by (simp add: HandleEnvelope_def)

lemma outboundRound_ok:
  assumes "rt_wf r" "shuffles env" "NextOutbound ended (rt_manager r) m res"
  shows "\<exists>r' out stop. outboundRound env cancelled r (m, res) = Some (r', out, stop) \<and> rt_next r r' \<and> sends_ok env r r' None out"
proof -
  have "mg_grows (rt_manager r) m"
    using assms(3,1) by (cases rule: NextOutbound.cases) (auto simp: rt_wf_def mg_wf_def mg_val_def same_frame_def intro!: mg_grows_same)
  then have n1: "rt_next r (r\<lparr>rt_manager := m\<rparr>)" by (rule rt_next_manager [OF assms(1)])
  let ?r1 = "r\<lparr>rt_manager := m\<rparr>"
  show ?thesis
  proof (cases res)
    case (Inl e)
    with n1 show ?thesis by (simp add: outboundRound_def)
  next
    case (Inr d)
    let ?r2 = "?r1\<lparr>rt_seq := rt_seq r + 1\<rparr>" and ?e = "freshEnvelope env ?r1 ''StateDelta'' (enc_StateDelta d)"
    have w2: "rt_wf ?r2" and n2: "rt_next r ?r2" using n1 rt_next_wf [OF n1] by simp_all
    obtain r3 where r3: "rt_recordDelta ?r2 d = Some r3" "rt_next ?r2 r3" "rt_seq r3 = rt_seq ?r2"
      by (rule rt_recordDelta_ok [OF w2])
    note n3 = rt_next_trans [OF assms(1) n2 r3(2)]
    have eq: "outboundRound env cancelled r (m, res) = Some (r3, broadcastEnvelope env r3 ?e, False)"
      using Inr r3(1) by (simp add: outboundRound_def newStateDeltaEnvelope_def newEnvelope_def)
    have "sends_ok env r r3 None (broadcastEnvelope env r3 ?e)"
    proof (rule sends_ok_fresh [of _ _ env _ "''StateDelta''" "enc_StateDelta d"])
      show "broadcastEnvelope env r3 ?e = [] \<or> fans_out r (broadcastEnvelope env r3 ?e) \<or> answers env r None (broadcastEnvelope env r3 ?e)"
        using broadcastEnvelope_spec(1) [OF rt_next_wf [OF n3] assms(2), of ?e] by (simp add: fans_out_next [OF n3])
      show "list_all (\<lambda>(_, e). e = freshEnvelope env r ''StateDelta'' (enc_StateDelta d)) (broadcastEnvelope env r3 ?e)"
        using broadcastEnvelope_spec(2) [OF rt_next_wf [OF n3] assms(2), of ?e] by (simp add: freshEnvelope_def)
      show "rt_seq r3 = rt_seq r + 1" using r3(3) by simp
    qed
    with n3 eq show ?thesis by blast
  qed
qed

section \<open>Runs\<close>

text \<open>
  The steps of a runtime: a received message, a round of \<open>runOutbound\<close>, a digest broadcast of
  \<open>runAntiEntropy\<close> and an update another part of the node applied to the shared manager.  The
  manager and the history have their own locks, which the interleaving of whole steps does not show.
\<close>

inductive runtime_step :: "'j append_delta \<Rightarrow> 'j append_snapshot \<Rightarrow> 'j Runtime \<Rightarrow> 'j Runtime \<Rightarrow> bool" for jd js where
  step_message: "shuffles env \<Longrightarrow> message_tame e \<Longrightarrow> HandleEnvelope jd js env r e = Some (r', out) \<Longrightarrow> runtime_step jd js r r'"
| step_outbound: "shuffles env \<Longrightarrow> NextOutbound cancelled (rt_manager r) m res \<Longrightarrow>
    outboundRound env cancelled r (m, res) = Some (r', out, stop) \<Longrightarrow> runtime_step jd js r r'"
| step_tick: "shuffles env \<Longrightarrow> antiEntropyTick env stop r = (r', out, stop') \<Longrightarrow> runtime_step jd js r r'"
| step_update: "local_text (rt_manager r) (lu_Value u) \<Longrightarrow> ApplyLocalUpdate jd (rt_manager r) u = (m, res) \<Longrightarrow>
    runtime_step jd js r (r\<lparr>rt_manager := m\<rparr>)"

definition runtime_run :: "'j append_delta \<Rightarrow> 'j append_snapshot \<Rightarrow> 'j Runtime \<Rightarrow> 'j Runtime \<Rightarrow> bool" where
  "runtime_run jd js = (runtime_step jd js)\<^sup>*\<^sup>*"

lemma write_ahead_grows:
  assumes "mg_wf m" "write_ahead jd js m m'"
  shows "mg_grows m m'"
proof -
  consider "mg_val m' = mg_val m" | u where "mut_text u" "mg_val m' = mg_join (kmax m) (mg_val m) (mut_val (kmax m) u)"
    using assms(2) unfolding write_ahead_def by (cases "mg_journal m") (auto split: if_splits)
  then show ?thesis
  proof cases
    case 1
    with assms show ?thesis by (simp add: write_ahead_def mg_grows_same)
  next
    case 2
    have "mg_carrier (kmax m) (mut_val (kmax m) u)" using mut_val_carrier [OF mut_text_good [OF 2(1)] mg_wf_kmax [OF assms(1)]] .
    from mg_grows_join [OF assms(1) _ _ this 2(2)] assms(2) show ?thesis by (simp add: write_ahead_def)
  qed
qed

lemma runtime_step_next: "runtime_step jd js r r' \<Longrightarrow> rt_wf r \<Longrightarrow> rt_next r r'"
proof (induction rule: runtime_step.induct)
  case (step_message env e r r' out)
  then show ?case using HandleEnvelope_handled [of r env e jd js] by (simp add: handled_def)
next
  case (step_outbound env cancelled r m res r' out stop)
  then show ?case using outboundRound_ok [of r env cancelled m res cancelled] by auto
next
  case (step_tick env stop r r' out stop')
  then show ?case using broadcastDigest_ok [of r env]
    by (auto simp: antiEntropyTick_def rt_next_refl split_beta split: if_splits)
next
  case (step_update r u m res)
  then have "mg_wf (rt_manager r)" by (simp add: rt_wf_def)
  from write_ahead_grows [OF this ops_write_ahead(1) [OF this step_update(1,2)]] show ?case
    by (rule rt_next_manager [OF step_update(3)])
qed

lemma runtime_run_next: "runtime_run jd js r r' \<Longrightarrow> rt_wf r \<Longrightarrow> rt_next r r'"
  unfolding runtime_run_def
  by (induction rule: rtranclp_induct) (auto intro: rt_next_refl rt_next_trans runtime_step_next rt_next_wf)

lemma NewRuntime_returns:
  obtains r where "NewRuntime c (Some m) True = Some (Inr r)" "rt_manager r = m"
proof -
  obtain h where h: "NewDeltaHistory (if rc_DeltaHistorySize c \<le> 0 then 1024 else rc_DeltaHistorySize c) = Inr h"
    by (cases "rc_DeltaHistorySize c \<le> 0") (simp_all add: NewDeltaHistory_def)
  have w: "hist_wf h" using hist_reach_wf [OF hist_reach.reach_new [OF h]] by simp
  obtain h' where "(case Digest m of Inl _ \<Rightarrow> Some h | Inr d \<Rightarrow> AdvanceWatermarks h (digest_seqs d)) = Some h'"
  proof (cases "Digest m")
    case (Inr d)
    with AdvanceWatermarks_returns [OF w, of "digest_seqs d"] that show ?thesis by auto
  qed (use that in simp)
  then obtain r where "NewRuntime c (Some m) True = Some (Inr r)" "rt_manager r = m" by (simp add: NewRuntime_def h)
  then show ?thesis by (rule that)
qed

text \<open>
  C7. A runtime withstands its peers: after any run of received messages, outbound rounds, digest
  broadcasts and local updates, handling any message, malformed, duplicated, rejected or unexpected
  ones included, returns, keeps the manager well formed, and loses nothing the manager or the history
  had.  It sends one envelope at most, the received one or a new one with the node's id and its next
  sequence number: by a broadcast to distinct other peers within the fanout, or to the endpoint known
  for the sender of the message.  Excluded, in the run and for the message, are candidates that are
  accepted although their score is the negative zero or their UTC year is beyond 9999, and, for local
  updates, candidates that cannot be written as JSON.
\<close>

theorem runtime_safe:
  assumes "mg_wf m" "NewRuntime c (Some m) True = Some (Inr r0)" "runtime_run jd js r0 r" "shuffles env" "message_tame e"
  shows "\<exists>r' out. HandleEnvelope jd js env r e = Some (r', out) \<and> mg_wf (rt_manager r') \<and>
    mg_semilattice.below (kmax m) (mg_val m) (mg_val (rt_manager r)) \<and>
    mg_semilattice.below (kmax m) (mg_val (rt_manager r)) (mg_val (rt_manager r')) \<and>
    (\<forall>n. watermark (rt_history r) n \<le> watermark (rt_history r') n) \<and> sends_ok env r r' (Some e) out"
proof -
  have r0: "rt_wf r0" "rt_manager r0 = m" using NewRuntime_wf [OF assms(1,2)] by auto
  note n = runtime_run_next [OF assms(3) r0(1)]
  then have k: "mg_grows m (rt_manager r)" "kmax (rt_manager r) = kmax m"
    using r0(2) by (auto simp: rt_next_def mg_grows_def same_frame_def)
  from HandleEnvelope_handled [OF rt_next_wf [OF n] assms(4,5), of jd js] obtain r' out where
    r': "HandleEnvelope jd js env r e = Some (r', out)" "rt_next r r'" "sends_ok env r r' (Some e) out" by (auto simp: handled_def)
  then show ?thesis using k by (auto simp: rt_next_def mg_grows_def)
qed

definition ex_runtime :: "string \<Rightarrow> string \<Rightarrow> unit Manager \<Rightarrow> unit Runtime" where
  "ex_runtime n peer m =
     \<lparr>rt_nodeID = n, rt_selfEndpoint = [], rt_peers = [peer], rt_fanout = 1, rt_sendTimeout = 1, rt_antiEntropyInterval = 1,
      rt_manager = m, rt_history = \<lparr>dh_capacity = 2, dh_entries = [], dh_contiguous = []\<rparr>,
      rt_guard = NewMessageGuard 1, rt_seq = 0\<rparr>"

definition ex_renv :: runtime_env where
  "ex_renv = \<lparr>re_guardNow = ai_now ex_io, re_stamp = ai_now ex_io, re_snapNow = ai_now ex_io, re_shuffle = (\<lambda>xs. xs),
     re_provider = None, re_budget = 1\<rparr>"

lemma ex_runtime_wf: "mg_wf m \<Longrightarrow> rt_wf (ex_runtime n p m)"
  by (simp add: rt_wf_def ex_runtime_def hist_wf_def)

lemma ex_runtime_simps [simp]:
  "rt_manager (ex_runtime n p m) = m" "rt_nodeID (ex_runtime n p m) = n" "rt_peers (ex_runtime n p m) = [p]"
  by (simp_all add: ex_runtime_def)

lemma ex_renv_simps [simp]:
  "shuffles ex_renv" "clock_ok (re_stamp ex_renv)" "clock_ok (re_snapNow ex_renv)" "re_budget ex_renv = 1"
  using ex_io_clock by (simp_all add: shuffles_def ex_renv_def)

theorem runtime_safe_witness:
  "\<exists>r0 r' out. NewRuntime \<lparr>rc_NodeID = ''a'', rc_SelfEndpoint = [], rc_Peers = [''b:1''], rc_Fanout = 0, rc_SendTimeout = 0,
       rc_AntiEntropyInterval = 0, rc_DeltaHistorySize = 0\<rparr> (Some ex_manager) True = Some (Inr r0) \<and>
     HandleEnvelope ex_jd (\<lambda>j s. (j, None)) ex_renv r0 (zero_Envelope\<lparr>ev_Type := ''SnapshotReq''\<rparr>) = Some (r', out)"
proof -
  let ?c = "\<lparr>rc_NodeID = ''a'', rc_SelfEndpoint = [], rc_Peers = [''b:1''], rc_Fanout = 0, rc_SendTimeout = 0,
    rc_AntiEntropyInterval = 0, rc_DeltaHistorySize = 0\<rparr>"
  obtain r0 where r0: "NewRuntime ?c (Some ex_manager) True = Some (Inr r0)" by (rule NewRuntime_returns)
  have "parse_json [] = None" by code_simp
  then have t: "message_tame (zero_Envelope\<lparr>ev_Type := ''SnapshotReq''\<rparr>)"
    by (simp add: message_tame_def decodePayload_def unmarshal_def zero_Envelope_def)
  have "runtime_run ex_jd (\<lambda>j s. (j, None)) r0 r0" by (simp add: runtime_run_def)
  from runtime_safe [OF ex_manager_wf r0 this ex_renv_simps(1) t] r0 show ?thesis by blast
qed

end
