(* ===== verification/Exchange.thy ===== *)
theory Exchange
  imports Runtime
begin

text \<open>
  Two runtimes over the wire: what one node sends, encoded, decoded and handled by another node,
  has the effect on the other's aggregates that the message stands for.
\<close>

section \<open>Envelopes over the wire\<close>

lemma fresh_on_wire:
  assumes "ValidNodeID (rt_nodeID r)" "ty \<in> set allowedTypes" "clock_ok (re_stamp env)" "json_ok 1 j"
  shows "on_wire (freshEnvelope env r ty j) ((freshEnvelope env r ty j)\<lparr>ev_Checksum := checksumForPayload (json_text j)\<rparr>)"
  by (rule envelope_on_wire [where t = "time_UTC (re_stamp env)"])
    (use assms in \<open>simp_all add: freshEnvelope_def clock_ok_def ascii_valid\<close>)

lemma decodePayload_text: "json_ok 1 j \<Longrightarrow> dec j = Inr x \<Longrightarrow> decodePayload dec (json_text j) = Some x"
  using parse_text [OF json_ok_mono [of 1 j 0]] by (simp add: decodePayload_def)

section \<open>Watermarks\<close>

lemma mergeWatermarksLoop_spec:
  "mwf dst \<Longrightarrow> mwf src \<Longrightarrow> mwf (mergeWatermarksLoop dst src) \<and>
   mget 0 (mergeWatermarksLoop dst src) n = max (mget 0 dst n) (mget 0 src n)"
proof (induction dst src rule: mergeWatermarksLoop.induct)
  case (2 dst k s src)
  have m: "mwf src" "\<not> mhas src k" using 2(3) by (auto simp: mwf_def mhas_iff)
  let ?d = "if s > mget 0 dst k then mput k s dst else dst"
  have "mwf ?d" using 2(2) by simp
  from 2(1) [OF this m(1)] m(2) show ?case by (auto simp: max_def mget_absent word_gt_0 split: if_splits)
qed simp

lemma mergeWatermarksLoop_keys:
  "mwf dst \<Longrightarrow> list_all (\<lambda>(n, s). ValidNodeID n \<and> s \<noteq> 0) dst \<Longrightarrow> list_all (\<lambda>(n, s). ValidNodeID n \<and> s \<noteq> 0) src \<Longrightarrow>
   list_all (\<lambda>(n, s). ValidNodeID n \<and> s \<noteq> 0) (mergeWatermarksLoop dst src)"
proof (induction dst src rule: mergeWatermarksLoop.induct)
  case (2 dst k s src)
  have "list_all (\<lambda>(n, s). ValidNodeID n \<and> s \<noteq> 0) (mput k s dst)"
    using 2(2,3,4) by (intro list_all_mput [where P = "\<lambda>n s. ValidNodeID n \<and> s \<noteq> 0"]) simp_all
  with 2 show ?case by simp
qed simp

lemma mergeWatermarks_spec:
  assumes "seqs_wf dst" "seqs_wf (Some src)"
  shows "seqs_wf (mergeWatermarks dst src)"
    "seq_get (mergeWatermarks dst src) n = max (seq_get dst n) (seq_get (Some src) n)"
proof -
  have s: "mwf src" "list_all (\<lambda>(n, s). ValidNodeID n \<and> s \<noteq> 0) src"
    using assms(2) by (simp_all add: seqs_wf_def validSequences_def)
  have "seqs_wf (mergeWatermarks dst src) \<and> seq_get (mergeWatermarks dst src) n = max (seq_get dst n) (seq_get (Some src) n)"
  proof (cases dst)
    case None
    then show ?thesis
      using s mergeWatermarksLoop_spec [of "[]" src n] mergeWatermarksLoop_keys [of "[]" src]
      by (auto simp: mergeWatermarks_def seqs_wf_def validSequences_def seq_get_def)
  next
    case (Some es)
    then have e: "mwf es" "list_all (\<lambda>(n, s). ValidNodeID n \<and> s \<noteq> 0) es"
      using assms(1) by (simp_all add: seqs_wf_def validSequences_def)
    then show ?thesis
      using Some s mergeWatermarksLoop_spec [OF e(1) s(1), of n] mergeWatermarksLoop_keys [OF e s(2)]
      by (auto simp: mergeWatermarks_def seqs_wf_def validSequences_def seq_get_def)
  qed
  then show "seqs_wf (mergeWatermarks dst src)"
    "seq_get (mergeWatermarks dst src) n = max (seq_get dst n) (seq_get (Some src) n)" by auto
qed

text \<open>What a runtime says of its sequences: its own counter and what its history covers.\<close>

definition known :: "'j Runtime \<Rightarrow> string \<Rightarrow> u64" where
  "known r n = max (seq_get (ownSequence (rt_manager r)) n) (watermark (rt_history r) n)"

lemma merged_own:
  assumes "rt_wf r"
  shows "seqs_wf (mergeWatermarks (ownSequence (rt_manager r)) (Watermarks (rt_history r)))"
    "seq_get (mergeWatermarks (ownSequence (rt_manager r)) (Watermarks (rt_history r))) = known r"
proof -
  have h: "hist_wf (rt_history r)" "ValidNodeID (mg_nodeID (rt_manager r))" using assms by (simp_all add: rt_wf_def mg_wf_def)
  note w = mergeWatermarks_spec [OF ownSequence_wf [OF h(2)] Watermarks_spec(1) [OF h(1)]]
  show "seqs_wf (mergeWatermarks (ownSequence (rt_manager r)) (Watermarks (rt_history r)))" by (rule w)
  show "seq_get (mergeWatermarks (ownSequence (rt_manager r)) (Watermarks (rt_history r))) = known r"
    using w(2) Watermarks_spec(2) [OF h(1)] by (simp add: fun_eq_iff known_def)
qed

section \<open>Deltas\<close>

lemma delta_payload:
  "delta_text d \<Longrightarrow> unmarshal dec_StateDelta zero_StateDelta (json_text (enc_StateDelta d)) = Some d"
  using delta_good_payload [of d] by (simp add: delta_text_def unmarshal_text dec_enc_StateDelta)

lemma fresh_checksum [simp]: "fresh g (e\<lparr>ev_Checksum := c\<rparr>) = fresh g e"
  by (cases "high g (ev_From e)") (simp_all add: fresh_def)

lemma stale_skipped:
  assumes "guard_wf (rt_guard q)" "\<not> fresh (rt_guard q) e" "ev_Type e = ''StateDelta''"
  shows "\<exists>g. HandleEnvelope jd js env q e = Some (q\<lparr>rt_guard := g\<rparr>, [])"
proof -
  obtain g err where g: "guard_Accept (rt_guard q) (re_guardNow env) e = (g, err)" by fastforce
  have "err \<noteq> None" using guard_Accept_spec(1) [OF assms(1), of "re_guardNow env" e] assms(2) g by auto
  with g assms(3) show ?thesis by (auto simp: HandleEnvelope_def handleStateDelta_def)
qed

lemma handleStateDelta_fresh:
  assumes "rt_wf q" "fresh (rt_guard q) e" "ev_Type e = ''StateDelta''" "delta_text d"
    and "unmarshal dec_StateDelta zero_StateDelta (ev_Payload e) = Some d"
  obtains q' out where "HandleEnvelope jd js env q e = Some (q', out)"
    "rt_manager q' = fst (ApplyReceivedDelta jd (rt_manager q) d)" "guard_wf (rt_guard q')" "\<not> fresh (rt_guard q') e"
    "case snd (ApplyReceivedDelta jd (rt_manager q) d) of
       Inr True \<Rightarrow> out = broadcastEnvelope env q' e | _ \<Rightarrow> out = []"
proof -
  obtain g err where g: "guard_Accept (rt_guard q) (re_guardNow env) e = (g, err)" by fastforce
  have gw: "guard_wf (rt_guard q)" using assms(1) by (simp add: rt_wf_def)
  note spec = guard_Accept_spec [OF gw, of "re_guardNow env" e, unfolded g]
  have ge: "err = None" "guard_wf g" "\<not> fresh g e" using spec assms(2) by (simp_all add: fresh_def)
  let ?r1 = "q\<lparr>rt_guard := g\<rparr>"
  obtain m a where m: "ApplyReceivedDelta jd (rt_manager q) d = (m, a)" by fastforce
  have w: "mg_wf (rt_manager q)" "delta_good d" using assms(1,4) by (simp_all add: rt_wf_def delta_text_def)
  have "mg_wf m" using ApplyReceivedDelta_spec [OF w m] by blast
  then have w2: "rt_wf (?r1\<lparr>rt_manager := m\<rparr>)" using assms(1) ge(2) by (simp add: rt_wf_def)
  show ?thesis
  proof (cases a)
    case (Inl x)
    then show ?thesis
      using that [of "?r1\<lparr>rt_manager := m\<rparr>" "[]"] assms(3,5) ge m by (simp add: HandleEnvelope_def handleStateDelta_def g)
  next
    case (Inr adv)
    let ?r = "?r1\<lparr>rt_manager := m\<rparr>"
    obtain r2 where r2: "rt_recordDelta ?r d = Some r2" "rt_next ?r r2" "rt_seq r2 = rt_seq ?r" "rt_manager r2 = rt_manager ?r"
      by (rule rt_recordDelta_ok [OF w2])
    have h: "HandleEnvelope jd js env q e = Some (r2, if adv then broadcastEnvelope env r2 e else [])"
      using assms(3,5) ge(1) m Inr r2(1) by (simp add: HandleEnvelope_def handleStateDelta_def g)
    have "rt_guard r2 = g" using r2(1) by (auto simp: rt_recordDelta_def split: if_splits)
    with ge have gr: "guard_wf (rt_guard r2)" "\<not> fresh (rt_guard r2) e" by simp_all
    show ?thesis
      by (rule that [OF h _ gr]) (use m Inr r2(4) in \<open>auto split: bool.splits\<close>)
  qed
qed

lemma outboundRound_sends:
  "outboundRound env c s (m, Inr d) = Some (s', out, stop) \<Longrightarrow>
   out = broadcastEnvelope env s' (freshEnvelope env (s\<lparr>rt_manager := m\<rparr>) ''StateDelta'' (enc_StateDelta d))"
  by (auto simp: outboundRound_def newStateDeltaEnvelope_def newEnvelope_def Let_def split: option.splits)

text \<open>
  C8. A delta that leaves one node arrives: every copy the outbound round of a node hands to its
  sender survives encoding and decoding, and a node whose guard has not seen it merges exactly its
  value, passes it on when that changed something, or, when its journal refuses, keeps the state
  it had; a second copy changes nothing and is not passed on.
\<close>

theorem delta_delivery:
  assumes "rt_wf s" "rt_wf q" "ValidNodeID (rt_nodeID s)" "clock_ok (re_stamp env)"
    and "NextOutbound ended (rt_manager s) m (Inr d)" "delta_text d"
    and "outboundRound env cancelled s (m, Inr d) = Some (s', out, stop)" "(p, e) \<in> set out" "fresh (rt_guard q) e"
  shows "\<exists>e' q' out'. on_wire e e' \<and> HandleEnvelope jd js env' q e' = Some (q', out') \<and>
    (case snd (ApplyReceivedDelta jd (rt_manager q) d) of
       Inr adv \<Rightarrow>
         mg_val (rt_manager q') = mg_join (kmax (rt_manager q)) (mg_val (rt_manager q)) (delta_val (kmax (rt_manager q)) d) \<and>
         (adv \<longleftrightarrow> mg_val (rt_manager q') \<noteq> mg_val (rt_manager q)) \<and>
         out' = (if adv then broadcastEnvelope env' q' e' else [])
     | Inl err \<Rightarrow> err = ErrPersistence \<and> same_state (rt_manager q) (rt_manager q') \<and>
         journal_failed jd (rt_manager q) (rt_manager q') d \<and> out' = []) \<and>
    (\<exists>g. HandleEnvelope jd js env'' q' e' = Some (q'\<lparr>rt_guard := g\<rparr>, []))"
proof -
  let ?j = "enc_StateDelta d" and ?s = "s\<lparr>rt_manager := m\<rparr>"
  let ?e = "freshEnvelope env ?s ''StateDelta'' ?j"
  let ?e' = "?e\<lparr>ev_Checksum := checksumForPayload (json_text ?j)\<rparr>"
  have e: "e = ?e" using assms(8) unfolding outboundRound_sends [OF assms(7)] by (auto simp: broadcastEnvelope_def)
  have wire: "on_wire e ?e'"
    unfolding e using assms(3,4,6) by (intro fresh_on_wire) (simp_all add: allowedTypes_def delta_text_def)
  have fr: "fresh (rt_guard q) ?e'" using assms(9) by (simp add: e)
  have u: "unmarshal dec_StateDelta zero_StateDelta (ev_Payload ?e') = Some d" using delta_payload [OF assms(6)] by simp
  obtain q' out' where q': "HandleEnvelope jd js env' q ?e' = Some (q', out')"
    "rt_manager q' = fst (ApplyReceivedDelta jd (rt_manager q) d)" "guard_wf (rt_guard q')" "\<not> fresh (rt_guard q') ?e'"
    "case snd (ApplyReceivedDelta jd (rt_manager q) d) of
       Inr True \<Rightarrow> out' = broadcastEnvelope env' q' ?e' | _ \<Rightarrow> out' = []"
    by (rule handleStateDelta_fresh [OF assms(2) fr _ assms(6) u]) simp_all
  have w: "mg_wf (rt_manager q)" "delta_good d" using assms(2,6) by (simp_all add: rt_wf_def delta_text_def)
  have "case snd (ApplyReceivedDelta jd (rt_manager q) d) of
       Inr adv \<Rightarrow>
         mg_val (rt_manager q') = mg_join (kmax (rt_manager q)) (mg_val (rt_manager q)) (delta_val (kmax (rt_manager q)) d) \<and>
         (adv \<longleftrightarrow> mg_val (rt_manager q') \<noteq> mg_val (rt_manager q)) \<and>
         out' = (if adv then broadcastEnvelope env' q' ?e' else [])
     | Inl err \<Rightarrow> err = ErrPersistence \<and> same_state (rt_manager q) (rt_manager q') \<and>
         journal_failed jd (rt_manager q) (rt_manager q') d \<and> out' = []"
    using ApplyReceivedDelta_spec [OF w surjective_pairing, of jd] q'(2,5) by (auto split: sum.splits bool.splits)
  moreover have "\<exists>g. HandleEnvelope jd js env'' q' ?e' = Some (q'\<lparr>rt_guard := g\<rparr>, [])"
    using stale_skipped [OF q'(3,4)] by simp
  ultimately show ?thesis using wire q'(1) by blast
qed

section \<open>Snapshots\<close>

text \<open>The part of a value that the aggregates \<open>want\<close> stand for.\<close>

definition part_val :: "string list \<Rightarrow> (string \<Rightarrow> u64) \<times> Candidate list \<Rightarrow> (string \<Rightarrow> u64) \<times> Candidate list" where
  "part_val want v =
     (if AggregateSUM \<in> set want then fst v else (\<lambda>_. 0), if AggregateTOPK \<in> set want then snd v else [])"

lemma snapshotLoop_spec:
  assumes "topk_Serialize (mg_topk m) = Inr t" "set want \<subseteq> {AggregateSUM, AggregateTOPK}"
  shows "\<exists>s. snapshotLoop m want resp = Inr s \<and>
    srp_SUMState s = (if AggregateSUM \<in> set want then Some (sum_Serialize (mg_sum m)) else srp_SUMState resp) \<and>
    srp_TOPKState s = (if AggregateTOPK \<in> set want then Some t else srp_TOPKState resp) \<and>
    srp_DeltaSequences s = srp_DeltaSequences resp \<and> srp_CreatedAt s = srp_CreatedAt resp"
  using assms(2)
proof (induction want arbitrary: resp)
  case (Cons a want)
  let ?step = "if a = AggregateSUM
    then resp\<lparr>srp_SUMState := Some (sum_Serialize (mg_sum m)),
      srp_SnapshotVersion := maxUint64 (srp_SnapshotVersion resp) (ss_Version (sum_getState (mg_sum m)))\<rparr>
    else resp\<lparr>srp_TOPKState := Some t,
      srp_SnapshotVersion := maxUint64 (srp_SnapshotVersion resp) (ts_Version (topk_getState (mg_topk m)))\<rparr>"
  have "snapshotLoop m (a # want) resp = snapshotLoop m want ?step" using Cons.prems assms(1) by auto
  moreover obtain s where "snapshotLoop m want ?step = Inr s"
    "srp_SUMState s = (if AggregateSUM \<in> set want then Some (sum_Serialize (mg_sum m)) else srp_SUMState ?step)"
    "srp_TOPKState s = (if AggregateTOPK \<in> set want then Some t else srp_TOPKState ?step)"
    "srp_DeltaSequences s = srp_DeltaSequences ?step" "srp_CreatedAt s = srp_CreatedAt ?step"
    using Cons.IH [of ?step] Cons.prems by auto
  ultimately show ?case using Cons.prems by (auto split: if_splits)
qed simp

lemma pipe_Snapshot_spec:
  assumes "mg_wf m" "want \<noteq> []" "set want \<subseteq> {AggregateSUM, AggregateTOPK}"
  obtains s t where "pipe_Snapshot now m want = Inr s" "topk_Serialize (mg_topk m) = Inr t"
    "srp_SUMState s = (if AggregateSUM \<in> set want then Some (sum_Serialize (mg_sum m)) else None)"
    "srp_TOPKState s = (if AggregateTOPK \<in> set want then Some t else None)"
    "srp_DeltaSequences s = ownSequence m" "srp_CreatedAt s = time_UTC now" "srp_SUMState s \<noteq> None \<or> srp_TOPKState s \<noteq> None"
proof -
  obtain t where t: "topk_Serialize (mg_topk m) = Inr t" using assms(1) by (rule mg_wf_serializes)
  from snapshotLoop_spec [OF t assms(3), of "\<lparr>srp_SnapshotVersion = 0, srp_SUMState = None, srp_TOPKState = None,
    srp_DeltaSequences = ownSequence m, srp_CreatedAt = time_UTC now\<rparr>"] obtain s where
    s: "snapshotLoop m want \<lparr>srp_SnapshotVersion = 0, srp_SUMState = None, srp_TOPKState = None,
      srp_DeltaSequences = ownSequence m, srp_CreatedAt = time_UTC now\<rparr> = Inr s"
      "srp_SUMState s = (if AggregateSUM \<in> set want then Some (sum_Serialize (mg_sum m)) else None)"
      "srp_TOPKState s = (if AggregateTOPK \<in> set want then Some t else None)"
      "srp_DeltaSequences s = ownSequence m" "srp_CreatedAt s = time_UTC now" by auto
  have "AggregateSUM \<in> set want \<or> AggregateTOPK \<in> set want" using assms(2,3) by (cases want) auto
  then have n: "srp_SUMState s \<noteq> None \<or> srp_TOPKState s \<noteq> None" using s(2,3) by auto
  then have "pipe_Snapshot now m want = Inr s" using s(1) by (auto simp: pipe_Snapshot_def snapshotLocked_def)
  with t s(2-5) n show ?thesis by (intro that)
qed

lemma snapshot_part:
  assumes "mg_wf m" "topk_Serialize (mg_topk m) = Inr t"
    "srp_SUMState s = (if AggregateSUM \<in> set want then Some (sum_Serialize (mg_sum m)) else None)"
    "srp_TOPKState s = (if AggregateTOPK \<in> set want then Some t else None)"
  shows "snap_good s" "snap_val (kmax m) s = part_val want (mg_val m)"
proof -
  let ?full = "s\<lparr>srp_SUMState := Some (sum_Serialize (mg_sum m)), srp_TOPKState := Some t\<rparr>"
  have f: "snap_good ?full" "snap_val (kmax m) ?full = mg_val m"
    using snapshot_full_val [OF assms(1), of ?full t] assms(2) by simp_all
  show "snap_good s" using f(1) assms(3,4) by (auto simp: snap_good_def)
  have "fst (snap_val (kmax m) s) = fst (part_val want (snap_val (kmax m) ?full))"
    "snd (snap_val (kmax m) s) = snd (part_val want (snap_val (kmax m) ?full))"
    using assms(3,4) by (auto simp: snap_val_def part_val_def)
  then show "snap_val (kmax m) s = part_val want (mg_val m)" unfolding f(2) by (rule prod_eqI)
qed

text \<open>What a snapshot looks like on the wire.\<close>

lemma snapshot_wire:
  assumes "mg_wf m" "mg_text m" "clock_ok now" "topk_Serialize (mg_topk m) = Inr t"
    "srp_SUMState s \<in> {None, Some (sum_Serialize (mg_sum m))}" "srp_TOPKState s \<in> {None, Some t}"
    "srp_SUMState s \<noteq> None \<or> srp_TOPKState s \<noteq> None" "seqs_wf (srp_DeltaSequences s)" "srp_CreatedAt s = time_UTC now"
  obtains x where "enc_SnapshotResp s = Some x" "json_ok 1 x"
    "DecodeSnapshotResp x = Inr (s\<lparr>srp_DeltaSequences := wire_seqs (srp_DeltaSequences s)\<rparr>)"
proof -
  have w: "sum_wf (mg_sum m)" "topk_wf (mg_topk m)" using assms(1) by (simp_all add: mg_wf_def)
  have tm: "enc_time (time_UTC now) = Some (JStr (FormatRFC3339Nano (time_UTC now)))"
    using assms(3) by (simp add: clock_ok_def enc_time_def marshal_time_def time_wf_def)
  have "json_ok 2 (enc_map_uint64 (srp_DeltaSequences s))"
    using assms(8) by (intro json_ok_map_uint64)
      (auto simp: seqs_wf_def validSequences_def list_all_iff max_depth_def intro!: ascii_valid ValidNodeID_ascii)
  then have "\<exists>x. enc_SnapshotResp s = Some x \<and> json_ok 1 x"
    using sum_Serialize_json [OF w(1)] topk_Serialize_json [OF w(2) assms(4,2)] json_ok_time [OF tm, of 2] assms(5,6)
    by (auto simp: enc_SnapshotResp_def assms(9) tm enc_raw_def omitempty_def max_depth_def ascii_valid numeral_2_eq_2)
  then obtain x where x: "enc_SnapshotResp s = Some x" "json_ok 1 x" by blast
  have "DecodeSnapshotResp x = Inr (s\<lparr>srp_DeltaSequences := wire_seqs (srp_DeltaSequences s)\<rparr>)"
    using assms(3) by (intro DecodeSnapshotResp_enc [OF x(1) assms(8,7)])
      (simp_all add: assms(9) clock_ok_def time_UTC_def time_IsZero_def)
  with x that show ?thesis by blast
qed

lemma localDigest_spec:
  assumes "rt_wf r"
  obtains d t where "localDigest r = Inr d" "seqs_wf (dg_DeltaSequences d)" "seq_get (dg_DeltaSequences d) = known r"
    "topk_Serialize (mg_topk (rt_manager r)) = Inr t"
    "dg_SUM d = \<lparr>ad_Version = ss_Version (sum_getState (mg_sum (rt_manager r))),
      ad_Checksum = StateChecksum (sum_Serialize (mg_sum (rt_manager r)))\<rparr>"
    "dg_TOPK d = \<lparr>ad_Version = ts_Version (topk_getState (mg_topk (rt_manager r))), ad_Checksum = StateChecksum t\<rparr>"
proof -
  have "mg_wf (rt_manager r)" using assms by (simp add: rt_wf_def)
  then obtain t where t: "topk_Serialize (mg_topk (rt_manager r)) = Inr t" by (rule mg_wf_serializes)
  with that merged_own [OF assms] show ?thesis by (simp add: localDigest_def Digest_def)
qed

lemma json_ok_digest:
  assumes "seqs_wf (dg_DeltaSequences d)" "ascii (ad_Checksum (dg_SUM d))" "ascii (ad_Checksum (dg_TOPK d))" "Suc (Suc k) < max_depth"
  shows "json_ok k (enc_StateDigest d)"
proof -
  have "json_ok (Suc k) (enc_map_uint64 (dg_DeltaSequences d))"
    using assms(1,4) by (intro json_ok_map_uint64)
      (auto simp: seqs_wf_def validSequences_def list_all_iff intro!: ascii_valid ValidNodeID_ascii)
  with assms(2-4) show ?thesis
    by (auto simp: enc_StateDigest_def enc_AggregateDigest_def omitempty_def ascii_valid)
qed

lemma handleSnapshotResp_effect:
  assumes "rt_wf c" "ev_Type e = ''SnapshotResp''" "decodePayload DecodeSnapshotResp (ev_Payload e) = Some s" "snap_good s"
  obtains c' out where "HandleEnvelope jd js env c e = Some (c', out)" "rt_manager c' = fst (ApplySnapshot js (rt_manager c) s)"
    "ok (snd (ApplySnapshot js (rt_manager c) s)) \<longrightarrow>
       (\<forall>n. watermark (rt_history c) n \<le> watermark (rt_history c') n \<and>
         (ValidNodeID n \<longrightarrow> seq_get (srp_DeltaSequences s) n \<le> watermark (rt_history c') n))"
proof -
  obtain m a where m: "ApplySnapshot js (rt_manager c) s = (m, a)" by fastforce
  show ?thesis
  proof (cases a)
    case (Inl x)
    then show ?thesis
      using that [of "c\<lparr>rt_manager := m\<rparr>" "[]"] assms(2,3) m by (simp add: HandleEnvelope_def handleSnapshotResp_def)
  next
    case (Inr adv)
    let ?ws = "case srp_DeltaSequences s of None \<Rightarrow> [] | Some es \<Rightarrow> es"
    have "hist_wf (rt_history c)" using assms(1) by (simp add: rt_wf_def)
    from AdvanceWatermarks_returns [OF this, of ?ws] obtain h where h: "AdvanceWatermarks (rt_history c) ?ws = Some h"
      "\<forall>n. watermark (rt_history c) n \<le> watermark h n" "\<forall>(n, q) \<in> set ?ws. ValidNodeID n \<longrightarrow> q \<le> watermark h n" by blast
    have g: "seq_get (srp_DeltaSequences s) n \<le> watermark h n" if "ValidNodeID n" for n
    proof (cases "map_of ?ws n")
      case None
      then have "seq_get (srp_DeltaSequences s) n = 0" by (auto simp: seq_get_def mget_def split: option.splits)
      then show ?thesis by simp
    next
      case (Some q)
      then have "seq_get (srp_DeltaSequences s) n = q" "(n, q) \<in> set ?ws"
        by (auto simp: seq_get_def mget_def split: option.splits dest: map_of_SomeD)
      with h(3) that show ?thesis by fastforce
    qed
    let ?c = "c\<lparr>rt_manager := m, rt_history := h\<rparr>"
    have e: "HandleEnvelope jd js env c e = Some (if adv then broadcastDigest env ?c else (?c, []))"
      using assms(2,3) m Inr h(1) by (simp add: HandleEnvelope_def handleSnapshotResp_def Let_def)
    have b: "rt_manager (fst (broadcastDigest env r)) = rt_manager r" "rt_history (fst (broadcastDigest env r)) = rt_history r"
      for r :: "'a Runtime"
      by (auto simp: broadcastDigest_def newDigestEnvelope_def newEnvelope_def split_beta split: sum.splits)
    show ?thesis
      using that [of "fst (if adv then broadcastDigest env ?c else (?c, []))" "snd (if adv then broadcastDigest env ?c else (?c, []))"]
        e m Inr h(2) g by (simp add: b)
  qed
qed

lemma peerEndpoint_seq: "peerEndpointForNode p (r\<lparr>rt_seq := s\<rparr>) n = peerEndpointForNode p r n"
proof -
  have "rt_peers (r\<lparr>rt_seq := s\<rparr>) = rt_peers r" by simp
  then show ?thesis unfolding peerEndpointForNode_def by (rule ssubst) (rule refl)
qed

text \<open>A snapshot one node sends, taken in by another one.\<close>

lemma sendSnapshot_effect:
  assumes "rt_wf a" "mg_text (rt_manager a)" "ValidNodeID (rt_nodeID a)" "clock_ok (re_stamp env)" "clock_ok (re_snapNow env)"
    "want \<noteq> []" "set want \<subseteq> {AggregateSUM, AggregateTOPK}" "peerEndpointForNode (re_provider env) a n = Some p"
  obtains e e' s where "sendSnapshot env a n want = (a\<lparr>rt_seq := rt_seq a + 1\<rparr>, [(p, e)])" "on_wire e e'"
    "ev_Type e' = ''SnapshotResp''" "decodePayload DecodeSnapshotResp (ev_Payload e') = Some s" "snap_good s"
    "snap_val (kmax (rt_manager a)) s = part_val want (mg_val (rt_manager a))" "seq_get (srp_DeltaSequences s) = known a"
proof -
  have wf: "mg_wf (rt_manager a)" using assms(1) by (simp add: rt_wf_def)
  obtain s t where s: "pipe_Snapshot (re_snapNow env) (rt_manager a) want = Inr s" "topk_Serialize (mg_topk (rt_manager a)) = Inr t"
    "srp_SUMState s = (if AggregateSUM \<in> set want then Some (sum_Serialize (mg_sum (rt_manager a))) else None)"
    "srp_TOPKState s = (if AggregateTOPK \<in> set want then Some t else None)"
    "srp_DeltaSequences s = ownSequence (rt_manager a)" "srp_CreatedAt s = time_UTC (re_snapNow env)"
    "srp_SUMState s \<noteq> None \<or> srp_TOPKState s \<noteq> None"
    using wf assms(6,7) by (rule pipe_Snapshot_spec)
  let ?ds = "mergeWatermarks (ownSequence (rt_manager a)) (Watermarks (rt_history a))"
  let ?s = "s\<lparr>srp_DeltaSequences := ?ds\<rparr>" and ?w = "s\<lparr>srp_DeltaSequences := wire_seqs ?ds\<rparr>"
  obtain x where x: "enc_SnapshotResp ?s = Some x" "json_ok 1 x" "DecodeSnapshotResp x = Inr ?w"
  proof (rule snapshot_wire [OF wf assms(2,5) s(2), of ?s])
    fix x assume "enc_SnapshotResp ?s = Some x" "json_ok 1 x"
      "DecodeSnapshotResp x = Inr (?s\<lparr>srp_DeltaSequences := wire_seqs (srp_DeltaSequences ?s)\<rparr>)"
    then show thesis by (intro that) simp_all
  qed (use s merged_own(1) [OF assms(1)] in auto)
  let ?e = "freshEnvelope env a ''SnapshotResp'' x"
  let ?e' = "?e\<lparr>ev_Checksum := checksumForPayload (json_text x)\<rparr>"
  have "peerEndpointForNode (re_provider env) (a\<lparr>rt_seq := rt_seq a + 1\<rparr>) n = Some p"
    using assms(8) by (simp only: peerEndpoint_seq)
  then have 1: "sendSnapshot env a n want = (a\<lparr>rt_seq := rt_seq a + 1\<rparr>, [(p, ?e)])"
    using s(1,5) x(1) by (simp add: sendSnapshot_def sendNew_Some sendEnvelopeToNode_def)
  have 2: "on_wire ?e ?e'" using assms(3,4) x(2) by (intro fresh_on_wire) (simp_all add: allowedTypes_def)
  have 3: "decodePayload DecodeSnapshotResp (ev_Payload ?e') = Some ?w" using decodePayload_text [where dec = DecodeSnapshotResp, OF x(2,3)] by simp
  have 4: "snap_good ?w" "snap_val (kmax (rt_manager a)) ?w = part_val want (mg_val (rt_manager a))"
    using snapshot_part [OF wf s(2), of ?w want] s(3,4) by simp_all
  show ?thesis by (rule that [OF 1 2 _ 3 4]) (simp_all add: merged_own(2) [OF assms(1)])
qed

lemma SnapshotReq_wire:
  assumes "rt_wf b" "localDigest b = Inr loc" "NewSnapshotReq want loc = Inr q"
  shows "json_ok 1 (enc_SnapshotReq q)"
    "\<exists>k. DecodeSnapshotReq (enc_SnapshotReq q) = Inr k \<and> set (srq_WantAggregateTypes k) = set want"
    "set want \<subseteq> {AggregateSUM, AggregateTOPK}"
proof -
  obtain d t where d: "localDigest b = Inr d" "seqs_wf (dg_DeltaSequences d)"
    "seq_get (dg_DeltaSequences d) = known b" "topk_Serialize (mg_topk (rt_manager b)) = Inr t"
    "dg_SUM d = \<lparr>ad_Version = ss_Version (sum_getState (mg_sum (rt_manager b))),
      ad_Checksum = StateChecksum (sum_Serialize (mg_sum (rt_manager b)))\<rparr>"
    "dg_TOPK d = \<lparr>ad_Version = ts_Version (topk_getState (mg_topk (rt_manager b))), ad_Checksum = StateChecksum t\<rparr>"
    using assms(1) by (rule localDigest_spec)
  have loc: "loc = d" using d(1) assms(2) by simp
  have hex: "ascii (StateChecksum x)" for x
    unfolding StateChecksum_def sha256_hex_def by (rule DecodeString_ascii) (rule DecodeString_Encode)
  note dec = DecodeSnapshotReq_New [OF d(2) assms(3) [unfolded loc]]
  obtain out where o: "dedupTypes want [] [] = Inr out" "q = \<lparr>srq_WantAggregateTypes = out, srq_KnownVersions = loc\<rparr>"
    using assms(3) by (auto simp: NewSnapshotReq_def split: if_splits sum.splits)
  have out: "list_all (\<lambda>a. a = AggregateSUM \<or> a = AggregateTOPK) out" "set out = set want" using dedupTypes_spec [OF o(1)] by auto
  then show "set want \<subseteq> {AggregateSUM, AggregateTOPK}" by (auto simp: list_all_iff)
  have "list_all utf8_valid out" using out(1) by (auto simp: list_all_iff)
  moreover have "json_ok 2 (enc_StateDigest d)" using d(2,5,6) hex by (intro json_ok_digest) (simp_all add: max_depth_def)
  ultimately show "json_ok 1 (enc_SnapshotReq q)"
    by (simp add: enc_SnapshotReq_def o(2) loc max_depth_def ascii_valid list_all_iff numeral_2_eq_2)
  show "\<exists>k. DecodeSnapshotReq (enc_SnapshotReq q) = Inr k \<and> set (srq_WantAggregateTypes k) = set want"
    using dec by auto
qed

lemma ApplySnapshot_refused:
  assumes "mg_wf m" "snap_good s" "\<not> ok (snd (ApplySnapshot js m s))"
  shows "\<exists>j. mg_journal m = Some j \<and> snd (js j s) \<noteq> None"
proof -
  obtain b where b: "topk_Serialize (mg_topk m) = Inr b" using assms(1) by (rule mg_wf_serializes)
  obtain m1 a where m1: "applySnapshotLocked m s = (m1, Inr a)"
    using applySnapshotLocked_spec [OF assms(1,2)] by metis
  have "mg_journal m1 = mg_journal m" using applySnapshot_other(4) [of m s] m1 by simp
  moreover have "snd (appendSnapshot js m1 s) \<noteq> None"
    using assms(3) b m1
    by (cases "snd (appendSnapshot js m1 s)") (auto simp: ApplySnapshot_def Let_def split_beta split: if_splits)
  ultimately show ?thesis using appendSnapshot_journal(2) [of js m1 s] by auto
qed

lemma part_val_cong: "set v = set w \<Longrightarrow> part_val v x = part_val w x"
  by (simp add: part_val_def)

text \<open>
  C9. Anti-entropy repairs: when a node answers the digest of a peer with a snapshot request, the
  request arrives, the peer answers it, the answer arrives, and a node that takes it in, whatever it
  learned in between, holds afterwards the join of its own value with what the peer had of every
  aggregate whose digest differed, and knows every sequence the peer knew; only a failing journal
  makes it keep the state it had.
\<close>

theorem snapshot_repair:
  assumes "rt_wf a" "rt_wf b" "mg_text (rt_manager a)" "ValidNodeID (rt_nodeID a)" "ValidNodeID (rt_nodeID b)"
    and "clock_ok (re_stamp env0)" "clock_ok (re_stamp env1)" "clock_ok (re_snapNow env1)"
    and "ev_Type e0 = ''StateDigest''" "decodePayload DecodeStateDigest (ev_Payload e0) = Some peer"
    and "HandleEnvelope jd js env0 b e0 = Some (b', [(p0, e1)])" "ev_Type e1 = ''SnapshotReq''"
    and "peerEndpointForNode (re_provider env1) a (rt_nodeID b) = Some p1"
  shows "\<exists>loc e1' a' e2 e2'. localDigest b = Inr loc \<and> on_wire e1 e1' \<and>
    HandleEnvelope jd js env1 a e1' = Some (a', [(p1, e2)]) \<and> on_wire e2 e2' \<and>
    (\<forall>c. rt_wf c \<and> kmax (rt_manager c) = kmax (rt_manager a) \<longrightarrow>
       (\<exists>c' out. HandleEnvelope jd js env2 c e2' = Some (c', out) \<and>
          ((\<exists>j s. mg_journal (rt_manager c) = Some j \<and> snd (js j s) \<noteq> None) \<and> same_state (rt_manager c) (rt_manager c') \<or>
           mg_val (rt_manager c') = mg_join (kmax (rt_manager a)) (mg_val (rt_manager c))
             (part_val (AggregatesNeedingSnapshot loc peer) (mg_val (rt_manager a))) \<and>
           (\<forall>n. ValidNodeID n \<longrightarrow> known a n \<le> watermark (rt_history c') n))))"
proof -
  obtain loc where loc: "localDigest b = Inr loc" using localDigest_spec [OF assms(2)] by metis
  let ?want = "AggregatesNeedingSnapshot loc peer"
  have h: "handleStateDigest env0 b e0 = (b', [(p0, e1)])" using assms(9,11) by (simp add: HandleEnvelope_def)
  have "MissingDeltaRanges loc peer = []"
    using h assms(10,12) loc
    by (auto simp: handleStateDigest_def sendNew_Some sendEnvelopeToNode_def Let_def split: if_splits sum.splits option.splits)
  then obtain q where q: "NewSnapshotReq ?want loc = Inr q" "e1 = freshEnvelope env0 b ''SnapshotReq'' (enc_SnapshotReq q)" "?want \<noteq> []"
    using h assms(10) loc
    by (auto simp: handleStateDigest_def sendNew_Some sendEnvelopeToNode_def Let_def split: if_splits sum.splits option.splits)
  note qw = SnapshotReq_wire [OF assms(2) loc q(1)]
  obtain k where k: "DecodeSnapshotReq (enc_SnapshotReq q) = Inr k" "set (srq_WantAggregateTypes k) = set ?want" using qw(2) by blast
  let ?e1 = "e1\<lparr>ev_Checksum := checksumForPayload (json_text (enc_SnapshotReq q))\<rparr>"
  have w1: "on_wire e1 ?e1"
    unfolding q(2) using assms(5,6) qw(1) by (intro fresh_on_wire) (simp_all add: allowedTypes_def)
  have d1: "decodePayload DecodeSnapshotReq (ev_Payload ?e1) = Some k" using decodePayload_text [where dec = DecodeSnapshotReq, OF qw(1) k(1)] by (simp add: q(2))
  have kw: "srq_WantAggregateTypes k \<noteq> []" "set (srq_WantAggregateTypes k) \<subseteq> {AggregateSUM, AggregateTOPK}"
    using k(2) q(3) qw(3) by auto
  obtain e2 e2' s where s: "sendSnapshot env1 a (rt_nodeID b) (srq_WantAggregateTypes k) = (a\<lparr>rt_seq := rt_seq a + 1\<rparr>, [(p1, e2)])"
    "on_wire e2 e2'" "ev_Type e2' = ''SnapshotResp''" "decodePayload DecodeSnapshotResp (ev_Payload e2') = Some s" "snap_good s"
    "snap_val (kmax (rt_manager a)) s = part_val (srq_WantAggregateTypes k) (mg_val (rt_manager a))"
    "seq_get (srp_DeltaSequences s) = known a"
    by (rule sendSnapshot_effect [OF assms(1,3,4,7,8) kw assms(13)])
  have a1: "HandleEnvelope jd js env1 a ?e1 = Some (a\<lparr>rt_seq := rt_seq a + 1\<rparr>, [(p1, e2)])"
    using d1 s(1) q(2) by (simp add: HandleEnvelope_def handleSnapshotReq_def)
  have "\<exists>c' out. HandleEnvelope jd js env2 c e2' = Some (c', out) \<and>
      ((\<exists>j s. mg_journal (rt_manager c) = Some j \<and> snd (js j s) \<noteq> None) \<and> same_state (rt_manager c) (rt_manager c') \<or>
       mg_val (rt_manager c') = mg_join (kmax (rt_manager a)) (mg_val (rt_manager c)) (part_val ?want (mg_val (rt_manager a))) \<and>
       (\<forall>n. ValidNodeID n \<longrightarrow> known a n \<le> watermark (rt_history c') n))"
    if c: "rt_wf c \<and> kmax (rt_manager c) = kmax (rt_manager a)" for c
  proof -
    obtain c' out where c': "HandleEnvelope jd js env2 c e2' = Some (c', out)"
      "rt_manager c' = fst (ApplySnapshot js (rt_manager c) s)"
      "ok (snd (ApplySnapshot js (rt_manager c) s)) \<longrightarrow>
       (\<forall>n. watermark (rt_history c) n \<le> watermark (rt_history c') n \<and>
         (ValidNodeID n \<longrightarrow> seq_get (srp_DeltaSequences s) n \<le> watermark (rt_history c') n))"
      by (rule handleSnapshotResp_effect [OF conjunct1 [OF c] s(3,4,5)])
    have "mg_wf (rt_manager c)" using c by (simp add: rt_wf_def)
    from ApplySnapshot_spec [OF this s(5) surjective_pairing, of js] ApplySnapshot_refused [OF this s(5), of js] c'(2,3) s(6,7) c
      part_val_cong [OF k(2)]
    show ?thesis by (intro exI [of _ c'] exI [of _ out] conjI c'(1)) (auto simp: ok_def split: sum.splits)
  qed
  with loc w1 a1 s(2) show ?thesis by blast
qed

lemma ex_delta_text: "delta_text (ex_delta ''a'' 1)"
proof -
  have "sum_delta ''a'' (ex_delta ''a'' 1)" by (auto simp: sum_delta_def ex_delta_def)
  moreover have "ValidNodeID ''a''" by code_simp
  ultimately show ?thesis by (rule sum_delta_text)
qed

theorem delta_delivery_witness:
  "\<exists>e e' q' out'. on_wire e e' \<and>
     HandleEnvelope ex_jd (\<lambda>j s. (j, None)) ex_renv (ex_runtime ''b'' ''a:1'' ex_manager) e' = Some (q', out')"
proof -
  let ?m = "ex_manager\<lparr>mg_outbound := [ex_delta ''a'' 1]\<rparr>" and ?d = "ex_delta ''a'' 1"
  let ?s = "ex_runtime ''a'' ''b:1'' ?m" and ?q = "ex_runtime ''b'' ''a:1'' ex_manager"
  have m: "mg_wf ?m" using ex_manager_wf by (simp add: mg_wf_def ex_manager_def)
  have nx: "NextOutbound False (rt_manager ?s) (ex_manager\<lparr>mg_outbound := []\<rparr>) (Inr ?d)"
    using next_delta [of ?m ?d "[]" False] by simp
  have v: "ValidNodeID (rt_nodeID ?s)" by code_simp
  obtain s' out stop where o: "outboundRound ex_renv False ?s (ex_manager\<lparr>mg_outbound := []\<rparr>, Inr ?d) = Some (s', out, stop)"
    "rt_next ?s s'" using outboundRound_ok [OF ex_runtime_wf [OF m] ex_renv_simps(1) nx] by metis
  have p: "SplitHostPort ''b:1'' = Some (''b'', ''1'')" "SplitHostPort [] = None" "TrimSpace ''b'' = ''b''" by code_simp+
  have "samplePeers ex_renv s' = [''b:1'']"
    using o(2) p by (simp add: rt_next_def samplePeers_def ex_runtime_def ex_renv_def isSelfPeer_def sameEndpoint_def)
  then obtain e where e: "(''b:1'', e) \<in> set out"
    unfolding outboundRound_sends [OF o(1)] by (auto simp: broadcastEnvelope_def)
  have "fresh (rt_guard ?q) e" by (simp add: fresh_def high_def ex_runtime_def NewMessageGuard_def)
  from delta_delivery [OF ex_runtime_wf [OF m] ex_runtime_wf [OF ex_manager_wf] v ex_renv_simps(2) nx ex_delta_text o(1) e this,
    of ex_jd "\<lambda>j s. (j, None)" ex_renv ex_renv]
  show ?thesis by blast
qed

theorem snapshot_repair_witness:
  "\<exists>e e' c' out. on_wire e e' \<and>
     HandleEnvelope ex_jd (\<lambda>j s. (j, None)) ex_renv (ex_runtime ''b'' ''a:1'' ex_manager) e' = Some (c', out)"
proof -
  let ?a = "ex_runtime ''a'' ''b:1'' ex_manager" and ?b = "ex_runtime ''b'' ''a:1'' ex_manager"
  let ?js = "\<lambda>j s. (j, None)"
  let ?peer = "zero_StateDigest\<lparr>dg_SUM := \<lparr>ad_Version = 5, ad_Checksum = []\<rparr>\<rparr>"
  define e0 where "e0 = freshEnvelope ex_renv ?a ''StateDigest'' (enc_StateDigest ?peer)"
  have id: "ValidNodeID ''a''" "ValidNodeID ''b''" by code_simp+
  have d: "DecodeStateDigest (enc_StateDigest ?peer) = Inr ?peer" by code_simp
  have j: "json_ok 1 (enc_StateDigest ?peer)"
    by (intro json_ok_digest) (simp_all add: zero_StateDigest_def zero_AggregateDigest_def seqs_wf_def validSequences_def max_depth_def)
  have p: "decodePayload DecodeStateDigest (ev_Payload e0) = Some ?peer"
    using decodePayload_text [where dec = DecodeStateDigest, OF j d] by (simp add: e0_def)
  obtain loc t where loc: "localDigest ?b = Inr loc" "seqs_wf (dg_DeltaSequences loc)" "seq_get (dg_DeltaSequences loc) = known ?b"
    "topk_Serialize (mg_topk (rt_manager ?b)) = Inr t"
    "dg_SUM loc = \<lparr>ad_Version = ss_Version (sum_getState (mg_sum (rt_manager ?b))),
      ad_Checksum = StateChecksum (sum_Serialize (mg_sum (rt_manager ?b)))\<rparr>"
    "dg_TOPK loc = \<lparr>ad_Version = ts_Version (topk_getState (mg_topk (rt_manager ?b))), ad_Checksum = StateChecksum t\<rparr>"
    by (rule localDigest_spec [OF ex_runtime_wf [OF ex_manager_wf]])
  have v: "ss_Version (sum_getState (mg_sum ex_manager)) = 0" by code_simp
  have w: "AggregatesNeedingSnapshot loc ?peer = [AggregateSUM]" "MissingDeltaRanges loc ?peer = []"
    using loc(5,6) v by (simp_all add: AggregatesNeedingSnapshot_def digestNeedsSnapshot_def MissingDeltaRanges_def digest_seqs_def
        zero_StateDigest_def zero_AggregateDigest_def)
  obtain q where q: "NewSnapshotReq [AggregateSUM] loc = Inr q" by (simp add: NewSnapshotReq_def)
  have h: "SplitHostPort ''a:1'' = Some (''a'', ''1'')" "SplitHostPort ''b:1'' = Some (''b'', ''1'')" "TrimSpace ''a'' = ''a''" "TrimSpace ''b'' = ''b''"
    by code_simp+
  have pe: "peerEndpointForNode (re_provider ex_renv) ?b ''a'' = Some ''a:1''" "peerEndpointForNode (re_provider ex_renv) ?a ''b'' = Some ''b:1''"
    using h by (simp_all add: peerEndpointForNode_def ex_renv_def)
  let ?e1 = "freshEnvelope ex_renv ?b ''SnapshotReq'' (enc_SnapshotReq q)"
  have b: "HandleEnvelope ex_jd ?js ex_renv ?b e0 = Some (?b\<lparr>rt_seq := rt_seq ?b + 1\<rparr>, [(''a:1'', ?e1)])"
    using p loc(1) w q pe(1)
    by (simp add: HandleEnvelope_def handleStateDigest_def e0_def sendNew_Some sendEnvelopeToNode_def peerEndpoint_seq)
  have t: "mg_text (rt_manager ?a)" by (simp add: ex_manager_def ids_valid_def)
  have "rt_wf ?b \<and> kmax (rt_manager ?b) = kmax (rt_manager ?a)" using ex_runtime_wf [OF ex_manager_wf] by simp
  moreover have "ValidNodeID (rt_nodeID ?a)" "ValidNodeID (rt_nodeID ?b)" "ev_Type e0 = ''StateDigest''" "ev_Type ?e1 = ''SnapshotReq''"
    "peerEndpointForNode (re_provider ex_renv) ?a (rt_nodeID ?b) = Some ''b:1''" using id pe(2) by (simp_all add: e0_def)
  note f = snapshot_repair [OF ex_runtime_wf [OF ex_manager_wf] ex_runtime_wf [OF ex_manager_wf] t this(1,2)
    ex_renv_simps(2,2,3) this(3) p b this(4,5), of ex_renv]
  ultimately show ?thesis using f by blast
qed

end
