(* ===== verification/Api.thy ===== *)
theory Api
  imports Durability Membership
begin

text \<open>
  \<open>internal/api\<close>: the HTTP handlers.  A handler is a function of the request and of the state it
  reads, the manager, the list of members or the readiness flag; a response is its status and its
  body.  The clock is an argument, and so is \<open>etext\<close>, the text of an error, whose wrappers add
  detail the development's error values do not carry.

  \<open>net/http\<close> reads the request and writes the response; \<open>http.ServeMux\<close> calls the handler that is
  registered for the path.
\<close>

section \<open>Requests and responses\<close>

record http_request =
  rq_Method :: string
  rq_Path :: string
  rq_RawQuery :: string
  rq_Body :: string

record http_response =
  rs_Status :: int
  rs_Body :: string

text \<open>
  The encoder ends the document with a newline.  When the payload has no JSON form, the status is
  written and the body stays empty.
\<close>

definition respondJSON :: "int \<Rightarrow> json option \<Rightarrow> http_response" where
  "respondJSON statusCode payload =
     \<lparr>rs_Status = statusCode,
      rs_Body = (case payload of None \<Rightarrow> [] | Some j \<Rightarrow> json_text j @ [CHR 0x0A])\<rparr>"

definition respondError :: "int \<Rightarrow> string \<Rightarrow> http_response" where
  "respondError statusCode message = respondJSON statusCode (Some (JObj [(''error'', JStr message)]))"

text \<open>The text of an error a handler made itself, and of one the manager returned.\<close>

definition error_text :: "(go_error \<Rightarrow> string) \<Rightarrow> go_error \<Rightarrow> string" where
  "error_text etext e = (case e of ErrText t \<Rightarrow> t | _ \<Rightarrow> etext e)"

section \<open>Standard library\<close>

text \<open>
  \<open>Decoder.Decode\<close> reads the first JSON value of its input and leaves the rest; with
  \<open>DisallowUnknownFields\<close> a member no field takes is an error.
\<close>

definition first_value :: "string \<Rightarrow> json option" where
  "first_value s = map_option fst (parse_value (2 * length s + 2) 0 s)"

definition decode_strict :: "(string \<times> 's decoder) list \<Rightarrow> 's decoder" where
  "decode_strict fs s j =
     (case j of
        JObj ms \<Rightarrow> if list_all (\<lambda>m. find_field fs (fst m) \<noteq> None) ms then decode_members fs ms s else None
      | _ \<Rightarrow> decode_struct fs s j)"

text \<open>A \<open>json.Number\<close> is read from a number or from a string that spells one.\<close>

definition dec_Number :: "string decoder" where
  "dec_Number old j =
     (case j of
        JNull \<Rightarrow> Some old
      | JNum t \<Rightarrow> Some t
      | JStr s \<Rightarrow> if scan_number s = Some (s, []) then Some s else None
      | _ \<Rightarrow> None)"

text \<open>\<open>url.QueryUnescape\<close>, and \<open>Query().Get\<close>: the first well-formed setting of the key.\<close>

fun QueryUnescape :: "string \<Rightarrow> string option" where
  "QueryUnescape [] = Some []"
| "QueryUnescape (c # s) =
     (if c = CHR ''%'' then
        (case s of
           x # y # r \<Rightarrow>
             (case (hex_val x, hex_val y) of
                (Some a, Some b) \<Rightarrow> map_option ((#) (char_of (16 * a + b))) (QueryUnescape r)
              | _ \<Rightarrow> None)
         | _ \<Rightarrow> None)
      else map_option ((#) (if c = CHR ''+'' then CHR '' '' else c)) (QueryUnescape s))"

definition query_pair :: "string \<Rightarrow> (string \<times> string) option" where
  "query_pair part =
     (if CHR '';'' \<in> set part \<or> part = [] then None
      else case (QueryUnescape (takeWhile (\<lambda>c. c \<noteq> CHR ''='') part),
                 QueryUnescape (drop 1 (dropWhile (\<lambda>c. c \<noteq> CHR ''='') part))) of
             (Some k, Some v) \<Rightarrow> Some (k, v)
           | _ \<Rightarrow> None)"

definition query_Get :: "string \<Rightarrow> string \<Rightarrow> string" where
  "query_Get rawQuery key =
     (case map_of (List.map_filter query_pair (Split CHR ''&'' rawQuery)) key of None \<Rightarrow> [] | Some v \<Rightarrow> v)"

section \<open>Health\<close>

record HealthHandler =
  hh_ready :: bool

definition NewHealthHandler :: HealthHandler where
  "NewHealthHandler = \<lparr>hh_ready = True\<rparr>"

definition SetReady :: "HealthHandler \<Rightarrow> bool \<Rightarrow> HealthHandler" where
  "SetReady h ready = h\<lparr>hh_ready := ready\<rparr>"

definition healthz :: http_response where
  "healthz = respondJSON 200 (Some (JObj [(''status'', JStr ''ok'')]))"

definition readyz :: "HealthHandler \<Rightarrow> http_response" where
  "readyz h =
     (if \<not> hh_ready h then respondJSON 503 (Some (JObj [(''status'', JStr ''not_ready'')]))
      else respondJSON 200 (Some (JObj [(''status'', JStr ''ready'')])))"

section \<open>Members\<close>

definition memberResponse :: "Member \<Rightarrow> json" where
  "memberResponse m = JObj
     [(''node_id'', JStr (m_NodeID m)), (''endpoint'', JStr (m_Endpoint m)),
      (''status'', JStr (status_text (m_Status m))), (''incarnation'', enc_uint64 (m_Incarnation m)),
      (''last_seen'', JStr (FormatRFC3339Nano (time_UTC (m_LastSeen m))))]"

definition api_members :: "Member list \<Rightarrow> http_request \<Rightarrow> http_response" where
  "api_members members r =
     (if rq_Method r \<noteq> ''GET'' then respondError 405 ''method not allowed''
      else respondJSON 200 (Some (JObj [(''members'', JArr (map memberResponse members))])))"

section \<open>Updates\<close>

record updateRequest =
  ur_AggregateType :: string
  ur_Value :: "json option"

definition decodeUpdateRequest :: "string \<Rightarrow> updateRequest option" where
  "decodeUpdateRequest body =
     (case first_value body of
        None \<Rightarrow> None
      | Some j \<Rightarrow>
          decode_strict
            [(''aggregate_type'', field ur_AggregateType ur_AggregateType_update dec_string),
             (''value'', field ur_Value ur_Value_update dec_raw)]
            \<lparr>ur_AggregateType = [], ur_Value = None\<rparr> j)"

definition sumNumberValue :: "json \<Rightarrow> go_error + u64" where
  "sumNumberValue j =
     (case dec_Number [] j of
        None \<Rightarrow> Inl (ErrText ''SUM value must be a positive integer or {\"increment\":n}'')
      | Some number \<Rightarrow>
          (case ParseUint64 number of
             None \<Rightarrow> Inl (ErrText ''SUM value must be a positive integer'')
           | Some v \<Rightarrow> if v = 0 then Inl (ErrText ''SUM value must be a positive integer'') else Inr v))"

definition decodeSUMUpdateValue :: "json option \<Rightarrow> go_error + u64" where
  "decodeSUMUpdateValue raw =
     (case raw of
        None \<Rightarrow> Inl ErrInvalidUpdate
      | Some j \<Rightarrow>
          (case decode_struct [(''increment'', dec_uint64)] 0 j of
             Some increment \<Rightarrow> if increment > 0 then Inr increment else sumNumberValue j
           | None \<Rightarrow> sumNumberValue j))"

record topKUpdateRequest =
  tur_ItemID :: string
  tur_Score :: f64
  tur_EventTS :: gotime

definition dec_topKUpdateRequest :: "topKUpdateRequest decoder" where
  "dec_topKUpdateRequest = decode_struct
     [(''item_id'', field tur_ItemID tur_ItemID_update dec_string),
      (''score'', field tur_Score tur_Score_update dec_float64),
      (''event_ts'', field tur_EventTS tur_EventTS_update dec_time)]"

definition decodeTOPKUpdateValue :: "gotime \<Rightarrow> json option \<Rightarrow> go_error + Candidate" where
  "decodeTOPKUpdateValue now raw =
     (case unmarshal_raw dec_topKUpdateRequest \<lparr>tur_ItemID = [], tur_Score = 0, tur_EventTS = time_zero\<rparr> raw of
        None \<Rightarrow> Inl (ErrText ''TOPK value must be an object'')
      | Some req \<Rightarrow>
          Inr \<lparr>c_ItemID = tur_ItemID req, c_Score = tur_Score req,
               c_EventTS = (if time_IsZero (tur_EventTS req) then time_UTC now else tur_EventTS req),
               c_OriginNodeID = []\<rparr>)"

definition decodeUpdateValue :: "gotime \<Rightarrow> updateRequest \<Rightarrow> go_error + topk_value go_any" where
  "decodeUpdateValue now req =
     (if ur_AggregateType req = AggregateSUM then map_sum id AnyUint64 (decodeSUMUpdateValue (ur_Value req))
      else if ur_AggregateType req = AggregateTOPK then
        map_sum id (\<lambda>c. AnyVal (TopkCandidate c)) (decodeTOPKUpdateValue now (ur_Value req))
      else Inl ErrInvalidUpdate)"

definition api_update ::
  "'j append_delta \<Rightarrow> (go_error \<Rightarrow> string) \<Rightarrow> gotime \<Rightarrow> 'j Manager \<Rightarrow> http_request \<Rightarrow> 'j Manager \<times> http_response" where
  "api_update jd etext now m r =
     (if rq_Method r \<noteq> ''POST'' then (m, respondError 405 ''method not allowed'')
      else case decodeUpdateRequest (rq_Body r) of
             None \<Rightarrow> (m, respondError 400 ''invalid update payload'')
           | Some req \<Rightarrow>
               (case decodeUpdateValue now req of
                  Inl e \<Rightarrow> (m, respondError 400 (error_text etext e))
                | Inr v \<Rightarrow>
                    (case ApplyLocalUpdate jd m \<lparr>lu_AggregateType = ur_AggregateType req, lu_Value = v\<rparr> of
                       (m', Inl e) \<Rightarrow> (m', respondError 400 (etext e))
                     | (m', Inr (delta, advanced)) \<Rightarrow>
                         (m', respondJSON 202 (Some (JObj
                                [(''advanced'', JBool advanced), (''delta'', enc_StateDelta delta)]))))))"

section \<open>Queries\<close>

definition api_sum :: "(go_error \<Rightarrow> string) \<Rightarrow> 'j Manager \<Rightarrow> http_request \<Rightarrow> http_response" where
  "api_sum etext m r =
     (if rq_Method r \<noteq> ''GET'' then respondError 405 ''method not allowed''
      else case pipe_Estimates m 1 of
             Inl e \<Rightarrow> respondError 500 (etext e)
           | Inr estimates \<Rightarrow> respondJSON 200 (Some (JObj [(''value'', enc_uint64 (es_SUM estimates))])))"

definition topkParam :: "string \<Rightarrow> int option" where
  "topkParam raw =
     (if raw = [] then Some 10
      else case Atoi raw of None \<Rightarrow> None | Some parsed \<Rightarrow> if parsed \<le> 0 then None else Some parsed)"

definition api_topk :: "(go_error \<Rightarrow> string) \<Rightarrow> 'j Manager \<Rightarrow> http_request \<Rightarrow> http_response" where
  "api_topk etext m r =
     (if rq_Method r \<noteq> ''GET'' then respondError 405 ''method not allowed''
      else case topkParam (query_Get (rq_RawQuery r) ''k'') of
             None \<Rightarrow> respondError 400 ''k must be greater than zero''
           | Some k \<Rightarrow>
               (case pipe_Estimates m k of
                  Inl e \<Rightarrow> respondError 400 (etext e)
                | Inr estimates \<Rightarrow>
                    respondJSON 200 (map_option (\<lambda>items. JObj [(''items'', JArr items)])
                      (topk_encodeCandidates (es_TOPK estimates)))))"

section \<open>Routes\<close>

text \<open>
  The routes the three handlers register, with exact paths; \<open>net/http\<close> answers any other path
  itself.  Only an update changes the manager.
\<close>

definition api_serve ::
  "'j append_delta \<Rightarrow> (go_error \<Rightarrow> string) \<Rightarrow> gotime \<Rightarrow> HealthHandler \<Rightarrow> Member list \<Rightarrow> 'j Manager \<Rightarrow> http_request \<Rightarrow>
   'j Manager \<times> http_response" where
  "api_serve jd etext now h members m r =
     (if rq_Path r = ''/update'' then api_update jd etext now m r
      else (m,
        if rq_Path r = ''/healthz'' then healthz
        else if rq_Path r = ''/readyz'' then readyz h
        else if rq_Path r = ''/members'' then api_members members r
        else if rq_Path r = ''/aggregate/sum'' then api_sum etext m r
        else if rq_Path r = ''/aggregate/topk'' then api_topk etext m r
        else \<lparr>rs_Status = 404, rs_Body = ''404 page not found'' @ [CHR 0x0A]\<rparr>))"

section \<open>Rejected updates change nothing\<close>

lemma encodeCandidate_some:
  "topk_validateCandidate c = None \<Longrightarrow> enc_time (c_EventTS c) \<noteq> None \<Longrightarrow> topk_encodeCandidate c \<noteq> None"
  by (auto simp: topk_encodeCandidate_def topk_validateCandidate_def enc_float64_def f64_finite_iff split: option.splits if_splits)

lemma same_state_refl [simp]: "same_state m m"
  by (simp add: same_state_def)

lemma topk_rollback:
  assumes "mg_wf m" "topk_Serialize (mg_topk m) = Inr j" "tk_kmax s = kmax m"
  shows "fst (topk_Deserialize s j) = mg_topk m"
  using rollbackTopk_restores [OF assms(1) _ assms(2), of "m\<lparr>mg_topk := s\<rparr>"] assms(3)
  by (simp add: rollbackTopk_def split_beta) (metis Manager.select_convs(3) Manager.surjective Manager.update_convs(3))

lemma applyLocalTOPK_rejected:
  assumes "mg_wf m" "applyLocalTOPK jd m (AnyVal (TopkCandidate c)) = (m', Inl e)" "enc_time (c_EventTS c) \<noteq> None"
  shows "mg_wf m' \<and> same_frame m m' \<and> same_state m m'"
proof (cases "topk_Serialize (mg_topk m)")
  case (Inl x)
  then show ?thesis using assms(1,2) by (simp add: applyLocalTOPK_def same_frame_def)
next
  case (Inr before)
  let ?c = "c\<lparr>c_OriginNodeID := mg_nodeID m\<rparr>"
  obtain s r where u: "topk_Update (mg_topk m) (TopkCandidate ?c) = (s, r)" by fastforce
  show ?thesis
  proof (cases r)
    case (Inl x)
    then have "s = mg_topk m" using u by (auto simp: topk_Update_def topk_candidateFrom_def Let_def split: option.splits)
    then show ?thesis using assms(1,2) Inr u Inl by (auto simp: applyLocalTOPK_def same_frame_def Let_def)
  next
    case adv: (Inr adv)
    then have v: "topk_validateCandidate ?c = None" "tk_kmax s = kmax m"
      using u by (auto simp: topk_Update_def topk_candidateFrom_def Let_def split: option.splits)
    obtain d0 where d0: "NewTOPKStateDelta (ts_Version (topk_getState s)) ?c = Inr d0"
      using encodeCandidate_some [OF v(1)] assms(3) by (auto simp: NewTOPKStateDelta_def)
    let ?d = "d0\<lparr>sd_OriginNodeID := mg_nodeID m, sd_DeltaSequence := mg_deltaSeq m + 1\<rparr>"
    let ?m2 = "m\<lparr>mg_topk := s, mg_deltaSeq := mg_deltaSeq m + 1\<rparr>"
    obtain q x where q: "appendDelta jd ?m2 ?d = (?m2\<lparr>mg_journal := q\<rparr>, x)"
      using appendDelta_cases [of jd ?m2 ?d] by (metis prod.collapse)
    have "fst (topk_Deserialize s before) = mg_topk m" using topk_rollback [OF assms(1) Inr v(2)] .
    then have "m' = m\<lparr>mg_journal := q\<rparr>"
      using assms(2) Inr u adv d0 q by (auto simp: applyLocalTOPK_def Let_def split: if_splits option.splits)
    then show ?thesis using assms(1) by (simp add: mg_wf_def same_frame_def same_state_def mg_val_def)
  qed
qed

lemma dec_time_marshals:
  "dec_time old j = Some t \<Longrightarrow> enc_time old \<noteq> None \<Longrightarrow> enc_time t \<noteq> None"
  using unmarshal_time_marshals by (auto simp: dec_time_def enc_time_def split: json.splits)

lemma decodeTOPK_time:
  assumes "decodeTOPKUpdateValue now raw = Inr c" "enc_time (time_UTC now) \<noteq> None"
  shows "enc_time (c_EventTS c) \<noteq> None"
proof -
  let ?z = "\<lparr>tur_ItemID = [], tur_Score = 0, tur_EventTS = time_zero\<rparr>"
  obtain j req where j: "dec_topKUpdateRequest ?z j = Some req"
    and c: "c_EventTS c = (if time_IsZero (tur_EventTS req) then time_UTC now else tur_EventTS req)"
    using assms(1) by (auto simp: decodeTOPKUpdateValue_def unmarshal_raw_def split: option.splits)
  have "marshal_time time_zero \<noteq> None" by code_simp
  then have "enc_time (tur_EventTS ?z) \<noteq> None" by (simp add: enc_time_def)
  then have "enc_time (tur_EventTS req) \<noteq> None"
    by (rule decode_struct_inv [where P = "\<lambda>s. enc_time (tur_EventTS s) \<noteq> None", OF j [unfolded dec_topKUpdateRequest_def]])
      (auto simp: field_def, metis dec_time_marshals not_None_eq)
  with c assms(2) show ?thesis by simp
qed

lemma ApplyLocalUpdate_rejected:
  assumes "mg_wf m" "decodeUpdateValue now req = Inr v" "enc_time (time_UTC now) \<noteq> None"
    and "ApplyLocalUpdate jd m \<lparr>lu_AggregateType = ur_AggregateType req, lu_Value = v\<rparr> = (m', Inl e)"
  shows "mg_wf m' \<and> same_frame m m' \<and> same_state m m'"
proof (cases "ur_AggregateType req = AggregateSUM")
  case True
  then have "applyLocalSUM jd m v = (m', Inl e)" using assms(4) by (simp add: ApplyLocalUpdate_def)
  from applyLocalSUM_spec [OF assms(1) this] show ?thesis by simp
next
  case False
  then obtain c where c: "ur_AggregateType req = AggregateTOPK" "v = AnyVal (TopkCandidate c)"
      "decodeTOPKUpdateValue now (ur_Value req) = Inr c"
    using assms(2) by (cases "decodeTOPKUpdateValue now (ur_Value req)") (auto simp: decodeUpdateValue_def split: if_splits)
  then have "applyLocalTOPK jd m (AnyVal (TopkCandidate c)) = (m', Inl e)"
    using assms(4) False by (simp add: ApplyLocalUpdate_def)
  from applyLocalTOPK_rejected [OF assms(1) this decodeTOPK_time [OF c(3) assms(3)]] show ?thesis .
qed

lemma respond_status [simp]: "rs_Status (respondJSON c p) = c" "rs_Status (respondError c t) = c"
  by (simp_all add: respondJSON_def respondError_def)

text \<open>
  C15. Any request to \<open>/update\<close>, whatever its method and whatever the bytes of its body, is answered
  with 202, 400 or 405, and an answer other than 202 means that nothing happened: the aggregates,
  versions, sequence counter and outbound queue are those before the request, also when the journal
  refused the update after it had been applied.
\<close>

theorem api_update_safe:
  assumes "mg_wf m" "marshal_time (time_UTC now) \<noteq> None" "api_update jd etext now m r = (m', resp)"
  shows "rs_Status resp \<in> {202, 400, 405} \<and>
    (rs_Status resp \<noteq> 202 \<longrightarrow> mg_wf m' \<and> same_frame m m' \<and> same_state m m')"
proof -
  have now: "enc_time (time_UTC now) \<noteq> None" using assms(2) by (simp add: enc_time_def)
  consider "m' = m" "rs_Status resp = 405" | "m' = m" "rs_Status resp = 400"
    | req v e where "decodeUpdateValue now req = Inr v" "rs_Status resp = 400"
        "ApplyLocalUpdate jd m \<lparr>lu_AggregateType = ur_AggregateType req, lu_Value = v\<rparr> = (m', Inl e)"
    | "rs_Status resp = 202"
    using assms(3) by (auto simp: api_update_def split: if_splits option.splits sum.splits prod.splits)
  then show ?thesis
  proof cases
    case (3 req v e)
    with ApplyLocalUpdate_rejected [OF assms(1) 3(1) now 3(3)] show ?thesis by simp
  qed (use assms(1) in \<open>simp_all add: same_frame_def\<close>)
qed

definition ex_request :: http_request where
  "ex_request = \<lparr>rq_Method = ''POST'', rq_Path = ''/update'', rq_RawQuery = [], rq_Body = ''{''\<rparr>"

theorem api_update_safe_witness:
  "\<exists>m' resp. api_update ex_jd (\<lambda>_. []) time_zero ex_manager ex_request = (m', resp) \<and> rs_Status resp = 400 \<and>
     same_state ex_manager m'"
proof -
  have "decodeUpdateRequest (rq_Body ex_request) = None" by code_simp
  then have u: "api_update ex_jd (\<lambda>_. []) time_zero ex_manager ex_request =
      (ex_manager, respondError 400 ''invalid update payload'')"
    by (simp add: api_update_def ex_request_def)
  have "marshal_time (time_UTC time_zero) \<noteq> None" by code_simp
  from api_update_safe [OF ex_manager_wf this u] u show ?thesis by simp
qed

section \<open>The counter over HTTP\<close>

definition counted :: "'j Manager \<Rightarrow> nat" where
  "counted m = contrib_sum (gc_contrib (mg_sum m))"

lemma counted_over:
  assumes "mg_wf m" "finite A" "fst ` set (gc_contrib (mg_sum m)) \<subseteq> A"
  shows "counted m = (\<Sum>n \<in> A. unat (sum_val (mg_sum m) n))"
  unfolding counted_def sum_val_def using assms by (intro contrib_sum_over) (auto simp: mg_wf_def sum_wf_def)

lemma counted_add:
  assumes "mg_wf m" "mg_wf m'" "unat (sum_val (mg_sum m') n) = unat (sum_val (mg_sum m) n) + k"
    and "\<forall>x. x \<noteq> n \<longrightarrow> sum_val (mg_sum m') x = sum_val (mg_sum m) x"
  shows "counted m' = counted m + k"
proof -
  let ?A = "insert n (fst ` set (gc_contrib (mg_sum m)) \<union> fst ` set (gc_contrib (mg_sum m')))"
  have s: "(\<Sum>x \<in> ?A. f x) = f n + (\<Sum>x \<in> ?A - {n}. f x)" for f :: "string \<Rightarrow> nat"
    by (rule sum.remove) auto
  have "(\<Sum>x \<in> ?A - {n}. unat (sum_val (mg_sum m') x)) = (\<Sum>x \<in> ?A - {n}. unat (sum_val (mg_sum m) x))"
    using assms(4) by (intro sum.cong) auto
  moreover have "counted m' = (\<Sum>x \<in> ?A. unat (sum_val (mg_sum m') x))" "counted m = (\<Sum>x \<in> ?A. unat (sum_val (mg_sum m) x))"
    using assms(1,2) by (auto intro!: counted_over)
  ultimately show ?thesis using assms(3) unfolding s by simp
qed

lemma counted_same: "mg_wf m \<Longrightarrow> mg_wf m' \<Longrightarrow> mg_val m' = mg_val m \<Longrightarrow> counted m' = counted m"
  using counted_add [of m m' "[]" 0] by (simp add: mg_val_def)

lemma counted_mono:
  assumes "mg_wf m" "mg_wf m'" "mg_join k (mg_val m) (mg_val m') = mg_val m'"
  shows "counted m \<le> counted m'"
proof -
  let ?A = "fst ` set (gc_contrib (mg_sum m)) \<union> fst ` set (gc_contrib (mg_sum m'))"
  have "max (sum_val (mg_sum m) n) (sum_val (mg_sum m') n) = sum_val (mg_sum m') n" for n
    using assms(3) by (auto simp: mg_join_def mg_val_def sum_join_def fun_eq_iff)
  then have "unat (sum_val (mg_sum m) n) \<le> unat (sum_val (mg_sum m') n)" for n
    by (metis max.cobounded1 word_le_nat_alt)
  then have "(\<Sum>n \<in> ?A. unat (sum_val (mg_sum m) n)) \<le> (\<Sum>n \<in> ?A. unat (sum_val (mg_sum m') n))" by (rule sum_mono)
  then show ?thesis using assms(1,2) by (simp add: counted_over [where A = ?A])
qed

lemma api_sum_counted:
  assumes "rq_Method g = ''GET''"
  shows "api_sum etext m g =
    (if counted m < 2 ^ 64 then respondJSON 200 (Some (JObj [(''value'', JNum (show_dec (int (counted m))))]))
     else respondError 500 (etext SumErrOverflow))"
proof -
  obtain x where x: "topk_Estimate (mg_topk m) (OptsInt 1) = Inr x" by (simp add: topk_Estimate_def topk_optsK_def Let_def)
  have "enc_uint64 (of_nat (counted m)) = JNum (show_dec (int (counted m)))" if "counted m < 2 ^ 64"
    using that by (simp add: enc_uint64_def FormatUint64_def uint_nat unat_of_nat)
  then show ?thesis
    using assms x by (simp add: api_sum_def pipe_Estimates_def sum_Estimate_def sum_total_spec counted_def [symmetric])
qed

definition sum_forms :: "u64 \<Rightarrow> json list" where
  "sum_forms n = [enc_uint64 n, JStr (FormatUint64 n), JObj [(''increment'', enc_uint64 n)]]"

lemma decodeSUM_forms: "n \<noteq> 0 \<Longrightarrow> v \<in> set (sum_forms n) \<Longrightarrow> decodeSUMUpdateValue (Some v) = Inr n"
  using json_ok_uint64 [of 0 n] word_neq_0_conv [of n]
  by (auto simp: sum_forms_def decodeSUMUpdateValue_def sumNumberValue_def dec_Number_def codec_simps enc_uint64_def dec_uint64_def)

definition update_doc :: "string \<Rightarrow> json \<Rightarrow> json" where
  "update_doc agg v = JObj [(''aggregate_type'', JStr agg), (''value'', v)]"

lemma decodeUpdateRequest_doc:
  assumes "json_ok 1 v" "utf8_valid agg" "stops rest"
  shows "decodeUpdateRequest (json_text (update_doc agg v) @ rest) = Some \<lparr>ur_AggregateType = agg, ur_Value = Some v\<rparr>"
proof -
  have "utf8_valid ''aggregate_type''" "utf8_valid ''value''" by (simp_all add: ascii_valid)
  then have "json_ok 0 (update_doc agg v)" using assms(1,2) by (simp add: update_doc_def max_depth_def)
  then have "first_value (json_text (update_doc agg v) @ rest) = Some (update_doc agg v)"
    unfolding first_value_def using assms(3) by (subst parse_value_text) simp_all
  then show ?thesis
    by (simp add: decodeUpdateRequest_def decode_strict_def update_doc_def codec_simps dec_string_def dec_raw_def)
qed

text \<open>A posted increment in any of its forms is the same update of the manager.\<close>

lemma api_update_SUM:
  assumes "n \<noteq> 0" "v \<in> set (sum_forms n)" "rq_Method r = ''POST''" "rq_Body r = json_text (update_doc AggregateSUM v)"
    and "api_update jd etext now m r = (m', resp)"
  obtains q where "ApplyLocalUpdate jd m \<lparr>lu_AggregateType = AggregateSUM, lu_Value = AnyUint64 n\<rparr> = (m', q)"
    "rs_Status resp = (case q of Inl _ \<Rightarrow> 400 | Inr _ \<Rightarrow> 202)"
proof -
  have "json_ok 1 v" using assms(2) json_ok_uint64 [of 2 n] json_ok_uint64 [of 1 n] ascii_valid
    by (auto simp: sum_forms_def max_depth_def numeral_2_eq_2 FormatUint64_def show_dec_ascii)
  moreover have "utf8_valid AggregateSUM" by (simp add: AggregateSUM_def ascii_valid)
  ultimately have "decodeUpdateRequest (rq_Body r) = Some \<lparr>ur_AggregateType = AggregateSUM, ur_Value = Some v\<rparr>"
    using decodeUpdateRequest_doc [of v AggregateSUM "[]"] assms(4) by (simp add: stops_def)
  with assms(3,5) decodeSUM_forms [OF assms(1,2)] that show ?thesis
    by (auto simp: api_update_def decodeUpdateValue_def split: sum.splits prod.splits)
qed

lemma local_sum_counted:
  assumes "mg_wf m" "n \<noteq> 0" "ApplyLocalUpdate jd m \<lparr>lu_AggregateType = AggregateSUM, lu_Value = AnyUint64 n\<rparr> = (m', q)"
  shows "mg_wf m' \<and> (case q of Inl _ \<Rightarrow> same_state m m' \<and> counted m' = counted m | Inr _ \<Rightarrow> counted m' = counted m + unat n)"
proof -
  have "applyLocalSUM jd m (AnyUint64 n) = (m', q)" using assms(3) by (simp add: ApplyLocalUpdate_def)
  note s = applyLocalSUM_spec [OF assms(1) this]
  have i: "sum_incrementFrom (AnyUint64 n :: topk_value go_any) = Inr n" using assms(2) by (simp add: sum_incrementFrom_def)
  show ?thesis
  proof (cases q)
    case (Inl e)
    then have w: "mg_wf m'" "same_state m m'" using s by simp_all
    then have "mg_val m' = mg_val m" by (simp add: same_state_def)
    from counted_same [OF assms(1) w(1) this] w Inl show ?thesis by simp
  next
    case (Inr d)
    then show ?thesis using s i by (auto intro!: counted_add [OF assms(1)] split: prod.splits)
  qed
qed

text \<open>
  C14. The counter over HTTP: an increment \<open>n\<close> posted to \<open>/update\<close> as a number, as a quoted number or as
  an object with the member \<open>increment\<close> is counted exactly once when the answer is 202 and not at all
  otherwise, and the next \<open>GET /aggregate/sum\<close> returns the exact sum of the contributions in decimal,
  or the overflow error when it does not fit in 64 bits.
\<close>

theorem api_sum_update:
  assumes "mg_wf m" "n \<noteq> 0" "v \<in> set (sum_forms n)"
    and "rq_Method r = ''POST''" "rq_Body r = json_text (update_doc AggregateSUM v)" "rq_Method g = ''GET''"
    and "api_update jd etext now m r = (m', resp)"
  shows "mg_wf m' \<and> counted m' = counted m + (if rs_Status resp = 202 then unat n else 0) \<and>
    (rs_Status resp \<noteq> 202 \<longrightarrow> same_state m m') \<and>
    api_sum etext m' g =
      (if counted m' < 2 ^ 64 then respondJSON 200 (Some (JObj [(''value'', JNum (show_dec (int (counted m'))))]))
       else respondError 500 (etext SumErrOverflow))"
proof -
  obtain q where q: "ApplyLocalUpdate jd m \<lparr>lu_AggregateType = AggregateSUM, lu_Value = AnyUint64 n\<rparr> = (m', q)"
    "rs_Status resp = (case q of Inl _ \<Rightarrow> 400 | Inr _ \<Rightarrow> 202)"
    using assms(2-5,7) by (rule api_update_SUM)
  have "mg_wf m' \<and> counted m' = counted m + (if rs_Status resp = 202 then unat n else 0) \<and>
      (rs_Status resp \<noteq> 202 \<longrightarrow> same_state m m')"
    using local_sum_counted [OF assms(1,2) q(1)] q(2) by (cases q) simp_all
  with api_sum_counted [OF assms(6)] show ?thesis by blast
qed

theorem api_sum_update_witness:
  "\<exists>m' resp. api_update ex_jd (\<lambda>_. []) time_zero ex_manager
       \<lparr>rq_Method = ''POST'', rq_Path = ''/update'', rq_RawQuery = [],
        rq_Body = json_text (update_doc AggregateSUM (JStr (FormatUint64 3)))\<rparr> = (m', resp) \<and> mg_wf m' \<and>
     counted m' = counted ex_manager + (if rs_Status resp = 202 then 3 else 0)"
proof -
  let ?r = "\<lparr>rq_Method = ''POST'', rq_Path = ''/update'', rq_RawQuery = [],
        rq_Body = json_text (update_doc AggregateSUM (JStr (FormatUint64 3)))\<rparr>"
  obtain m' resp where u: "api_update ex_jd (\<lambda>_. []) time_zero ex_manager ?r = (m', resp)" by fastforce
  have f: "JStr (FormatUint64 3) \<in> set (sum_forms 3)" by (simp add: sum_forms_def)
  from api_sum_update [OF ex_manager_wf _ f, of ?r "?r\<lparr>rq_Method := ''GET''\<rparr>", OF _ _ _ _ u] u show ?thesis by auto
qed

end
