(* ===== verification/Node.thy ===== *)
theory Node
  imports App Config Bootstrap Exchange Api
begin

text \<open>
  \<open>internal/app\<close> and \<open>cmd/node\<close>: how the node is put together, stopped and started again.  Between
  the start and the end of \<open>Run\<close> the parts act concurrently; their steps are those of
  \<open>node_step\<close> for the manager and its store, \<open>runtime_step\<close> for the gossip runtime and \<open>boot_step\<close>
  for the membership.  The answers of the operating system are the fields of \<open>new_env\<close> and
  \<open>shutdown_io\<close>.
\<close>

section \<open>Logging\<close>

datatype slog_Level = LevelDebug | LevelInfo | LevelWarn | LevelError

text \<open>
  \<open>strings.ToLower\<close>, as a comparison with an ASCII word sees it: beside the ASCII letters only
  U+0130 and U+212A have an ASCII lower case.
\<close>

fun ToLower :: "string \<Rightarrow> string" where
  "ToLower [] = []"
| "ToLower (c # s) =
     (if c = CHR 0xC4 \<and> take 1 s = [CHR 0xB0] then CHR ''i'' # ToLower (drop 1 s)
      else if c = CHR 0xE2 \<and> take 2 s = [CHR 0x84, CHR 0xAA] then CHR ''k'' # ToLower (drop 2 s)
      else lower_char c # ToLower s)"

definition parseLevel :: "string \<Rightarrow> slog_Level" where
  "parseLevel level =
     (let l = ToLower (TrimSpace level)
      in if l = ''debug'' then LevelDebug
         else if l = ''warn'' \<or> l = ''warning'' then LevelWarn
         else if l = ''error'' then LevelError
         else LevelInfo)"

record Logger =
  lo_Level :: slog_Level
  lo_NodeID :: string

definition NewJSONLogger :: "string \<Rightarrow> string \<Rightarrow> Logger" where
  "NewJSONLogger nodeID level = \<lparr>lo_Level = parseLevel level, lo_NodeID = nodeID\<rparr>"

section \<open>Construction\<close>

record 's app_App =
  ap_cfg :: Config
  ap_logger :: Logger
  ap_health :: HealthHandler
  ap_bootstrapper :: Bootstrapper
  ap_runtime :: "jstore Runtime"
  ap_sender :: "'s sender"
  ap_transportClosed :: bool

text \<open>The manager is shared with the runtime, and the store with the manager, whose journal it is.\<close>

abbreviation app_manager :: "'s app_App \<Rightarrow> jstore Manager" where
  "app_manager a \<equiv> rt_manager (ap_runtime a)"

definition set_manager :: "'s app_App \<Rightarrow> jstore Manager \<Rightarrow> 's app_App" where
  "set_manager a m = a\<lparr>ap_runtime := (ap_runtime a)\<lparr>rt_manager := m\<rparr>\<rparr>"

record new_env =
  ne_open :: open_io
  ne_file :: string
  ne_mkdir :: bool
  ne_dir :: snap_dir
  ne_recover :: recover_io
  ne_append :: "nat \<Rightarrow> append_io"
  ne_sync :: bool
  ne_close :: bool
  ne_udp :: bool
  ne_now :: gotime
  ne_unixNano :: int

definition pipeConfig :: "Config \<Rightarrow> pipe_Config" where
  "pipeConfig cfg =
     \<lparr>pc_NodeID = cf_NodeID cfg, pc_TopKMax = cf_TopKMax cfg, pc_OutboundQueueSize = cf_OutboundQueue cfg\<rparr>"

definition storeConfig :: "Config \<Rightarrow> store_Config" where
  "storeConfig cfg =
     \<lparr>sc_DataDir = cf_DataDir cfg, sc_WALSyncMode = cf_WALFsyncMode cfg, sc_WALBatchSize = cf_WALFsyncBatch cfg\<rparr>"

definition runtimeConfig :: "Config \<Rightarrow> runtime_Config" where
  "runtimeConfig cfg =
     \<lparr>rc_NodeID = cf_NodeID cfg, rc_SelfEndpoint = cf_BindAddr cfg, rc_Peers = SeedNodeList cfg, rc_Fanout = cf_Fanout cfg,
      rc_SendTimeout = 2 * 1000000000, rc_AntiEntropyInterval = AntiEntropyIntervalDuration cfg,
      rc_DeltaHistorySize = cf_DeltaHistory cfg\<rparr>"

text \<open>
  An error comes with the store as \<open>New\<close> leaves it, once there is one.  \<open>None\<close> would be a runtime
  whose watermark loop does not end; \<open>app_New_total\<close> excludes it.
\<close>

definition app_New ::
  "'s frame_sender \<Rightarrow> 's sleeper \<Rightarrow> new_env \<Rightarrow> Config \<Rightarrow> ((go_error \<times> Store option) + 's app_App) option" where
  "app_New frames sleep env cfg =
     (case cfg_Validate cfg of
        Some e \<Rightarrow> Some (Inl (e, None))
      | None \<Rightarrow>
     (case pipe_New (pipeConfig cfg) of
        Inl e \<Rightarrow> Some (Inl (e, None))
      | Inr m \<Rightarrow>
     (case store_Open (storeConfig cfg) (ne_open env) (ne_file env) (ne_mkdir env) (ne_dir env) of
        Inl e \<Rightarrow> Some (Inl (e, None))
      | Inr s \<Rightarrow>
     (case recoverAggregation store_jd (ne_recover env) m s of
        (_, s', Some e) \<Rightarrow> Some (Inl (e, Some (fst (store_Close (ne_sync env) (ne_close env) s'))))
      | (m', s', None) \<Rightarrow>
     (let aggregation = SetJournal m' (Some \<lparr>js_store = s', js_env = ne_append env, js_count = 0\<rparr>);
          failed = (\<lambda>e. Some (Inl (e, Some (fst (store_Close (ne_sync env) (ne_close env) s')))))
      in if \<not> ne_udp env then failed IOError
         else
     (case NewEncodingSender (Some frames) (Some codec_Encode) of
        Inl e \<Rightarrow> failed e
      | Inr deltaSender \<Rightarrow>
     (case NewRetryingSender (Some deltaSender) sleep DefaultRetryConfig of
        Inl e \<Rightarrow> failed e
      | Inr retryingSender \<Rightarrow>
     (let bootstrapper = NewBootstrapper (ne_now env) (ne_unixNano env) (cf_NodeID cfg) (cf_BindAddr cfg)
            (SeedNodeList cfg) (GossipIntervalDuration cfg) (cf_Fanout cfg)
      in
     (case NewRuntime (runtimeConfig cfg) (Some aggregation) True of
        None \<Rightarrow> None
      | Some (Inl e) \<Rightarrow> failed e
      | Some (Inr deltaRuntime) \<Rightarrow>
          Some (Inr
            \<lparr>ap_cfg = cfg, ap_logger = NewJSONLogger (cf_NodeID cfg) (cf_LogLevel cfg), ap_health = NewHealthHandler,
             ap_bootstrapper = SetEnvelopeHandler bootstrapper True, ap_runtime = deltaRuntime,
             ap_sender = retryingSender, ap_transportClosed = False\<rparr>))))))))))"

section \<open>Shutdown\<close>

record shutdown_io =
  sh_server :: "go_error option"
  sh_now :: gotime
  sh_checkpoint :: checkpoint_io
  sh_sync :: bool
  sh_close :: bool

definition js_Close :: "bool \<Rightarrow> bool \<Rightarrow> jstore Manager \<Rightarrow> jstore Manager \<times> go_error option" where
  "js_Close sync_ok close_ok m =
     (case mg_journal m of
        None \<Rightarrow> (m, None)
      | Some j \<Rightarrow>
          (let (s, e) = store_Close sync_ok close_ok (js_store j) in (m\<lparr>mg_journal := Some (j\<lparr>js_store := s\<rparr>)\<rparr>, e)))"

definition app_shutdown :: "shutdown_io \<Rightarrow> 's app_App \<Rightarrow> 's app_App \<times> go_error option" where
  "app_shutdown io a =
     (let a1 = a\<lparr>ap_health := SetReady (ap_health a) False\<rparr>
      in case sh_server io of
           Some e \<Rightarrow> (a1, Some e)
         | None \<Rightarrow>
             (let a2 = a1\<lparr>ap_transportClosed := True\<rparr>
              in case snapshotRound (sh_checkpoint io) (sh_now io) (app_manager a2) of
                   (m1, Some e) \<Rightarrow> (set_manager a2 m1, Some e)
                 | (m1, None) \<Rightarrow>
                     (case js_Close (sh_sync io) (sh_close io) m1 of
                        (m2, Some e) \<Rightarrow> (set_manager a2 m2, Some e)
                      | (m2, None) \<Rightarrow> (set_manager a2 (pipe_Close m2), None))))"

section \<open>Running\<close>

text \<open>What the HTTP server returns; \<open>http.ErrServerClosed\<close> is not the application's \<open>ErrServerClosed\<close>.\<close>

datatype server_error = HttpErrServerClosed | ServerError go_error

datatype run_event = RunCancelled | RunServer server_error

datatype run_error =
    ListenerFailed go_error
  | ShutdownFailed go_error
  | ShutdownAfterClose go_error
  | RunErrServerClosed
  | ServerAndShutdownFailed go_error go_error
  | ServerFailed go_error

text \<open>The start of \<open>Run\<close>, and what it does once its context ends or the server returns.\<close>

definition runListen :: "bool \<Rightarrow> bool \<Rightarrow> go_error option \<Rightarrow> 's app_App \<Rightarrow> 's app_App \<times> run_error option" where
  "runListen sync_ok close_ok listen a =
     (case listen of
        Some e \<Rightarrow> (set_manager a (fst (js_Close sync_ok close_ok (app_manager a))), Some (ListenerFailed e))
      | None \<Rightarrow> (a, None))"

definition runEnd :: "shutdown_io \<Rightarrow> run_event \<Rightarrow> 's app_App \<Rightarrow> 's app_App \<times> run_error option" where
  "runEnd io ev a =
     (let (a', shutdownErr) = app_shutdown io a
      in (a', case ev of
                RunCancelled \<Rightarrow> map_option ShutdownFailed shutdownErr
              | RunServer HttpErrServerClosed \<Rightarrow>
                  (case shutdownErr of Some e \<Rightarrow> Some (ShutdownAfterClose e) | None \<Rightarrow> Some RunErrServerClosed)
              | RunServer (ServerError err) \<Rightarrow>
                  (case shutdownErr of
                     Some e \<Rightarrow> Some (ServerAndShutdownFailed err e)
                   | None \<Rightarrow> if ClassifyError (Some err) = ErrorRecoverable then None else Some (ServerFailed err))))"

text \<open>\<open>main\<close>, up to \<open>Run\<close>: a configuration or a construction that fails ends the process.\<close>

definition main_start ::
  "(string \<Rightarrow> string option) \<Rightarrow> (string \<Rightarrow> string) \<Rightarrow> 's frame_sender \<Rightarrow> 's sleeper \<Rightarrow> new_env \<Rightarrow> (go_error + 's app_App) option" where
  "main_start files getenv frames sleep env =
     (case LoadFromPathOrEnv files getenv (getenv ''APP_CONFIG_PATH'') of
        Inl e \<Rightarrow> Some (Inl e)
      | Inr cfg \<Rightarrow> map_option (map_sum fst id) (app_New frames sleep env cfg))"

section \<open>From one start to the next\<close>

text \<open>\<open>New\<close> returns on every disk, and its manager is the one \<open>startManager\<close> builds.\<close>

lemma app_New_cases:
  assumes "cfg_Validate cfg = None"
  shows "case startManager (pipeConfig cfg) (storeConfig cfg) (ne_open env) (ne_file env) (ne_mkdir env) (ne_dir env)
      (ne_recover env) (ne_append env) of
    Inl e \<Rightarrow> \<exists>s. app_New frames sleep env cfg = Some (Inl (e, s))
  | Inr m \<Rightarrow>
      if ne_udp env then \<exists>a. app_New frames sleep env cfg = Some (Inr a) \<and> app_manager a = m \<and> hh_ready (ap_health a) \<and>
        ap_cfg a = cfg
      else \<exists>s. app_New frames sleep env cfg = Some (Inl (IOError, s))"
proof (cases "pipe_New (pipeConfig cfg) :: go_error + jstore Manager")
  case (Inl e)
  then show ?thesis using assms by (simp add: app_New_def startManager_def)
next
  case m: (Inr m)
  show ?thesis
  proof (cases "store_Open (storeConfig cfg) (ne_open env) (ne_file env) (ne_mkdir env) (ne_dir env)")
    case (Inl e)
    then show ?thesis using assms m by (simp add: app_New_def startManager_def)
  next
    case s: (Inr s)
    obtain m' s' x where r: "recoverAggregation store_jd (ne_recover env) m s = (m', s', x)" by (metis prod_cases3)
    let ?m = "SetJournal m' (Some \<lparr>js_store = s', js_env = ne_append env, js_count = 0\<rparr>)"
    obtain rt where rt: "NewRuntime (runtimeConfig cfg) (Some ?m) True = Some (Inr rt)" "rt_manager rt = ?m"
      by (rule NewRuntime_returns)
    show ?thesis
      using assms m s r rt
      by (cases x) (simp_all add: app_New_def startManager_def NewEncodingSender_def NewRetryingSender_def NewHealthHandler_def Let_def)
  qed
qed

lemma app_New_total: "app_New frames sleep env cfg \<noteq> None"
proof (cases "cfg_Validate cfg")
  case None
  from app_New_cases [OF this, where env = env and frames = frames and sleep = sleep] show ?thesis by (auto split: sum.splits if_splits)
qed (simp add: app_New_def)

lemma app_New_manager:
  assumes "app_New frames sleep env cfg = Some (Inr a)"
  shows "startManager (pipeConfig cfg) (storeConfig cfg) (ne_open env) (ne_file env) (ne_mkdir env) (ne_dir env)
      (ne_recover env) (ne_append env) = Inr (app_manager a)" "cfg_Validate cfg = None"
proof -
  show v: "cfg_Validate cfg = None" using assms by (cases "cfg_Validate cfg") (simp_all add: app_New_def)
  from app_New_cases [OF v, where env = env and frames = frames and sleep = sleep] assms
  show "startManager (pipeConfig cfg) (storeConfig cfg) (ne_open env) (ne_file env) (ne_mkdir env) (ne_dir env)
      (ne_recover env) (ne_append env) = Inr (app_manager a)" by (auto split: sum.splits if_splits)
qed

lemma app_New_runtime:
  assumes "app_New frames sleep env cfg = Some (Inr a)" "mg_wf (app_manager a)"
  shows "rt_wf (ap_runtime a)"
proof -
  obtain m where m: "NewRuntime (runtimeConfig cfg) (Some m) True = Some (Inr (ap_runtime a))"
    using assms(1) by (auto simp: app_New_def Let_def split: option.splits sum.splits prod.splits if_splits)
  obtain r where "NewRuntime (runtimeConfig cfg) (Some m) True = Some (Inr r)" "rt_manager r = m" by (rule NewRuntime_returns)
  with m assms(2) NewRuntime_wf [of m "runtimeConfig cfg" "ap_runtime a"] show ?thesis by simp
qed

definition disk_env :: "(nat \<Rightarrow> append_io) \<Rightarrow> gotime \<Rightarrow> int \<Rightarrow> string \<Rightarrow> snap_dir \<Rightarrow> new_env" where
  "disk_env env now unixNano file dir =
     \<lparr>ne_open = all_ok, ne_file = file, ne_mkdir = True, ne_dir = dir, ne_recover = recover_ok, ne_append = env,
      ne_sync = True, ne_close = True, ne_udp = True, ne_now = now, ne_unixNano = unixNano\<rparr>"

lemma app_New_restarted:
  assumes "cfg_Validate cfg = None" "restarted (pipeConfig cfg) (storeConfig cfg) b env s = Inr m"
  obtains a where "app_New frames sleep (disk_env env now un (take b (lg_file (st_wal s))) (st_snapshots s)) cfg = Some (Inr a)"
    "app_manager a = m" "hh_ready (ap_health a)"
  using app_New_cases [OF assms(1), where env = "disk_env env now un (take b (lg_file (st_wal s))) (st_snapshots s)"
    and frames = frames and sleep = sleep] assms(2)
  by (auto simp: restarted_def disk_env_def)

lemma shutdown_done:
  assumes "app_shutdown io a = (a', None)" "mg_journal (app_manager a) = Some j"
  obtains m1 j1 where "snapshotRound (sh_checkpoint io) (sh_now io) (app_manager a) = (m1, None)" "mg_journal m1 = Some j1"
    "lg_file (st_wal (node_store (app_manager a'))) = lg_file (st_wal (js_store j1))"
    "st_snapshots (node_store (app_manager a')) = st_snapshots (js_store j1)"
    "lg_synced (st_wal (node_store (app_manager a'))) \<in> {lg_synced (st_wal (js_store j1)), length (lg_file (st_wal (js_store j1)))}"
    "mg_closed (app_manager a')" "\<not> hh_ready (ap_health a')" "ap_transportClosed a'" "st_closed (node_store (app_manager a'))"
proof -
  obtain m1 x where r: "snapshotRound (sh_checkpoint io) (sh_now io) (app_manager a) = (m1, x)" by fastforce
  then obtain j1 where j1: "mg_journal m1 = Some j1"
    using assms(2) by (auto simp: snapshotRound_def Checkpoint_def split_beta Let_def split: sum.splits)
  obtain s e where s: "store_Close (sh_sync io) (sh_close io) (js_store j1) = (s, e)" by fastforce
  then have f: "lg_file (st_wal s) = lg_file (st_wal (js_store j1))" "st_snapshots s = st_snapshots (js_store j1)" "st_closed s"
      "e = None \<Longrightarrow> lg_synced (st_wal s) \<in> {lg_synced (st_wal (js_store j1)), length (lg_file (st_wal (js_store j1)))}"
    by (auto simp: store_Close_def wal_Close_def Let_def split: if_splits)
  let ?m2 = "m1\<lparr>mg_journal := Some (j1\<lparr>js_store := s\<rparr>)\<rparr>"
  have "x = None" "e = None" "a' = set_manager (a\<lparr>ap_health := SetReady (ap_health a) False, ap_transportClosed := True\<rparr>) (pipe_Close ?m2)"
    using assms(1) r j1 s by (auto simp: app_shutdown_def js_Close_def Let_def split: option.splits)
  with r j1 f show ?thesis
    by (intro that [of m1 j1]) (simp_all add: set_manager_def node_store_def pipe_Close_def SetReady_def)
qed

lemma graceful_value:
  assumes "node_inv pc (app_manager a)" "clock_ok (sh_now io)" "clock_ok (si_now (ci_save (sh_checkpoint io)))"
    and "app_shutdown io a = (a', None)" "lg_synced (st_wal (node_store (app_manager a'))) \<le> b" "env_ok env"
    and "pipe_New pc = Inr (m0 :: jstore Manager)" "syncMode (sc_WALSyncMode sc) = Some SyncAlways"
  obtains n where "restarted pc sc b env (node_store (app_manager a')) = Inr n" "node_inv pc n"
    "mg_val n = mg_val (app_manager a)"
proof -
  let ?m = "app_manager a"
  obtain j where j: "store_journal.covered ?m j" "mg_nodeID ?m = pc_NodeID pc" "kmax ?m = pc_TopKMax pc"
    using assms(1) by (auto simp: node_inv_def)
  then have J: "mg_journal ?m = Some j" by (simp add: store_journal.covered_def)
  obtain m1 j1 where m1: "snapshotRound (sh_checkpoint io) (sh_now io) ?m = (m1, None)" "mg_journal m1 = Some j1"
    "lg_file (st_wal (node_store (app_manager a'))) = lg_file (st_wal (js_store j1))"
    "st_snapshots (node_store (app_manager a')) = st_snapshots (js_store j1)"
    "lg_synced (st_wal (node_store (app_manager a'))) \<in> {lg_synced (st_wal (js_store j1)), length (lg_file (st_wal (js_store j1)))}"
    using assms(4) J by (rule shutdown_done)
  have s: "m1 = ?m\<lparr>mg_journal := Some j1\<rparr>" "store_journal.covered m1 j1" "store_settled j1" "store_dval (kmax ?m) j1 = mg_val ?m"
    using snapshotRound_ok [OF j(1) assms(2,3) m1(1)] m1(2) by auto
  then have v: "mg_val m1 = mg_val ?m" "kmax m1 = kmax ?m" "mg_nodeID m1 = mg_nodeID ?m"
    by (simp_all add: mg_val_def)
  have i: "node_inv pc m1" "node_settled m1"
    using s j v m1(2) by (auto simp: node_inv_def node_settled_def)
  let ?b = "max b (lg_synced (st_wal (node_store m1)))"
  have n1: "node_store m1 = js_store j1" using m1(2) by (simp add: node_store_def)
  have "take b (lg_file (st_wal (js_store j1))) = take ?b (lg_file (st_wal (js_store j1)))"
    using m1(5) assms(5) n1 by (auto simp: max_def)
  then have r: "restarted pc sc b env (node_store (app_manager a')) = restarted pc sc ?b env (node_store m1)"
    using m1(3,4) n1 by (simp add: restarted_def)
  obtain n where "restarted pc sc ?b env (node_store m1) = Inr n" "node_inv pc n" "mg_val n = mg_val m1"
    by (rule restarted_grows [OF i(1) max.cobounded2 assms(6-8)]) (use i(2) in blast)
  with r v(1) show ?thesis by (intro that [of n]) simp_all
qed


text \<open>\<open>Run\<close> reports success only after a clean shutdown that its context, or the application's own error, asked for.\<close>

lemma runEnd_clean:
  "snd (runEnd io ev a) = None \<longleftrightarrow>
     snd (app_shutdown io a) = None \<and> (ev = RunCancelled \<or> ev = RunServer (ServerError ErrServerClosed))"
  by (auto simp: runEnd_def ClassifyError_def split_beta Let_def split: run_event.splits server_error.splits option.splits)

text \<open>A shutdown in which nothing fails succeeds.\<close>

definition faultless :: "checkpoint_io \<Rightarrow> bool" where
  "faultless io \<longleftrightarrow> ci_sync io \<and> si_create (ci_save io) \<and> si_chmod (ci_save io) \<and> si_write (ci_save io) = None \<and>
     si_sync (ci_save io) \<and> si_close (ci_save io) \<and> si_rename (ci_save io)"

lemma SaveCheckpoint_succeeds:
  assumes "store_inv n k s rs c" "ckpt_text st" "clock_ok (si_now (ci_save io))" "faultless io"
  obtains s' where "SaveCheckpoint io s st = (s', None)" "\<not> st_closed s'" "\<not> lg_closed (st_wal s')"
proof -
  obtain j where j: "enc_SnapshotResp st = Some j" "json_ok 1 j" using assms(2) by (auto simp: ckpt_text_def snap_text_def split: option.splits)
  have o: "\<not> st_closed s" "\<not> lg_closed (st_wal s)" using assms(1) by (simp_all add: store_inv_def)
  obtain l where l: "wal_Sync (ci_sync io) (st_wal s) = (l, None)" "\<not> lg_closed l"
    using o assms(4) by (simp add: wal_Sync_def syncLocked_def faultless_def)
  obtain raw where "snap_marshal \<lparr>sf_Metadata = newMetadata (ci_save io) (LastIndex l) (json_text j), sf_Payload = json_text j\<rparr> = Some raw"
    using file_ok_marshal [OF newMetadata_ok [OF j(2) assms(3)]] .
  moreover have "json_text j \<noteq> []" using text_head [OF j(2)] by (simp add: value_head_def)
  ultimately obtain d m where "snap_Save (ci_save io) (st_snapshots s) (LastIndex l) (json_text j) = (d, Inr m)"
    using assms(4) unfolding snap_Save_def Let_def faultless_def by simp
  with j(1) o l that show ?thesis by (simp add: SaveCheckpoint_def)
qed

lemma shutdown_succeeds:
  assumes "node_inv pc (app_manager a)" "clock_ok (sh_now io)" "clock_ok (si_now (ci_save (sh_checkpoint io)))"
    and "sh_server io = None" "faultless (sh_checkpoint io)" "sh_sync io" "sh_close io"
  obtains a' where "app_shutdown io a = (a', None)"
proof -
  let ?m = "app_manager a"
  obtain j rs c where j: "store_journal.covered ?m j" "mg_journal ?m = Some j" "node_store ?m = js_store j"
    "store_inv (pc_NodeID pc) (pc_TopKMax pc) (node_store ?m) rs c" "env_ok (js_env j)"
    "mg_wf ?m" "kmax ?m = pc_TopKMax pc" "mg_nodeID ?m = pc_NodeID pc" "node_room ?m = store_room j"
    using assms(1) by (rule node_inv_store)
  then have t: "mg_text ?m" by (simp add: store_journal.covered_def)
  obtain st where st: "snapshotLocked (sh_now io) ?m [AggregateSUM, AggregateTOPK] = Inr st" using snapshot_full [OF j(6)] by metis
  obtain s' where s': "SaveCheckpoint (sh_checkpoint io) (js_store j) st = (s', None)" "\<not> st_closed s'" "\<not> lg_closed (st_wal s')"
    using j(4) checkpoint_text(2) [OF j(6) t assms(2) st] assms(3,5) unfolding j(3) by (rule SaveCheckpoint_succeeds)
  then have "snapshotRound (sh_checkpoint io) (sh_now io) ?m = (?m\<lparr>mg_journal := Some (j\<lparr>js_store := s'\<rparr>)\<rparr>, None)"
    using j(2) st by (simp add: snapshotRound_def Checkpoint_def js_save_def)
  with assms(4,6,7) s'(2,3) that show ?thesis
    by (simp add: app_shutdown_def js_Close_def store_Close_def wal_Close_def Let_def)
qed

lemma first_room:
  assumes "startManager pc sc all_ok [] True [] recover_ok env = Inr m" "syncMode (sc_WALSyncMode sc) = Some SyncAlways"
  shows "node_room m"
proof -
  obtain m0 :: "jstore Manager" where m0: "pipe_New pc = Inr m0" using assms(1) by (auto simp: startManager_def split: sum.splits)
  obtain l where l: "store_Open sc all_ok (wal_lines [] @ []) True [] = Inr \<lparr>st_wal = l, st_snapshots = [], st_closed = False\<rparr>"
    "log_inv l []" "\<not> lg_closed l" "lg_mode l = SyncAlways" "lg_synced l = length (lg_file l)"
    by (rule store_Open_lines [of "[]" "[]" sc SyncAlways "[]"]) (use assms(2) in auto)
  obtain m1 s1 where "recoverAggregation store_jd recover_ok m0 \<lparr>st_wal = l, st_snapshots = [], st_closed = False\<rparr> = (m1, s1, None)"
    and m: "m = SetJournal m1 (Some \<lparr>js_store = s1, js_env = env, js_count = 0\<rparr>)"
    using assms(1) m0 l(1) by (auto simp: startManager_def split: prod.splits option.splits)
  then have "LastIndex (st_wal s1) = LastIndex l"
    by (auto simp: recoverAggregation_def store_Recover_def RecordsAfter_def wal_Sync_def syncLocked_def LastIndex_def Let_def
        split: prod.splits sum.splits option.splits if_splits)
  moreover have "LastIndex l = 0" using l(2) by (simp add: log_inv_def LastIndex_def)
  ultimately show ?thesis by (simp add: node_room_def node_store_def m SetJournal_def)
qed

lemma app_New_first:
  assumes "cfg_Validate cfg = None" "ValidNodeID (cf_NodeID cfg)" "cf_WALFsyncMode cfg = ''always''" "env_ok env"
  obtains a where "app_New frames sleep (disk_env env now un [] []) cfg = Some (Inr a)"
    "node_inv (pipeConfig cfg) (app_manager a)" "node_room (app_manager a)"
proof -
  have "0 < cf_TopKMax cfg" "0 < cf_OutboundQueue cfg" using assms(1) by (auto simp: cfg_Validate_def split: if_splits)
  then obtain m0 :: "jstore Manager" where m0: "pipe_New (pipeConfig cfg) = Inr m0"
    using assms(2) by (auto simp: pipe_New_def pipeConfig_def sum_New_def topk_New_def)
  have sc: "syncMode (sc_WALSyncMode (storeConfig cfg)) = Some SyncAlways" using assms(3) by (simp add: storeConfig_def syncMode_def)
  from first_start [OF m0 sc assms(4)] obtain m where
    m: "startManager (pipeConfig cfg) (storeConfig cfg) all_ok [] True [] recover_ok env = Inr m" "node_inv (pipeConfig cfg) m"
    by blast
  from app_New_cases [OF assms(1), where env = "disk_env env now un [] []" and frames = frames and sleep = sleep] m(1)
  obtain a where "app_New frames sleep (disk_env env now un [] []) cfg = Some (Inr a)" "app_manager a = m"
    by (auto simp: disk_env_def)
  with m that first_room [OF m(1) sc] show ?thesis by simp
qed

definition ex_shutdown :: shutdown_io where
  "ex_shutdown = \<lparr>sh_server = None, sh_now = ai_now ex_io, sh_checkpoint = \<lparr>ci_sync = True, ci_save = ex_save\<rparr>,
     sh_sync = True, sh_close = True\<rparr>"

definition ex_frames :: "unit frame_sender" where "ex_frames s peer frame = (s, None)"

definition ex_sleep :: "unit sleeper" where "ex_sleep s d = (s, None)"

lemma ex_app:
  obtains a where "app_New ex_frames ex_sleep (disk_env (\<lambda>_. ex_io) (ai_now ex_io) 0 [] []) defaultConfig = Some (Inr a)"
    "node_inv (pipeConfig defaultConfig) (app_manager a)" "node_room (app_manager a)"
proof -
  have "cfg_Validate defaultConfig = None" "ValidNodeID (cf_NodeID defaultConfig)" by code_simp+
  moreover have "env_ok (\<lambda>_. ex_io)" using ex_io_clock by (simp add: env_ok_def ex_io_def)
  ultimately show ?thesis using that by (auto simp: defaultConfig_def elim!: app_New_first)
qed


text \<open>
  C13. From one start to the next: start a node with the always-sync mode on an empty disk, let any
  run of \<open>node_step\<close> happen to its manager, with seeks and syncs failing and crashes at any time, and
  shut it down.  When the shutdown reports no error, the node answers that it is not ready and its queue and
  store are closed, and the next \<open>New\<close> on the disk it left, whatever unsynced bytes of the log are
  lost, builds a ready node with exactly the aggregates the first one held: nothing is lost, and
  nothing comes back that a failed append had left in the log.
\<close>

theorem app_lifecycle:
  assumes "app_New frames sleep (disk_env env now un [] []) cfg = Some (Inr a0)" "cf_WALFsyncMode cfg = ''always''" "env_ok env"
    and "node_run (pipeConfig cfg) (storeConfig cfg) env_ok (app_manager a0) (app_manager a)"
    and "clock_ok (sh_now io)" "clock_ok (si_now (ci_save (sh_checkpoint io)))" "app_shutdown io a = (a', None)"
    and "lg_synced (st_wal (node_store (app_manager a'))) \<le> b" "env_ok env'"
  shows "\<exists>a1. app_New frames sleep (disk_env env' now' un' (take b (lg_file (st_wal (node_store (app_manager a')))))
        (st_snapshots (node_store (app_manager a')))) cfg = Some (Inr a1) \<and>
      mg_val (app_manager a1) = mg_val (app_manager a) \<and> mg_wf (app_manager a1) \<and> rt_wf (ap_runtime a1) \<and>
      readyz (ap_health a') = respondJSON 503 (Some (JObj [(''status'', JStr ''not_ready'')])) \<and>
      readyz (ap_health a1) = respondJSON 200 (Some (JObj [(''status'', JStr ''ready'')])) \<and>
      mg_closed (app_manager a') \<and> st_closed (node_store (app_manager a'))"
proof -
  let ?pc = "pipeConfig cfg" and ?sc = "storeConfig cfg"
  have v: "cfg_Validate cfg = None" and st: "startManager ?pc ?sc all_ok [] True [] recover_ok env = Inr (app_manager a0)"
    using app_New_manager [OF assms(1)] by (simp_all add: disk_env_def)
  obtain m0 :: "jstore Manager" where m0: "pipe_New ?pc = Inr m0" using st by (auto simp: startManager_def split: sum.splits)
  have sc: "syncMode (sc_WALSyncMode ?sc) = Some SyncAlways" using assms(2) by (simp add: storeConfig_def syncMode_def)
  have "node_inv ?pc (app_manager a0)" using first_start [OF m0 sc assms(3)] st by auto
  then have i: "node_inv ?pc (app_manager a)" using node_run_inv [OF assms(4) _ _ m0 sc] by blast
  obtain n where n: "restarted ?pc ?sc b env' (node_store (app_manager a')) = Inr n" "node_inv ?pc n"
    "mg_val n = mg_val (app_manager a)"
    using i assms(5-9) m0 sc by (rule graceful_value)
  obtain a1 where a1: "app_New frames sleep (disk_env env' now' un' (take b (lg_file (st_wal (node_store (app_manager a')))))
        (st_snapshots (node_store (app_manager a')))) cfg = Some (Inr a1)" "app_manager a1 = n" "hh_ready (ap_health a1)"
    using v n(1) by (rule app_New_restarted)
  have w: "mg_wf n" using n(2) by (auto elim!: node_inv_covered)
  obtain j where "mg_journal (app_manager a) = Some j" using i by (auto simp: node_inv_def store_journal.covered_def)
  from shutdown_done [OF assms(7) this] have "\<not> hh_ready (ap_health a')" "mg_closed (app_manager a')"
    "st_closed (node_store (app_manager a'))" by blast+
  with w a1 n(3) app_New_runtime [OF a1(1)] show ?thesis by (intro exI [of _ a1]) (simp add: readyz_def)
qed

theorem app_lifecycle_witness:
  "\<exists>a0 a' a1. app_New ex_frames ex_sleep (disk_env (\<lambda>_. ex_io) (ai_now ex_io) 0 [] []) defaultConfig = Some (Inr a0) \<and>
     app_shutdown ex_shutdown a0 = (a', None) \<and>
     app_New ex_frames ex_sleep (disk_env (\<lambda>_. ex_io) (ai_now ex_io) 1
       (take (lg_synced (st_wal (node_store (app_manager a')))) (lg_file (st_wal (node_store (app_manager a')))))
       (st_snapshots (node_store (app_manager a')))) defaultConfig = Some (Inr a1) \<and>
     mg_val (app_manager a1) = mg_val (app_manager a0)"
proof -
  obtain a where a: "app_New ex_frames ex_sleep (disk_env (\<lambda>_. ex_io) (ai_now ex_io) 0 [] []) defaultConfig = Some (Inr a)"
    "node_inv (pipeConfig defaultConfig) (app_manager a)" by (rule ex_app)
  have c: "clock_ok (sh_now ex_shutdown)" "clock_ok (si_now (ci_save (sh_checkpoint ex_shutdown)))"
    using ex_io_clock by (simp_all add: ex_shutdown_def ex_save_def)
  obtain a' where a': "app_shutdown ex_shutdown a = (a', None)"
    by (rule shutdown_succeeds [OF a(2) c]) (simp_all add: ex_shutdown_def faultless_def ex_save_def)
  have e: "env_ok (\<lambda>_. ex_io)" using ex_io_clock by (simp add: env_ok_def ex_io_def)
  have m: "cf_WALFsyncMode defaultConfig = ''always''" by (simp add: defaultConfig_def)
  have "node_run (pipeConfig defaultConfig) (storeConfig defaultConfig) env_ok (app_manager a) (app_manager a)"
    by (simp add: node_run_def)
  from app_lifecycle [OF a(1) m e this c a' order_refl e, where now' = "ai_now ex_io" and un' = 1] a(1) a' show ?thesis by blast
qed

end
