(* ===== verification/System.thy ===== *)
theory System
  imports Node
begin

text \<open>
  The node as one system: HTTP requests, received frames, joining, membership gossip, outbound
  deltas, anti-entropy, checkpoints, crashes and restarts, in any order.
\<close>

section \<open>Simulation\<close>

text \<open>
  A system whose steps, from states that satisfy an invariant, show on a part of the state as steps
  of a simpler system: its runs are runs of the simpler one, whose invariants it inherits.
\<close>

locale simulation =
  fixes cstep :: "'c \<Rightarrow> 'c \<Rightarrow> bool" and astep :: "'a \<Rightarrow> 'a \<Rightarrow> bool" and part :: "'c \<Rightarrow> 'a" and inv :: "'c \<Rightarrow> bool"
  assumes simulates: "cstep s s' \<Longrightarrow> inv s \<Longrightarrow> inv s' \<and> astep\<^sup>*\<^sup>* (part s) (part s')"
begin

lemma run: "cstep\<^sup>*\<^sup>* s s' \<Longrightarrow> inv s \<Longrightarrow> inv s' \<and> astep\<^sup>*\<^sup>* (part s) (part s')"
proof (induction rule: rtranclp_induct)
  case (step y z)
  then show ?case using simulates [of y z] by (meson rtranclp_trans)
qed simp

lemma inherits:
  assumes "cstep\<^sup>*\<^sup>* s s'" "inv s" "P (part s)" "\<And>a a'. P a \<Longrightarrow> astep a a' \<Longrightarrow> P a'"
  shows "P (part s')"
proof -
  have "astep\<^sup>*\<^sup>* (part s) (part s')" using run [OF assms(1,2)] by blast
  then show ?thesis by (induction rule: rtranclp_induct) (use assms(3,4) in blast)+
qed

end

section \<open>What the manager goes through\<close>

definition wal_room :: "jstore Manager \<Rightarrow> nat \<Rightarrow> bool" where
  "wal_room m k \<longleftrightarrow> unat (LastIndex (st_wal (node_store m))) + k < 2 ^ 64"

lemma wal_room_less: "wal_room m k \<Longrightarrow> i \<le> k \<Longrightarrow> wal_room m i"
  by (simp add: wal_room_def)

lemma wal_room_node: "wal_room m (Suc k) \<Longrightarrow> node_room m"
proof -
  have "unat (max_uint64 :: u64) = 2 ^ 64 - 1" by (simp add: unsigned_minus_1_eq_mask mask_eq_exp_minus_1)
  then show "wal_room m (Suc k) \<Longrightarrow> node_room m" by (auto simp: wal_room_def node_room_def)
qed

lemma node_room_wal: "node_room m \<Longrightarrow> wal_room m (Suc 0)"
proof -
  let ?i = "LastIndex (st_wal (node_store m))"
  assume "node_room m"
  then have "unat (1 + ?i) = Suc (unat ?i)" by (intro unatSuc) (metis add.commute add_eq_0_iff node_room_def)
  moreover have "unat (1 + ?i) < 2 ^ 64" by (rule order_less_le_trans [OF unsigned_less]) simp
  ultimately show ?thesis by (simp add: wal_room_def)
qed

lemma append_index:
  "LastIndex (st_wal (js_store (fst (append_mut store_jd store_js j u)))) \<in>
     {LastIndex (st_wal (js_store j)), LastIndex (st_wal (js_store j)) + 1}"
proof -
  have w: "LastIndex (fst (wal_Append io l t p)) \<in> {LastIndex l, LastIndex l + 1}" for io l t p
    by (auto simp: wal_Append_def LastIndex_def Let_def newRecord_def syncLocked_def split: option.splits)
  have a: "LastIndex (st_wal (fst (store_append io s t p))) \<in> {LastIndex (st_wal s), LastIndex (st_wal s) + 1}" for io s t p
    using w [of io "st_wal s" t p] by (simp add: store_append_def split_beta Let_def)
  show ?thesis
  proof (cases u)
    case (MutDelta d)
    then show ?thesis using a by (simp add: store_jd_def AppendDelta_def split_beta Let_def)
  next
    case (MutSnapshot s)
    then show ?thesis
      using a by (cases "enc_SnapshotResp s") (simp_all add: store_js_def AppendSnapshot_def split_beta Let_def)
  qed
qed

lemma write_ahead_room:
  assumes "mg_journal m = Some j" "write_ahead store_jd store_js m m'" "wal_room m (Suc k)"
  shows "wal_room m' k"
proof -
  let ?i = "LastIndex (st_wal (node_store m))"
  have "?i \<noteq> max_uint64" using wal_room_node [OF assms(3)] by (simp add: node_room_def)
  then have "unat (?i + 1) = unat ?i + 1" using unatSuc [of ?i] by (metis Suc_eq_plus1 add.commute add_eq_0_iff)
  moreover have "LastIndex (st_wal (node_store m')) \<in> {?i, ?i + 1}"
    using assms(1,2) append_index [of j, simplified] unfolding write_ahead_def by (fastforce simp: node_store_def)
  ultimately show ?thesis using assms(3) by (auto simp: wal_room_def)
qed

text \<open>A step of a node that has room for \<open>k\<close> more records after it.\<close>

definition node_moves :: "pipe_Config \<Rightarrow> store_Config \<Rightarrow> nat \<Rightarrow> jstore Manager \<Rightarrow> jstore Manager \<Rightarrow> bool" where
  "node_moves pc sc k m m' \<longleftrightarrow> node_run pc sc env_ok m m' \<and> node_inv pc m' \<and> wal_room m' k"

lemma write_ahead_moves:
  assumes "node_inv pc m" "wal_room m (Suc k)" "write_ahead store_jd store_js m m'"
    and "node_room m \<Longrightarrow> node_step pc sc env_ok m m'"
  shows "node_moves pc sc k m m'"
proof -
  obtain j where j: "mg_journal m = Some j" using assms(1) by (auto simp: node_inv_def store_journal.covered_def)
  have r: "node_room m" using wal_room_node [OF assms(2)] .
  then show ?thesis
    using assms(4) [OF r] node_write_ahead [OF assms(1) r assms(3)] write_ahead_room [OF j assms(3,2)]
    by (auto simp: node_moves_def node_run_def)
qed

lemma received_moves:
  assumes "node_inv pc m" "delta_fit d" "wal_room m (Suc k)" "ApplyReceivedDelta store_jd m d = (m', x)"
  shows "node_moves pc sc k m m'"
proof -
  have "mg_wf m" using assms(1) by (auto elim!: node_inv_covered)
  from write_ahead_moves [OF assms(1,3) ops_write_ahead(2) [OF this assms(2,4)] step_received [OF _ assms(2,4)]] show ?thesis .
qed

lemma snapshot_moves:
  assumes "node_inv pc m" "snap_fit s" "wal_room m (Suc k)" "ApplySnapshot store_js m s = (m', x)"
  shows "node_moves pc sc k m m'"
proof -
  have "mg_wf m" using assms(1) by (auto elim!: node_inv_covered)
  from write_ahead_moves [OF assms(1,3) ops_write_ahead(3) [OF this assms(2,4)] step_snapshot [OF _ assms(2,4)]] show ?thesis .
qed

lemma local_moves:
  assumes "node_inv pc m" "local_text m (lu_Value u)" "wal_room m (Suc k)" "ApplyLocalUpdate store_jd m u = (m', x)"
  shows "node_moves pc sc k m m'"
proof -
  have "mg_wf m" using assms(1) by (auto elim!: node_inv_covered)
  from write_ahead_moves [OF assms(1,3) ops_write_ahead(1) [OF this assms(2,4)] step_local [OF _ assms(2,4)]] show ?thesis .
qed

lemma moves_refl: "node_inv pc m \<Longrightarrow> wal_room m k \<Longrightarrow> node_moves pc sc k m m"
  by (simp add: node_moves_def node_run_def)

lemma moves_trans: "node_run pc sc env_ok a b \<Longrightarrow> node_moves pc sc k b c \<Longrightarrow> node_moves pc sc k a c"
  by (auto simp: node_moves_def node_run_def)

section \<open>What a message does to the manager\<close>

lemma newEnvelope_manager: "rt_manager (fst (newEnvelope env r t p)) = rt_manager r"
  by (cases p) (simp_all add: newEnvelope_def)

lemma sends_manager [simp]:
  "rt_manager (fst (broadcastDigest env r)) = rt_manager r"
  "rt_manager (fst (sendNew env r n t p)) = rt_manager r"
  "rt_manager (fst (sendSnapshot env r n w)) = rt_manager r"
  "rt_manager (fst (sendSnapshotFallback env r n d)) = rt_manager r"
proof -
  have n: "rt_manager (fst (sendNew env r n t p)) = rt_manager r" for t p
    using newEnvelope_manager [of env r t p]
    by (cases "newEnvelope env r t p"; cases "snd (newEnvelope env r t p)") (simp_all add: sendNew_def)
  then show "rt_manager (fst (sendNew env r n t p)) = rt_manager r" .
  show s: "rt_manager (fst (sendSnapshot env r n w)) = rt_manager r" for w
    using n by (simp add: sendSnapshot_def split: sum.splits)
  show "rt_manager (fst (sendSnapshotFallback env r n d)) = rt_manager r"
    using s by (simp add: sendSnapshotFallback_def Let_def split: sum.splits)
  have "rt_manager (fst (newDigestEnvelope env r)) = rt_manager r"
    by (cases "localDigest r") (simp_all add: newDigestEnvelope_def newEnvelope_manager)
  then show "rt_manager (fst (broadcastDigest env r)) = rt_manager r"
    by (cases "newDigestEnvelope env r"; cases "snd (newDigestEnvelope env r)") (simp_all add: broadcastDigest_def)
qed

lemma recordDelta_manager: "rt_recordDelta r d = Some r' \<Longrightarrow> rt_manager r' = rt_manager r"
  by (auto simp: rt_recordDelta_def split: if_splits prod.splits)

lemma outboundRound_manager:
  assumes "outboundRound env c r p = Some (r', out, stop)"
  shows "rt_manager r' = fst p"
proof (cases "snd p")
  case (Inl e)
  then show ?thesis using assms by (auto simp: outboundRound_def)
next
  case (Inr d)
  then show ?thesis
    using assms
    by (auto simp: outboundRound_def newStateDeltaEnvelope_def newEnvelope_def Let_def dest!: recordDelta_manager split: option.splits)
qed

lemma applyDeltas_moves:
  assumes "applyDeltas store_jd r ds = Some (r', b)" "node_inv pc (rt_manager r)" "list_all delta_fit ds"
    and "wal_room (rt_manager r) (length ds + k)"
  shows "node_moves pc sc k (rt_manager r) (rt_manager r')"
  using assms
proof (induction ds arbitrary: r)
  case Nil
  then show ?case by (auto intro: moves_refl)
next
  case (Cons d ds)
  obtain m x where x: "ApplyReceivedDelta store_jd (rt_manager r) d = (m, x)" by fastforce
  have m: "node_moves pc sc (length ds + k) (rt_manager r) m"
    using Cons.prems by (intro received_moves [OF _ _ _ x]) simp_all
  show ?case
  proof (cases x)
    case (Inl e)
    then show ?thesis using Cons.prems(1) x m by (auto simp: node_moves_def wal_room_def)
  next
    case (Inr adv)
    then obtain r1 where r1: "rt_recordDelta (r\<lparr>rt_manager := m\<rparr>) d = Some r1" "applyDeltas store_jd r1 ds = Some (r', b)"
      using Cons.prems(1) x by (auto split: option.splits)
    then have "rt_manager r1 = m" using recordDelta_manager by fastforce
    then have "node_moves pc sc k m (rt_manager r')"
      using Cons.IH [OF r1(2)] Cons.prems(3) m by (simp add: node_moves_def)
    with m show ?thesis using moves_trans by (auto simp: node_moves_def)
  qed
qed

text \<open>
  A message whose mutations the manager either refuses or journals.  Left out are the two kinds it
  merges without journaling them: a candidate it accepts whose score is \<open>-0\<close> or whose event time has a UTC
  year beyond 9999, and a snapshot with a valid \<open>SUM\<close> part and an invalid \<open>TOPK\<close> part; and a mutation
  it accepts that does not read back from its JSON form.  Payloads that do not decode, candidates and
  snapshots that are refused, and messages of the other types are all allowed.
\<close>

definition message_fit :: "Envelope \<Rightarrow> bool" where
  "message_fit e \<longleftrightarrow>
     (ev_Type e = ''StateDelta'' \<longrightarrow>
        (case unmarshal dec_StateDelta zero_StateDelta (ev_Payload e) of None \<Rightarrow> True | Some d \<Rightarrow> delta_fit d)) \<and>
     (ev_Type e = ''DeltaRangeResp'' \<longrightarrow>
        (case decodePayload DecodeDeltaRangeResp (ev_Payload e) of None \<Rightarrow> True | Some x \<Rightarrow> list_all delta_fit (drp_Deltas x))) \<and>
     (ev_Type e = ''SnapshotResp'' \<longrightarrow>
        (case decodePayload DecodeSnapshotResp (ev_Payload e) of None \<Rightarrow> True | Some s \<Rightarrow> snap_fit s))"

lemma message_fit_tame: "message_fit e \<Longrightarrow> message_tame e"
  by (auto simp: message_fit_def message_tame_def delta_fit_def snap_fit_def list_all_iff split: option.splits)

definition message_records :: "Envelope \<Rightarrow> nat" where
  "message_records e =
     (case decodePayload DecodeDeltaRangeResp (ev_Payload e) of None \<Rightarrow> 1 | Some x \<Rightarrow> Suc (length (drp_Deltas x)))"

lemma handleStateDelta_moves:
  assumes "handleStateDelta store_jd env r e = Some (r', out)" "message_fit e" "node_inv pc (rt_manager r)"
    and "wal_room (rt_manager r) (Suc 0)" "ev_Type e = ''StateDelta''"
  shows "node_moves pc sc 0 (rt_manager r) (rt_manager r')"
proof -
  let ?m = "rt_manager r"
  have refl: "node_moves pc sc 0 ?m ?m" using assms(3,4) by (auto intro!: moves_refl simp: wal_room_def)
  consider "rt_manager r' = ?m"
    | d where "unmarshal dec_StateDelta zero_StateDelta (ev_Payload e) = Some d"
        "rt_manager r' = fst (ApplyReceivedDelta store_jd ?m d)"
    using assms(1)
    by (auto simp: handleStateDelta_def split_beta Let_def dest!: recordDelta_manager
        split: if_splits option.splits sum.splits prod.splits)
  then show ?thesis
  proof cases
    case 2
    then have "delta_fit d" using assms(2,5) by (simp add: message_fit_def)
    from received_moves [OF assms(3) this assms(4) surjective_pairing] 2(2) show ?thesis by simp
  qed (use refl in simp)
qed

lemma handleDeltaRangeResp_moves:
  assumes "handleDeltaRangeResp store_jd env r e = Some (r', out)" "message_fit e" "node_inv pc (rt_manager r)"
    and "wal_room (rt_manager r) (message_records e)" "ev_Type e = ''DeltaRangeResp''"
  shows "node_moves pc sc 0 (rt_manager r) (rt_manager r')"
proof (cases "decodePayload DecodeDeltaRangeResp (ev_Payload e)")
  case None
  then show ?thesis using assms by (auto intro!: moves_refl simp: handleDeltaRangeResp_def wal_room_def)
next
  case (Some x)
  have H: "(case applyDeltas store_jd r (drp_Deltas x) of
      None \<Rightarrow> None | Some (r1, False) \<Rightarrow> Some (r1, []) | Some (r1, True) \<Rightarrow> Some (broadcastDigest env r1)) = Some (r', out)"
    using assms(1) by (simp only: handleDeltaRangeResp_def Some option.case)
  obtain r1 b where r1: "applyDeltas store_jd r (drp_Deltas x) = Some (r1, b)"
    using H by (cases "applyDeltas store_jd r (drp_Deltas x)") auto
  then have m: "rt_manager r' = rt_manager r1"
    using H sends_manager(1) [of env r1] by (cases b) auto
  have "list_all delta_fit (drp_Deltas x)" using assms(2,5) Some by (simp add: message_fit_def)
  moreover have "wal_room (rt_manager r) (length (drp_Deltas x) + 0)"
    using assms(4) Some by (simp add: message_records_def wal_room_def)
  ultimately show ?thesis unfolding m using applyDeltas_moves [OF r1 assms(3)] by blast
qed

lemma handleSnapshotResp_moves:
  assumes "handleSnapshotResp store_js env r e = Some (r', out)" "message_fit e" "node_inv pc (rt_manager r)"
    and "wal_room (rt_manager r) (Suc 0)" "ev_Type e = ''SnapshotResp''"
  shows "node_moves pc sc 0 (rt_manager r) (rt_manager r')"
proof (cases "decodePayload DecodeSnapshotResp (ev_Payload e)")
  case None
  then show ?thesis using assms by (auto intro!: moves_refl simp: handleSnapshotResp_def wal_room_def)
next
  case (Some s)
  then have "snap_fit s" using assms(2,5) by (simp add: message_fit_def)
  moreover obtain m x where m: "ApplySnapshot store_js (rt_manager r) s = (m, x)" by fastforce
  moreover have "rt_manager r' = m"
  proof (cases x)
    case (Inl y)
    then show ?thesis using assms(1) Some m by (simp add: handleSnapshotResp_def) auto
  next
    case (Inr adv)
    then obtain h where "(if adv then broadcastDigest env (r\<lparr>rt_manager := m, rt_history := h\<rparr>)
        else (r\<lparr>rt_manager := m, rt_history := h\<rparr>, [])) = (r', out)"
      using assms(1) Some m by (auto simp: handleSnapshotResp_def Let_def split: option.splits)
    then show ?thesis
      using sends_manager(1) [of env "r\<lparr>rt_manager := m, rt_history := h\<rparr>"] by (cases adv) auto
  qed
  ultimately show ?thesis using snapshot_moves [OF assms(3) _ assms(4)] by blast
qed

lemma HandleEnvelope_moves:
  assumes "HandleEnvelope store_jd store_js env r e = Some (r', out)" "message_fit e" "node_inv pc (rt_manager r)"
    and "wal_room (rt_manager r) (message_records e)"
  shows "node_moves pc sc 0 (rt_manager r) (rt_manager r')"
proof -
  have one: "wal_room (rt_manager r) (Suc 0)" using assms(4) by (auto simp: message_records_def wal_room_def split: option.splits)
  have same: ?thesis if "rt_manager r' = rt_manager r" using that assms(3) one by (auto intro!: moves_refl simp: wal_room_def)
  have quiet: "rt_manager (fst (handleStateDigest env r e)) = rt_manager r"
    "rt_manager (fst (handleDeltaRangeReq env r e)) = rt_manager r" "rt_manager (fst (handleSnapshotReq env r e)) = rt_manager r"
    by (simp_all add: handleStateDigest_def handleDeltaRangeReq_def handleSnapshotReq_def Let_def split: option.splits sum.splits)
  show ?thesis
    using assms(1) quiet same handleStateDelta_moves [OF _ assms(2,3) one] handleDeltaRangeResp_moves [OF _ assms(2-4)]
      handleSnapshotResp_moves [OF _ assms(2,3) one]
    by (auto simp: HandleEnvelope_def split: if_splits)
qed

section \<open>The steps of a node\<close>

text \<open>The runtime takes its peers from the bootstrapper's table.\<close>

definition node_env :: "'s app_App \<Rightarrow> runtime_env \<Rightarrow> bool" where
  "node_env a env \<longleftrightarrow> shuffles env \<and> re_provider env = Some (bt_AlivePeerEndpoints (ap_bootstrapper a))"

text \<open>
  A request whose candidate, when the manager would accept it, can be serialized: its score is not
  \<open>-0\<close>, its event time has a UTC year up to 9999, and its delta reads back from its JSON form.
  Requests that do not decode, increments and refused candidates are all allowed.
\<close>

definition request_fit :: "gotime \<Rightarrow> jstore Manager \<Rightarrow> http_request \<Rightarrow> bool" where
  "request_fit now m rq \<longleftrightarrow>
     (case decodeUpdateRequest (rq_Body rq) of
        None \<Rightarrow> True
      | Some req \<Rightarrow> (case decodeUpdateValue now req of Inl _ \<Rightarrow> True | Inr v \<Rightarrow> local_text m v))"

text \<open>
  One thing that happens to a node: a request served, a frame the bootstrapper answers, a frame it
  hands to the runtime, a join, a round of membership gossip, an outbound delta, an anti-entropy tick, a
  snapshot round, and a crash that keeps at least the synced bytes of the log, followed by \<open>New\<close>.
  The operations are those of the components; clocks, shuffles, cancellation and the answers of the
  operating system are free.  The guards leave out what the manager would merge without journaling it,
  \<open>request_fit\<close> and \<open>message_fit\<close>, a log of \<open>2 ^ 64\<close> records (\<open>wal_room\<close>), and, after a crash, an
  environment in which a write fails (\<open>env_ok\<close>).
\<close>

inductive app_step :: "'s frame_sender \<Rightarrow> 's sleeper \<Rightarrow> Config \<Rightarrow> 's app_App \<Rightarrow> 's app_App \<Rightarrow> bool" for frames sleep cfg where
  app_request: "request_fit now (app_manager a) rq \<Longrightarrow> wal_room (app_manager a) (Suc 0) \<Longrightarrow>
    api_serve store_jd etext now (ap_health a) (MembersSnapshot (ap_bootstrapper a)) (app_manager a) rq = (m, resp) \<Longrightarrow>
    app_step frames sleep cfg a (set_manager a m)"
| app_frame: "listenerTurn benv c (ap_bootstrapper a) res = (b, outs, stop) \<Longrightarrow> \<forall>e. Dispatched e \<notin> set outs \<Longrightarrow>
    app_step frames sleep cfg a (a\<lparr>ap_bootstrapper := b\<rparr>)"
| app_message: "listenerTurn benv c (ap_bootstrapper a) res = (b, outs, stop) \<Longrightarrow> Dispatched e \<in> set outs \<Longrightarrow>
    node_env a env \<Longrightarrow> message_fit e \<Longrightarrow> wal_room (app_manager a) (message_records e) \<Longrightarrow>
    HandleEnvelope store_jd store_js env (ap_runtime a) e = Some (r, sent) \<Longrightarrow>
    app_step frames sleep cfg a (a\<lparr>ap_bootstrapper := b, ap_runtime := r\<rparr>)"
| app_join: "app_step frames sleep cfg a (a\<lparr>ap_bootstrapper := JoinSeeds jio (ap_bootstrapper a)\<rparr>)"
| app_gossip: "gossipTurn c sh gio now (ap_bootstrapper a) = (b, stop) \<Longrightarrow> app_step frames sleep cfg a (a\<lparr>ap_bootstrapper := b\<rparr>)"
| app_outbound: "node_env a env \<Longrightarrow> NextOutbound c (app_manager a) m res \<Longrightarrow>
    outboundRound env c (ap_runtime a) (m, res) = Some (r, sent, stop) \<Longrightarrow> app_step frames sleep cfg a (a\<lparr>ap_runtime := r\<rparr>)"
| app_tick: "node_env a env \<Longrightarrow> antiEntropyTick env c (ap_runtime a) = (r, sent, stop) \<Longrightarrow>
    app_step frames sleep cfg a (a\<lparr>ap_runtime := r\<rparr>)"
| app_checkpoint: "clock_ok now \<Longrightarrow> clock_ok (si_now (ci_save io)) \<Longrightarrow> snapshotRound io now (app_manager a) = (m, err) \<Longrightarrow>
    app_step frames sleep cfg a (set_manager a m)"
| app_crash: "lg_synced (st_wal (node_store (app_manager a))) \<le> k \<Longrightarrow> env_ok aenv \<Longrightarrow>
    app_New frames sleep (disk_env aenv now un (take k (lg_file (st_wal (node_store (app_manager a)))))
      (st_snapshots (node_store (app_manager a)))) cfg = Some (Inr a') \<Longrightarrow>
    app_step frames sleep cfg a a'"

definition app_run :: "'s frame_sender \<Rightarrow> 's sleeper \<Rightarrow> Config \<Rightarrow> 's app_App \<Rightarrow> 's app_App \<Rightarrow> bool" where
  "app_run frames sleep cfg = (app_step frames sleep cfg)\<^sup>*\<^sup>*"

text \<open>A configuration that starts, in the mode that syncs every record.\<close>

definition config_ok :: "Config \<Rightarrow> bool" where
  "config_ok cfg \<longleftrightarrow> cfg_Validate cfg = None \<and> ValidNodeID (cf_NodeID cfg) \<and> cf_WALFsyncMode cfg = ''always''"

lemma config_ok_sync: "config_ok cfg \<Longrightarrow> syncMode (sc_WALSyncMode (storeConfig cfg)) = Some SyncAlways"
  by (simp add: config_ok_def storeConfig_def syncMode_def)

lemma config_ok_pipe:
  assumes "config_ok cfg"
  obtains m0 :: "'j Manager" where "pipe_New (pipeConfig cfg) = Inr m0"
proof -
  have "0 < cf_TopKMax cfg" "0 < cf_OutboundQueue cfg" using assms by (auto simp: config_ok_def cfg_Validate_def split: if_splits)
  then show ?thesis using assms that by (auto simp: config_ok_def pipe_New_def pipeConfig_def sum_New_def topk_New_def)
qed

definition app_inv :: "Config \<Rightarrow> 's app_App \<Rightarrow> bool" where
  "app_inv cfg a \<longleftrightarrow> config_ok cfg \<and> rt_wf (ap_runtime a) \<and> boot_wf (ap_bootstrapper a) \<and> bt_nodeID (ap_bootstrapper a) = cf_NodeID cfg \<and>
     node_inv (pipeConfig cfg) (app_manager a)"

lemma node_inv_wf: "node_inv pc m \<Longrightarrow> mg_wf m"
  by (auto elim!: node_inv_covered)

lemma set_manager_inv:
  "app_inv cfg a \<Longrightarrow> node_inv (pipeConfig cfg) m \<Longrightarrow> app_inv cfg (set_manager a m)"
  by (simp add: app_inv_def set_manager_def rt_wf_def node_inv_wf)

lemma boot_step_inv:
  assumes "app_inv cfg a" "boot_step (ap_bootstrapper a) b"
  shows "app_inv cfg (a\<lparr>ap_bootstrapper := b\<rparr>)"
proof -
  have w: "boot_wf (ap_bootstrapper a)" using assms(1) by (simp add: app_inv_def)
  note n = boot_step_next [OF assms(2) w]
  from boot_next_wf [OF w n] n assms(1) show ?thesis by (simp add: app_inv_def boot_next_def)
qed

lemma app_New_boot:
  assumes "app_New frames sleep env cfg = Some (Inr a)"
  shows "boot_wf (ap_bootstrapper a) \<and> bt_nodeID (ap_bootstrapper a) = cf_NodeID cfg"
proof -
  have "ap_bootstrapper a = SetEnvelopeHandler (NewBootstrapper (ne_now env) (ne_unixNano env) (cf_NodeID cfg) (cf_BindAddr cfg)
      (SeedNodeList cfg) (GossipIntervalDuration cfg) (cf_Fanout cfg)) True"
    using assms by (auto simp: app_New_def Let_def split: option.splits sum.splits prod.splits if_splits)
  then show ?thesis
    using NewBootstrapper_wf [of "ne_now env" "ne_unixNano env" "cf_NodeID cfg" "cf_BindAddr cfg" "SeedNodeList cfg"
        "GossipIntervalDuration cfg" "cf_Fanout cfg"]
    by (simp add: boot_wf_def SetEnvelopeHandler_def NewBootstrapper_def)
qed

lemma serve_moves:
  assumes "node_inv pc m" "request_fit now m rq" "wal_room m (Suc 0)" "api_serve store_jd etext now h mem m rq = (m', resp)"
  shows "node_moves pc sc 0 m m'"
proof -
  consider "m' = m"
    | req v x where "decodeUpdateRequest (rq_Body rq) = Some req" "decodeUpdateValue now req = Inr v"
        "ApplyLocalUpdate store_jd m \<lparr>lu_AggregateType = ur_AggregateType req, lu_Value = v\<rparr> = (m', x)"
    using assms(4) by (auto simp: api_serve_def api_update_def split: if_splits option.splits sum.splits prod.splits)
  then show ?thesis
  proof cases
    case 1
    then show ?thesis using assms(1,3) by (auto intro!: moves_refl simp: wal_room_def)
  next
    case (2 req v x)
    then have "local_text m v" using assms(2) by (simp add: request_fit_def)
    then show ?thesis using local_moves [OF assms(1) _ assms(3) 2(3)] by simp
  qed
qed

lemma app_step_ok:
  assumes "app_step frames sleep cfg a a'" "app_inv cfg a"
  shows "app_inv cfg a' \<and> node_run (pipeConfig cfg) (storeConfig cfg) env_ok (app_manager a) (app_manager a')"
proof -
  let ?pc = "pipeConfig cfg" and ?sc = "storeConfig cfg"
  have cfg: "config_ok cfg" using assms(2) by (simp add: app_inv_def)
  obtain m0 :: "jstore Manager" where m0: "pipe_New ?pc = Inr m0" using cfg by (rule config_ok_pipe)
  note keeps = node_run_inv [OF _ _ _ m0 config_ok_sync [OF cfg]]
  have inv: "node_inv ?pc (app_manager a)" and rw: "rt_wf (ap_runtime a)" using assms(2) by (simp_all add: app_inv_def)
  have set: "app_inv cfg (set_manager a m) \<and> node_run ?pc ?sc env_ok (app_manager a) (app_manager (set_manager a m))"
    if "node_inv ?pc m" "node_run ?pc ?sc env_ok (app_manager a) m" for m
    using set_manager_inv [OF assms(2) that(1)] that(2) by (simp add: set_manager_def)
  have boot: "app_inv cfg (a\<lparr>ap_bootstrapper := b\<rparr>) \<and> node_run ?pc ?sc env_ok (app_manager a) (app_manager (a\<lparr>ap_bootstrapper := b\<rparr>))"
    if "boot_step (ap_bootstrapper a) b" for b
    using boot_step_inv [OF assms(2) that] by (simp add: node_run_def)
  have same: "app_inv cfg (a\<lparr>ap_runtime := r\<rparr>) \<and> node_run ?pc ?sc env_ok (app_manager a) (app_manager (a\<lparr>ap_runtime := r\<rparr>))"
    if "rt_wf r" "node_run ?pc ?sc env_ok (app_manager a) (rt_manager r)" for r
    using that keeps [OF that(2) inv] assms(2) by (simp add: app_inv_def)
  show ?thesis
    using assms(1)
  proof cases
    case (app_request now rq etext m resp)
    from serve_moves [OF inv this(2-4)] set [of m] app_request(1) show ?thesis by (auto simp: node_moves_def)
  next
    case (app_frame benv c res b outs stop)
    with boot [OF step_listen [OF app_frame(2)]] show ?thesis by simp
  next
    case (app_message benv c res b outs stop e env r sent)
    have m: "node_moves ?pc ?sc 0 (app_manager a) (rt_manager r)" using HandleEnvelope_moves [OF app_message(7,5) inv app_message(6)] .
    have "rt_wf r"
      using HandleEnvelope_handled [OF rw, of env e store_jd store_js] app_message(4,5,7)
      message_fit_tame [OF app_message(5)]
      by (auto simp: handled_def node_env_def rt_next_def)
    with boot_step_inv [OF assms(2) step_listen [OF app_message(2)]] m app_message(1) show ?thesis
      by (auto simp: app_inv_def node_moves_def)
  next
    case (app_join jio)
    with boot [OF step_join] show ?thesis by simp
  next
    case (app_gossip c sh gio now b stop)
    with boot [OF step_gossip [OF app_gossip(2)]] show ?thesis by simp
  next
    case (app_outbound env c m res r sent stop)
    have "rt_wf r"
      using outboundRound_ok [OF rw _ app_outbound(3), of env c] app_outbound(2,4) by (auto simp: node_env_def rt_next_def)
    moreover have "rt_manager r = m" using outboundRound_manager [OF app_outbound(4)] by simp
    moreover have "node_run ?pc ?sc env_ok (app_manager a) m"
      unfolding node_run_def by (rule r_into_rtranclp) (rule node_step.step_outbound [OF app_outbound(3)])
    ultimately show ?thesis using same [of r] app_outbound(1) by simp
  next
    case (app_tick env c r sent stop)
    have "rt_wf r" "rt_manager r = app_manager a"
      using broadcastDigest_ok [OF rw, of env] sends_manager(1) [of env "ap_runtime a"] rw app_tick(2,3)
      by (auto simp: antiEntropyTick_def node_env_def rt_next_def split_beta Let_def split: if_splits)
    then show ?thesis using same [of r] app_tick(1) by (simp add: node_run_def)
  next
    case (app_checkpoint now io m err)
    have "node_step ?pc ?sc env_ok (app_manager a) m" using node_step.step_checkpoint [OF app_checkpoint(2-4)] .
    then have "node_run ?pc ?sc env_ok (app_manager a) m" by (simp add: node_run_def)
    with set [of m] keeps [OF this inv] app_checkpoint(1) show ?thesis by blast
  next
    case (app_crash k aenv now un)
    have "restarted ?pc ?sc k aenv (node_store (app_manager a)) = Inr (app_manager a')"
      using app_New_manager(1) [OF app_crash(3)] by (simp add: restarted_def disk_env_def)
    then have "node_step ?pc ?sc env_ok (app_manager a) (app_manager a')" using app_crash(1,2) by (intro node_step.step_crash)
    then have n: "node_run ?pc ?sc env_ok (app_manager a) (app_manager a')" by (simp add: node_run_def)
    then have i: "node_inv ?pc (app_manager a')" using keeps [OF n inv] by blast
    with n cfg app_New_boot [OF app_crash(3)] app_New_runtime [OF app_crash(3) node_inv_wf [OF i]] show ?thesis
      by (simp add: app_inv_def)
  qed
qed

interpretation app_sim: simulation "app_step frames sleep cfg" "node_step (pipeConfig cfg) (storeConfig cfg) env_ok"
  app_manager "app_inv cfg" for frames sleep cfg
  by unfold_locales (metis app_step_ok node_run_def)

lemma app_started:
  assumes "app_New frames sleep (disk_env env now un [] []) cfg = Some (Inr a)" "cf_WALFsyncMode cfg = ''always''" "env_ok env"
  shows "app_inv cfg a"
proof -
  have st: "startManager (pipeConfig cfg) (storeConfig cfg) all_ok [] True [] recover_ok env = Inr (app_manager a)"
    and v: "cfg_Validate cfg = None" using app_New_manager [OF assms(1)] by (simp_all add: disk_env_def)
  obtain m0 :: "jstore Manager" where m0: "pipe_New (pipeConfig cfg) = Inr m0"
    using st by (auto simp: startManager_def split: sum.splits)
  then have c: "config_ok cfg" using v assms(2) by (auto simp: config_ok_def pipe_New_def pipeConfig_def split: if_splits)
  have i: "node_inv (pipeConfig cfg) (app_manager a)" using first_start [OF m0 config_ok_sync [OF c] assms(3)] st by auto
  from c i app_New_boot [OF assms(1)] app_New_runtime [OF assms(1) node_inv_wf [OF i]] show ?thesis by (simp add: app_inv_def)
qed

lemma app_run_ok:
  assumes "app_run frames sleep cfg a b" "app_inv cfg a"
  shows "app_inv cfg b" "mg_semilattice.below (kmax (app_manager a)) (mg_val (app_manager a)) (mg_val (app_manager b))"
    "kmax (app_manager b) = kmax (app_manager a)"
proof -
  have r: "app_inv cfg b" "node_run (pipeConfig cfg) (storeConfig cfg) env_ok (app_manager a) (app_manager b)"
    using app_sim.run [OF assms(1) [unfolded app_run_def] assms(2)] by (simp_all add: node_run_def)
  show "app_inv cfg b" by (rule r(1))
  have c: "config_ok cfg" "node_inv (pipeConfig cfg) (app_manager a)" "node_inv (pipeConfig cfg) (app_manager b)"
    using assms(2) r(1) by (simp_all add: app_inv_def)
  obtain m0 :: "jstore Manager" where "pipe_New (pipeConfig cfg) = Inr m0" using c(1) by (rule config_ok_pipe)
  from node_run_inv [OF r(2) c(2) _ this config_ok_sync [OF c(1)]]
  show "mg_semilattice.below (kmax (app_manager a)) (mg_val (app_manager a)) (mg_val (app_manager b))" by blast
  show "kmax (app_manager b) = kmax (app_manager a)" using c(2,3) by (simp add: node_inv_def)
qed

lemma app_restarts:
  assumes "app_inv cfg a" "lg_synced (st_wal (node_store (app_manager a))) \<le> k" "env_ok aenv"
  obtains a' where "app_New frames sleep (disk_env aenv now un (take k (lg_file (st_wal (node_store (app_manager a)))))
      (st_snapshots (node_store (app_manager a)))) cfg = Some (Inr a')" "app_step frames sleep cfg a a'"
proof -
  have c: "config_ok cfg" "node_inv (pipeConfig cfg) (app_manager a)" using assms(1) by (simp_all add: app_inv_def)
  then have v: "cfg_Validate cfg = None" by (simp add: config_ok_def)
  obtain m0 :: "jstore Manager" where m0: "pipe_New (pipeConfig cfg) = Inr m0" using c(1) by (rule config_ok_pipe)
  obtain n where "restarted (pipeConfig cfg) (storeConfig cfg) k aenv (node_store (app_manager a)) = Inr n"
    using c(2) assms(2,3) m0 config_ok_sync [OF c(1)] by (rule restarted_grows)
  from app_New_restarted [OF v this] obtain a' where
    a': "app_New frames sleep (disk_env aenv now un (take k (lg_file (st_wal (node_store (app_manager a)))))
      (st_snapshots (node_store (app_manager a)))) cfg = Some (Inr a')" by metis
  with app_crash [OF assms(2,3) a'] that show ?thesis by blast
qed

lemma self_alive:
  assumes "boot_wf b"
  shows "e_NodeID (SelfEntry (bt_table b)) = bt_nodeID b \<and> e_Status (SelfEntry (bt_table b)) = StatusAlive"
proof -
  have t: "table_wf (bt_table b)" "tb_selfNodeID (bt_table b) = bt_nodeID b" using assms by (simp_all add: boot_wf_def)
  obtain m where "mget zero_Member (tb_members (bt_table b)) (tb_selfNodeID (bt_table b)) = m"
    "m_Status m = StatusAlive" "m_NodeID m = tb_selfNodeID (bt_table b)" using t(1) by (rule self_member)
  then show ?thesis using t(2) by (simp add: SelfEntry_def entryOf_def)
qed

text \<open>
  C12. The node as a whole: start it on an empty disk with the always-sync mode and let HTTP requests,
  received frames, joins, membership gossip, outbound deltas, anti-entropy, checkpoints, crashes and
  restarts happen in any order.  At every moment its aggregates are well formed and contain all they
  contained at any earlier moment \<open>p\<close>, it lists itself as alive, it handles any next message without an accepted candidate that
  cannot be serialized, and either broadcasts within its fanout, never to itself, or sends one answer
  to an endpoint it knows for the sender, and a crash that keeps the synced bytes of its log is
  followed by a start that succeeds and loses nothing.  The runs are those of \<open>app_step\<close>, with its guards:
  requests and messages may hold anything the manager refuses, but no accepted candidate with score \<open>-0\<close> or
  a UTC year beyond 9999, no snapshot with a valid \<open>SUM\<close> part and an invalid \<open>TOPK\<close> part (merged without
  being journaled, it would be lost), and no mutation without a JSON form; no write to the log
  fails, though seeks and syncs may, and the log stays below \<open>2 ^ 64\<close> records.
\<close>

theorem system_safe:
  assumes "app_New frames sleep (disk_env env now un [] []) cfg = Some (Inr a0)" "cf_WALFsyncMode cfg = ''always''" "env_ok env"
    and "app_run frames sleep cfg a0 p" "app_run frames sleep cfg p a" "shuffles renv" "message_tame e"
    and "lg_synced (st_wal (node_store (app_manager a))) \<le> k" "env_ok env'"
  shows "mg_wf (app_manager a) \<and>
    mg_join (kmax (app_manager a)) (mg_val (app_manager p)) (mg_val (app_manager a)) = mg_val (app_manager a) \<and>
    e_NodeID (SelfEntry (bt_table (ap_bootstrapper a))) = cf_NodeID cfg \<and>
    e_Status (SelfEntry (bt_table (ap_bootstrapper a))) = StatusAlive \<and>
    (\<exists>r out. HandleEnvelope store_jd store_js renv (ap_runtime a) e = Some (r, out) \<and> sends_ok renv (ap_runtime a) r (Some e) out) \<and>
    (\<exists>a'. app_New frames sleep (disk_env env' now' un' (take k (lg_file (st_wal (node_store (app_manager a)))))
        (st_snapshots (node_store (app_manager a)))) cfg = Some (Inr a') \<and>
      mg_join (kmax (app_manager a)) (mg_val (app_manager a)) (mg_val (app_manager a')) = mg_val (app_manager a'))"
proof -
  note r = app_run_ok [OF assms(5) app_run_ok(1) [OF assms(4) app_started [OF assms(1-3)]]]
  have w: "rt_wf (ap_runtime a)" "boot_wf (ap_bootstrapper a)" "bt_nodeID (ap_bootstrapper a) = cf_NodeID cfg"
    using r(1) by (simp_all add: app_inv_def)
  obtain a' where a': "app_New frames sleep (disk_env env' now' un' (take k (lg_file (st_wal (node_store (app_manager a)))))
        (st_snapshots (node_store (app_manager a)))) cfg = Some (Inr a')" "app_step frames sleep cfg a a'"
    using r(1) assms(8,9) by (rule app_restarts)
  have "app_run frames sleep cfg a a'" using a'(2) by (simp add: app_run_def)
  from app_run_ok(2) [OF this r(1)] have g: "mg_semilattice.below (kmax (app_manager a)) (mg_val (app_manager a)) (mg_val (app_manager a'))" .
  have "handled renv (ap_runtime a) (Some e) (HandleEnvelope store_jd store_js renv (ap_runtime a) e)"
    using HandleEnvelope_handled [OF w(1) assms(6,7)] .
  then show ?thesis
    using w(1) self_alive [OF w(2)] w(3) r(2,3) a'(1) g by (auto simp: handled_def rt_wf_def mg_semilattice.below_def)
qed

theorem system_safe_witness:
  "\<exists>a0. app_New ex_frames ex_sleep (disk_env (\<lambda>_. ex_io) (ai_now ex_io) 0 [] []) defaultConfig = Some (Inr a0) \<and>
     mg_wf (app_manager a0) \<and>
     (\<exists>r out. HandleEnvelope store_jd store_js ex_renv (ap_runtime a0) zero_Envelope = Some (r, out))"
proof -
  obtain a where a: "app_New ex_frames ex_sleep (disk_env (\<lambda>_. ex_io) (ai_now ex_io) 0 [] []) defaultConfig = Some (Inr a)"
    by (rule ex_app)
  have e: "env_ok (\<lambda>_. ex_io)" using ex_io_clock by (simp add: env_ok_def ex_io_def)
  have m: "cf_WALFsyncMode defaultConfig = ''always''" by (simp add: defaultConfig_def)
  have r: "app_run ex_frames ex_sleep defaultConfig a a" by (simp add: app_run_def)
  have "parse_json [] = None" by code_simp
  then have t: "message_tame zero_Envelope" by (simp add: message_tame_def zero_Envelope_def unmarshal_def decodePayload_def)
  from system_safe [OF a m e r r ex_renv_simps(1) t order_refl e] a show ?thesis by blast
qed

end
