(* ===== verification/Spec2Isabelle.thy ===== *)
theory Spec2Isabelle
  imports System
begin

text \<open>
  A node of the gossip aggregation system, verified.

  \<^bold>\<open>The program.\<close>  Every node keeps two replicated aggregates, a grow-only counter (\<open>SUM\<close>) and the best
  candidates seen (\<open>TOPK\<close>).  Clients change them over HTTP; a change is merged into the aggregate,
  appended to a write-ahead log, turned into a delta and queued.  The gossip runtime sends queued
  deltas to sampled peers, merges the deltas of others, and repairs gaps by exchanging digests, delta
  ranges and snapshots.  The membership layer finds the peers and judges which are alive.  Checkpoints
  bound the log, and a restart rebuilds the aggregates from the newest checkpoint and the rest of the
  log.

  \<^bold>\<open>The theories, from the bottom.\<close>

  \<^item> \<open>Prelude\<close>: 64-bit words, Go maps as association lists, shared facts.  \<open>GoStd\<close>, \<open>GoText\<close>, \<open>GoTime\<close>,
    \<open>GoFloat\<close>, \<open>Sha256\<close>: what the program uses of \<open>strings\<close>, \<open>strconv\<close>, \<open>net\<close>, \<open>filepath\<close>, \<open>time\<close>,
    \<open>math\<close> and \<open>crypto/sha256\<close>, computed on byte strings, with the round trips of decimal numbers, floats
    and RFC 3339 times.  \<open>Json\<close>, \<open>JsonText\<close>, \<open>JsonRaw\<close>, \<open>JsonValid\<close>, \<open>JsonCut\<close>:
    \<open>encoding/json\<close>, from documents down to bytes, with the theorems that what \<open>Marshal\<close> writes \<open>Unmarshal\<close>
    reads back, and that an object cut short does not parse whatever follows on its line.
  \<^item> \<open>Common\<close> (\<open>aggregation/common\<close>): constants, the node id check, and all error values of the program.
  \<^item> \<open>Crdt\<close>: the contract of a replicated value as two locales, \<open>semilattice_on\<close> and \<open>replica\<close>, and
    convergence proved once; \<open>Ranked\<close>: the reference definition of the best \<open>k\<close>.
  \<^item> \<open>Sum\<close> and \<open>TopK\<close> (\<open>aggregation/sum\<close>, \<open>aggregation/topk\<close>): every function of the two packages, their
    invariants, their interpretations of \<open>replica\<close>, exactness of update, merge, estimate and
    serialization.
  \<^item> \<open>Protocol\<close> (\<open>gossip/protocol\<close>): deltas, digests, range and snapshot messages with validation.
    \<open>AntiEntropy\<close> (\<open>gossip/anti_entropy\<close>): the bounded delta history with its watermarks, and the
    comparison of digests; its loops return, and what it serves was recorded.
  \<^item> \<open>Pipeline\<close> (\<open>aggregation/pipeline\<close>): the manager, with local updates, received deltas, snapshots,
    replay, checkpoints, digests and the outbound queue, on every branch, rollbacks included.
  \<^item> \<open>Transport\<close> (\<open>gossip/transport\<close>): envelopes, the checksummed JSON codec, frames, retries with backoff,
    the duplicate guard and the adapters.
  \<^item> \<open>Wal\<close>, \<open>SnapshotStore\<close>, \<open>Storage\<close> (\<open>storage/wal\<close>, \<open>storage/snapshot\<close>, \<open>storage\<close>): the log as the bytes of
    its file, the checkpoint directory as a map from names to contents, and the store over both, with
    crashes that keep at least the synced bytes.  \<open>Durability\<close>: the locale \<open>durable_journal\<close>, a journal that
    keeps what it acknowledges, the manager's lemmas over it, and its interpretation by the store.
  \<^item> \<open>Membership\<close> and \<open>Bootstrap\<close> (\<open>membership/table.go\<close>, \<open>membership/bootstrap.go\<close>): the member table as a
    state machine with its invariant and a \<open>replica\<close> interpretation, and the bootstrapper that joins,
    answers pings and gossips; \<open>Endpoints\<close>: comparison of host:port endpoints.
  \<^item> \<open>Runtime\<close> (\<open>gossip/delta\<close>): every handler, the outbound round, the anti-entropy tick and the choice of
    peers, as functions that return the new state and the envelopes to send; \<open>Exchange\<close>: two runtimes
    over the wire.
  \<^item> \<open>Config\<close> (\<open>config\<close>): defaults, file, environment and validation.  \<open>Api\<close> (\<open>api\<close>): the HTTP handlers, from
    the bytes of the request to the bytes of the response.  \<open>App\<close> (\<open>app\<close>): recovery, snapshot rounds and the
    durability of a node.  \<open>Node\<close> (\<open>app\<close>, \<open>cmd/node\<close>, \<open>observability/logging\<close>): construction, the two ends of
    \<open>Run\<close> and shutdown.  \<open>System\<close>: the steps of all components together as the relation \<open>app_step\<close>, the
    locale \<open>simulation\<close> and its interpretation, which shows each of them to the manager as \<open>node_step\<close>s.

  \<^bold>\<open>How the model corresponds to the code.\<close>  A struct is a record with the fields of the source, an
  operation one definition that returns the new state and the results; \<open>Inl\<close> is an error, \<open>Inr\<close> the
  others.  Definitions carry the names of the source, with a prefix where two packages use the same
  one (\<open>sum_Merge\<close>, \<open>topk_Merge\<close>, \<open>table_Merge\<close>).  A mutex makes an operation atomic, so an operation is one step;
  interleavings are the step relations \<open>node_step\<close>, \<open>runtime_step\<close>, \<open>boot_step\<close>, of the whole node
  \<open>app_step\<close>, and their reflexive transitive closures.  What the program does not decide is an argument: clocks, random shuffles, the
  order of map iteration, and every answer of the operating system, failures included.
  Error values keep the identity the code tests with \<open>errors.Is\<close>; the text that wrapping adds is not kept.

  \<^bold>\<open>What is shown.\<close>  Convergence of replicas whatever the order and repetition of messages
  (\<open>Sum\<close>, \<open>TopK\<close>, \<open>Pipeline\<close>).  Write-ahead: the value of a manager is the value its journal acknowledged
  (\<open>Durability\<close>).  Durability, within the assumptions listed below: through updates, gossip, checkpoints,
  failing syncs and crashes every start succeeds and loses nothing (\<open>App\<close>), a clean shutdown restores exactly what was held (\<open>Node\<close>), the
  node as a whole keeps the invariants of its parts in every run (\<open>System\<close>), and an increment
  acknowledged to a client is still counted after a crash (below).  Gossip: handling a message returns,
  loses nothing, and broadcasts within the fanout or answers the sender (\<open>Runtime\<close>), a delta sent is merged exactly
  once, and a digest, a request and a snapshot repair a difference (\<open>Exchange\<close>).  Membership: a table
  takes the larger of two views, a node refutes accusations, and a handshake makes two nodes list each
  other (\<open>Membership\<close>, \<open>Bootstrap\<close>).  Bounds: sums never wrap, ranges, retries and messages stay within
  their limits.  Round trips of every serialized form.  Where the code does not do what it means to, a
  theorem says what it does: a rejected merge reported as success (\<open>Pipeline\<close>), a snapshot merged
  without being journaled (\<open>Durability\<close>), a write stopped inside a record after which the log no
  longer opens (\<open>Wal\<close>), sequences that restart with the process (\<open>Transport\<close>).

  \<^bold>\<open>Bounds and fuel.\<close>  The JSON parser recurses on a fuel of twice the length of the text and two more,
  which every text it writes stays below (\<open>parse_value_text\<close>), and keeps the library's limit of 10000
  nested values.  Loops whose end is not structural return an option, \<open>None\<close> meaning that they do not
  end; \<open>Record\<close> and \<open>AdvanceWatermarks\<close> are shown to return on every reachable history, and with them every
  handler and \<open>New\<close>.

  \<^bold>\<open>What the durability theorems assume.\<close>  The always-sync mode; no write to the log that fails (\<open>env_ok\<close>;
  the theorem on partial writes shows why), while seeks and syncs may fail; clocks whose time has an RFC
  3339 form; fewer than \<open>2 ^ 64\<close> records (\<open>node_room\<close>, \<open>wal_room\<close>); and mutations that the manager either
  refuses or can journal.  The last is a guard of the step relations, \<open>local_text\<close>, \<open>delta_fit\<close> and
  \<open>snap_fit\<close> of \<open>node_step\<close> and \<open>request_fit\<close> and \<open>message_fit\<close> of \<open>app_step\<close>.  It leaves out what the code
  accepts and yet cannot restore: a candidate of score \<open>-0\<close> or with a UTC year beyond 9999, and a
  snapshot with a valid \<open>SUM\<close> part and an invalid \<open>TOPK\<close> part, whose contributions are merged and never
  journaled (\<open>half_valid\<close>, \<open>manager_write_ahead\<close>); and a mutation that does not read back from its JSON form,
  for instance by its nesting.  Candidates, deltas and snapshots that are refused are inside.  The
  runtime's theorems need less (\<open>message_tame\<close>): half-valid snapshots are handled there.

  \<^bold>\<open>Not modelled.\<close>  The theorems of \<open>Exchange\<close> and \<open>Bootstrap\<close> take the wire to be the codec: the 64 KiB
  limit of a frame is modelled with the adapters in \<open>Transport\<close> and is not part of them.  Joining the seeds and a
  gossip round are one step each, although the code waits for answers in between and frames may be
  handled meanwhile; the invariant of the bootstrapper is proved for every operation on the table.  Sockets, \<open>net/http\<close> and its routing beyond exact paths, goroutine scheduling finer than
  one operation, contexts other than as a flag that they ended, log records, signal handling and the exit
  of the process.  The tests, the scripts and the deployment files are not part of the program.
\<close>

section \<open>The system\<close>

text \<open>
  C11. What a client was told survives: start a node with the always-sync mode on an empty disk and let
  any run of \<open>app_step\<close> happen to it; post an increment to \<open>/update\<close>, in any of its three forms; let
  another run happen, crashes and failing syncs included; crash it at any point, losing any unsynced
  bytes of the log.  The next start succeeds, and the counter it recovers holds everything counted
  before the request and, when the answer was 202, the increment.  The guards of \<open>app_step\<close> apply to the
  two runs: requests and messages with anything the manager refuses, but without an accepted
  candidate of score \<open>-0\<close> or of a UTC year beyond 9999, without a snapshot that has a valid \<open>SUM\<close> part and an
  invalid \<open>TOPK\<close> part (its contributions are counted and never journaled, so a crash loses them), without a
  mutation that has no JSON form, and without a failing write to the log; and the log has room for
  the record of the increment.
\<close>

theorem acknowledged_increment_survives:
  assumes "app_New frames sleep (disk_env env clk un [] []) cfg = Some (Inr a0)" "cf_WALFsyncMode cfg = ''always''" "env_ok env"
    and "app_run frames sleep cfg a0 a" "wal_room (app_manager a) (Suc 0)"
    and "k \<noteq> 0" "v \<in> set (sum_forms k)" "rq_Method rq = ''POST''" "rq_Path rq = ''/update''"
    and "rq_Body rq = json_text (update_doc AggregateSUM v)"
    and "api_serve store_jd etext now (ap_health a) (MembersSnapshot (ap_bootstrapper a)) (app_manager a) rq = (m, resp)"
    and "app_run frames sleep cfg (set_manager a m) b" "lg_synced (st_wal (node_store (app_manager b))) \<le> n" "env_ok env'"
  shows "\<exists>a'. app_New frames sleep (disk_env env' clk' un' (take n (lg_file (st_wal (node_store (app_manager b)))))
        (st_snapshots (node_store (app_manager b)))) cfg = Some (Inr a') \<and>
      counted (app_manager a) + (if rs_Status resp = 202 then unat k else 0) \<le> counted (app_manager a')"
proof -
  have a: "app_inv cfg a" using app_run_ok(1) [OF assms(4) app_started [OF assms(1-3)]] .
  have u: "api_update store_jd etext now (app_manager a) rq = (m, resp)" using assms(9,11) by (simp add: api_serve_def)
  obtain q where q: "ApplyLocalUpdate store_jd (app_manager a) \<lparr>lu_AggregateType = AggregateSUM, lu_Value = AnyUint64 k\<rparr> = (m, q)"
    "rs_Status resp = (case q of Inl _ \<Rightarrow> 400 | Inr _ \<Rightarrow> 202)"
    using assms(6-8,10) u by (rule api_update_SUM)
  have "node_moves (pipeConfig cfg) (storeConfig cfg) 0 (app_manager a) m"
    using a assms(5) by (intro local_moves [OF _ _ _ q(1)]) (simp_all add: app_inv_def local_text_def)
  then have s: "app_inv cfg (set_manager a m)" using set_manager_inv [OF a] by (simp add: node_moves_def)
  note r = app_run_ok [OF assms(12) s]
  obtain a' where a': "app_New frames sleep (disk_env env' clk' un' (take n (lg_file (st_wal (node_store (app_manager b)))))
        (st_snapshots (node_store (app_manager b)))) cfg = Some (Inr a')" "app_step frames sleep cfg b a'"
    using r(1) assms(13,14) by (rule app_restarts)
  have "app_run frames sleep cfg (set_manager a m) a'" using assms(12) a'(2) by (simp add: app_run_def)
  note g = app_run_ok [OF this s]
  have wf: "mg_wf (app_manager a)" "mg_wf m" "mg_wf (app_manager a')"
    using a s g(1) by (auto simp: app_inv_def set_manager_def rt_wf_def)
  have "counted m = counted (app_manager a) + (if rs_Status resp = 202 then unat k else 0)"
    using local_sum_counted [OF wf(1) assms(6) q(1)] q(2) by (cases q) simp_all
  moreover have "counted m \<le> counted (app_manager a')"
    using counted_mono [OF wf(2,3)] g(2) by (simp add: mg_semilattice.below_def set_manager_def)
  ultimately show ?thesis using a'(1) by auto
qed

theorem acknowledged_increment_survives_witness:
  "\<exists>a m resp a'. app_New ex_frames ex_sleep (disk_env (\<lambda>_. ex_io) (ai_now ex_io) 0 [] []) defaultConfig = Some (Inr a) \<and>
     api_serve store_jd (\<lambda>_. []) (ai_now ex_io) (ap_health a) (MembersSnapshot (ap_bootstrapper a)) (app_manager a)
       \<lparr>rq_Method = ''POST'', rq_Path = ''/update'', rq_RawQuery = [], rq_Body = json_text (update_doc AggregateSUM (enc_uint64 3))\<rparr> =
       (m, resp) \<and>
     app_New ex_frames ex_sleep (disk_env (\<lambda>_. ex_io) (ai_now ex_io) 1
       (take (lg_synced (st_wal (node_store m))) (lg_file (st_wal (node_store m)))) (st_snapshots (node_store m))) defaultConfig =
       Some (Inr a') \<and>
     counted (app_manager a) + (if rs_Status resp = 202 then 3 else 0) \<le> counted (app_manager a')"
proof -
  obtain a where a: "app_New ex_frames ex_sleep (disk_env (\<lambda>_. ex_io) (ai_now ex_io) 0 [] []) defaultConfig = Some (Inr a)"
    "wal_room (app_manager a) (Suc 0)" by (rule ex_app) (auto simp: node_room_wal)
  let ?r = "\<lparr>rq_Method = ''POST'', rq_Path = ''/update'', rq_RawQuery = [], rq_Body = json_text (update_doc AggregateSUM (enc_uint64 3))\<rparr>"
  obtain m resp where u: "api_serve store_jd (\<lambda>_. []) (ai_now ex_io) (ap_health a) (MembersSnapshot (ap_bootstrapper a))
      (app_manager a) ?r = (m, resp)" by fastforce
  have e: "env_ok (\<lambda>_. ex_io)" using ex_io_clock by (simp add: env_ok_def ex_io_def)
  have w: "cf_WALFsyncMode defaultConfig = ''always''" by (simp add: defaultConfig_def)
  have r: "app_run ex_frames ex_sleep defaultConfig x x" for x by (simp add: app_run_def)
  have k: "(3 :: u64) \<noteq> 0" "enc_uint64 3 \<in> set (sum_forms 3)" "rq_Method ?r = ''POST''" "rq_Path ?r = ''/update''"
    "rq_Body ?r = json_text (update_doc AggregateSUM (enc_uint64 3))" by (simp_all add: sum_forms_def)
  from acknowledged_increment_survives [OF a(1) w e r a(2) k u r order_refl e, where clk' = "ai_now ex_io" and un' = 1] a(1) u
  show ?thesis by (auto simp: set_manager_def)
qed

end
